(* ===== verification/Prelude.thy ===== *)
theory Prelude
  imports Main "HOL-Library.Word" "HOL-Library.Signed_Division"
begin

text \<open>
  Shared vocabulary of the development: the result type of a kernel routine (a value, or
  the reason why the simulator stopped), its sequencing operator, the \<open>ASSERT\<close> macro of
  \<^verbatim>\<open>code/lib/debug.h\<close>, the rounding macros of \<^verbatim>\<open>code/lib/utility.h\<close>, array accesses with
  the bounds written out, and the lemmas on lists, words and results that the components
  share.
\<close>

named_theorems res_simps \<open>unfolding rules for the result type\<close>
named_theorems wf_intros \<open>preservation of the components' well-formedness predicates\<close>

section \<open>Results of kernel routines\<close>

text \<open>
  A routine of the simulator returns a value or stops:
  \<^item> \<open>AssertFailed\<close>: an \<open>ASSERT\<close> did not hold and \<open>Abort()\<close> was called;
  \<^item> \<open>Undefined\<close>: the C++ program has no defined behaviour there (an array index out of
    range, a null or dangling pointer, the use of a variable that was never assigned);
  \<^item> \<open>Halted\<close>: the machine was shut down (\<open>Interrupt::Halt\<close>, which never returns);
  \<^item> \<open>Diverges\<close>: a loop of the routine never ends.
\<close>

datatype fault = AssertFailed | Undefined | Halted | Diverges

type_synonym 'a res = "fault + 'a"

definition bindR :: "'a res \<Rightarrow> ('a \<Rightarrow> 'b res) \<Rightarrow> 'b res" where
  "bindR m k = (case m of Inl e \<Rightarrow> Inl e | Inr x \<Rightarrow> k x)"

definition ASSERT :: "bool \<Rightarrow> 'a res \<Rightarrow> 'a res" where
  "ASSERT c k = (if c then k else Inl AssertFailed)"

lemma bindR_simps [simp, res_simps]:
  "bindR (Inl e) k = Inl e"
  "bindR (Inr x) k = k x"
  by (simp_all add: bindR_def)

lemma bindR_eq_Inr [res_simps]: "bindR m k = Inr y \<longleftrightarrow> (\<exists>x. m = Inr x \<and> k x = Inr y)"
  by (cases m) auto

lemma bindR_eq_Inl [res_simps]:
  "bindR m k = Inl e \<longleftrightarrow> m = Inl e \<or> (\<exists>x. m = Inr x \<and> k x = Inl e)"
  by (cases m) auto

lemma bindR_assoc: "bindR (bindR m f) g = bindR m (\<lambda>x. bindR (f x) g)"
  by (cases m) auto

lemma bindR_cong [fundef_cong]:
  "m = m' \<Longrightarrow> (\<And>x. m' = Inr x \<Longrightarrow> k x = k' x) \<Longrightarrow> bindR m k = bindR m' k'"
  by (cases m') auto

lemma ASSERT_simps [simp, res_simps]:
  "ASSERT True k = k"
  "ASSERT False k = Inl AssertFailed"
  by (simp_all add: ASSERT_def)

lemma ASSERT_eq_Inr [res_simps]: "ASSERT c k = Inr y \<longleftrightarrow> c \<and> k = Inr y"
  by (simp add: ASSERT_def)

lemma ASSERT_holds: "c \<Longrightarrow> ASSERT c k = k"
  by (simp add: ASSERT_def)

lemma ASSERT_cong [cong]: "c = c' \<Longrightarrow> (c' \<Longrightarrow> k = k') \<Longrightarrow> ASSERT c k = ASSERT c' k'"
  by (simp add: ASSERT_def)

declare ASSERT_cong [fundef_cong]

text \<open>
  A loop that may run for ever is a \<open>partial_function (option)\<close>, where \<open>None\<close> is "does not
  return"; its caller turns that into the fault \<open>Diverges\<close>.
\<close>

definition returning :: "'a res option \<Rightarrow> 'a res" where
  "returning r = (case r of None \<Rightarrow> Inl Diverges | Some x \<Rightarrow> x)"

lemma returning_simps [simp]: "returning (Some x) = x" "returning None = Inl Diverges"
  by (simp_all add: returning_def)

section \<open>Integer division of C++\<close>

text \<open>
  The operators \<open>/\<close> and \<open>%\<close> of C++ truncate towards zero: they are \<open>sdiv\<close> and \<open>smod\<close>
  of the library. On the non-negative operands that the kernel uses they agree with
  \<open>div\<close> and \<open>mod\<close>.
\<close>

lemma sdiv_nonneg [simp]: "0 \<le> (a::int) \<Longrightarrow> 0 \<le> b \<Longrightarrow> a sdiv b = a div b"
  by (simp add: signed_divide_int_def sgn_if zdiv_int)

lemma smod_nonneg [simp]: "0 \<le> (a::int) \<Longrightarrow> 0 \<le> b \<Longrightarrow> a smod b = a mod b"
  by (cases "a = 0") (simp_all add: signed_modulo_int_def)

definition divRoundDown :: "int \<Rightarrow> int \<Rightarrow> int" where
  "divRoundDown n s = n sdiv s"

definition divRoundUp :: "int \<Rightarrow> int \<Rightarrow> int" where
  "divRoundUp n s = n sdiv s + (if n smod s > 0 then 1 else 0)"

lemma divRoundDown_nonneg: "0 \<le> n \<Longrightarrow> 0 \<le> s \<Longrightarrow> divRoundDown n s = n div s"
  by (simp add: divRoundDown_def)

lemma divRoundUp_bounds:
  assumes "0 \<le> n" and "0 < s"
  shows "n \<le> divRoundUp n s * s" and "divRoundUp n s * s < n + s"
proof -
  define q r where "q = n div s * s" and "r = n mod s"
  have eq: "n = q + r" by (simp add: q_def r_def)
  have lt: "r < s" and ge: "0 \<le> r" using assms by (simp_all add: r_def)
  have up: "divRoundUp n s * s = q + (if r > 0 then s else 0)"
    using assms by (simp add: divRoundUp_def distrib_right q_def r_def)
  show "n \<le> divRoundUp n s * s" and "divRoundUp n s * s < n + s"
    using up eq lt ge by (auto split: if_splits)
qed

lemma divRoundUp_nonneg: "0 \<le> n \<Longrightarrow> 0 < s \<Longrightarrow> 0 \<le> divRoundUp n s"
  by (simp add: divRoundUp_def pos_imp_zdiv_nonneg_iff)

lemma divRoundUp_index:
  assumes "0 \<le> i" "i < n" "0 < s"
  shows "i div s < divRoundUp n s"
proof -
  have "i div s * s \<le> i" using assms by (simp add: minus_mod_eq_div_mult [symmetric])
  also have "i < n" by fact
  also have "n \<le> divRoundUp n s * s" using assms by (intro divRoundUp_bounds) auto
  finally show ?thesis using assms by simp
qed

section \<open>Naturals as integers\<close>

lemma less_nat_iff_int [simp]: "m < nat z \<longleftrightarrow> int m < z"
  by (rule zless_nat_eq_int_zless)

lemma int_div_lt_iff: "int i div numeral k < int n \<longleftrightarrow> i div numeral k < n"
  by (metis of_nat_less_iff of_nat_numeral zdiv_int)

lemma upt_split: "i < n \<Longrightarrow> [0..<n] = [0..<i] @ i # [Suc i..<n]"
  using upt_add_eq_append [of 0 i "n - i"] upt_conv_Cons [of i n] by simp

section \<open>Arrays\<close>

text \<open>
  C++ arrays are lists of a fixed length; an access outside of them has no defined
  behaviour. The index is the C++ \<open>int\<close>.
\<close>

definition arr_get :: "'a list \<Rightarrow> int \<Rightarrow> 'a res" where
  "arr_get xs i = (if 0 \<le> i \<and> i < int (length xs) then Inr (xs ! nat i) else Inl Undefined)"

definition arr_set :: "'a list \<Rightarrow> int \<Rightarrow> 'a \<Rightarrow> 'a list res" where
  "arr_set xs i v =
     (if 0 \<le> i \<and> i < int (length xs) then Inr (xs[nat i := v]) else Inl Undefined)"

lemma arr_get_in [simp]: "0 \<le> i \<Longrightarrow> i < int (length xs) \<Longrightarrow> arr_get xs i = Inr (xs ! nat i)"
  by (simp add: arr_get_def)

lemma arr_set_in [simp]:
  "0 \<le> i \<Longrightarrow> i < int (length xs) \<Longrightarrow> arr_set xs i v = Inr (xs[nat i := v])"
  by (simp add: arr_set_def)

lemma arr_get_eq_Inr [res_simps]:
  "arr_get xs i = Inr v \<longleftrightarrow> 0 \<le> i \<and> i < int (length xs) \<and> v = xs ! nat i"
  by (auto simp: arr_get_def)

lemma arr_set_eq_Inr [res_simps]:
  "arr_set xs i v = Inr ys \<longleftrightarrow> 0 \<le> i \<and> i < int (length xs) \<and> ys = xs[nat i := v]"
  by (auto simp: arr_set_def)

section \<open>Machine words\<close>

text \<open>An \<open>int\<close> of the simulated machine is a 32-bit word; \<open>sint\<close> is its value.\<close>

lemma uint32_lt: "uint (w :: 32 word) < 4294967296" using unsigned_less [of w] by simp

lemma sint32: "sint (w :: 32 word) = (if uint w < 2147483648 then uint w else uint w - 4294967296)"
proof -
  have "sint w = (uint w + 2147483648) mod 4294967296 - 2147483648"
    by (simp add: sint_uint signed_take_bit_eq_take_bit_shift take_bit_eq_mod)
  moreover have "(uint w + 2147483648) mod 4294967296 =
      (if uint w < 2147483648 then uint w + 2147483648 else uint w - 2147483648)"
  proof (cases "uint w < 2147483648")
    case False
    have "(uint w + 2147483648) mod 4294967296 = (uint w - 2147483648 + 4294967296) mod 4294967296"
      by (simp add: add.commute)
    also have "\<dots> = uint w - 2147483648" using False uint32_lt [of w]
      by (simp only: mod_add_self2) (simp add: mod_pos_pos_trivial)
    finally show ?thesis using False by simp
  qed (simp add: mod_pos_pos_trivial)
  ultimately show ?thesis by simp
qed

lemma sint_eq_unat: "unat (w :: 32 word) < 2147483648 \<Longrightarrow> sint w = int (unat w)"
proof -
  assume "unat w < 2147483648"
  then have "int (unat w) < 2147483648" by (simp only: of_nat_less_numeral_iff)
  then show ?thesis by (simp add: sint32)
qed

lemma unat_and_mask: "unat (and (w :: 'a :: len word) (mask n)) = unat w mod 2 ^ n"
  by (metis take_bit_eq_mask take_bit_eq_mod unsigned_take_bit_eq)

end
