(* ===== verification/Machine.thy ===== *)
theory Machine
  imports Prelude
begin

unbundle bit_operations_syntax

text \<open>
  The simulated workstation as user programs see it (\<^verbatim>\<open>code/machine/machine.h\<close>,
  \<^verbatim>\<open>machine.cc\<close>, \<^verbatim>\<open>translate.h\<close>, \<^verbatim>\<open>translate.cc\<close>): registers, main memory, page
  tables and TLB, the translation of addresses, reads and writes of virtual memory, the
  trap into the kernel, and the allocation of frames in the global page table.

  Registers and addresses are 32-bit words; \<open>unat\<close> reads them unsigned and \<open>sint\<close> signed.
  The host is little endian, so that the byte swapping routines are the identity.  Page
  tables are arrays that processes share with the machine by pointer: they live in the
  field \<open>tables\<close>, under an identifier that stands for the pointer.  The handler of
  exceptions is an argument of the routines that trap; it is the kernel's
  \<open>ExceptionHandler\<close>.
\<close>

section \<open>Data\<close>

type_synonym int32 = "32 word"
type_synonym byte = "8 word"
type_synonym table_ptr = nat

definition PageSize :: nat where "PageSize = 128"
definition NumPhysPages :: nat where "NumPhysPages = 128"
definition MemorySize :: nat where "MemorySize = NumPhysPages * PageSize"
definition TLBSize :: nat where "TLBSize = 4"

lemmas page_defs = PageSize_def NumPhysPages_def MemorySize_def

datatype exception_type =
  NoException | SyscallException | PageFaultException | ReadOnlyException
| BusErrorException | AddressErrorException | OverflowException | IllegalInstrException

datatype machine_status = IdleMode | SystemMode | UserMode

abbreviation (input) StackReg :: nat where "StackReg \<equiv> 29"
abbreviation (input) RetAddrReg :: nat where "RetAddrReg \<equiv> 31"
abbreviation (input) NumGPRegs :: nat where "NumGPRegs \<equiv> 32"
abbreviation (input) HiReg :: nat where "HiReg \<equiv> 32"
abbreviation (input) LoReg :: nat where "LoReg \<equiv> 33"
abbreviation (input) PCReg :: nat where "PCReg \<equiv> 34"
abbreviation (input) NextPCReg :: nat where "NextPCReg \<equiv> 35"
abbreviation (input) PrevPCReg :: nat where "PrevPCReg \<equiv> 36"
abbreviation (input) LoadReg :: nat where "LoadReg \<equiv> 37"
abbreviation (input) LoadValueReg :: nat where "LoadValueReg \<equiv> 38"
abbreviation (input) BadVAddrReg :: nat where "BadVAddrReg \<equiv> 39"
abbreviation (input) NumTotalRegs :: nat where "NumTotalRegs \<equiv> 40"

record translation_entry =
  virtualPage :: int32
  physicalPage :: int32
  valid :: bool
  readOnly :: bool
  use :: bool
  dirty :: bool
  DiskFile :: string

record global_entry =
  VirNum :: int32
  useStamp :: int32
  RefPageTable :: "table_ptr option"

text \<open>
  The fields up to \<open>runUntilTime\<close> are those of the class; \<open>tables\<close> holds the page tables that
  are allocated, \<open>status\<close> is the field of class \<open>Interrupt\<close> that a trap switches.  Only the
  registers below \<open>NumTotalRegs\<close>, the bytes below \<open>MemorySize\<close> and the frames below
  \<open>NumPhysPages\<close> exist; the routines never look at the others.
\<close>

record machine =
  registers :: "nat \<Rightarrow> int32"
  mainMemory :: "nat \<Rightarrow> byte"
  GlobalPageTable :: "nat \<Rightarrow> global_entry"
  tlb :: "translation_entry list option"
  pageTable :: "table_ptr option"
  pageTableSize :: int32
  FileAddr :: "int32 list"
  singleStep :: bool
  runUntilTime :: int32
  tables :: "table_ptr \<rightharpoonup> translation_entry list"
  status :: machine_status

type_synonym 'a handler = "exception_type \<Rightarrow> 'a machine_scheme \<Rightarrow> 'a machine_scheme res"

text \<open>
  The constructor leaves \<open>pageTableSize\<close>, \<open>FileAddr\<close> and \<open>runUntilTime\<close> as they are in the
  memory it gets; they are arguments of the model.
\<close>

definition GlobalEntry_new :: global_entry where
  "GlobalEntry_new = \<lparr>VirNum = -1, useStamp = 0, RefPageTable = None\<rparr>"

definition Machine_new :: "bool \<Rightarrow> int32 \<Rightarrow> int32 list \<Rightarrow> int32 \<Rightarrow> machine" where
  "Machine_new debug pts fa rut =
     \<lparr>registers = (\<lambda>_. 0), mainMemory = (\<lambda>_. 0), GlobalPageTable = (\<lambda>_. GlobalEntry_new),
      tlb = None, pageTable = None, pageTableSize = pts, FileAddr = fa,
      singleStep = debug, runUntilTime = rut, tables = Map.empty, status = SystemMode\<rparr>"

section \<open>Registers and traps\<close>

definition set_reg :: "'a machine_scheme \<Rightarrow> nat \<Rightarrow> int32 \<Rightarrow> 'a machine_scheme" where
  "set_reg m r v = m\<lparr>registers := (registers m)(r := v)\<rparr>"

definition ReadRegister :: "'a machine_scheme \<Rightarrow> int \<Rightarrow> int32 res" where
  "ReadRegister m num = ASSERT (0 \<le> num \<and> num < int NumTotalRegs) (Inr (registers m (nat num)))"

definition WriteRegister :: "'a machine_scheme \<Rightarrow> int \<Rightarrow> int32 \<Rightarrow> 'a machine_scheme res" where
  "WriteRegister m num v = ASSERT (0 \<le> num \<and> num < int NumTotalRegs) (Inr (set_reg m (nat num) v))"

text \<open>\<open>registers[registers[LoadReg]]\<close> is an access outside of the array when \<open>LoadReg\<close> holds
  no register number.\<close>

definition DelayedLoad :: "'a machine_scheme \<Rightarrow> int32 \<Rightarrow> int32 \<Rightarrow> 'a machine_scheme res" where
  "DelayedLoad m nextReg nextValue =
     (let r = registers m LoadReg in
      if unat r < NumTotalRegs
      then let m = set_reg m (unat r) (registers m LoadValueReg);
               m = set_reg m LoadReg nextReg;
               m = set_reg m LoadValueReg nextValue
           in Inr (set_reg m 0 0)
      else Inl Undefined)"

definition RaiseException ::
    "'a handler \<Rightarrow> 'a machine_scheme \<Rightarrow> exception_type \<Rightarrow> int32 \<Rightarrow> 'a machine_scheme res" where
  "RaiseException h m which badVAddr =
     bindR (DelayedLoad (set_reg m BadVAddrReg badVAddr) 0 0) (\<lambda>m.
     bindR (h which (m\<lparr>status := SystemMode\<rparr>)) (\<lambda>m.
     Inr (m\<lparr>status := UserMode\<rparr>)))"

section \<open>Address translation\<close>

text \<open>A pointer to a translation entry: into a page table, or into the TLB.\<close>

datatype entry_ptr = PageEntry table_ptr nat | TlbEntry nat

definition table_get :: "'a machine_scheme \<Rightarrow> table_ptr \<Rightarrow> nat \<Rightarrow> translation_entry res" where
  "table_get m t i =
     (case tables m t of None \<Rightarrow> Inl Undefined
      | Some es \<Rightarrow> if i < length es then Inr (es ! i) else Inl Undefined)"

definition table_set ::
    "'a machine_scheme \<Rightarrow> table_ptr \<Rightarrow> nat \<Rightarrow> translation_entry \<Rightarrow> 'a machine_scheme" where
  "table_set m t i e = m\<lparr>tables := (tables m)(t := map_option (\<lambda>es. es[i := e]) (tables m t))\<rparr>"

definition set_entry ::
    "'a machine_scheme \<Rightarrow> entry_ptr \<Rightarrow> translation_entry \<Rightarrow> 'a machine_scheme" where
  "set_entry m p e =
     (case p of PageEntry t i \<Rightarrow> table_set m t i e
      | TlbEntry i \<Rightarrow> m\<lparr>tlb := map_option (\<lambda>es. es[i := e]) (tlb m)\<rparr>)"

primrec tlb_loop :: "nat list \<Rightarrow> translation_entry list \<Rightarrow> int32 \<Rightarrow> nat option res" where
  "tlb_loop [] es vpn = Inr None"
| "tlb_loop (i # is) es vpn =
     bindR (arr_get es (int i)) (\<lambda>e.
     if valid e \<and> virtualPage e = vpn then Inr (Some i) else tlb_loop is es vpn)"

text \<open>The entry for a virtual page, or the exception that says why there is none.\<close>

definition find_entry ::
    "'a machine_scheme \<Rightarrow> int32 \<Rightarrow> (exception_type + entry_ptr \<times> translation_entry) res" where
  "find_entry m vpn =
     (case tlb m of
        None \<Rightarrow>
          (case pageTable m of
             None \<Rightarrow> Inl AssertFailed
           | Some t \<Rightarrow>
               if vpn \<ge> pageTableSize m then Inr (Inl AddressErrorException)
               else bindR (table_get m t (unat vpn)) (\<lambda>e.
                 if \<not> valid e \<or> physicalPage e = -1 then Inr (Inl PageFaultException)
                 else Inr (Inr (PageEntry t (unat vpn), e))))
      | Some es \<Rightarrow>
          bindR (tlb_loop [0..<TLBSize] es vpn) (\<lambda>i.
          case i of None \<Rightarrow> Inr (Inl PageFaultException)
          | Some i \<Rightarrow> Inr (Inr (TlbEntry i, es ! i))))"

definition touch_frame :: "'a machine_scheme \<Rightarrow> nat \<Rightarrow> 'a machine_scheme" where
  "touch_frame m f =
     m\<lparr>GlobalPageTable := (GlobalPageTable m)(f := (GlobalPageTable m f)\<lparr>useStamp := useStamp (GlobalPageTable m f) + 1\<rparr>)\<rparr>"

text \<open>\<open>*physAddr\<close> is assigned only when the result is \<open>NoException\<close>.\<close>

definition Translate ::
    "'a machine_scheme \<Rightarrow> int32 \<Rightarrow> nat \<Rightarrow> bool
     \<Rightarrow> ('a machine_scheme \<times> (exception_type + int32)) res" where
  "Translate m virtAddr sz writing =
     (if sz = 4 \<and> virtAddr AND 3 \<noteq> 0 \<or> sz = 2 \<and> virtAddr AND 1 \<noteq> 0
      then Inr (m, Inl AddressErrorException)
      else ASSERT (tlb m = None \<or> pageTable m = None) (
        ASSERT (tlb m \<noteq> None \<or> pageTable m \<noteq> None) (
        let vpn = virtAddr div of_nat PageSize; offset = virtAddr mod of_nat PageSize in
        bindR (find_entry m vpn) (\<lambda>r.
        case r of Inl ex \<Rightarrow> Inr (m, Inl ex)
        | Inr (p, entry) \<Rightarrow>
            if readOnly entry \<and> writing then Inr (m, Inl ReadOnlyException)
            else let pageFrame = physicalPage entry in
            if pageFrame \<ge> of_nat NumPhysPages then Inr (m, Inl BusErrorException)
            else let m = set_entry m p
                   (entry\<lparr>use := True, dirty := (if writing then True else dirty entry)\<rparr>);
                 physAddr = pageFrame * of_nat PageSize + offset;
                 m = touch_frame m (unat physAddr div PageSize) in
            ASSERT (0 \<le> sint physAddr \<and> sint physAddr + int sz \<le> int MemorySize)
              (Inr (m, Inr physAddr))))))"

section \<open>Virtual memory\<close>

definition ShortToHost :: "16 word \<Rightarrow> 16 word" where
  "ShortToHost w = w"

definition WordToHost :: "32 word \<Rightarrow> 32 word" where
  "WordToHost w = w"

definition ShortToMachine :: "16 word \<Rightarrow> 16 word" where
  "ShortToMachine w = ShortToHost w"

definition WordToMachine :: "32 word \<Rightarrow> 32 word" where
  "WordToMachine w = WordToHost w"

text \<open>The bytes of a short and of a word in memory, the lowest first.\<close>

definition get16 :: "(nat \<Rightarrow> byte) \<Rightarrow> nat \<Rightarrow> 16 word" where
  "get16 b p = push_bit 8 (ucast (b (p + 1))) OR ucast (b p)"

definition get32 :: "(nat \<Rightarrow> byte) \<Rightarrow> nat \<Rightarrow> 32 word" where
  "get32 b p = push_bit 24 (ucast (b (p + 3))) OR push_bit 16 (ucast (b (p + 2)))
     OR push_bit 8 (ucast (b (p + 1))) OR ucast (b p)"

definition put16 :: "(nat \<Rightarrow> byte) \<Rightarrow> nat \<Rightarrow> 16 word \<Rightarrow> nat \<Rightarrow> byte" where
  "put16 b p w = b(p := ucast w, p + 1 := ucast (drop_bit 8 w))"

definition put32 :: "(nat \<Rightarrow> byte) \<Rightarrow> nat \<Rightarrow> 32 word \<Rightarrow> nat \<Rightarrow> byte" where
  "put32 b p w = b(p := ucast w, p + 1 := ucast (drop_bit 8 w),
     p + 2 := ucast (drop_bit 16 w), p + 3 := ucast (drop_bit 24 w))"

text \<open>
  A failed second translation leaves \<open>physicalAddress\<close> unassigned.  \<open>None\<close> is the result
  \<open>FALSE\<close>.
\<close>

definition access_address ::
    "'a handler \<Rightarrow> 'a machine_scheme \<Rightarrow> int32 \<Rightarrow> nat \<Rightarrow> bool
     \<Rightarrow> ('a machine_scheme \<times> nat option) res" where
  "access_address h m addr sz writing =
     bindR (Translate m addr sz writing) (\<lambda>(m, r).
     case r of
       Inr pa \<Rightarrow> Inr (m, Some (unat pa))
     | Inl ex \<Rightarrow>
         bindR (RaiseException h m ex addr) (\<lambda>m.
         if ex = PageFaultException
         then bindR (Translate m addr sz writing) (\<lambda>(m, r).
              case r of Inr pa \<Rightarrow> Inr (m, Some (unat pa)) | Inl _ \<Rightarrow> Inl Undefined)
         else Inr (m, None)))"

definition ReadMem ::
    "'a handler \<Rightarrow> 'a machine_scheme \<Rightarrow> int32 \<Rightarrow> nat \<Rightarrow> ('a machine_scheme \<times> int32 option) res" where
  "ReadMem h m addr sz =
     bindR (access_address h m addr sz False) (\<lambda>(m, pa).
     case pa of None \<Rightarrow> Inr (m, None)
     | Some p \<Rightarrow>
         if sz = 1 then Inr (m, Some (scast (mainMemory m p)))
         else if sz = 2 then Inr (m, Some (ucast (ShortToHost (get16 (mainMemory m) p))))
         else if sz = 4 then Inr (m, Some (WordToHost (get32 (mainMemory m) p)))
         else Inl AssertFailed)"

definition WriteMem ::
    "'a handler \<Rightarrow> 'a machine_scheme \<Rightarrow> int32 \<Rightarrow> nat \<Rightarrow> int32 \<Rightarrow> ('a machine_scheme \<times> bool) res" where
  "WriteMem h m addr sz value =
     bindR (access_address h m addr sz True) (\<lambda>(m, pa).
     case pa of None \<Rightarrow> Inr (m, False)
     | Some p \<Rightarrow>
         if sz = 1 then Inr (m\<lparr>mainMemory := (mainMemory m)(p := ucast (value AND 0xff))\<rparr>, True)
         else if sz = 2 then
           Inr (m\<lparr>mainMemory := put16 (mainMemory m) p (ShortToMachine (ucast (value AND 0xffff)))\<rparr>, True)
         else if sz = 4 then
           Inr (m\<lparr>mainMemory := put32 (mainMemory m) p (WordToMachine value)\<rparr>, True)
         else Inl AssertFailed)"

section \<open>Frames\<close>

primrec LRU_loop :: "nat list \<Rightarrow> 'a machine_scheme \<Rightarrow> nat \<Rightarrow> nat res" where
  "LRU_loop [] m mi = Inr mi"
| "LRU_loop (i # is) m mi =
     ASSERT (RefPageTable (GlobalPageTable m i) \<noteq> None)
       (LRU_loop is m
          (if sint (useStamp (GlobalPageTable m i)) < sint (useStamp (GlobalPageTable m mi))
           then i else mi))"

definition findFreeByLRU :: "'a machine_scheme \<Rightarrow> nat res" where
  "findFreeByLRU m = LRU_loop [0..<NumPhysPages] m 0"

primrec FreeFrame_loop ::
    "nat list \<Rightarrow> 'a machine_scheme \<Rightarrow> int32 \<Rightarrow> table_ptr option \<Rightarrow> 'a machine_scheme \<times> int32" where
  "FreeFrame_loop [] m virAddr ref = (m, -1)"
| "FreeFrame_loop (i # is) m virAddr ref =
     (if RefPageTable (GlobalPageTable m i) = None
      then (m\<lparr>GlobalPageTable := (GlobalPageTable m)
                (i := \<lparr>VirNum = virAddr, useStamp = 0, RefPageTable = ref\<rparr>)\<rparr>, of_nat i)
      else FreeFrame_loop is m virAddr ref)"

definition findFreeFrame ::
    "'a machine_scheme \<Rightarrow> int32 \<Rightarrow> table_ptr option \<Rightarrow> 'a machine_scheme \<times> int32" where
  "findFreeFrame m virAddr ref = FreeFrame_loop [0..<NumPhysPages] m virAddr ref"


section \<open>Registers\<close>

lemma set_reg_sel [simp]:
  "registers (set_reg m r v) = (registers m)(r := v)"
  "mainMemory (set_reg m r v) = mainMemory m"
  "GlobalPageTable (set_reg m r v) = GlobalPageTable m"
  "tlb (set_reg m r v) = tlb m"
  "pageTable (set_reg m r v) = pageTable m"
  "pageTableSize (set_reg m r v) = pageTableSize m"
  "tables (set_reg m r v) = tables m"
  "status (set_reg m r v) = status m"
  by (simp_all add: set_reg_def)

text \<open>Register 0 is zero and the pending load names a general register.\<close>

definition regs_wf :: "'a machine_scheme \<Rightarrow> bool" where
  "regs_wf m \<longleftrightarrow> registers m 0 = 0 \<and> unat (registers m LoadReg) < NumGPRegs"

definition delayed :: "'a machine_scheme \<Rightarrow> int32 \<Rightarrow> int32 \<Rightarrow> 'a machine_scheme" where
  "delayed m nr nv = m\<lparr>registers := (registers m)(unat (registers m LoadReg) := registers m LoadValueReg,
     LoadReg := nr, LoadValueReg := nv, 0 := 0)\<rparr>"

lemma DelayedLoad_eq: "regs_wf m \<Longrightarrow> DelayedLoad m nr nv = Inr (delayed m nr nv)"
  by (simp add: DelayedLoad_def regs_wf_def Let_def set_reg_def delayed_def)

lemma delayed_regs_wf [wf_intros]: "unat nr < NumGPRegs \<Longrightarrow> regs_wf (delayed m nr nv)"
  by (simp add: regs_wf_def delayed_def)

lemma DelayedLoad_wf [wf_intros]:
  "DelayedLoad m nr nv = Inr m' \<Longrightarrow> unat nr < NumGPRegs \<Longrightarrow> regs_wf m'"
  by (auto simp: DelayedLoad_def Let_def regs_wf_def split: if_splits)

lemma set_reg_wf [wf_intros]:
  "regs_wf m \<Longrightarrow> r \<noteq> 0 \<Longrightarrow> r \<noteq> LoadReg \<Longrightarrow> regs_wf (set_reg m r v)"
  by (simp add: regs_wf_def)

section \<open>Translation through a linear page table\<close>

text \<open>
  The configuration of the kernel: no TLB, a page table that is allocated and has at least
  \<open>pageTableSize\<close> entries \<open>es\<close>.
\<close>

definition linear :: "'a machine_scheme \<Rightarrow> translation_entry list \<Rightarrow> bool" where
  "linear m es \<longleftrightarrow> tlb m = None \<and> (\<exists>t. pageTable m = Some t \<and> tables m t = Some es)
     \<and> unat (pageTableSize m) \<le> length es"

abbreviation aligned :: "int32 \<Rightarrow> nat \<Rightarrow> bool" where
  "aligned va sz \<equiv> unat va mod sz = 0"

abbreviation page_no :: "int32 \<Rightarrow> nat" where
  "page_no va \<equiv> unat va div PageSize"

text \<open>Which exception a reference raises, \<open>NoException\<close> when it is allowed.\<close>

definition check_ref :: "'a machine_scheme \<Rightarrow> translation_entry list \<Rightarrow> int32 \<Rightarrow> nat \<Rightarrow> bool \<Rightarrow> exception_type" where
  "check_ref m es va sz writing =
     (if \<not> aligned va sz \<or> page_no va \<ge> unat (pageTableSize m) then AddressErrorException
      else let e = es ! page_no va in
      if \<not> valid e \<or> physicalPage e = -1 then PageFaultException
      else if readOnly e \<and> writing then ReadOnlyException
      else if unat (physicalPage e) \<ge> NumPhysPages then BusErrorException
      else NoException)"

definition phys :: "translation_entry list \<Rightarrow> int32 \<Rightarrow> nat" where
  "phys es va = unat (physicalPage (es ! page_no va)) * PageSize + unat va mod PageSize"

definition touched :: "'a machine_scheme \<Rightarrow> translation_entry list \<Rightarrow> int32 \<Rightarrow> bool \<Rightarrow> 'a machine_scheme" where
  "touched m es va writing =
     touch_frame (table_set m (the (pageTable m)) (page_no va)
       ((es ! page_no va)\<lparr>use := True, dirty := (writing \<or> dirty (es ! page_no va))\<rparr>))
       (unat (physicalPage (es ! page_no va)))"

lemma and_3_eq_0: "(va :: int32) AND 3 = 0 \<longleftrightarrow> unat va mod 4 = 0"
  using unat_and_mask [of va 2] by (simp add: mask_eq_exp_minus_1 flip: unat_eq_0)

lemma and_1_eq_0: "(va :: int32) AND 1 = 0 \<longleftrightarrow> unat va mod 2 = 0"
  using unat_and_mask [of va 1] by (simp flip: unat_eq_0)

lemma unat_frame_addr:
  assumes "unat (pf :: int32) < NumPhysPages" "unat (off :: int32) < PageSize"
  shows "unat (pf * of_nat PageSize + off) = unat pf * PageSize + unat off"
proof -
  have "unat (pf * of_nat PageSize) = unat pf * PageSize"
    using assms by (subst unat_mult_lem [THEN iffD1]) (auto simp: page_defs)
  with assms show ?thesis by (subst unat_add_lem [THEN iffD1]) (auto simp: page_defs)
qed

lemma aligned_room:
  assumes "sz \<in> {1, 2, 4 :: nat}" "n mod sz = 0"
  shows "n mod PageSize + sz \<le> PageSize"
proof -
  define r where "r = n mod 128"
  have "r mod sz = 0" "r < 128" using assms by (auto simp: r_def mod_mod_cancel)
  moreover from \<open>r < 128\<close> have "r mod 2 = 0 \<longrightarrow> r + 2 \<le> 128" by presburger
  moreover from \<open>r < 128\<close> have "r mod 4 = 0 \<longrightarrow> r + 4 \<le> 128" by presburger
  ultimately show ?thesis using assms(1) by (auto simp: PageSize_def r_def)
qed

lemma page_offset_less: "unat va mod PageSize < PageSize"
  by (simp add: PageSize_def)

text \<open>The translation with the page table looked up and the comparisons on numbers.\<close>

lemma Translate_steps:
  assumes t: "tlb m = None" "pageTable m = Some t" "tables m t = Some es"
    and len: "unat (pageTableSize m) \<le> length es" and sz: "sz \<in> {1, 2, 4}"
  shows "Translate m va sz w = (if \<not> aligned va sz then Inr (m, Inl AddressErrorException)
      else if page_no va \<ge> unat (pageTableSize m) then Inr (m, Inl AddressErrorException)
      else let e = es ! page_no va in
      if \<not> valid e \<or> physicalPage e = -1 then Inr (m, Inl PageFaultException)
      else if readOnly e \<and> w then Inr (m, Inl ReadOnlyException)
      else if unat (physicalPage e) \<ge> NumPhysPages then Inr (m, Inl BusErrorException)
      else let m = set_entry m (PageEntry t (page_no va)) (e\<lparr>use := True, dirty := (if w then True else dirty e)\<rparr>);
               pa = physicalPage e * of_nat PageSize + va mod of_nat PageSize;
               m = touch_frame m (unat pa div PageSize) in
           ASSERT (0 \<le> sint pa \<and> sint pa + int sz \<le> int MemorySize) (Inr (m, Inr pa)))"
proof -
  define vpn where "vpn = va div of_nat PageSize"
  have vpn: "unat vpn = page_no va" by (simp add: vpn_def unat_div PageSize_def)
  have al: "(sz = 4 \<and> va AND 3 \<noteq> 0 \<or> sz = 2 \<and> va AND 1 \<noteq> 0) \<longleftrightarrow> \<not> aligned va sz"
    using sz by (auto simp: and_3_eq_0 and_1_eq_0)
  have np: "of_nat NumPhysPages \<le> x \<longleftrightarrow> NumPhysPages \<le> unat x" for x :: int32
    by (simp add: word_le_nat_alt NumPhysPages_def)
  show ?thesis
    unfolding Translate_def al
    using t len by (simp add: find_entry_def vpn np word_le_nat_alt [of "pageTableSize m"] table_get_def Let_def
        vpn_def [symmetric])
qed

lemma check_ref_NoException:
  "check_ref m es va sz w = NoException \<longleftrightarrow>
     aligned va sz \<and> page_no va < unat (pageTableSize m) \<and> valid (es ! page_no va)
     \<and> physicalPage (es ! page_no va) \<noteq> -1 \<and> \<not> (readOnly (es ! page_no va) \<and> w)
     \<and> unat (physicalPage (es ! page_no va)) < NumPhysPages"
  by (auto simp: check_ref_def Let_def)

lemma phys_room:
  assumes "check_ref m es va sz w = NoException" "sz \<in> {1, 2, 4}"
  shows "phys es va + sz \<le> MemorySize"
proof -
  have "unat (physicalPage (es ! page_no va)) < NumPhysPages" "aligned va sz"
    using assms(1) by (auto simp: check_ref_NoException)
  moreover have "unat va mod PageSize + sz \<le> PageSize"
    using aligned_room [OF assms(2)] \<open>aligned va sz\<close> by simp
  ultimately show ?thesis by (simp add: phys_def page_defs)
qed

lemma Translate_linear:
  assumes lin: "linear m es" and sz: "sz \<in> {1, 2, 4}"
  shows "Translate m va sz w =
    (let x = check_ref m es va sz w in
     if x = NoException then Inr (touched m es va w, Inr (of_nat (phys es va))) else Inr (m, Inl x))"
proof -
  obtain t where t: "tlb m = None" "pageTable m = Some t" "tables m t = Some es"
      and len: "unat (pageTableSize m) \<le> length es"
    using lin by (auto simp: linear_def)
  note start = Translate_steps [OF t len sz]
  show ?thesis
  proof (cases "check_ref m es va sz w = NoException")
    case False
    then show ?thesis unfolding start check_ref_def by (auto simp: Let_def split: if_splits)
  next
    case True
    let ?e = "es ! page_no va" and ?pa = "physicalPage (es ! page_no va) * of_nat PageSize + va mod of_nat PageSize"
    note c = True [unfolded check_ref_NoException]
    have "unat (va mod of_nat PageSize) = unat va mod PageSize" by (simp add: unat_mod PageSize_def)
    then have pa: "unat ?pa = phys es va"
      using unat_frame_addr [of "physicalPage ?e" "va mod of_nat PageSize"] c page_offset_less [of va]
      by (simp add: phys_def)
    have lt: "phys es va + sz \<le> 16384" using phys_room [OF True sz] by (simp add: page_defs)
    then have "sint ?pa = int (phys es va)" using sint_eq_unat [of ?pa] pa by simp
    moreover have "?pa = of_nat (phys es va)" using pa by (metis of_nat_unat ucast_id)
    moreover have "phys es va div PageSize = unat (physicalPage ?e)"
      by (simp add: phys_def PageSize_def)
    ultimately show ?thesis
      unfolding start using c True pa lt t
      by (simp add: Let_def touched_def set_entry_def MemorySize_def NumPhysPages_def PageSize_def)
  qed
qed

section \<open>Bytes of main memory\<close>

lemma get16_put16 [simp]: "get16 (put16 b p w) p = w"
  by (rule bit_word_eqI) (auto simp: get16_def put16_def bit_simps)

lemma get32_put32 [simp]: "get32 (put32 b p w) p = w"
proof (rule bit_word_eqI)
  fix n
  assume "n < LENGTH(32)"
  then consider "n < 8" | "8 \<le> n" "n < 16" | "16 \<le> n" "n < 24" | "24 \<le> n" "n < 32" by fastforce
  then show "bit (get32 (put32 b p w) p) n = bit w n"
    by cases (auto simp: get32_def put32_def bit_simps)
qed

lemma put16_other: "q \<notin> {p..<p + 2} \<Longrightarrow> put16 b p w q = b q"
  by (auto simp: put16_def)

lemma put32_other: "q \<notin> {p..<p + 4} \<Longrightarrow> put32 b p w q = b q"
  by (auto simp: put32_def)

section \<open>Reads and writes of virtual memory\<close>

definition marked :: "translation_entry list \<Rightarrow> int32 \<Rightarrow> bool \<Rightarrow> translation_entry list" where
  "marked es va w = es[page_no va := (es ! page_no va)\<lparr>use := True, dirty := (w \<or> dirty (es ! page_no va))\<rparr>]"

lemma touched_sel [simp]:
  "registers (touched m es va w) = registers m"
  "mainMemory (touched m es va w) = mainMemory m"
  "tlb (touched m es va w) = tlb m"
  "pageTable (touched m es va w) = pageTable m"
  "pageTableSize (touched m es va w) = pageTableSize m"
  "status (touched m es va w) = status m"
  by (simp_all add: touched_def touch_frame_def table_set_def)

lemma linear_touched: "linear m es \<Longrightarrow> linear (touched m es va w) (marked es va w)"
  by (auto simp: linear_def marked_def) (simp add: touched_def touch_frame_def table_set_def)

lemma marked_entry:
  "length (marked es va w) = length es"
  "i < length es \<Longrightarrow> physicalPage (marked es va w ! i) = physicalPage (es ! i)"
  "i < length es \<Longrightarrow> valid (marked es va w ! i) = valid (es ! i)"
  "i < length es \<Longrightarrow> readOnly (marked es va w ! i) = readOnly (es ! i)"
  by (cases "i = page_no va"; simp add: marked_def)+

lemma check_ref_marked [simp]:
  assumes "linear m es" "pageTableSize m' = pageTableSize m"
  shows "check_ref m' (marked es va w) va' sz w' = check_ref m es va' sz w'"
proof (cases "page_no va' < length es")
  case True
  then show ?thesis using assms(2) by (simp add: check_ref_def marked_entry Let_def)
next
  case False
  then show ?thesis using assms by (simp add: check_ref_def linear_def)
qed

lemma allowed_page:
  assumes "linear m es" "check_ref m es va sz w = NoException"
  shows "page_no va < length es" "unat (physicalPage (es ! page_no va)) < NumPhysPages"
    "valid (es ! page_no va)"
  using assms by (auto simp: check_ref_NoException linear_def)

lemma phys_marked [simp]:
  "linear m es \<Longrightarrow> check_ref m es va' sz w' = NoException \<Longrightarrow> phys (marked es va w) va' = phys es va'"
  using allowed_page(1) [of m es va' sz w'] by (simp add: phys_def marked_entry)

lemma access_allowed:
  assumes "linear m es" "sz \<in> {1, 2, 4}" "check_ref m es va sz w = NoException"
  shows "access_address h m va sz w = Inr (touched m es va w, Some (phys es va))"
proof -
  have "unat (of_nat (phys es va) :: int32) = phys es va"
    using phys_room [OF assms(3,2)] by (intro of_nat_inverse) (auto simp: page_defs)
  then show ?thesis using assms by (simp add: access_address_def Translate_linear)
qed

text \<open>What a read of \<open>sz\<close> bytes returns: a byte sign-extended, a short zero-extended.\<close>

definition read_value :: "(nat \<Rightarrow> byte) \<Rightarrow> nat \<Rightarrow> nat \<Rightarrow> int32" where
  "read_value b p sz = (if sz = 1 then scast (b p) else if sz = 2 then ucast (get16 b p) else get32 b p)"

definition write_bytes :: "(nat \<Rightarrow> byte) \<Rightarrow> nat \<Rightarrow> nat \<Rightarrow> int32 \<Rightarrow> nat \<Rightarrow> byte" where
  "write_bytes b p sz v = (if sz = 1 then b(p := ucast v) else if sz = 2 then put16 b p (ucast v) else put32 b p v)"

lemma write_bytes_other:
  "sz \<in> {1, 2, 4} \<Longrightarrow> q \<notin> {p..<p + sz} \<Longrightarrow> write_bytes b p sz v q = b q"
  by (auto simp: write_bytes_def put16_other put32_other)

lemma ReadMem_allowed:
  assumes "linear m es" "sz \<in> {1, 2, 4}" "check_ref m es va sz False = NoException"
  shows "ReadMem h m va sz = Inr (touched m es va False, Some (read_value (mainMemory m) (phys es va) sz))"
  using assms(2) access_allowed [OF assms]
  by (auto simp: ReadMem_def read_value_def ShortToHost_def WordToHost_def)

lemma ucast_mask:
  "ucast ((v :: int32) AND 0xff) = (ucast v :: byte)" "ucast ((v :: int32) AND 0xffff) = (ucast v :: 16 word)"
proof -
  have "(0xff :: int32) = mask 8" "(0xffff :: int32) = mask 16" by (simp_all add: mask_eq_exp_minus_1)
  moreover have "ucast (v AND mask 8) = (ucast v :: byte)" "ucast (v AND mask 16) = (ucast v :: 16 word)"
    by (auto intro!: bit_word_eqI simp: bit_simps)
  ultimately show "ucast (v AND 0xff) = (ucast v :: byte)" "ucast (v AND 0xffff) = (ucast v :: 16 word)"
    by metis+
qed

lemma WriteMem_allowed:
  assumes "linear m es" "sz \<in> {1, 2, 4}" "check_ref m es va sz True = NoException"
  shows "WriteMem h m va sz v =
    Inr ((touched m es va True)\<lparr>mainMemory := write_bytes (mainMemory m) (phys es va) sz v\<rparr>, True)"
  using assms(2) access_allowed [OF assms]
  by (auto simp: WriteMem_def write_bytes_def ShortToMachine_def ShortToHost_def WordToMachine_def
      WordToHost_def ucast_mask)

lemma ReadMem_refused:
  assumes "linear m es" "sz \<in> {1, 2, 4}" "check_ref m es va sz False = x" "x \<noteq> NoException"
    "x \<noteq> PageFaultException"
  shows "ReadMem h m va sz = bindR (RaiseException h m x va) (\<lambda>m. Inr (m, None))"
  using assms by (cases "RaiseException h m x va")
    (auto simp: ReadMem_def access_address_def Translate_linear)

lemma WriteMem_refused:
  assumes "linear m es" "sz \<in> {1, 2, 4}" "check_ref m es va sz True = x" "x \<noteq> NoException"
    "x \<noteq> PageFaultException"
  shows "WriteMem h m va sz v = bindR (RaiseException h m x va) (\<lambda>m. Inr (m, False))"
  using assms by (cases "RaiseException h m x va")
    (auto simp: WriteMem_def access_address_def Translate_linear)

section \<open>Virtual memory as a memory\<close>

text \<open>
  No two valid pages of a table share a frame.  Then the bytes of virtual memory are
  independent cells: a store changes those it names and no other.
\<close>

definition exclusive :: "translation_entry list \<Rightarrow> bool" where
  "exclusive es \<longleftrightarrow> (\<forall>i < length es. \<forall>j < length es.
     valid (es ! i) \<and> valid (es ! j) \<and> physicalPage (es ! i) = physicalPage (es ! j) \<longrightarrow> i = j)"

lemma phys_inj:
  assumes "exclusive es" "page_no va < length es" "page_no va' < length es"
    "valid (es ! page_no va)" "valid (es ! page_no va')" "phys es va = phys es va'"
  shows "va = va'"
proof -
  have "phys es va div PageSize = unat (physicalPage (es ! page_no va))"
    "phys es va' div PageSize = unat (physicalPage (es ! page_no va'))"
    by (simp_all add: phys_def PageSize_def)
  then have "page_no va = page_no va'" using assms by (metis exclusive_def word_unat_eq_iff)
  moreover have "unat va mod PageSize = unat va' mod PageSize"
    using assms(6) by (metis phys_def mod_mult_self3 mod_mod_trivial)
  ultimately show ?thesis by (metis div_mult_mod_eq word_unat_eq_iff)
qed

lemma phys_within:
  assumes "aligned va sz" "sz \<in> {1, 2, 4}" "k < sz"
  shows "phys es (va + of_nat k) = phys es va + k" "page_no (va + of_nat k) = page_no va"
proof -
  have r: "unat va mod PageSize + k < PageSize" using aligned_room [OF assms(2,1)] assms(3) by simp
  have "unat va + k < 4294967296"
  proof -
    have "unat va div PageSize < 33554432"
      using unsigned_less [of va, where 'a = nat] by (simp add: PageSize_def less_mult_imp_div_less)
    moreover have "unat va = unat va div PageSize * PageSize + unat va mod PageSize" by simp
    ultimately show ?thesis using r unfolding PageSize_def by linarith
  qed
  then have u: "unat (va + of_nat k) = unat va + k"
    using assms by (subst unat_add_lem [THEN iffD1]) (auto simp: of_nat_inverse)
  have s: "unat va + k = unat va div PageSize * PageSize + (unat va mod PageSize + k)" by simp
  have "(unat va + k) div PageSize = unat va div PageSize"
    "(unat va + k) mod PageSize = unat va mod PageSize + k"
    using r by (subst s, simp only: div_mult_self3 mod_mult_self3, simp add: PageSize_def)+
  then show "phys es (va + of_nat k) = phys es va + k" "page_no (va + of_nat k) = page_no va"
    by (simp_all add: u phys_def)
qed
section \<open>Frames\<close>

lemma FreeFrame_loop_none:
  "\<forall>i \<in> set is. RefPageTable (GlobalPageTable m i) \<noteq> None \<Longrightarrow> FreeFrame_loop is m v ref = (m, -1)"
  by (induction "is") auto

lemma FreeFrame_loop_found:
  "\<forall>i \<in> set is. RefPageTable (GlobalPageTable m i) \<noteq> None \<Longrightarrow> RefPageTable (GlobalPageTable m i) = None \<Longrightarrow>
   FreeFrame_loop (is @ i # js) m v ref =
     (m\<lparr>GlobalPageTable := (GlobalPageTable m)(i := \<lparr>VirNum = v, useStamp = 0, RefPageTable = ref\<rparr>)\<rparr>, of_nat i)"
  by (induction "is") auto

lemma LRU_loop_min:
  assumes "\<forall>i \<in> set is. RefPageTable (GlobalPageTable m i) \<noteq> None"
  defines "st \<equiv> \<lambda>i. sint (useStamp (GlobalPageTable m i))"
  shows "\<exists>k \<in> insert mi (set is). LRU_loop is m mi = Inr k \<and> (\<forall>j \<in> insert mi (set is). st k \<le> st j)"
  using assms(1)
proof (induction "is" arbitrary: mi)
  case (Cons i "is")
  define mi' where "mi' = (if st i < st mi then i else mi)"
  obtain k where k: "k \<in> insert mi' (set is)" "LRU_loop is m mi' = Inr k"
    "\<forall>j \<in> insert mi' (set is). st k \<le> st j"
    using Cons by fastforce
  moreover have "LRU_loop (i # is) m mi = Inr k"
    using Cons.prems k(2) by (simp add: mi'_def st_def)
  ultimately show ?case by (intro bexI [of _ k]) (auto simp: mi'_def split: if_splits)
qed simp

lemma LRU_loop_abort:
  "\<exists>i \<in> set is. RefPageTable (GlobalPageTable m i) = None \<Longrightarrow> LRU_loop is m mi = Inl AssertFailed"
  by (induction "is" arbitrary: mi) (auto simp: ASSERT_def)

lemma frame_search:
  "(\<exists>i < NumPhysPages. RefPageTable (GlobalPageTable m i) = None
      \<and> (\<forall>j < i. RefPageTable (GlobalPageTable m j) \<noteq> None)
      \<and> findFreeFrame m v ref = (m\<lparr>GlobalPageTable := (GlobalPageTable m)
          (i := \<lparr>VirNum = v, useStamp = 0, RefPageTable = ref\<rparr>)\<rparr>, of_nat i)
      \<and> findFreeByLRU m = Inl AssertFailed)
   \<or> ((\<forall>i < NumPhysPages. RefPageTable (GlobalPageTable m i) \<noteq> None)
      \<and> findFreeFrame m v ref = (m, -1)
      \<and> (\<exists>k < NumPhysPages. findFreeByLRU m = Inr k
          \<and> (\<forall>j < NumPhysPages. sint (useStamp (GlobalPageTable m k)) \<le> sint (useStamp (GlobalPageTable m j)))))"
proof (cases "\<exists>i < NumPhysPages. RefPageTable (GlobalPageTable m i) = None")
  case True
  then obtain i where i: "RefPageTable (GlobalPageTable m i) = None" "i < NumPhysPages"
      "\<forall>j < i. RefPageTable (GlobalPageTable m j) \<noteq> None"
    using exists_least_iff [of "\<lambda>i. i < NumPhysPages \<and> RefPageTable (GlobalPageTable m i) = None"]
    by (metis less_trans)
  have "findFreeFrame m v ref = (m\<lparr>GlobalPageTable := (GlobalPageTable m)
      (i := \<lparr>VirNum = v, useStamp = 0, RefPageTable = ref\<rparr>)\<rparr>, of_nat i)"
    using FreeFrame_loop_found [of "[0..<i]" m i "[Suc i..<NumPhysPages]" v ref] i upt_split [OF i(2)]
    by (simp add: findFreeFrame_def)
  moreover have "findFreeByLRU m = Inl AssertFailed"
    unfolding findFreeByLRU_def by (rule LRU_loop_abort) (use i in auto)
  ultimately show ?thesis using i by blast
next
  case False
  then have all: "\<forall>i \<in> set [0..<NumPhysPages]. RefPageTable (GlobalPageTable m i) \<noteq> None" by simp
  obtain k where k: "k \<in> insert 0 (set [0..<NumPhysPages])" "findFreeByLRU m = Inr k"
      "\<forall>j \<in> insert 0 (set [0..<NumPhysPages]).
         sint (useStamp (GlobalPageTable m k)) \<le> sint (useStamp (GlobalPageTable m j))"
    using LRU_loop_min [OF all, of 0] unfolding findFreeByLRU_def by blast
  then have "k < NumPhysPages" by (auto simp: NumPhysPages_def)
  moreover have "\<forall>j < NumPhysPages. sint (useStamp (GlobalPageTable m k)) \<le> sint (useStamp (GlobalPageTable m j))"
    using k(3) by simp
  moreover have "findFreeFrame m v ref = (m, -1)"
    using FreeFrame_loop_none [OF all] by (simp add: findFreeFrame_def)
  ultimately show ?thesis using False k(2) by (intro disjI2) simp
qed

section \<open>Properties\<close>

text \<open>A machine with one page table of two pages, the second one not in memory, for the witnesses.\<close>

definition page0 :: translation_entry where
  "page0 = \<lparr>virtualPage = 0, physicalPage = 5, valid = True, readOnly = False, use = False,
     dirty = False, DiskFile = ''prog''\<rparr>"

definition machine2 :: machine where
  "machine2 = (Machine_new False 2 [] 0)\<lparr>pageTable := Some 0,
     tables := [0 \<mapsto> [page0, page0\<lparr>virtualPage := 1, physicalPage := -1\<rparr>]]\<rparr>"

abbreviation "entries2 \<equiv> [page0, page0\<lparr>virtualPage := 1, physicalPage := -1\<rparr>]"

lemma linear2: "linear machine2 entries2"
  by (simp add: linear_def machine2_def Machine_new_def)

text \<open>
  C10. Translation through a linear page table always returns: it raises exactly the exception
  that the checks prescribe (alignment and size of the address space, presence, protection,
  frame number, in this order) and then changes nothing, or it yields the byte of main memory
  that the page table assigns, within bounds for the whole reference, and records the use.
\<close>

theorem Translate_correct:
  assumes "linear m es" "sz \<in> {1, 2, 4}"
  shows "Translate m va sz w =
      (if check_ref m es va sz w = NoException
       then Inr (touched m es va w, Inr (of_nat (phys es va)))
       else Inr (m, Inl (check_ref m es va sz w)))
    \<and> (check_ref m es va sz w = NoException \<longrightarrow> phys es va + sz \<le> MemorySize)"
  using Translate_linear [OF assms, of va w] phys_room [of m es va sz w] assms(2) by (simp add: Let_def)

text \<open>C10, an access inside of page 0 and one to the page that is not in memory.\<close>

theorem Translate_correct_witness:
  "linear machine2 entries2 \<and> (4 :: nat) \<in> {1, 2, 4}
   \<and> Translate machine2 8 4 False = Inr (touched machine2 entries2 8 False, Inr 648)
   \<and> Translate machine2 136 4 False = Inr (machine2, Inl PageFaultException)"
  using Translate_correct [OF linear2, of 4 8 False] Translate_correct [OF linear2, of 4 136 False] linear2
  by (simp add: check_ref_def phys_def page_defs machine2_def Machine_new_def page0_def)

text \<open>
  C11. Virtual memory behaves as a memory.  In an address space where no two valid pages share
  a frame, a permitted store succeeds without a trap, the bytes of every other permitted
  virtual address keep their value, main memory changes only in the frame of the page stored
  to, and a load of the same address and size returns what was stored, extended as the size
  prescribes.
\<close>

theorem virtual_memory_store_load:
  assumes "linear m es" "exclusive es" "sz \<in> {1, 2, 4}" "check_ref m es va sz True = NoException"
  shows "\<exists>m'. WriteMem h m va sz v = Inr (m', True)
    \<and> (\<exists>m''. ReadMem h m' va sz = Inr (m'', Some (if sz = 1 then scast (ucast v :: byte)
              else if sz = 2 then ucast (ucast v :: 16 word) else v)))
    \<and> (\<forall>va'. check_ref m es va' 1 False = NoException \<longrightarrow> va' \<notin> (\<lambda>k. va + of_nat k) ` {..<sz} \<longrightarrow>
         mainMemory m' (phys es va') = mainMemory m (phys es va'))
    \<and> (\<forall>p. p div PageSize \<noteq> unat (physicalPage (es ! page_no va)) \<longrightarrow> mainMemory m' p = mainMemory m p)"
proof -
  let ?m = "(touched m es va True)\<lparr>mainMemory := write_bytes (mainMemory m) (phys es va) sz v\<rparr>"
  have rd: "check_ref m es va sz False = NoException" "aligned va sz"
    using assms(4) by (auto simp: check_ref_NoException)
  have lin: "linear ?m (marked es va True)"
    using linear_touched [OF assms(1), of va True] by (simp add: linear_def)
  have same: "mainMemory ?m (phys es va') = mainMemory m (phys es va')"
    if c: "check_ref m es va' 1 False = NoException" and n: "va' \<notin> (\<lambda>k. va + of_nat k) ` {..<sz}" for va'
  proof -
    have "phys es va' \<noteq> phys es va + k" if "k < sz" for k
      using phys_inj [OF assms(2), of va' "va + of_nat k"] phys_within(1) [OF rd(2) assms(3) that, of es]
        phys_within(2) [OF rd(2) assms(3) that] allowed_page [OF assms(1,4)] allowed_page [OF assms(1) c] n that by auto
    then have "phys es va' \<notin> {phys es va..<phys es va + sz}"
      by (metis atLeastLessThan_iff le_Suc_ex nat_add_left_cancel_less)
    then show ?thesis using write_bytes_other [OF assms(3)] by simp
  qed
  have frame: "mainMemory ?m p = mainMemory m p" if "p div PageSize \<noteq> unat (physicalPage (es ! page_no va))" for p
  proof -
    have "p \<notin> {phys es va..<phys es va + sz}"
    proof
      assume "p \<in> {phys es va..<phys es va + sz}"
      then obtain k where k: "p = phys es va + k" "k < sz"
        by (metis atLeastLessThan_iff le_Suc_ex nat_add_left_cancel_less)
      have "phys es (va + of_nat k) div PageSize = unat (physicalPage (es ! page_no va))"
        using phys_within(2) [OF rd(2) assms(3) k(2)] by (simp add: phys_def PageSize_def)
      then show False using that k phys_within(1) [OF rd(2) assms(3) k(2), of es] by simp
    qed
    then show ?thesis using write_bytes_other [OF assms(3)] by simp
  qed
  have "ReadMem h ?m va sz = Inr (touched ?m (marked es va True) va False,
      Some (read_value (mainMemory ?m) (phys es va) sz))"
    using ReadMem_allowed [OF lin assms(3), where va = va and h = h] rd(1) assms(1) by simp
  moreover have "read_value (mainMemory ?m) (phys es va) sz =
      (if sz = 1 then scast (ucast v :: byte) else if sz = 2 then ucast (ucast v :: 16 word) else v)"
    using assms(3) by (auto simp: read_value_def write_bytes_def)
  ultimately show ?thesis
    using WriteMem_allowed [OF assms(1,3,4), of h v] same frame by auto
qed

text \<open>C11, a word stored in page 0.\<close>

theorem virtual_memory_store_load_witness:
  "\<exists>m'. WriteMem (\<lambda>_ m. Inr m) machine2 8 4 77 = Inr (m', True)
     \<and> (\<exists>m''. ReadMem (\<lambda>_ m. Inr m) m' 8 4 = Inr (m'', Some 77))"
proof -
  have "exclusive entries2" by (auto simp: exclusive_def page0_def less_Suc_eq)
  moreover have "check_ref machine2 entries2 8 4 True = NoException"
    by (simp add: check_ref_def page_defs machine2_def Machine_new_def page0_def)
  ultimately show ?thesis
    using virtual_memory_store_load [OF linear2, of 4 8 "\<lambda>_ m. Inr m" 77] by auto
qed

text \<open>
  Frames are taken in order: \<open>findFreeFrame\<close> claims the lowest frame that no page table
  references for the page it is given and leaves the others alone, or returns -1 when there is
  none; then \<open>findFreeByLRU\<close> passes its assertions and names a frame with the least stamp.
\<close>

theorem frame_allocation:
  "(\<exists>i < NumPhysPages. RefPageTable (GlobalPageTable m i) = None
      \<and> (\<forall>j < i. RefPageTable (GlobalPageTable m j) \<noteq> None)
      \<and> findFreeFrame m v ref = (m\<lparr>GlobalPageTable := (GlobalPageTable m)
          (i := \<lparr>VirNum = v, useStamp = 0, RefPageTable = ref\<rparr>)\<rparr>, of_nat i)
      \<and> findFreeByLRU m = Inl AssertFailed)
   \<or> ((\<forall>i < NumPhysPages. RefPageTable (GlobalPageTable m i) \<noteq> None)
      \<and> findFreeFrame m v ref = (m, -1)
      \<and> (\<exists>k < NumPhysPages. findFreeByLRU m = Inr k
          \<and> (\<forall>j < NumPhysPages. sint (useStamp (GlobalPageTable m k)) \<le> sint (useStamp (GlobalPageTable m j)))))"
  by (rule frame_search)

text \<open>In a machine where every frame is free.\<close>

theorem frame_allocation_witness:
  "findFreeByLRU machine2 = Inl AssertFailed \<and> snd (findFreeFrame machine2 7 (Some 0)) = 0"
proof -
  have free: "RefPageTable (GlobalPageTable machine2 i) = None" for i
    by (simp add: machine2_def Machine_new_def GlobalEntry_new_def)
  then obtain i where "\<forall>j < i. False" "snd (findFreeFrame machine2 7 (Some 0)) = of_nat i"
      "findFreeByLRU machine2 = Inl AssertFailed"
    using frame_allocation [of machine2 7 "Some 0"] by (auto simp: NumPhysPages_def)
  moreover from this(1) have "i = 0" by blast
  ultimately show ?thesis by simp
qed

end
