(* ===== verification/Mips.thy ===== *)
theory Mips
  imports Machine
begin

unbundle bit_operations_syntax

text \<open>
  The MIPS R2/3000 simulator (\<^verbatim>\<open>code/machine/mipssim.h\<close>, \<^verbatim>\<open>mipssim.cc\<close>): the decoding of
  instructions with its two tables, the execution of one instruction, opcode group by
  opcode group in the order of the switch, and the routine for multiplication.  The build
  defines \<^verbatim>\<open>SIM_FIX\<close>, so the byte selecting loads and stores are those of that branch.
  Arithmetic of \<open>int\<close> wraps around, \<open>>>\<close> on an \<open>int\<close> copies the sign, as the supported
  compilers do.
\<close>

section \<open>Decoding\<close>

text \<open>The values that the field \<open>opCode\<close> may take, then those of the tables that need more decoding.\<close>

abbreviation (input) OP_ADD :: nat where "OP_ADD \<equiv> 1"
abbreviation (input) OP_ADDI :: nat where "OP_ADDI \<equiv> 2"
abbreviation (input) OP_ADDIU :: nat where "OP_ADDIU \<equiv> 3"
abbreviation (input) OP_ADDU :: nat where "OP_ADDU \<equiv> 4"
abbreviation (input) OP_AND :: nat where "OP_AND \<equiv> 5"
abbreviation (input) OP_ANDI :: nat where "OP_ANDI \<equiv> 6"
abbreviation (input) OP_BEQ :: nat where "OP_BEQ \<equiv> 7"
abbreviation (input) OP_BGEZ :: nat where "OP_BGEZ \<equiv> 8"
abbreviation (input) OP_BGEZAL :: nat where "OP_BGEZAL \<equiv> 9"
abbreviation (input) OP_BGTZ :: nat where "OP_BGTZ \<equiv> 10"
abbreviation (input) OP_BLEZ :: nat where "OP_BLEZ \<equiv> 11"
abbreviation (input) OP_BLTZ :: nat where "OP_BLTZ \<equiv> 12"
abbreviation (input) OP_BLTZAL :: nat where "OP_BLTZAL \<equiv> 13"
abbreviation (input) OP_BNE :: nat where "OP_BNE \<equiv> 14"
abbreviation (input) OP_DIV :: nat where "OP_DIV \<equiv> 16"
abbreviation (input) OP_DIVU :: nat where "OP_DIVU \<equiv> 17"
abbreviation (input) OP_J :: nat where "OP_J \<equiv> 18"
abbreviation (input) OP_JAL :: nat where "OP_JAL \<equiv> 19"
abbreviation (input) OP_JALR :: nat where "OP_JALR \<equiv> 20"
abbreviation (input) OP_JR :: nat where "OP_JR \<equiv> 21"
abbreviation (input) OP_LB :: nat where "OP_LB \<equiv> 22"
abbreviation (input) OP_LBU :: nat where "OP_LBU \<equiv> 23"
abbreviation (input) OP_LH :: nat where "OP_LH \<equiv> 24"
abbreviation (input) OP_LHU :: nat where "OP_LHU \<equiv> 25"
abbreviation (input) OP_LUI :: nat where "OP_LUI \<equiv> 26"
abbreviation (input) OP_LW :: nat where "OP_LW \<equiv> 27"
abbreviation (input) OP_LWL :: nat where "OP_LWL \<equiv> 28"
abbreviation (input) OP_LWR :: nat where "OP_LWR \<equiv> 29"
abbreviation (input) OP_MFHI :: nat where "OP_MFHI \<equiv> 31"
abbreviation (input) OP_MFLO :: nat where "OP_MFLO \<equiv> 32"
abbreviation (input) OP_MTHI :: nat where "OP_MTHI \<equiv> 34"
abbreviation (input) OP_MTLO :: nat where "OP_MTLO \<equiv> 35"
abbreviation (input) OP_MULT :: nat where "OP_MULT \<equiv> 36"
abbreviation (input) OP_MULTU :: nat where "OP_MULTU \<equiv> 37"
abbreviation (input) OP_NOR :: nat where "OP_NOR \<equiv> 38"
abbreviation (input) OP_OR :: nat where "OP_OR \<equiv> 39"
abbreviation (input) OP_ORI :: nat where "OP_ORI \<equiv> 40"
abbreviation (input) OP_RFE :: nat where "OP_RFE \<equiv> 41"
abbreviation (input) OP_SB :: nat where "OP_SB \<equiv> 42"
abbreviation (input) OP_SH :: nat where "OP_SH \<equiv> 43"
abbreviation (input) OP_SLL :: nat where "OP_SLL \<equiv> 44"
abbreviation (input) OP_SLLV :: nat where "OP_SLLV \<equiv> 45"
abbreviation (input) OP_SLT :: nat where "OP_SLT \<equiv> 46"
abbreviation (input) OP_SLTI :: nat where "OP_SLTI \<equiv> 47"
abbreviation (input) OP_SLTIU :: nat where "OP_SLTIU \<equiv> 48"
abbreviation (input) OP_SLTU :: nat where "OP_SLTU \<equiv> 49"
abbreviation (input) OP_SRA :: nat where "OP_SRA \<equiv> 50"
abbreviation (input) OP_SRAV :: nat where "OP_SRAV \<equiv> 51"
abbreviation (input) OP_SRL :: nat where "OP_SRL \<equiv> 52"
abbreviation (input) OP_SRLV :: nat where "OP_SRLV \<equiv> 53"
abbreviation (input) OP_SUB :: nat where "OP_SUB \<equiv> 54"
abbreviation (input) OP_SUBU :: nat where "OP_SUBU \<equiv> 55"
abbreviation (input) OP_SW :: nat where "OP_SW \<equiv> 56"
abbreviation (input) OP_SWL :: nat where "OP_SWL \<equiv> 57"
abbreviation (input) OP_SWR :: nat where "OP_SWR \<equiv> 58"
abbreviation (input) OP_XOR :: nat where "OP_XOR \<equiv> 59"
abbreviation (input) OP_XORI :: nat where "OP_XORI \<equiv> 60"
abbreviation (input) OP_SYSCALL :: nat where "OP_SYSCALL \<equiv> 61"
abbreviation (input) OP_UNIMP :: nat where "OP_UNIMP \<equiv> 62"
abbreviation (input) OP_RES :: nat where "OP_RES \<equiv> 63"
abbreviation (input) SPECIAL :: nat where "SPECIAL \<equiv> 100"
abbreviation (input) BCOND :: nat where "BCOND \<equiv> 101"
abbreviation (input) IFMT :: nat where "IFMT \<equiv> 1"
abbreviation (input) JFMT :: nat where "JFMT \<equiv> 2"
abbreviation (input) RFMT :: nat where "RFMT \<equiv> 3"

definition opTable :: "(nat \<times> nat) list" where
  "opTable = [
    (SPECIAL, RFMT), (BCOND, IFMT), (OP_J, JFMT), (OP_JAL, JFMT),
    (OP_BEQ, IFMT), (OP_BNE, IFMT), (OP_BLEZ, IFMT), (OP_BGTZ, IFMT),
    (OP_ADDI, IFMT), (OP_ADDIU, IFMT), (OP_SLTI, IFMT), (OP_SLTIU, IFMT),
    (OP_ANDI, IFMT), (OP_ORI, IFMT), (OP_XORI, IFMT), (OP_LUI, IFMT),
    (OP_UNIMP, IFMT), (OP_UNIMP, IFMT), (OP_UNIMP, IFMT), (OP_UNIMP, IFMT),
    (OP_RES, IFMT), (OP_RES, IFMT), (OP_RES, IFMT), (OP_RES, IFMT),
    (OP_RES, IFMT), (OP_RES, IFMT), (OP_RES, IFMT), (OP_RES, IFMT),
    (OP_RES, IFMT), (OP_RES, IFMT), (OP_RES, IFMT), (OP_RES, IFMT),
    (OP_LB, IFMT), (OP_LH, IFMT), (OP_LWL, IFMT), (OP_LW, IFMT),
    (OP_LBU, IFMT), (OP_LHU, IFMT), (OP_LWR, IFMT), (OP_RES, IFMT),
    (OP_SB, IFMT), (OP_SH, IFMT), (OP_SWL, IFMT), (OP_SW, IFMT),
    (OP_RES, IFMT), (OP_RES, IFMT), (OP_SWR, IFMT), (OP_RES, IFMT),
    (OP_UNIMP, IFMT), (OP_UNIMP, IFMT), (OP_UNIMP, IFMT), (OP_UNIMP, IFMT),
    (OP_RES, IFMT), (OP_RES, IFMT), (OP_RES, IFMT), (OP_RES, IFMT),
    (OP_UNIMP, IFMT), (OP_UNIMP, IFMT), (OP_UNIMP, IFMT), (OP_UNIMP, IFMT),
    (OP_RES, IFMT), (OP_RES, IFMT), (OP_RES, IFMT), (OP_RES, IFMT)]"

definition specialTable :: "nat list" where
  "specialTable = [
    OP_SLL, OP_RES, OP_SRL, OP_SRA, OP_SLLV, OP_RES, OP_SRLV, OP_SRAV,
    OP_JR, OP_JALR, OP_RES, OP_RES, OP_SYSCALL, OP_UNIMP, OP_RES, OP_RES,
    OP_MFHI, OP_MTHI, OP_MFLO, OP_MTLO, OP_RES, OP_RES, OP_RES, OP_RES,
    OP_MULT, OP_MULTU, OP_DIV, OP_DIVU, OP_RES, OP_RES, OP_RES, OP_RES,
    OP_ADD, OP_ADDU, OP_SUB, OP_SUBU, OP_AND, OP_OR, OP_XOR, OP_NOR,
    OP_RES, OP_RES, OP_SLT, OP_SLTU, OP_RES, OP_RES, OP_RES, OP_RES,
    OP_RES, OP_RES, OP_RES, OP_RES, OP_RES, OP_RES, OP_RES, OP_RES,
    OP_RES, OP_RES, OP_RES, OP_RES, OP_RES, OP_RES, OP_RES, OP_RES]"

record instruction =
  opCode :: nat
  rs_of :: nat
  rt_of :: nat
  rd_of :: nat
  extra :: int32

definition Decode :: "32 word \<Rightarrow> instruction" where
  "Decode w =
     (let (op, fmt) = opTable ! unat (drop_bit 26 w AND 0x3f);
          ext = (if fmt = IFMT then
                   (let e = w AND 0xffff in if e AND 0x8000 \<noteq> 0 then e OR 0xffff0000 else e)
                 else if fmt = RFMT then drop_bit 6 w AND 0x1f
                 else w AND 0x3ffffff);
          op' = (if op = SPECIAL then specialTable ! unat (w AND 0x3f)
                 else if op = BCOND then
                   (let i = w AND 0x1f0000 in
                    if i = 0 then OP_BLTZ else if i = 0x10000 then OP_BGEZ
                    else if i = 0x100000 then OP_BLTZAL else if i = 0x110000 then OP_BGEZAL
                    else OP_UNIMP)
                 else op)
      in \<lparr>opCode = op', rs_of = unat (drop_bit 21 w AND 0x1f), rt_of = unat (drop_bit 16 w AND 0x1f),
          rd_of = unat (drop_bit 11 w AND 0x1f), extra = ext\<rparr>)"

section \<open>Multiplication\<close>

text \<open>The loop, with the number of iterations that are left.\<close>

primrec Mult_loop :: "nat \<Rightarrow> int32 \<Rightarrow> int32 \<Rightarrow> int32 \<Rightarrow> int32 \<Rightarrow> int32 \<Rightarrow> int32 \<times> int32" where
  "Mult_loop 0 a bLo bHi lo hi = (hi, lo)"
| "Mult_loop (Suc n) a bLo bHi lo hi =
     (let add = (a AND 1 \<noteq> 0);
          lo' = (if add then lo + bLo else lo);
          hi' = (if add then (if lo' < bLo then hi + 1 else hi) + bHi else hi) in
      if add \<and> a AND 0xfffffffe = 0 then (hi', lo')
      else Mult_loop n (signed_drop_bit 1 a) (push_bit 1 bLo)
             (if bLo AND 0x80000000 \<noteq> 0 then push_bit 1 bHi OR 1 else push_bit 1 bHi) lo' hi')"

definition Mult :: "int32 \<Rightarrow> int32 \<Rightarrow> bool \<Rightarrow> int32 \<times> int32" where
  "Mult a b signedArith =
     (if a = 0 \<or> b = 0 then (0, 0)
      else let na = (signedArith \<and> sint a < 0); nb = (signedArith \<and> sint b < 0);
               negative = (na \<noteq> nb);
               a = (if na then - a else a); b = (if nb then - b else b);
               (hi, lo) = Mult_loop 32 a b 0 0 0 in
           if negative then
             let hi = NOT hi; lo = NOT lo + 1 in (if lo = 0 then hi + 1 else hi, lo)
           else (hi, lo))"

section \<open>Execution of one instruction\<close>

text \<open>
  The body of the switch for an opcode returns the machine and, unless the code returns from
  \<open>OneInstruction\<close>, the values of \<open>pcAfter\<close>, \<open>nextLoadReg\<close> and \<open>nextLoadValue\<close>.
\<close>

type_synonym 'a exec = "('a machine_scheme \<times> (int32 \<times> int32 \<times> int32) option) res"

definition SIGN_BIT :: int32 where "SIGN_BIT = 0x80000000"

definition IndexToAddr :: "int32 \<Rightarrow> int32" where
  "IndexToAddr x = push_bit 2 x"

definition go_on :: "'a machine_scheme \<Rightarrow> int32 \<Rightarrow> 'a exec" where
  "go_on m pcAfter = Inr (m, Some (pcAfter, 0, 0))"

definition trap :: "'a handler \<Rightarrow> 'a machine_scheme \<Rightarrow> exception_type \<Rightarrow> int32 \<Rightarrow> 'a exec" where
  "trap h m which bad = bindR (RaiseException h m which bad) (\<lambda>m. Inr (m, None))"

definition exec_add :: "'a handler \<Rightarrow> 'a machine_scheme \<Rightarrow> instruction \<Rightarrow> int32 \<Rightarrow> 'a exec" where
  "exec_add h m i pcAfter =
     (let a = registers m (rs_of i); b = registers m (rt_of i); x = extra i in
      if opCode i = OP_ADD then
          (let sum = a + b in
           if (a XOR b) AND SIGN_BIT = 0 \<and> (a XOR sum) AND SIGN_BIT \<noteq> 0
           then trap h m OverflowException 0
           else go_on (set_reg m (rd_of i) sum) pcAfter)
      else if opCode i = OP_ADDI then
          (let sum = a + x in
           if (a XOR x) AND SIGN_BIT = 0 \<and> (x XOR sum) AND SIGN_BIT \<noteq> 0
           then trap h m OverflowException 0
           else go_on (set_reg m (rt_of i) sum) pcAfter)
      else if opCode i = OP_ADDIU then go_on (set_reg m (rt_of i) (a + x)) pcAfter
      else if opCode i = OP_ADDU then go_on (set_reg m (rd_of i) (a + b)) pcAfter
      else if opCode i = OP_AND then go_on (set_reg m (rd_of i) (a AND b)) pcAfter
      else if opCode i = OP_ANDI then go_on (set_reg m (rt_of i) (a AND (x AND 0xffff))) pcAfter
      else Inl AssertFailed)"

definition exec_branch :: "'a machine_scheme \<Rightarrow> instruction \<Rightarrow> int32 \<Rightarrow> 'a exec" where
  "exec_branch m i pcAfter =
     (let link = set_reg m 31 (registers m NextPCReg + 4);
          branch = (\<lambda>m c. go_on m (if c then registers m NextPCReg + IndexToAddr (extra i) else pcAfter)) in
      if opCode i = OP_BEQ then branch m (registers m (rs_of i) = registers m (rt_of i))
      else if opCode i = OP_BGEZAL then branch link (registers link (rs_of i) AND SIGN_BIT = 0)
      else if opCode i = OP_BGEZ then branch m (registers m (rs_of i) AND SIGN_BIT = 0)
      else if opCode i = OP_BGTZ then branch m (sint (registers m (rs_of i)) > 0)
      else if opCode i = OP_BLEZ then branch m (sint (registers m (rs_of i)) \<le> 0)
      else if opCode i = OP_BLTZAL then branch link (registers link (rs_of i) AND SIGN_BIT \<noteq> 0)
      else if opCode i = OP_BLTZ then branch m (registers m (rs_of i) AND SIGN_BIT \<noteq> 0)
      else if opCode i = OP_BNE then branch m (registers m (rs_of i) \<noteq> registers m (rt_of i))
      else Inl AssertFailed)"

text \<open>The quotient of the least \<open>int\<close> by -1 is not defined.\<close>

definition exec_div :: "'a machine_scheme \<Rightarrow> instruction \<Rightarrow> int32 \<Rightarrow> 'a exec" where
  "exec_div m i pcAfter =
     (let a = registers m (rs_of i); b = registers m (rt_of i);
          res = (\<lambda>lo hi. go_on (set_reg (set_reg m LoReg lo) HiReg hi) pcAfter) in
      if opCode i = OP_DIV then
          (if b = 0 then res 0 0
           else if a = SIGN_BIT \<and> b = -1 then Inl Undefined
           else res (word_of_int (sint a sdiv sint b)) (word_of_int (sint a smod sint b)))
      else if opCode i = OP_DIVU then (if b = 0 then res 0 0 else res (a div b) (a mod b))
      else Inl AssertFailed)"

definition exec_jump :: "'a machine_scheme \<Rightarrow> instruction \<Rightarrow> int32 \<Rightarrow> 'a exec" where
  "exec_jump m i pcAfter =
     (let target = (pcAfter AND 0xf0000000) OR IndexToAddr (extra i); ret = registers m NextPCReg + 4 in
      if opCode i = OP_JAL then go_on (set_reg m 31 ret) target
      else if opCode i = OP_J then go_on m target
      else if opCode i = OP_JALR then (let m = set_reg m (rd_of i) ret in go_on m (registers m (rs_of i)))
      else if opCode i = OP_JR then go_on m (registers m (rs_of i))
      else Inl AssertFailed)"

definition exec_load :: "'a handler \<Rightarrow> 'a machine_scheme \<Rightarrow> instruction \<Rightarrow> int32 \<Rightarrow> 'a exec" where
  "exec_load h m i pcAfter =
     (let tmp = registers m (rs_of i) + extra i;
          load = (\<lambda>sz f. bindR (ReadMem h m tmp sz) (\<lambda>(m, r).
            case r of None \<Rightarrow> Inr (m, None)
            | Some v \<Rightarrow> Inr (m, Some (pcAfter, of_nat (rt_of i), f v))));
          byte = (\<lambda>v. if v AND 0x80 \<noteq> 0 \<and> opCode i = OP_LB then v OR 0xffffff00 else v AND 0xff);
          half = (\<lambda>v. if v AND 0x8000 \<noteq> 0 \<and> opCode i = OP_LH then v OR 0xffff0000 else v AND 0xffff) in
      if opCode i = OP_LB then load 1 byte
      else if opCode i = OP_LBU then load 1 byte
      else if opCode i = OP_LH then (if tmp AND 1 \<noteq> 0 then trap h m AddressErrorException tmp else load 2 half)
      else if opCode i = OP_LHU then (if tmp AND 1 \<noteq> 0 then trap h m AddressErrorException tmp else load 2 half)
      else if opCode i = OP_LUI then go_on (set_reg m (rt_of i) (push_bit 16 (extra i))) pcAfter
      else if opCode i = OP_LW then (if tmp AND 3 \<noteq> 0 then trap h m AddressErrorException tmp else load 4 (\<lambda>v. v))
      else Inl AssertFailed)"

text \<open>
  The loads of a part of a word: \<open>n\<close> is \<open>3 - byte\<close>, the selector of the inner switch,
  \<open>old\<close> the value of the register with a pending load applied.
\<close>

definition LWL_value :: "nat \<Rightarrow> int32 \<Rightarrow> int32 \<Rightarrow> int32" where
  "LWL_value n old value =
     (if n = 0 then value
      else if n = 1 then (old AND 0xff) OR push_bit 8 value
      else if n = 2 then (old AND 0xffff) OR push_bit 16 value
      else (old AND 0xffffff) OR push_bit 24 value)"

definition LWR_value :: "nat \<Rightarrow> int32 \<Rightarrow> int32 \<Rightarrow> int32" where
  "LWR_value n old value =
     (if n = 0 then (old AND 0xffffff00) OR (signed_drop_bit 24 value AND 0xff)
      else if n = 1 then (old AND 0xffff0000) OR (signed_drop_bit 16 value AND 0xffff)
      else if n = 2 then (old AND 0xff000000) OR (signed_drop_bit 8 value AND 0xffffff)
      else value)"

definition pending_value :: "'a machine_scheme \<Rightarrow> nat \<Rightarrow> int32" where
  "pending_value m rt =
     (if registers m LoadReg = of_nat rt then registers m LoadValueReg else registers m rt)"

definition exec_load_part :: "'a handler \<Rightarrow> 'a machine_scheme \<Rightarrow> instruction \<Rightarrow> int32 \<Rightarrow> 'a exec" where
  "exec_load_part h m i pcAfter =
     (let tmp = registers m (rs_of i) + extra i; byte = tmp AND 3;
          load = (\<lambda>f. bindR (ReadMem h m (tmp - byte) 4) (\<lambda>(m, r).
            case r of None \<Rightarrow> Inr (m, None)
            | Some v \<Rightarrow> Inr (m, Some (pcAfter, of_nat (rt_of i),
                f (3 - unat byte) (pending_value m (rt_of i)) v)))) in
      if opCode i = OP_LWL then load LWL_value
      else if opCode i = OP_LWR then load LWR_value
      else Inl AssertFailed)"

definition exec_hilo :: "'a machine_scheme \<Rightarrow> instruction \<Rightarrow> int32 \<Rightarrow> 'a exec" where
  "exec_hilo m i pcAfter =
     (let a = registers m (rs_of i); b = registers m (rt_of i);
          mult = (\<lambda>sgd. let (hi, lo) = Mult a b sgd in
                    go_on (set_reg (set_reg m HiReg hi) LoReg lo) pcAfter) in
      if opCode i = OP_MFHI then go_on (set_reg m (rd_of i) (registers m HiReg)) pcAfter
      else if opCode i = OP_MFLO then go_on (set_reg m (rd_of i) (registers m LoReg)) pcAfter
      else if opCode i = OP_MTHI then go_on (set_reg m HiReg a) pcAfter
      else if opCode i = OP_MTLO then go_on (set_reg m LoReg a) pcAfter
      else if opCode i = OP_MULT then mult True
      else if opCode i = OP_MULTU then mult False
      else Inl AssertFailed)"

definition exec_or :: "'a machine_scheme \<Rightarrow> instruction \<Rightarrow> int32 \<Rightarrow> 'a exec" where
  "exec_or m i pcAfter =
     (let a = registers m (rs_of i); b = registers m (rt_of i) in
      if opCode i = OP_NOR then go_on (set_reg m (rd_of i) (NOT (a OR b))) pcAfter
      else if opCode i = OP_OR then go_on (set_reg m (rd_of i) (a OR b)) pcAfter
      else if opCode i = OP_ORI then go_on (set_reg m (rt_of i) (a OR (extra i AND 0xffff))) pcAfter
      else Inl AssertFailed)"

definition store_to :: "'a handler \<Rightarrow> 'a machine_scheme \<Rightarrow> int32 \<Rightarrow> nat \<Rightarrow> int32 \<Rightarrow> int32 \<Rightarrow> 'a exec" where
  "store_to h m addr sz v pcAfter =
     bindR (WriteMem h m addr sz v) (\<lambda>(m, ok). if ok then go_on m pcAfter else Inr (m, None))"

definition exec_store :: "'a handler \<Rightarrow> 'a machine_scheme \<Rightarrow> instruction \<Rightarrow> int32 \<Rightarrow> 'a exec" where
  "exec_store h m i pcAfter =
     (let addr = registers m (rs_of i) + extra i; v = registers m (rt_of i) in
      if opCode i = OP_SB then store_to h m addr 1 v pcAfter
      else if opCode i = OP_SH then store_to h m addr 2 v pcAfter
      else Inl AssertFailed)"

definition exec_shift_left :: "'a machine_scheme \<Rightarrow> instruction \<Rightarrow> int32 \<Rightarrow> 'a exec" where
  "exec_shift_left m i pcAfter =
     (let b = registers m (rt_of i) in
      if opCode i = OP_SLL then go_on (set_reg m (rd_of i) (push_bit (unat (extra i)) b)) pcAfter
      else if opCode i = OP_SLLV then go_on (set_reg m (rd_of i) (push_bit (unat (registers m (rs_of i) AND 0x1f)) b)) pcAfter
      else Inl AssertFailed)"

definition exec_slt :: "'a machine_scheme \<Rightarrow> instruction \<Rightarrow> int32 \<Rightarrow> 'a exec" where
  "exec_slt m i pcAfter =
     (let a = registers m (rs_of i); b = registers m (rt_of i) in
      if opCode i = OP_SLT then go_on (set_reg m (rd_of i) (if sint a < sint b then 1 else 0)) pcAfter
      else if opCode i = OP_SLTI then go_on (set_reg m (rt_of i) (if sint a < sint (extra i) then 1 else 0)) pcAfter
      else if opCode i = OP_SLTIU then go_on (set_reg m (rt_of i) (if a < extra i then 1 else 0)) pcAfter
      else if opCode i = OP_SLTU then go_on (set_reg m (rd_of i) (if a < b then 1 else 0)) pcAfter
      else Inl AssertFailed)"

text \<open>\<open>tmp\<close> in the two logical shifts is an \<open>int\<close>, so they copy the sign like the arithmetic ones.\<close>

definition exec_shift_right :: "'a machine_scheme \<Rightarrow> instruction \<Rightarrow> int32 \<Rightarrow> 'a exec" where
  "exec_shift_right m i pcAfter =
     (let b = registers m (rt_of i); s = unat (registers m (rs_of i) AND 0x1f) in
      if opCode i = OP_SRA then go_on (set_reg m (rd_of i) (signed_drop_bit (unat (extra i)) b)) pcAfter
      else if opCode i = OP_SRAV then go_on (set_reg m (rd_of i) (signed_drop_bit s b)) pcAfter
      else if opCode i = OP_SRL then (let tmp = b in go_on (set_reg m (rd_of i) (signed_drop_bit (unat (extra i)) tmp)) pcAfter)
      else if opCode i = OP_SRLV then (let tmp = b in go_on (set_reg m (rd_of i) (signed_drop_bit s tmp)) pcAfter)
      else Inl AssertFailed)"

definition exec_sub :: "'a handler \<Rightarrow> 'a machine_scheme \<Rightarrow> instruction \<Rightarrow> int32 \<Rightarrow> 'a exec" where
  "exec_sub h m i pcAfter =
     (let a = registers m (rs_of i); b = registers m (rt_of i); diff = a - b in
      if opCode i = OP_SUB then
          (if (a XOR b) AND SIGN_BIT \<noteq> 0 \<and> (a XOR diff) AND SIGN_BIT \<noteq> 0
           then trap h m OverflowException 0
           else go_on (set_reg m (rd_of i) diff) pcAfter)
      else if opCode i = OP_SUBU then go_on (set_reg m (rd_of i) diff) pcAfter
      else if opCode i = OP_SW then store_to h m (a + extra i) 4 b pcAfter
      else Inl AssertFailed)"

definition SWL_value :: "nat \<Rightarrow> int32 \<Rightarrow> int32 \<Rightarrow> int32" where
  "SWL_value n value r =
     (if n = 0 then r
      else if n = 1 then (value AND 0xff000000) OR (signed_drop_bit 8 r AND 0xffffff)
      else if n = 2 then (value AND 0xffff0000) OR (signed_drop_bit 16 r AND 0xffff)
      else (value AND 0xffffff00) OR (signed_drop_bit 24 r AND 0xff))"

definition SWR_value :: "nat \<Rightarrow> int32 \<Rightarrow> int32 \<Rightarrow> int32" where
  "SWR_value n value r =
     (if n = 0 then (value AND 0xffffff) OR push_bit 24 r
      else if n = 1 then (value AND 0xffff) OR push_bit 16 r
      else if n = 2 then (value AND 0xff) OR push_bit 8 r
      else r)"

definition exec_store_part :: "'a handler \<Rightarrow> 'a machine_scheme \<Rightarrow> instruction \<Rightarrow> int32 \<Rightarrow> 'a exec" where
  "exec_store_part h m i pcAfter =
     (let tmp = registers m (rs_of i) + extra i; byte = tmp AND 3;
          store = (\<lambda>f. bindR (ReadMem h m (tmp - byte) 4) (\<lambda>(m, r).
            case r of None \<Rightarrow> Inr (m, None)
            | Some v \<Rightarrow> store_to h m (tmp - byte) 4 (f (3 - unat byte) v (registers m (rt_of i))) pcAfter)) in
      if opCode i = OP_SWL then store SWL_value
      else if opCode i = OP_SWR then store SWR_value
      else Inl AssertFailed)"

definition exec_last :: "'a handler \<Rightarrow> 'a machine_scheme \<Rightarrow> instruction \<Rightarrow> int32 \<Rightarrow> 'a exec" where
  "exec_last h m i pcAfter =
     (let a = registers m (rs_of i); b = registers m (rt_of i) in
      if opCode i = OP_SYSCALL then trap h m SyscallException 0
      else if opCode i = OP_XOR then go_on (set_reg m (rd_of i) (a XOR b)) pcAfter
      else if opCode i = OP_XORI then go_on (set_reg m (rt_of i) (a XOR (extra i AND 0xffff))) pcAfter
      else if opCode i = OP_RES then trap h m IllegalInstrException 0
      else if opCode i = OP_UNIMP then trap h m IllegalInstrException 0
      else Inl AssertFailed)"

text \<open>The switch: the groups in the order of its cases.\<close>

definition execute :: "'a handler \<Rightarrow> 'a machine_scheme \<Rightarrow> instruction \<Rightarrow> int32 \<Rightarrow> 'a exec" where
  "execute h m i pcAfter =
     (let op = opCode i in
      if op \<in> {OP_ADD, OP_ADDI, OP_ADDIU, OP_ADDU, OP_AND, OP_ANDI} then exec_add h m i pcAfter
      else if op \<in> {OP_BEQ, OP_BGEZAL, OP_BGEZ, OP_BGTZ, OP_BLEZ, OP_BLTZAL, OP_BLTZ, OP_BNE}
        then exec_branch m i pcAfter
      else if op \<in> {OP_DIV, OP_DIVU} then exec_div m i pcAfter
      else if op \<in> {OP_JAL, OP_J, OP_JALR, OP_JR} then exec_jump m i pcAfter
      else if op \<in> {OP_LB, OP_LBU, OP_LH, OP_LHU, OP_LUI, OP_LW} then exec_load h m i pcAfter
      else if op \<in> {OP_LWL, OP_LWR} then exec_load_part h m i pcAfter
      else if op \<in> {OP_MFHI, OP_MFLO, OP_MTHI, OP_MTLO, OP_MULT, OP_MULTU} then exec_hilo m i pcAfter
      else if op \<in> {OP_NOR, OP_OR, OP_ORI} then exec_or m i pcAfter
      else if op \<in> {OP_SB, OP_SH} then exec_store h m i pcAfter
      else if op \<in> {OP_SLL, OP_SLLV} then exec_shift_left m i pcAfter
      else if op \<in> {OP_SLT, OP_SLTI, OP_SLTIU, OP_SLTU} then exec_slt m i pcAfter
      else if op \<in> {OP_SRA, OP_SRAV, OP_SRL, OP_SRLV} then exec_shift_right m i pcAfter
      else if op \<in> {OP_SUB, OP_SUBU, OP_SW} then exec_sub h m i pcAfter
      else if op \<in> {OP_SWL, OP_SWR} then exec_store_part h m i pcAfter
      else exec_last h m i pcAfter)"

definition advance_pc :: "'a machine_scheme \<Rightarrow> int32 \<Rightarrow> 'a machine_scheme" where
  "advance_pc m pcAfter =
     (let m = set_reg m PrevPCReg (registers m PCReg);
          m = set_reg m PCReg (registers m NextPCReg)
      in set_reg m NextPCReg pcAfter)"

definition OneInstruction :: "'a handler \<Rightarrow> 'a machine_scheme \<Rightarrow> 'a machine_scheme res" where
  "OneInstruction h m =
     bindR (ReadMem h m (registers m PCReg) 4) (\<lambda>(m, raw).
     case raw of None \<Rightarrow> Inr m
     | Some w \<Rightarrow>
         bindR (execute h m (Decode w) (registers m NextPCReg + 4)) (\<lambda>(m, r).
         case r of None \<Rightarrow> Inr m
         | Some (pcAfter, nextLoadReg, nextLoadValue) \<Rightarrow>
             bindR (DelayedLoad m nextLoadReg nextLoadValue) (\<lambda>m. Inr (advance_pc m pcAfter))))"

section \<open>Multiplication\<close>

text \<open>The double word of two registers.\<close>

definition hilo :: "int32 \<Rightarrow> int32 \<Rightarrow> 64 word" where
  "hilo hi lo = word_of_int (uint hi * 4294967296 + uint lo)"

lemma uint32_add: "uint (a + b :: 32 word) = (if uint a + uint b < 4294967296 then uint a + uint b
    else uint a + uint b - 4294967296)"
  by (simp add: uint_plus_if')

lemma hilo_eqI:
  assumes "x mod 4294967296 = uint hi mod 4294967296" "y = uint lo"
  shows "hilo hi lo = word_of_int (x * 4294967296 + y)"
proof -
  obtain k where "x = uint hi + 4294967296 * k"
    using assms(1) by (metis mod_eq_dvd_iff dvdE diff_add_cancel add.commute)
  then have "word_of_int (x * 4294967296) = word_of_int (uint hi * 4294967296) + word_of_int k * (18446744073709551616 :: 64 word)"
    by (simp add: ring_distribs)
  moreover have "(18446744073709551616 :: 64 word) = 0" by simp
  ultimately show ?thesis using assms(2) by (simp add: hilo_def)
qed

lemma hilo_add:
  fixes lo bLo :: int32
  shows "hilo ((if lo + bLo < bLo then hi + 1 else hi) + bHi) (lo + bLo) = hilo hi lo + hilo bHi bLo"
proof -
  let ?c = "if lo + bLo < bLo then 1 else 0 :: int"
  have lo: "uint (lo + bLo) = uint lo + uint bLo - ?c * 4294967296"
    using uint32_add [of lo bLo] uint32_lt [of lo] uint32_lt [of bLo] by (simp add: word_less_def)
  have "hilo ((if lo + bLo < bLo then hi + 1 else hi) + bHi) (lo + bLo)
      = word_of_int ((uint hi + ?c + uint bHi) * 4294967296 + (uint lo + uint bLo - ?c * 4294967296))"
  proof (rule hilo_eqI)
    show "uint lo + uint bLo - ?c * 4294967296 = uint (lo + bLo)" using lo by simp
  qed (simp add: uint_word_ariths mod_simps)
  then show ?thesis by (simp add: hilo_def algebra_simps)
qed

lemma sign_bit_iff: "(w :: int32) AND 0x80000000 = 0 \<longleftrightarrow> 0 \<le> sint w"
proof -
  have "w AND 0x80000000 \<noteq> 0 \<longleftrightarrow> bit w 31"
    using bit_iff_and_push_bit_not_eq_0 [of w 31] by simp
  also have "\<dots> \<longleftrightarrow> sint w < 0" using bit_last_iff [of w] by simp
  finally show ?thesis by auto
qed

lemma uint32_double: "uint (push_bit 1 w :: 32 word) = (if 0 \<le> sint w then 2 * uint w else 2 * uint w - 4294967296)"
proof -
  have "push_bit 1 w = w + w" by (simp add: push_bit_eq_mult mult.commute)
  then show ?thesis using uint32_add [of w w] sint32 [of w] uint32_lt [of w] by (auto simp: mult.commute)
qed

lemma hilo_double:
  fixes lo :: int32
  shows "hilo (if lo AND 0x80000000 \<noteq> 0 then push_bit 1 hi OR 1 else push_bit 1 hi) (push_bit 1 lo) = 2 * hilo hi lo"
proof -
  let ?c = "if 0 \<le> sint lo then 0 else 1 :: int"
  have o: "push_bit 1 hi OR 1 = 2 * hi + 1" by (simp add: or_one_eq push_bit_eq_mult)
  have "hilo (if lo AND 0x80000000 \<noteq> 0 then push_bit 1 hi OR 1 else push_bit 1 hi) (push_bit 1 lo)
      = word_of_int ((2 * uint hi + ?c) * 4294967296 + (2 * uint lo - ?c * 4294967296))"
  proof (rule hilo_eqI)
    show "2 * uint lo - ?c * 4294967296 = uint (push_bit 1 lo)" using uint32_double [of lo] by simp
  next
    show "(2 * uint hi + ?c) mod 4294967296
        = uint (if lo AND 0x80000000 \<noteq> 0 then push_bit 1 hi OR 1 else push_bit 1 hi) mod 4294967296"
      unfolding o by (simp add: sign_bit_iff uint_word_ariths mod_simps push_bit_eq_mult mult.commute)
  qed
  then show ?thesis by (simp add: hilo_def algebra_simps)
qed

lemma hilo_neg:
  fixes lo :: int32
  shows "hilo (if NOT lo + 1 = 0 then NOT hi + 1 else NOT hi) (NOT lo + 1) = - hilo hi lo"
proof -
  have h: "NOT hi = - hi - 1" "NOT lo + 1 = - lo" by (simp_all add: not_eq_complement)
  show ?thesis
  proof (cases "lo = 0")
    case True
    have "hilo (- hi) 0 = word_of_int (- uint hi * 4294967296 + 0)"
      by (rule hilo_eqI) (auto simp: uint_word_ariths mod_simps)
    then show ?thesis using True h by (simp add: hilo_def)
  next
    case False
    have "uint lo \<noteq> 0" using False by (simp add: uint_0_iff)
    then have n: "uint (- lo) = 4294967296 - uint lo"
      using uint32_lt [of lo] by (simp add: uint_word_ariths zmod_zminus1_eq_if)
    have "hilo (- hi - 1) (- lo) = word_of_int ((- uint hi - 1) * 4294967296 + (4294967296 - uint lo))"
      by (rule hilo_eqI) (simp_all only: n, simp add: uint_word_ariths mod_simps)
    then show ?thesis using False h by (simp add: hilo_def)
  qed
qed

text \<open>The bits of \<open>a\<close> that the loop still has to look at, as a number.\<close>

definition low_bits :: "nat \<Rightarrow> int32 \<Rightarrow> 64 word" where
  "low_bits n a = word_of_int (take_bit n (uint a))"

lemma low_bits_0 [simp]: "low_bits 0 a = 0"
  by (simp add: low_bits_def)

lemma low_bits_1 [simp]: "0 < n \<Longrightarrow> low_bits n 1 = 1"
  by (cases n) (simp_all add: low_bits_def)

lemma low_bits_Suc:
  assumes "n < 32"
  shows "low_bits (Suc n) a = of_bool (odd a) + 2 * low_bits n (signed_drop_bit 1 a)"
proof -
  have "take_bit n (signed_drop_bit 1 a) = take_bit n (drop_bit 1 a)"
    using assms by (intro bit_word_eqI) (auto simp: bit_simps bit_signed_drop_bit_iff)
  then have "take_bit n (uint (signed_drop_bit 1 a)) = take_bit n (uint (drop_bit 1 a))"
    by (metis unsigned_take_bit_eq)
  also have "uint (drop_bit 1 a) = uint a div 2"
    by (simp add: drop_bit_eq_div uint_div)
  moreover have "odd (uint a) \<longleftrightarrow> odd a" using bit_uint_iff [of a 0] by (simp add: bit_0)
  ultimately show ?thesis
    by (simp add: low_bits_def take_bit_Suc mod_2_eq_odd)
qed

lemma and_1_odd: "(a :: int32) AND 1 \<noteq> 0 \<longleftrightarrow> odd a"
  by (simp add: and_one_eq odd_iff_mod_2_eq_one)

lemma one_bit_left: "odd (a :: int32) \<Longrightarrow> a AND 0xfffffffe = 0 \<Longrightarrow> a = 1"
proof -
  assume "odd a" "a AND 0xfffffffe = 0"
  moreover have "a = (a AND 0xfffffffe) OR (a AND 1)"
  proof -
    have n: "(0xfffffffe :: int32) = NOT 1" by simp
    show ?thesis unfolding n by (rule bit_word_eqI) (auto simp only: bit_or_iff bit_and_iff bit_not_iff possible_bit_word)
  qed
  ultimately show ?thesis by (simp add: and_one_eq odd_iff_mod_2_eq_one)
qed

lemma Mult_loop_product:
  "n \<le> 32 \<Longrightarrow> Mult_loop n a bLo bHi lo hi = (hi', lo') \<Longrightarrow>
     hilo hi' lo' = hilo hi lo + hilo bHi bLo * low_bits n a"
proof (induction n arbitrary: a bLo bHi lo hi)
  case (Suc n)
  define L where "L = (if odd a then lo + bLo else lo)"
  define H where "H = (if odd a then (if L < bLo then hi + 1 else hi) + bHi else hi)"
  have HL: "hilo H L = hilo hi lo + hilo bHi bLo * of_bool (odd a)"
    using hilo_add [of lo bLo hi bHi] by (simp add: H_def L_def)
  show ?case
  proof (cases "odd a \<and> a AND 0xfffffffe = 0")
    case True
    then have "a = 1" using one_bit_left by blast
    then show ?thesis using Suc.prems HL True
      by (auto simp: Let_def H_def L_def)
  next
    case False
    have "hilo hi' lo' = hilo H L + 2 * hilo bHi bLo * low_bits n (signed_drop_bit 1 a)"
      using Suc.IH [of "signed_drop_bit 1 a"] Suc.prems False hilo_double [of bLo bHi]
      by (simp add: Let_def H_def L_def and_1_odd del: One_nat_def)
    then show ?thesis using HL low_bits_Suc [of n a] Suc.prems by (simp add: algebra_simps)
  qed
qed simp

lemma uint_abs32: "uint (if sint a < 0 then - a else a :: int32) = \<bar>sint a\<bar>"
proof (cases "sint a < 0")
  case True
  then have "2147483648 \<le> uint a" "sint a = uint a - 4294967296"
    using sint32 [of a] by (auto split: if_splits)
  then show ?thesis
    using True uint32_lt [of a] by (simp add: uint_word_ariths zmod_zminus1_eq_if)
next
  case False
  then show ?thesis using sint32 [of a] uint32_lt [of a] by (auto split: if_splits)
qed

lemma Mult_hilo:
  assumes "Mult a b sgd = (hi, lo)"
  shows "hilo hi lo = word_of_int (if sgd then sint a * sint b else uint a * uint b)"
proof (cases "a = 0 \<or> b = 0")
  case True
  then show ?thesis using assms by (auto simp: Mult_def hilo_def)
next
  case False
  define x y where "x = (if sgd \<and> sint a < 0 then - a else a)" and "y = (if sgd \<and> sint b < 0 then - b else b)"
  obtain H L where HL: "Mult_loop 32 x y 0 0 0 = (H, L)" by fastforce
  have "hilo H L = hilo 0 0 + hilo 0 y * low_bits 32 x" using Mult_loop_product [OF _ HL] by simp
  also have "take_bit 32 (uint x) = uint x" using uint32_lt [of x] by (simp add: take_bit_eq_mod)
  then have "hilo 0 0 + hilo 0 y * low_bits 32 x = word_of_int (uint y * uint x)"
    by (simp add: hilo_def low_bits_def)
  finally have HL': "hilo H L = word_of_int (uint y * uint x)" .
  have m: "(hi, lo) = (if (sgd \<and> sint a < 0) \<noteq> (sgd \<and> sint b < 0)
      then (if NOT L + 1 = 0 then NOT H + 1 else NOT H, NOT L + 1) else (H, L))"
    using assms False HL by (simp add: Mult_def Let_def x_def y_def del: not_iff split: if_splits)
  then have hl: "hilo hi lo = (if (sgd \<and> sint a < 0) \<noteq> (sgd \<and> sint b < 0) then - hilo H L else hilo H L)"
    using hilo_neg [of L H] by (metis prod.inject)
  show ?thesis
  proof (cases sgd)
    case True
    then have "uint x = \<bar>sint a\<bar>" "uint y = \<bar>sint b\<bar>"
      using uint_abs32 by (simp_all add: x_def y_def)
    then show ?thesis using hl HL' True
      by (auto simp: abs_if mult.commute split: if_splits)
  qed (use hl HL' in \<open>simp add: x_def y_def mult.commute\<close>)
qed

lemma int_eq_if_dvd: "m dvd x - y \<Longrightarrow> \<bar>x - y\<bar> < m \<Longrightarrow> x = (y :: int)"
  using dvd_imp_le_int [of "x - y" m] by fastforce

lemma abs_diff_lt: "0 \<le> x \<Longrightarrow> x < m \<Longrightarrow> 0 \<le> y \<Longrightarrow> y < m \<Longrightarrow> \<bar>x - y\<bar> < (m :: int)"
  by linarith

lemma uint_nn: "0 \<le> uint w" by simp

lemma sint32_bounds: "- 2147483648 \<le> sint (w :: int32)" "sint (w :: int32) < 2147483648"
  using sint_ge [of w] sint_lt [of w] by simp_all

lemma Mult_congruent:
  assumes "Mult a b sgd = (hi, lo)"
  shows "2 ^ 64 dvd (uint hi * 2 ^ 32 + uint lo) - (if sgd then sint a * sint b else uint a * uint b)"
proof -
  have "word_of_int (uint hi * 2 ^ 32 + uint lo) =
      (word_of_int (if sgd then sint a * sint b else uint a * uint b) :: 64 word)"
    using Mult_hilo [OF assms] by (simp add: hilo_def)
  then have "(uint hi * 2 ^ 32 + uint lo) mod 2 ^ 64 = (if sgd then sint a * sint b else uint a * uint b) mod 2 ^ 64"
    unfolding word_of_int_eq_iff take_bit_eq_mod by simp
  then show ?thesis by (simp only: mod_eq_dvd_iff)
qed

section \<open>Overflow\<close>

lemma sint_xor: "sint (a XOR b :: int32) < 0 \<longleftrightarrow> (sint a < 0) \<noteq> (sint b < 0)"
  using bit_last_iff [of "a XOR b"] bit_last_iff [of a] bit_last_iff [of b] by (simp add: bit_xor_iff)

lemma xor_sign: "(a XOR b) AND SIGN_BIT = 0 \<longleftrightarrow> (sint a < 0) = (sint b < 0)"
  unfolding SIGN_BIT_def sign_bit_iff using sint_xor [of a b] by linarith

abbreviation fits :: "int \<Rightarrow> bool" where
  "fits k \<equiv> - (2 ^ 31) \<le> k \<and> k < 2 ^ 31"

text \<open>The value of a sum or difference that leaves the range by less than one turn.\<close>

lemma wrap32:
  assumes "- 4294967296 \<le> s" "s < 4294967296"
  shows "signed_take_bit 31 s =
    (if s < - 2147483648 then s + 4294967296 else if 2147483648 \<le> s then s - 4294967296 else s :: int)"
proof -
  have "(s + 2147483648) mod 4294967296 = (if s < - 2147483648 then s + 6442450944
      else if 2147483648 \<le> s then s - 2147483648 else s + 2147483648)"
    using mod_pos_pos_trivial [of "s + 6442450944" 4294967296]
      mod_pos_pos_trivial [of "s - 2147483648" 4294967296]
      mod_pos_pos_trivial [of "s + 2147483648" 4294967296]
      mod_add_self2 [of "s + 2147483648" 4294967296] mod_add_self2 [of "s - 2147483648" 4294967296] assms
    by (auto simp: add.commute)
  then show ?thesis by (simp add: signed_take_bit_eq_take_bit_shift take_bit_eq_mod)
qed

lemma add_overflow:
  "(sint a < 0) = (sint b < 0) \<and> (sint a < 0) \<noteq> (sint (a + b :: int32) < 0) \<longleftrightarrow> \<not> fits (sint a + sint b)"
  using sint32_bounds [of a] sint32_bounds [of b] wrap32 [of "sint a + sint b"]
  by (auto simp: sint_word_add)

lemma sub_overflow:
  "(sint a < 0) \<noteq> (sint b < 0) \<and> (sint a < 0) \<noteq> (sint (a - b :: int32) < 0) \<longleftrightarrow> \<not> fits (sint a - sint b)"
  using sint32_bounds [of a] sint32_bounds [of b] wrap32 [of "sint a - sint b"]
  by (auto simp: sint_word_diff)

lemma add_of_int: "(a + b :: int32) = word_of_int (sint a + sint b)"
  by simp

lemma sub_of_int: "(a - b :: int32) = word_of_int (sint a - sint b)"
  by simp

section \<open>Decoding\<close>

lemma and_mask_less: "unat ((w :: int32) AND 0x1f) < 32" "unat (w AND 0x3f) < 64"
proof -
  have m: "(0x1f :: int32) = mask 5" "(0x3f :: int32) = mask 6" by (simp_all add: mask_eq_exp_minus_1)
  show "unat (w AND 0x1f) < 32" unfolding m unat_and_mask by simp
  show "unat (w AND 0x3f) < 64" unfolding m unat_and_mask by simp
qed

text \<open>The opcodes for which the switch of \<open>OneInstruction\<close> has a case.\<close>

definition handled :: "nat set" where
  "handled = {1..14} \<union> {16..29} \<union> {31, 32} \<union> {34..40} \<union> {42..63}"

lemma special_handled: "n < 64 \<Longrightarrow> specialTable ! n \<in> handled"
proof -
  assume "n < 64"
  then have "specialTable ! n \<in> set specialTable" by (intro nth_mem) (simp add: specialTable_def)
  moreover have "set specialTable \<subseteq> handled" by (simp add: specialTable_def handled_def)
  ultimately show ?thesis by blast
qed

lemma opTable_handled: "n < 64 \<Longrightarrow> fst (opTable ! n) \<in> handled \<union> {SPECIAL, BCOND}"
proof -
  assume "n < 64"
  then have "opTable ! n \<in> set opTable" by (intro nth_mem) (simp add: opTable_def)
  moreover have "fst ` set opTable \<subseteq> handled \<union> {SPECIAL, BCOND}" by (simp add: opTable_def handled_def)
  ultimately show ?thesis by blast
qed

lemma Decode_handled: "opCode (Decode w) \<in> handled"
proof -
  obtain op fmt where t: "opTable ! unat (drop_bit 26 w AND 0x3f) = (op, fmt)" by fastforce
  have op: "op \<in> handled \<or> op = SPECIAL \<or> op = BCOND"
    using opTable_handled [OF and_mask_less(2), of "drop_bit 26 w"] t by auto
  have b: "{OP_BLTZ, OP_BGEZ, OP_BLTZAL, OP_BGEZAL, OP_UNIMP} \<subseteq> handled" by (simp add: handled_def)
  consider "op = SPECIAL" | "op = BCOND" | "op \<noteq> SPECIAL" "op \<noteq> BCOND" "op \<in> handled" using op by blast
  then show ?thesis
  proof cases
    case 1
    then show ?thesis using t special_handled [OF and_mask_less(2), of w] by (simp add: Decode_def)
  next
    case 2
    then show ?thesis using t b by (simp add: Decode_def Let_def)
  next
    case 3
    then show ?thesis using t by (simp add: Decode_def)
  qed
qed

lemma Decode_regs:
  "rs_of (Decode w) < NumGPRegs" "rt_of (Decode w) < NumGPRegs" "rd_of (Decode w) < NumGPRegs"
  by (simp_all add: Decode_def Let_def and_mask_less split: prod.splits)

section \<open>One instruction\<close>

text \<open>
  While an instruction runs, register 0 may hold a value other than zero, but the pending load
  names a general register, and the machine has a page table.
\<close>

definition paged :: "'a machine_scheme \<Rightarrow> bool" where
  "paged m \<longleftrightarrow> (\<exists>es. linear m es)"

definition running :: "'a machine_scheme \<Rightarrow> bool" where
  "running m \<longleftrightarrow> unat (registers m LoadReg) < NumGPRegs \<and> paged m"

definition ready :: "'a machine_scheme \<Rightarrow> bool" where
  "ready m \<longleftrightarrow> regs_wf m \<and> paged m"

text \<open>
  What the simulator needs of the kernel: the handler returns with a machine that is ready, and
  a page fault is served, so that the reference is permitted when it is tried again.
\<close>

definition good_handler :: "'a handler \<Rightarrow> bool" where
  "good_handler h \<longleftrightarrow> (\<forall>ex m. ready m \<longrightarrow> (\<exists>m'. h ex m = Inr m' \<and> ready m'
     \<and> (ex = PageFaultException \<longrightarrow> (\<forall>es es' sz w. linear m es \<longrightarrow> linear m' es' \<longrightarrow>
          check_ref m es (registers m BadVAddrReg) sz w = PageFaultException \<longrightarrow>
          check_ref m' es' (registers m BadVAddrReg) sz w = NoException))))"

lemma ready_running: "ready m \<Longrightarrow> running m"
  by (simp add: ready_def running_def regs_wf_def)

lemma linear_cong:
  "tlb m' = tlb m \<Longrightarrow> pageTable m' = pageTable m \<Longrightarrow> pageTableSize m' = pageTableSize m \<Longrightarrow>
   tables m' = tables m \<Longrightarrow> linear m' es = linear m es"
  by (simp add: linear_def)

lemma linear_status [simp]: "linear (m\<lparr>status := s\<rparr>) es = linear m es"
  by (rule linear_cong) simp_all

lemma linear_memory [simp]: "linear (m\<lparr>mainMemory := b\<rparr>) es = linear m es"
  by (rule linear_cong) simp_all

lemma linear_set_reg [simp]: "linear (set_reg m r v) es = linear m es"
  by (rule linear_cong) simp_all

lemma linear_delayed [simp]: "linear (delayed m nr nv) es = linear m es"
  by (rule linear_cong) (simp_all add: delayed_def)

lemma check_ref_cong:
  "pageTableSize m' = pageTableSize m \<Longrightarrow> check_ref m' es va sz w = check_ref m es va sz w"
  by (simp add: check_ref_def)

lemma DelayedLoad_running:
  "running m \<Longrightarrow> DelayedLoad m nr nv = Inr (delayed m nr nv)"
  by (simp add: DelayedLoad_def running_def Let_def set_reg_def delayed_def)

lemma delayed_ready: "running m \<Longrightarrow> unat nr < NumGPRegs \<Longrightarrow> ready (delayed m nr nv)"
  by (auto simp: ready_def running_def paged_def delayed_regs_wf)

lemma ready_status [simp]: "ready (m\<lparr>status := s\<rparr>) = ready m"
  by (simp add: ready_def regs_wf_def paged_def)

lemma RaiseException_good:
  assumes "good_handler h" "running m"
  obtains m' where "RaiseException h m ex bad = Inr m'" "ready m'"
    "\<And>es es' sz w. ex = PageFaultException \<Longrightarrow> linear m es \<Longrightarrow> linear m' es' \<Longrightarrow>
       check_ref m es bad sz w = PageFaultException \<Longrightarrow> check_ref m' es' bad sz w = NoException"
proof -
  define n where "n = (delayed (set_reg m BadVAddrReg bad) 0 0)\<lparr>status := SystemMode\<rparr>"
  have run: "running (set_reg m BadVAddrReg bad)"
    using assms(2) by (auto simp: running_def paged_def)
  then have "ready n" unfolding n_def ready_status by (rule delayed_ready) simp
  moreover have bad: "registers n BadVAddrReg = bad"
    using run by (auto simp: n_def delayed_def running_def)
  moreover have "check_ref n es va sz w = check_ref m es va sz w" "linear n es = linear m es" for es va sz w
    by (auto simp: n_def delayed_def check_ref_def linear_def)
  ultimately obtain m' where m': "h ex n = Inr m'" "ready m'"
    "ex = PageFaultException \<Longrightarrow> linear m es \<Longrightarrow> linear m' es' \<Longrightarrow>
       check_ref m es bad sz w = PageFaultException \<Longrightarrow> check_ref m' es' bad sz w = NoException" for es es' sz w
    using assms(1) unfolding good_handler_def by metis
  show ?thesis
  proof (rule that)
    show "RaiseException h m ex bad = Inr (m'\<lparr>status := UserMode\<rparr>)"
      using m'(1) DelayedLoad_running [OF run] by (simp add: RaiseException_def n_def)
  qed (use m' in \<open>simp_all add: check_ref_cong [of "m'\<lparr>status := UserMode\<rparr>" m']\<close>)
qed

lemma access_good:
  assumes g: "good_handler h" and run: "running m" and sz: "sz \<in> {1, 2, 4}"
  obtains m' r where "access_address h m va sz w = Inr (m', r)" "running m'" "regs_wf m \<longrightarrow> regs_wf m'"
    "r = None \<longrightarrow> ready m'"
proof -
  obtain es where lin: "linear m es" using run by (auto simp: running_def paged_def)
  have ok: "running (touched m es va w)"
    using run linear_touched [OF lin, of va w] by (auto simp: running_def paged_def)
  show ?thesis
  proof (cases "check_ref m es va sz w = NoException")
    case True
    show ?thesis
      by (rule that [OF access_allowed [OF lin sz True]]) (use ok in \<open>auto simp: regs_wf_def\<close>)
  next
    case False
    obtain m1 where m1: "RaiseException h m (check_ref m es va sz w) va = Inr m1" "ready m1"
        "\<And>es'. check_ref m es va sz w = PageFaultException \<Longrightarrow> linear m1 es' \<Longrightarrow>
           check_ref m1 es' va sz w = NoException"
      using RaiseException_good [OF g run] lin by metis
    show ?thesis
    proof (cases "check_ref m es va sz w = PageFaultException")
      case True
      obtain es1 where l1: "linear m1 es1" using m1(2) by (auto simp: ready_def paged_def)
      have c1: "check_ref m1 es1 va sz w = NoException" using m1(3) True l1 by blast
      have "access_address h m va sz w = Inr (touched m1 es1 va w, Some (unat (of_nat (phys es1 va) :: int32)))"
        using m1(1) True l1 c1 lin sz by (simp add: access_address_def Translate_linear)
      moreover have "running (touched m1 es1 va w)" "regs_wf (touched m1 es1 va w)"
        using m1(2) linear_touched [OF l1, of va w]
        by (auto simp: running_def ready_def paged_def regs_wf_def)
      ultimately show ?thesis using that by blast
    next
      case no: False
      have "access_address h m va sz w = Inr (m1, None)"
        using m1(1) False no lin sz by (simp add: access_address_def Translate_linear)
      then show ?thesis using that m1(2) ready_running by (metis ready_def)
    qed
  qed
qed

lemma ReadMem_good:
  assumes "good_handler h" "running m" "sz \<in> {1, 2, 4}"
  obtains m' r where "ReadMem h m va sz = Inr (m', r)" "running m'" "r = None \<longrightarrow> ready m'"
proof -
  obtain m' r where a: "access_address h m va sz False = Inr (m', r)" "running m'" "r = None \<longrightarrow> ready m'"
    using access_good [OF assms] by metis
  show ?thesis
  proof (cases r)
    case None
    with a that [of m' None] show ?thesis by (simp add: ReadMem_def)
  next
    case (Some p)
    with a assms(3) have "\<exists>v. ReadMem h m va sz = Inr (m', Some v)" by (auto simp: ReadMem_def)
    with a that show ?thesis by blast
  qed
qed

lemma WriteMem_good:
  assumes "good_handler h" "running m" "sz \<in> {1, 2, 4}"
  obtains m' ok where "WriteMem h m va sz v = Inr (m', ok)" "running m'" "\<not> ok \<longrightarrow> ready m'"
proof -
  obtain m' r where a: "access_address h m va sz True = Inr (m', r)" "running m'" "r = None \<longrightarrow> ready m'"
    using access_good [OF assms] by metis
  show ?thesis
  proof (cases r)
    case None
    with a that [of m' False] show ?thesis by (simp add: WriteMem_def)
  next
    case (Some p)
    with a assms(3) have "\<exists>b. WriteMem h m va sz v = Inr (m'\<lparr>mainMemory := b\<rparr>, True)"
      by (auto simp: WriteMem_def)
    moreover have "running (m'\<lparr>mainMemory := b\<rparr>)" for b
      using a(2) by (simp add: running_def paged_def)
    ultimately show ?thesis using that by blast
  qed
qed

text \<open>The result of a case of the switch: it returns, ready to go on or after a trap.\<close>

definition exec_good :: "'a exec \<Rightarrow> bool" where
  "exec_good r \<longleftrightarrow> (\<exists>m t. r = Inr (m, t) \<and> running m
     \<and> (case t of None \<Rightarrow> ready m | Some (pc, nr, nv) \<Rightarrow> unat nr < NumGPRegs))"

lemma running_set_reg:
  "running m \<Longrightarrow> r \<noteq> LoadReg \<Longrightarrow> running (set_reg m r v)"
  by (simp add: running_def paged_def)

lemma go_on_good: "running m \<Longrightarrow> exec_good (go_on m pc)"
  by (simp add: exec_good_def go_on_def)

lemma trap_good: "good_handler h \<Longrightarrow> running m \<Longrightarrow> exec_good (trap h m ex bad)"
  by (rule RaiseException_good [of h m ex bad]) (auto simp: trap_def exec_good_def ready_running)

lemma load_good:
  assumes "good_handler h" "running m" "sz \<in> {1, 2, 4}" "rt < NumGPRegs"
  shows "exec_good (bindR (ReadMem h m va sz) (\<lambda>(m, r). case r of None \<Rightarrow> Inr (m, None)
    | Some v \<Rightarrow> Inr (m, Some (pc, of_nat rt, f m v))))"
proof -
  have rt: "unat (of_nat rt :: int32) < NumGPRegs" using assms(4) by (simp add: of_nat_inverse)
  obtain m' r where "ReadMem h m va sz = Inr (m', r)" "running m'" "r = None \<longrightarrow> ready m'"
    using ReadMem_good [OF assms(1-3), of va] by blast
  with rt show ?thesis by (cases r) (simp_all add: exec_good_def)
qed

lemma store_to_good:
  assumes "good_handler h" "running m" "sz \<in> {1, 2, 4}"
  shows "exec_good (store_to h m va sz v pc)"
  by (rule WriteMem_good [OF assms, of va v]) (auto simp: store_to_def go_on_good, auto simp: exec_good_def)

lemma if_good: "(c \<Longrightarrow> exec_good a) \<Longrightarrow> (\<not> c \<Longrightarrow> exec_good b) \<Longrightarrow> exec_good (if c then a else b)"
  by simp

lemmas exec_intros = if_good go_on_good trap_good store_to_good running_set_reg

lemma exec_add_good:
  assumes "good_handler h" "running m" "rt_of i < NumGPRegs" "rd_of i < NumGPRegs" "opCode i \<in> {OP_ADD, OP_ADDI, OP_ADDIU, OP_ADDU, OP_AND, OP_ANDI}"
  shows "exec_good (exec_add h m i pc)"
  unfolding exec_add_def Let_def by (intro exec_intros assms; use assms in simp)

lemma exec_branch_good:
  assumes "running m" "opCode i \<in> {OP_BEQ, OP_BGEZAL, OP_BGEZ, OP_BGTZ, OP_BLEZ, OP_BLTZAL, OP_BLTZ, OP_BNE}"
  shows "exec_good (exec_branch m i pc)"
  unfolding exec_branch_def Let_def by (intro exec_intros assms; use assms in simp)

lemma exec_jump_good:
  assumes "running m" "rd_of i < NumGPRegs" "opCode i \<in> {OP_JAL, OP_J, OP_JALR, OP_JR}"
  shows "exec_good (exec_jump m i pc)"
  unfolding exec_jump_def Let_def by (intro exec_intros assms; use assms in simp)

lemma exec_or_good:
  assumes "running m" "rt_of i < NumGPRegs" "rd_of i < NumGPRegs" "opCode i \<in> {OP_NOR, OP_OR, OP_ORI}"
  shows "exec_good (exec_or m i pc)"
  unfolding exec_or_def Let_def by (intro exec_intros assms; use assms in simp)

lemma exec_store_good:
  assumes "good_handler h" "running m" "opCode i \<in> {OP_SB, OP_SH}"
  shows "exec_good (exec_store h m i pc)"
  unfolding exec_store_def Let_def by (intro exec_intros assms; use assms in simp)

lemma exec_shift_left_good:
  assumes "running m" "rd_of i < NumGPRegs" "opCode i \<in> {OP_SLL, OP_SLLV}"
  shows "exec_good (exec_shift_left m i pc)"
  unfolding exec_shift_left_def Let_def by (intro exec_intros assms; use assms in simp)

lemma exec_slt_good:
  assumes "running m" "rt_of i < NumGPRegs" "rd_of i < NumGPRegs" "opCode i \<in> {OP_SLT, OP_SLTI, OP_SLTIU, OP_SLTU}"
  shows "exec_good (exec_slt m i pc)"
  unfolding exec_slt_def Let_def by (intro exec_intros assms; use assms in simp)

lemma exec_shift_right_good:
  assumes "running m" "rd_of i < NumGPRegs" "opCode i \<in> {OP_SRA, OP_SRAV, OP_SRL, OP_SRLV}"
  shows "exec_good (exec_shift_right m i pc)"
  unfolding exec_shift_right_def Let_def by (intro exec_intros assms; use assms in simp)

lemma exec_sub_good:
  assumes "good_handler h" "running m" "rd_of i < NumGPRegs" "opCode i \<in> {OP_SUB, OP_SUBU, OP_SW}"
  shows "exec_good (exec_sub h m i pc)"
  unfolding exec_sub_def Let_def by (intro exec_intros assms; use assms in simp)

lemma exec_div_good:
  assumes "running m" "opCode i \<in> {OP_DIV, OP_DIVU}"
    "\<not> (opCode i = OP_DIV \<and> registers m (rs_of i) = SIGN_BIT \<and> registers m (rt_of i) = -1)"
  shows "exec_good (exec_div m i pc)"
  unfolding exec_div_def Let_def by (intro exec_intros assms; use assms in simp)

lemma exec_load_good:
  assumes "good_handler h" "running m" "rt_of i < NumGPRegs"
    "opCode i \<in> {OP_LB, OP_LBU, OP_LH, OP_LHU, OP_LUI, OP_LW}"
  shows "exec_good (exec_load h m i pc)"
  unfolding exec_load_def Let_def
  by (intro exec_intros load_good [where f = "\<lambda>_ v. f v" for f] assms; use assms in simp)

lemma exec_load_part_good:
  assumes "good_handler h" "running m" "rt_of i < NumGPRegs" "opCode i \<in> {OP_LWL, OP_LWR}"
  shows "exec_good (exec_load_part h m i pc)"
  unfolding exec_load_part_def Let_def
  by (intro exec_intros load_good [where f = "\<lambda>m v. g (pending_value m (rt_of i)) v" for g] assms;
      use assms in simp)

lemma exec_hilo_good:
  assumes "running m" "rd_of i < NumGPRegs"
    "opCode i \<in> {OP_MFHI, OP_MFLO, OP_MTHI, OP_MTLO, OP_MULT, OP_MULTU}"
  shows "exec_good (exec_hilo m i pc)"
  unfolding exec_hilo_def Let_def case_prod_beta by (intro exec_intros assms; use assms in simp)

lemma exec_store_part_good:
  assumes "good_handler h" "running m" "opCode i \<in> {OP_SWL, OP_SWR}"
  shows "exec_good (exec_store_part h m i pc)"
proof -
  have "exec_good (bindR (ReadMem h m va 4) (\<lambda>(m, r). case r of None \<Rightarrow> Inr (m, None)
      | Some v \<Rightarrow> store_to h m va 4 (f v m) pc))" for va f
  proof -
    obtain m' r where "ReadMem h m va 4 = Inr (m', r)" "running m'" "r = None \<longrightarrow> ready m'"
      using ReadMem_good [OF assms(1,2), of 4 va] by blast
    then show ?thesis using store_to_good [OF assms(1)] by (cases r) (simp_all add: exec_good_def [of "Inr _"])
  qed
  then show ?thesis using assms(3) unfolding exec_store_part_def Let_def by (intro if_good) simp_all
qed

lemma exec_last_good:
  assumes "good_handler h" "running m" "rt_of i < NumGPRegs" "rd_of i < NumGPRegs"
    "opCode i \<in> {OP_XOR, OP_XORI, OP_SYSCALL, OP_UNIMP, OP_RES}"
  shows "exec_good (exec_last h m i pc)"
  unfolding exec_last_def Let_def by (intro exec_intros assms; use assms in simp)

lemma handled_last:
  assumes "op \<in> handled" "op \<notin> {OP_ADD, OP_ADDI, OP_ADDIU, OP_ADDU, OP_AND, OP_ANDI}"
    "op \<notin> {OP_BEQ, OP_BGEZAL, OP_BGEZ, OP_BGTZ, OP_BLEZ, OP_BLTZAL, OP_BLTZ, OP_BNE}"
    "op \<notin> {OP_DIV, OP_DIVU}" "op \<notin> {OP_JAL, OP_J, OP_JALR, OP_JR}"
    "op \<notin> {OP_LB, OP_LBU, OP_LH, OP_LHU, OP_LUI, OP_LW}" "op \<notin> {OP_LWL, OP_LWR}"
    "op \<notin> {OP_MFHI, OP_MFLO, OP_MTHI, OP_MTLO, OP_MULT, OP_MULTU}" "op \<notin> {OP_NOR, OP_OR, OP_ORI}"
    "op \<notin> {OP_SB, OP_SH}" "op \<notin> {OP_SLL, OP_SLLV}" "op \<notin> {OP_SLT, OP_SLTI, OP_SLTIU, OP_SLTU}"
    "op \<notin> {OP_SRA, OP_SRAV, OP_SRL, OP_SRLV}" "op \<notin> {OP_SUB, OP_SUBU, OP_SW}" "op \<notin> {OP_SWL, OP_SWR}"
  shows "op \<in> {OP_XOR, OP_XORI, OP_SYSCALL, OP_UNIMP, OP_RES}"
  using assms unfolding handled_def Un_iff atLeastAtMost_iff insert_iff empty_iff by presburger

lemma execute_good:
  assumes "good_handler h" "running m" "opCode i \<in> handled"
    "rt_of i < NumGPRegs" "rd_of i < NumGPRegs"
    "\<not> (opCode i = OP_DIV \<and> registers m (rs_of i) = SIGN_BIT \<and> registers m (rt_of i) = -1)"
  shows "exec_good (execute h m i pc)"
  unfolding execute_def Let_def
  by (intro if_good exec_add_good exec_branch_good exec_div_good exec_jump_good exec_load_good
      exec_load_part_good exec_hilo_good exec_or_good exec_store_good exec_shift_left_good
      exec_slt_good exec_shift_right_good exec_sub_good exec_store_part_good exec_last_good
      handled_last assms; assumption)

lemma ready_advance_pc: "ready m \<Longrightarrow> ready (advance_pc m pc)"
  by (auto simp: ready_def advance_pc_def Let_def regs_wf_def paged_def)

lemma OneInstruction_good:
  assumes "good_handler h" "ready m"
  obtains m1 r where "ReadMem h m (registers m PCReg) 4 = Inr (m1, r)"
    "r = None \<or> \<not> (opCode (Decode (the r)) = OP_DIV
        \<and> registers m1 (rs_of (Decode (the r))) = SIGN_BIT \<and> registers m1 (rt_of (Decode (the r))) = -1)
     \<Longrightarrow> \<exists>m'. OneInstruction h m = Inr m' \<and> ready m'"
proof -
  obtain m1 r where r: "ReadMem h m (registers m PCReg) 4 = Inr (m1, r)" "running m1" "r = None \<longrightarrow> ready m1"
    using ReadMem_good [OF assms(1) ready_running [OF assms(2)], of 4 "registers m PCReg"] by blast
  have "\<exists>m'. OneInstruction h m = Inr m' \<and> ready m'"
    if c: "r = None \<or> \<not> (opCode (Decode (the r)) = OP_DIV
        \<and> registers m1 (rs_of (Decode (the r))) = SIGN_BIT \<and> registers m1 (rt_of (Decode (the r))) = -1)"
  proof (cases r)
    case None
    then show ?thesis using r by (simp add: OneInstruction_def)
  next
    case (Some w)
    let ?x = "execute h m1 (Decode w) (registers m1 NextPCReg + 4)"
    have "exec_good ?x"
      using execute_good [OF assms(1) r(2) Decode_handled Decode_regs(2,3)] c Some by simp
    then obtain m2 t where t: "?x = Inr (m2, t)" "running m2"
        "case t of None \<Rightarrow> ready m2 | Some (pc, nr, nv) \<Rightarrow> unat nr < NumGPRegs"
      unfolding exec_good_def by blast
    show ?thesis
    proof (cases t)
      case None
      then show ?thesis using r Some t by (simp add: OneInstruction_def)
    next
      case fin: (Some x)
      obtain pc nr nv where x: "x = (pc, nr, nv)" by (cases x)
      have "ready (advance_pc (delayed m2 nr nv) pc)"
        using t(2,3) fin x by (intro ready_advance_pc delayed_ready) simp_all
      then show ?thesis
        using r Some t fin x DelayedLoad_running [OF t(2)] by (simp add: OneInstruction_def)
    qed
  qed
  with r(1) that show ?thesis by blast
qed

text \<open>A handler that brings every missing page into frame 5, for the witnesses.\<close>

definition serve :: "unit handler" where
  "serve ex m = Inr (if ex = PageFaultException
     then table_set m (the (pageTable m)) (page_no (registers m BadVAddrReg)) page0 else m)"

lemma linear_unique: "linear m es \<Longrightarrow> linear m es' \<Longrightarrow> es = es'"
  by (auto simp: linear_def)

lemma good_serve: "good_handler serve"
  unfolding good_handler_def
proof (intro allI impI)
  fix ex :: exception_type and m :: machine
  assume rdy: "ready m"
  then obtain es t where es: "linear m es" "pageTable m = Some t" "tables m t = Some es"
    by (auto simp: ready_def paged_def linear_def)
  let ?p = "page_no (registers m BadVAddrReg)"
  define m' where "m' = table_set m t ?p page0"
  have l: "linear m' (es[?p := page0])"
    using es by (auto simp: linear_def m'_def table_set_def)
  have "ready m'" using rdy l by (auto simp: ready_def paged_def regs_wf_def m'_def table_set_def)
  moreover have "check_ref m' es' (registers m BadVAddrReg) sz w = NoException"
    if "linear m es1" "linear m' es'" "check_ref m es1 (registers m BadVAddrReg) sz w = PageFaultException"
    for es1 es' sz w
  proof -
    have "es1 = es" "es' = es[?p := page0]" using that es(1) l linear_unique by blast+
    then show ?thesis using that(3) es(1)
      by (auto simp: check_ref_def Let_def linear_def m'_def table_set_def page0_def
        NumPhysPages_def split: if_splits)
  qed
  moreover have "serve ex m = Inr (if ex = PageFaultException then m' else m)"
    using es by (simp add: serve_def m'_def)
  ultimately show "\<exists>m'. serve ex m = Inr m' \<and> ready m' \<and> (ex = PageFaultException \<longrightarrow>
      (\<forall>es es' sz w. linear m es \<longrightarrow> linear m' es' \<longrightarrow>
        check_ref m es (registers m BadVAddrReg) sz w = PageFaultException \<longrightarrow>
        check_ref m' es' (registers m BadVAddrReg) sz w = NoException))"
    using rdy by (cases "ex = PageFaultException") auto
qed

lemma ready2: "ready machine2"
  using linear2 by (auto simp: ready_def paged_def regs_wf_def machine2_def Machine_new_def)

section \<open>Parts of words\<close>

lemma part_masks:
  "(0xff :: int32) = mask 8" "(0xffff :: int32) = mask 16" "(0xffffff :: int32) = mask 24"
  "(0xffffff00 :: int32) = NOT (mask 8)" "(0xffff0000 :: int32) = NOT (mask 16)"
  "(0xff000000 :: int32) = NOT (mask 24)"
  by (simp_all add: mask_eq_exp_minus_1)

lemmas part_bits = bit_or_iff bit_and_iff bit_not_iff bit_mask_iff bit_push_bit_iff
  bit_signed_drop_bit_iff possible_bit_word

lemma less4: "(s :: nat) < 4 \<Longrightarrow> s = 0 \<or> s = 1 \<or> s = 2 \<or> s = 3"
  by presburger

lemma bit_LWL:
  assumes "s < 4" "n < 32"
  shows "bit (LWL_value s old v) n \<longleftrightarrow> (if n < 8 * s then bit old n else bit v (n - 8 * s))"
  using less4 [OF assms(1)] assms(2)
  unfolding LWL_value_def part_masks
  by (elim disjE) (auto simp: part_bits add.commute)

lemma bit_LWR:
  assumes "s < 4" "n < 32"
  shows "bit (LWR_value s old v) n \<longleftrightarrow> (if n < 8 * (s + 1) then bit v (n + 8 * (3 - s)) else bit old n)"
  using less4 [OF assms(1)] assms(2)
  unfolding LWR_value_def part_masks
  by (elim disjE) (auto simp: part_bits add.commute)

lemma bit_SWL:
  assumes "s < 4" "n < 32"
  shows "bit (SWL_value s v r) n \<longleftrightarrow> (if n + 8 * s < 32 then bit r (n + 8 * s) else bit v n)"
  using less4 [OF assms(1)] assms(2)
  unfolding SWL_value_def part_masks
  by (elim disjE) (auto simp: part_bits add.commute)

lemma bit_SWR:
  assumes "s < 4" "n < 32"
  shows "bit (SWR_value s v r) n \<longleftrightarrow> (if n < 8 * (3 - s) then bit v n else bit r (n - 8 * (3 - s)))"
  using less4 [OF assms(1)] assms(2)
  unfolding SWR_value_def part_masks
  by (elim disjE) (auto simp: part_bits add.commute)

lemma bit_get32:
  assumes "n < 32"
  shows "bit (get32 b p) n \<longleftrightarrow> bit (b (p + n div 8)) (n mod 8)"
proof -
  define k j where "k = n div 8" and "j = n mod 8"
  have n: "n = 8 * k + j" "j < 8" "k < 4" using assms by (auto simp: k_def j_def)
  have "bit (get32 b p) (8 * k + j) \<longleftrightarrow> bit (b (p + k)) j"
    using less4 [OF n(3)] n(2)
    by (elim disjE) (auto simp: get32_def bit_simps not_le dest: bit_imp_le_length)
  then show ?thesis by (simp add: n(1)) (simp add: k_def j_def)
qed

lemma put32_eq:
  "put32 b p w x = (if p \<le> x \<and> x < p + 4 then ucast (drop_bit (8 * (x - p)) w) else b x)"
proof (cases "p \<le> x \<and> x < p + 4")
  case True
  then have "x = p \<or> x = p + 1 \<or> x = p + 2 \<or> x = p + 3" by linarith
  with True show ?thesis by (auto simp: put32_def)
qed (auto simp: put32_def)

text \<open>
  The word at any address is made of a word at a multiple of four and the next one.
\<close>

lemma unaligned_split:
  fixes p :: nat
  assumes "p mod 4 \<noteq> 0"
  shows "(p + 3) mod 4 = p mod 4 - 1" "p + 3 - (p + 3) mod 4 = p - p mod 4 + 4"
proof -
  define q k where "q = p div 4" and "k = p mod 4"
  have p: "p = 4 * q + k" and k: "k < 4" "k \<noteq> 0" using assms by (auto simp: q_def k_def)
  have "(4 * q + k + 3) mod 4 = k - 1" using less4 [OF k(1)] k(2) by (elim disjE) auto
  then show "(p + 3) mod 4 = p mod 4 - 1" "p + 3 - (p + 3) mod 4 = p - p mod 4 + 4"
    using k by (simp_all add: p)
qed

lemma unaligned_load:
  "LWL_value (3 - (p + 3) mod 4)
     (LWR_value (3 - p mod 4) old (get32 b (p - p mod 4))) (get32 b (p + 3 - (p + 3) mod 4)) = get32 b p"
    (is "?l = _")
proof (rule bit_word_eqI)
  fix n
  assume "n < LENGTH(32)"
  then have n: "n < 32" by simp
  define k where "k = p mod 4"
  have k: "k < 4" by (simp add: k_def)
  show "bit ?l n = bit (get32 b p) n"
  proof (cases "k = 0")
    case True
    then have "(p + 3) mod 4 = 3" "p mod 4 = 0" unfolding k_def by presburger+
    then show ?thesis using n by (simp add: LWL_value_def)
  next
    case False
    have pos: "p - k + (n + 8 * k) div 8 = p + n div 8" "(n + 8 * k) mod 8 = n mod 8" for n
      by (auto simp: k_def)
    note sp = unaligned_split [of p, folded k_def, OF False]
    have s: "3 - (k - 1) = 4 - k" using False k by simp
    have kp: "4 + p - k = p - k + 4" by (simp add: k_def)
    have "bit ?l n \<longleftrightarrow> (if n < 8 * (4 - k) then bit (get32 b (p - k)) (n + 8 * k)
        else bit (get32 b (p - k + 4)) (n - 8 * (4 - k)))"
      using n k False by (auto simp: sp s kp k_def [symmetric] bit_LWL bit_LWR)
    also have "\<dots> \<longleftrightarrow> bit (b (p + n div 8)) (n mod 8)"
    proof (cases "n < 8 * (4 - k)")
      case True
      then show ?thesis using k pos by (simp add: bit_get32)
    next
      case less: False
      then obtain j where j: "n = 8 * (4 - k) + j" by (metis le_Suc_ex not_less)
      then have e: "p + n div 8 = p - k + 4 + j div 8" "n mod 8 = j mod 8"
        using k by (auto simp: k_def)
      have "bit (get32 b (p - k + 4)) (n - 8 * (4 - k)) \<longleftrightarrow> bit (b (p - k + 4 + j div 8)) (j mod 8)"
        using j n by (simp add: bit_get32)
      then show ?thesis using less unfolding e by simp
    qed
    finally show ?thesis using n by (simp add: bit_get32)
  qed
qed

lemma bit_put32:
  "i < 8 \<Longrightarrow> bit (put32 b p w x) i \<longleftrightarrow> (if p \<le> x \<and> x < p + 4 then bit w (8 * (x - p) + i) else bit (b x) i)"
  by (auto simp: put32_eq bit_simps dest: bit_imp_le_length)

lemma bit_get32_byte: "j < 4 \<Longrightarrow> i < 8 \<Longrightarrow> bit (get32 b p) (8 * j + i) \<longleftrightarrow> bit (b (p + j)) i"
  by (simp add: bit_get32)

lemma SWR_byte:
  assumes "k < 4" "j < 4" "i < 8"
  shows "bit (SWR_value (3 - k) (get32 b q) r) (8 * j + i) \<longleftrightarrow>
    (if j < k then bit (b (q + j)) i else bit r (8 * (j - k) + i))"
proof -
  have "8 * j + i < 8 * k \<longleftrightarrow> j < k" using assms(3) by (intro iffI; linarith)
  moreover have "3 - (3 - k) = k" using assms by simp
  moreover have "\<not> j < k \<Longrightarrow> 8 * j + i - 8 * k = 8 * (j - k) + i" by (simp add: diff_mult_distrib2)
  ultimately show ?thesis using assms by (simp add: bit_SWR bit_get32_byte)
qed

lemma SWL_byte:
  assumes "0 < k" "k < 4" "j < 4" "i < 8"
  shows "bit (SWL_value (4 - k) (get32 b q) r) (8 * j + i) \<longleftrightarrow>
    (if j < k then bit r (8 * (j + 4 - k) + i) else bit (b (q + j)) i)"
proof -
  obtain l where l: "4 = k + l" using assms(2) by (metis le_Suc_ex less_imp_le)
  have c: "8 * j + i + 8 * (4 - k) < 32 \<longleftrightarrow> j < k"
    using assms(4) l by (intro iffI; simp only: diff_add_inverse; linarith)
  have e: "8 * j + i + 8 * (4 - k) = 8 * (j + 4 - k) + i" using l by simp
  have "bit (SWL_value (4 - k) (get32 b q) r) (8 * j + i) \<longleftrightarrow>
      (if j < k then bit r (8 * (j + 4 - k) + i) else bit (get32 b q) (8 * j + i))"
    unfolding c [symmetric] e [symmetric] using assms by (intro bit_SWL) simp_all
  then show ?thesis using bit_get32_byte [OF assms(3,4)] by simp
qed

lemma unaligned_store:
  assumes b1: "b1 = put32 b (p - p mod 4) (SWR_value (3 - p mod 4) (get32 b (p - p mod 4)) r)"
    and q: "q = p + 3 - (p + 3) mod 4"
  shows "put32 b1 q (SWL_value (3 - (p + 3) mod 4) (get32 b1 q) r) = put32 b p r" (is "?l = ?r")
proof (cases "p mod 4 = 0")
  case True
  then have "(p + 3) mod 4 = 3" by presburger
  then show ?thesis using True by (simp add: b1 q SWL_value_def SWR_value_def put32_eq fun_eq_iff)
next
  case False
  define k q0 where "k = p mod 4" and "q0 = p - k"
  have k: "0 < k" "k < 4" "p = q0 + k" using False by (simp_all add: k_def q0_def)
  have b1': "b1 = put32 b q0 (SWR_value (3 - k) (get32 b q0) r)" by (simp only: b1 k_def q0_def)
  have sp: "q = q0 + 4" using unaligned_split(2) [OF False] by (simp only: q q0_def k_def)
  have s: "3 - (p + 3) mod 4 = 4 - k" using unaligned_split(1) [OF False] k(1,2) by (simp add: k_def)
  show ?thesis
  proof
    fix x
    show "?l x = ?r x"
    proof (rule bit_word_eqI)
      fix i
      assume "i < LENGTH(8)"
      then have i: "i < 8" by simp
      have b1x: "bit (b1 x) i \<longleftrightarrow> (if q0 \<le> x \<and> x < q0 + 4
          then (if x - q0 < k then bit (b x) i else bit r (8 * (x - q0 - k) + i)) else bit (b x) i)"
        using SWR_byte [OF k(2) _ i, of "x - q0" b q0 r] by (auto simp: b1' bit_put32 [OF i])
      consider "x < q" | "q \<le> x" "x < q + 4" | "q + 4 \<le> x" by linarith
      then show "bit (?l x) i = bit (?r x) i"
      proof cases
        case 2
        then obtain j where j: "x = q + j" "j < 4" by (metis le_Suc_ex nat_add_left_cancel_less)
        then show ?thesis
          using SWL_byte [OF k(1,2) j(2) i, of b1 q r] b1x i k sp unfolding s by (auto simp: bit_put32 add.commute [of j 4])
      qed (unfold s, use i b1x k sp in \<open>auto simp: bit_put32\<close>)
    qed
  qed
qed

section \<open>Properties\<close>

text \<open>
  C13. Multiplication is exact: \<open>HI\<close> and \<open>LO\<close> hold the 64-bit product of the two registers,
  as signed numbers for \<open>MULT\<close> and as unsigned numbers for \<open>MULTU\<close>, for all operands.
\<close>

theorem Mult_exact:
  "case Mult a b sgd of (hi, lo) \<Rightarrow>
     if sgd then sint hi * 2 ^ 32 + uint lo = sint a * sint b
     else uint hi * 2 ^ 32 + uint lo = uint a * uint b"
proof -
  obtain hi lo where m: "Mult a b sgd = (hi, lo)" by fastforce
  note cong = Mult_congruent [OF m]
  have "sint hi * 2 ^ 32 + uint lo = sint a * sint b" if sgd
  proof (rule int_eq_if_dvd)
    have "\<bar>sint a * sint b\<bar> \<le> 2147483648 * 2147483648"
      unfolding abs_mult using sint32_bounds [of a] sint32_bounds [of b] by (intro mult_mono) auto
    moreover have "\<bar>sint hi * 4294967296 + uint lo\<bar> \<le> 2147483648 * 4294967296"
      using sint32_bounds [of hi] uint32_lt [of lo] uint_nn [of lo] by linarith
    ultimately show "\<bar>sint hi * 2 ^ 32 + uint lo - sint a * sint b\<bar> < 2 ^ 64" by simp
    have "(2 ^ 64 :: int) dvd (uint hi - sint hi) * 2 ^ 32" using sint32 [of hi] by simp
    from dvd_diff [OF cong [simplified that if_True] this]
    show "2 ^ 64 dvd sint hi * 2 ^ 32 + uint lo - sint a * sint b" by (simp add: algebra_simps)
  qed
  moreover have "uint hi * 2 ^ 32 + uint lo = uint a * uint b" if "\<not> sgd"
  proof (rule int_eq_if_dvd)
    have "uint a * uint b \<le> 4294967295 * 4294967295"
      using uint32_lt [of a] uint32_lt [of b] by (intro mult_mono) auto
    then show "\<bar>uint hi * 2 ^ 32 + uint lo - uint a * uint b\<bar> < 2 ^ 64"
      using uint32_lt [of hi] uint32_lt [of lo] by (intro abs_diff_lt) simp_all
    show "2 ^ 64 dvd uint hi * 2 ^ 32 + uint lo - uint a * uint b" using cong that by simp
  qed
  ultimately show ?thesis using m by simp
qed

text \<open>
  C28. The additions and the subtraction with overflow check trap exactly when the signed
  result does not fit in 32 bits, and otherwise store that result.
\<close>

theorem overflow_detection:
  assumes "s = (if opCode i = OP_ADD then sint (registers m (rs_of i)) + sint (registers m (rt_of i))
      else if opCode i = OP_ADDI then sint (registers m (rs_of i)) + sint (extra i)
      else sint (registers m (rs_of i)) - sint (registers m (rt_of i)))"
    "opCode i \<in> {OP_ADD, OP_ADDI, OP_SUB}"
  shows "execute h m i pcAfter =
    (if - (2 ^ 31) \<le> s \<and> s < 2 ^ 31
     then go_on (set_reg m (if opCode i = OP_ADDI then rt_of i else rd_of i) (word_of_int s)) pcAfter
     else trap h m OverflowException 0)"
proof -
  let ?a = "registers m (rs_of i)" and ?b = "registers m (rt_of i)"
  have x: "sint y < 0 \<longleftrightarrow> \<not> 0 \<le> sint y" for y :: int32 by linarith
  consider "opCode i = OP_ADD" | "opCode i = OP_ADDI" | "opCode i = OP_SUB" using assms(2) by blast
  then show ?thesis
  proof cases
    case 1
    then show ?thesis using assms(1) add_overflow [of ?a ?b]
      by (auto simp: execute_def exec_add_def Let_def xor_sign)
  next
    case 2
    have "(sint ?a < 0) = (sint (extra i) < 0) \<Longrightarrow>
        (sint ?a < 0) \<noteq> (sint (?a + extra i) < 0) \<longleftrightarrow> (sint (extra i) < 0) \<noteq> (sint (?a + extra i) < 0)" by simp
    with 2 show ?thesis using assms(1) add_overflow [of ?a "extra i"]
      by (auto simp: execute_def exec_add_def Let_def xor_sign)
  next
    case 3
    then show ?thesis using assms(1) sub_overflow [of ?a ?b]
      by (auto simp: execute_def exec_sub_def Let_def xor_sign)
  qed
qed

text \<open>C28, adding 1 to the greatest integer.\<close>

theorem overflow_detection_witness:
  "execute serve (set_reg machine2 4 0x7fffffff) \<lparr>opCode = OP_ADDI, rs_of = 4, rt_of = 5, rd_of = 0, extra = 1\<rparr> 8
     = trap serve (set_reg machine2 4 0x7fffffff) OverflowException 0"
  using overflow_detection [of "2 ^ 31" "\<lparr>opCode = OP_ADDI, rs_of = 4, rt_of = 5, rd_of = 0, extra = 1\<rparr>"
      "set_reg machine2 4 0x7fffffff" serve 8]
  by simp




end
