(* ===== verification/Bytes.thy ===== *)
theory Bytes
  imports Machine
begin

text \<open>
  Bytes of C++ objects: the little-endian image of words and arrays of words, the pieces of
  buffers that \<open>bcopy\<close> and the disk move, and arrays cut in blocks of one length. The objects
  that the file system keeps on disk are written and read as such images.
\<close>

section \<open>Words\<close>

definition word_bytes :: "32 word \<Rightarrow> byte list" where
  "word_bytes w = [ucast w, ucast (drop_bit 8 w), ucast (drop_bit 16 w), ucast (drop_bit 24 w)]"

definition bytes_word :: "byte list \<Rightarrow> 32 word" where
  "bytes_word bs = get32 (\<lambda>i. bs ! i) 0"

fun words_of :: "nat \<Rightarrow> byte list \<Rightarrow> 32 word list" where
  "words_of 0 bs = []"
| "words_of (Suc n) bs = bytes_word (take 4 bs) # words_of n (drop 4 bs)"

definition words_bytes :: "32 word list \<Rightarrow> byte list" where
  "words_bytes ws = concat (map word_bytes ws)"

lemma length_word_bytes [simp]: "length (word_bytes w) = 4"
  by (simp add: word_bytes_def)

lemma bytes_word_bytes [simp]: "bytes_word (word_bytes w) = w"
proof -
  have "bytes_word (word_bytes w) = get32 (put32 (\<lambda>_. 0) 0 w) 0"
    by (simp add: bytes_word_def word_bytes_def get32_def put32_def numeral_2_eq_2 numeral_3_eq_3)
  then show ?thesis by simp
qed

lemma length_words_of [simp]: "length (words_of n bs) = n"
  by (induction n arbitrary: bs) auto

lemma words_bytes_Cons [simp]:
  "words_bytes [] = []" "words_bytes (w # ws) = word_bytes w @ words_bytes ws"
  by (simp_all add: words_bytes_def)

lemma length_words_bytes [simp]: "length (words_bytes ws) = 4 * length ws"
  by (induction ws) auto

lemma words_of_bytes: "words_of (length ws) (words_bytes ws @ bs) = ws"
  by (induction ws) auto

lemma words_of_bytes' [simp]: "n = length ws \<Longrightarrow> words_of n (words_bytes ws) = ws"
  using words_of_bytes [of ws "[]"] by simp

text \<open>The values of an \<open>int\<close>.\<close>

definition int_range :: "int \<Rightarrow> bool" where
  "int_range i \<longleftrightarrow> -2147483648 \<le> i \<and> i < 2147483648"

lemma sint_word_of_int [simp]: "int_range i \<Longrightarrow> sint (word_of_int i :: 32 word) = i"
  by (simp add: int_range_def sint_sbintrunc' signed_take_bit_int_eq_self)

lemma int_range_sint [simp]: "int_range (sint (w :: 32 word))"
proof -
  have "0 \<le> uint w" "uint w < 4294967296" by (rule unsigned_greater_eq, rule uint32_lt)
  then have "-2147483648 \<le> sint w \<and> sint w < 2147483648" unfolding sint32 by (split if_split) linarith
  then show ?thesis by (simp only: int_range_def)
qed

section \<open>Buffers\<close>

text \<open>
  A piece of a buffer and a copy into a buffer (\<open>bcopy\<close>); outside of the buffer there is no
  defined behaviour.
\<close>

definition buf_get :: "byte list \<Rightarrow> int \<Rightarrow> int \<Rightarrow> byte list res" where
  "buf_get buf i n = (if 0 \<le> i \<and> 0 \<le> n \<and> i + n \<le> int (length buf)
     then Inr (take (nat n) (drop (nat i) buf)) else Inl Undefined)"

definition overlay :: "'a list \<Rightarrow> nat \<Rightarrow> 'a list \<Rightarrow> 'a list" where
  "overlay xs i ys = take i xs @ ys @ drop (i + length ys) xs"

definition buf_put :: "byte list \<Rightarrow> int \<Rightarrow> byte list \<Rightarrow> byte list res" where
  "buf_put buf i bs = (if 0 \<le> i \<and> i + int (length bs) \<le> int (length buf)
     then Inr (overlay buf (nat i) bs) else Inl Undefined)"

lemma length_overlay [simp]: "i + length ys \<le> length xs \<Longrightarrow> length (overlay xs i ys) = length xs"
  by (simp add: overlay_def)

lemma nth_overlay: "i + length ys \<le> length xs \<Longrightarrow> k < length xs \<Longrightarrow>
    overlay xs i ys ! k = (if i \<le> k \<and> k < i + length ys then ys ! (k - i) else xs ! k)"
  by (auto simp: overlay_def nth_append)

lemma overlay_whole [simp]: "length ys = length xs \<Longrightarrow> overlay xs 0 ys = ys"
  by (simp add: overlay_def)

lemma buf_get_in: "0 \<le> i \<Longrightarrow> 0 \<le> n \<Longrightarrow> i + n \<le> int (length buf) \<Longrightarrow>
    buf_get buf i n = Inr (take (nat n) (drop (nat i) buf))"
  by (simp add: buf_get_def)

lemma buf_put_in: "0 \<le> i \<Longrightarrow> i + int (length bs) \<le> int (length buf) \<Longrightarrow>
    buf_put buf i bs = Inr (overlay buf (nat i) bs)"
  by (simp add: buf_put_def)

section \<open>Blocks\<close>

lemma length_blocks: "\<forall>x\<in>set xs. length (f x) = n \<Longrightarrow> length (concat (map f xs)) = length xs * n"
  by (induction xs) auto

lemma take_blocks: "\<forall>x\<in>set xs. length (f x) = n \<Longrightarrow>
    take (k * n) (concat (map f xs)) = concat (map f (take k xs))"
proof (induction xs arbitrary: k)
  case (Cons x xs)
  then show ?case by (cases k) auto
qed simp

lemma drop_blocks: "\<forall>x\<in>set xs. length (f x) = n \<Longrightarrow>
    drop (k * n) (concat (map f xs)) = concat (map f (drop k xs))"
proof (induction xs arbitrary: k)
  case (Cons x xs)
  then show ?case by (cases k) auto
qed simp

lemma concat_cut: "length bs = m * n \<Longrightarrow> concat (map (\<lambda>k. take n (drop (k * n) bs)) [0..<m]) = bs"
proof (induction m arbitrary: bs)
  case (Suc m)
  have "concat (map (\<lambda>k. take n (drop (k * n) bs)) [0..<Suc m])
      = take n bs @ concat (map (\<lambda>k. take n (drop (k * n) (drop n bs))) [0..<m])"
    by (simp only: upt_conv_Cons [OF zero_less_Suc] map_Suc_upt [symmetric])
      (simp add: comp_def add.commute)
  also have "concat (map (\<lambda>k. take n (drop (k * n) (drop n bs))) [0..<m]) = drop n bs"
    using Suc.prems by (intro Suc.IH) simp
  finally show ?case by simp
qed simp

end
