(* ===== verification/AddrSpace.thy ===== *)
theory AddrSpace
  imports Machine Bytes
begin

text \<open>
  Address spaces (\<^verbatim>\<open>code/userprog/addrspace.h\<close>, \<^verbatim>\<open>addrspace.cc\<close>, \<^verbatim>\<open>noff.h\<close>): loading a
  program into frames of main memory, the registers of a user program at its start and over a
  context switch, the kernel's own address translation and the release of the frames. The
  files are those of a file service whose operations are arguments of \<open>Load\<close>; its state is
  the part \<open>machine.more\<close> of the state. What \<open>Load\<close> relies on is a locale.
\<close>

section \<open>Object files\<close>

definition NOFFMAGIC :: int32 where "NOFFMAGIC = 0xbadfad"

record segment =
  virtualAddr :: int32
  inFileAddr :: int32
  segSize :: int32

record noff_header =
  noffMagic :: int32
  codeSeg :: segment
  initData :: segment
  readonlyData :: segment
  uninitData :: segment

text \<open>The header is 13 words at the beginning of the file.\<close>

definition sizeof_NoffHeader :: int where "sizeof_NoffHeader = 52"

definition segment_of :: "int32 list \<Rightarrow> segment" where
  "segment_of ws = \<lparr>virtualAddr = ws ! 0, inFileAddr = ws ! 1, segSize = ws ! 2\<rparr>"

definition noff_of :: "byte list \<Rightarrow> noff_header" where
  "noff_of bs = (let ws = words_of 13 bs in
     \<lparr>noffMagic = ws ! 0, codeSeg = segment_of (drop 1 ws), initData = segment_of (drop 4 ws),
      readonlyData = segment_of (drop 7 ws), uninitData = segment_of (drop 10 ws)\<rparr>)"

definition swap_segment :: "segment \<Rightarrow> segment" where
  "swap_segment s = \<lparr>virtualAddr = WordToHost (virtualAddr s), inFileAddr = WordToHost (inFileAddr s),
     segSize = WordToHost (segSize s)\<rparr>"

definition SwapHeader :: "noff_header \<Rightarrow> noff_header" where
  "SwapHeader h = \<lparr>noffMagic = WordToHost (noffMagic h), codeSeg = swap_segment (codeSeg h),
     initData = swap_segment (initData h), readonlyData = swap_segment (readonlyData h),
     uninitData = swap_segment (uninitData h)\<rparr>"

section \<open>Address spaces\<close>

definition UserStackSize :: int32 where "UserStackSize = 1024"

text \<open>\<open>s_reg\<close> is an array of \<open>NumTotalRegs\<close> integers; the constructor only allocates it, the other fields are assigned by \<open>Load\<close>.\<close>

record addr_space =
  spaceTable :: table_ptr
  numPages :: int32
  spaceFileAddr :: "int32 list"
  s_reg :: "nat \<Rightarrow> int32"

primrec read_registers :: "int list \<Rightarrow> 'a machine_scheme \<Rightarrow> (nat \<Rightarrow> int32) \<Rightarrow> (nat \<Rightarrow> int32) res" where
  "read_registers [] m saved = Inr saved"
| "read_registers (i # is) m saved =
     bindR (ReadRegister m i) (\<lambda>v. read_registers is m (saved(nat i := v)))"

primrec write_registers :: "int list \<Rightarrow> 'a machine_scheme \<Rightarrow> (nat \<Rightarrow> int32) \<Rightarrow> 'a machine_scheme res" where
  "write_registers [] m saved = Inr m"
| "write_registers (i # is) m saved =
     bindR (WriteRegister m i (saved (nat i))) (\<lambda>m. write_registers is m saved)"

definition all_registers :: "int list" where
  "all_registers = map int [0..<NumTotalRegs]"

definition SaveState :: "addr_space \<Rightarrow> 'a machine_scheme \<Rightarrow> addr_space res" where
  "SaveState a m = bindR (read_registers all_registers m (s_reg a)) (\<lambda>r. Inr (a\<lparr>s_reg := r\<rparr>))"

definition use_space :: "addr_space \<Rightarrow> 'a machine_scheme \<Rightarrow> 'a machine_scheme" where
  "use_space a m = m\<lparr>pageTable := Some (spaceTable a), pageTableSize := numPages a, FileAddr := spaceFileAddr a\<rparr>"

definition RestoreState :: "addr_space \<Rightarrow> 'a machine_scheme \<Rightarrow> 'a machine_scheme res" where
  "RestoreState a m = write_registers all_registers (use_space a m) (s_reg a)"

definition InitRegisters :: "addr_space \<Rightarrow> 'a machine_scheme \<Rightarrow> 'a machine_scheme res" where
  "InitRegisters a m =
     bindR (write_registers all_registers m (\<lambda>_. 0)) (\<lambda>m.
     bindR (WriteRegister m (int PCReg) 0) (\<lambda>m.
     bindR (WriteRegister m (int NextPCReg) 4) (\<lambda>m.
     WriteRegister m (int StackReg) (numPages a * of_nat PageSize - 16))))"

text \<open>\<open>Execute\<close> up to the call of \<open>machine->Run\<close>, which does not return.\<close>

definition Execute :: "addr_space \<Rightarrow> 'a machine_scheme \<Rightarrow> 'a machine_scheme res" where
  "Execute a m = bindR (InitRegisters a m) (\<lambda>m. Inr (use_space a m))"

section \<open>Loading\<close>

text \<open>The page table: a frame for each entry while there are free ones.\<close>

primrec Load_table :: "nat list \<Rightarrow> table_ptr \<Rightarrow> string \<Rightarrow> 'a machine_scheme \<Rightarrow> translation_entry list
    \<Rightarrow> 'a machine_scheme \<times> translation_entry list" where
  "Load_table [] tp fileName m es = (m, es)"
| "Load_table (i # is) tp fileName m es =
     (let (m, frame) = findFreeFrame m (of_nat i) (Some tp);
          e = \<lparr>virtualPage = of_nat i, physicalPage = frame, valid = True, readOnly = False,
               use = False, dirty = False, DiskFile = fileName\<rparr>
      in Load_table is tp fileName m (es @ [e]))"

text \<open>
  A segment is read byte by byte; only bytes of pages that got a frame are read. A read at
  the end of the file leaves the memory as it is.
\<close>

primrec Load_segment ::
    "('d \<Rightarrow> 'f \<Rightarrow> int \<Rightarrow> int \<Rightarrow> ('d \<times> byte list) res) \<Rightarrow> 'f \<Rightarrow> translation_entry list \<Rightarrow> segment
     \<Rightarrow> int list \<Rightarrow> 'd machine_scheme \<Rightarrow> 'd machine_scheme res" where
  "Load_segment rd f es seg [] m = Inr m"
| "Load_segment rd f es seg (i # is) m =
     (let vaddr = sint (virtualAddr seg) + i in
      bindR (arr_get es (vaddr sdiv int PageSize)) (\<lambda>e.
      if sint (physicalPage e) \<ge> 0 then
        let add = sint (physicalPage e) * int PageSize + vaddr smod int PageSize in
        bindR (rd (machine.more m) f 1 (sint (inFileAddr seg) + i)) (\<lambda>(d, bs).
        let m = m\<lparr>machine.more := d\<rparr> in
        if bs = [] then Load_segment rd f es seg is m
        else if 0 \<le> add \<and> add < int MemorySize
        then Load_segment rd f es seg is (m\<lparr>mainMemory := (mainMemory m)(nat add := hd bs)\<rparr>)
        else Inl Undefined)
      else Load_segment rd f es seg is m))"

definition load_segment ::
    "('d \<Rightarrow> 'f \<Rightarrow> int \<Rightarrow> int \<Rightarrow> ('d \<times> byte list) res) \<Rightarrow> 'f \<Rightarrow> translation_entry list \<Rightarrow> segment
     \<Rightarrow> 'd machine_scheme \<Rightarrow> 'd machine_scheme res" where
  "load_segment rd f es seg m =
     (if sint (segSize seg) > 0 then Load_segment rd f es seg (map int [0..<nat (sint (segSize seg))]) m else Inr m)"

text \<open>The number of pages, computed in unsigned arithmetic, and the meta information of a program.\<close>

definition prog_pages :: "noff_header \<Rightarrow> int32" where
  "prog_pages h =
     (let sz = segSize (codeSeg h) + segSize (readonlyData h) + segSize (initData h) + segSize (uninitData h) + UserStackSize
      in sz div of_nat PageSize + (if sz mod of_nat PageSize > 0 then 1 else 0))"

definition file_addr :: "noff_header \<Rightarrow> int32 list" where
  "file_addr h = [virtualAddr (codeSeg h), segSize (codeSeg h), inFileAddr (codeSeg h),
     virtualAddr (initData h), segSize (initData h), inFileAddr (initData h),
     virtualAddr (readonlyData h), segSize (readonlyData h), inFileAddr (readonlyData h)]"

text \<open>
  \<open>tp\<close> is the address of the new page table. A file that is shorter than the header leaves
  it unassigned.
\<close>

definition AddrSpace_Load ::
    "('d \<Rightarrow> string \<Rightarrow> ('d \<times> 'f option) res) \<Rightarrow> ('d \<Rightarrow> 'f \<Rightarrow> int \<Rightarrow> int \<Rightarrow> ('d \<times> byte list) res) \<Rightarrow> ('d \<Rightarrow> 'f \<Rightarrow> 'd res)
     \<Rightarrow> table_ptr \<Rightarrow> string \<Rightarrow> addr_space \<Rightarrow> 'd machine_scheme \<Rightarrow> ('d machine_scheme \<times> addr_space \<times> bool) res" where
  "AddrSpace_Load opn rd cls tp fileName a m =
     bindR (opn (machine.more m) fileName) (\<lambda>(d, executable).
     let m = m\<lparr>machine.more := d\<rparr> in
     case executable of None \<Rightarrow> Inr (m, a, False)
     | Some f \<Rightarrow>
         bindR (rd (machine.more m) f sizeof_NoffHeader 0) (\<lambda>(d, bs).
         if int (length bs) \<noteq> sizeof_NoffHeader then Inl Undefined else
         let m = m\<lparr>machine.more := d\<rparr>; noffH = noff_of bs;
             noffH = (if noffMagic noffH \<noteq> NOFFMAGIC \<and> WordToHost (noffMagic noffH) = NOFFMAGIC then SwapHeader noffH else noffH) in
         ASSERT (noffMagic noffH = NOFFMAGIC) (
         let np = prog_pages noffH in
         ASSERT (np \<le> of_nat NumPhysPages) (
         let (m, es) = Load_table [0..<NumPhysPages] tp fileName m [];
             m = m\<lparr>tables := (tables m)(tp \<mapsto> es)\<rparr> in
         bindR (load_segment rd f es (codeSeg noffH) m) (\<lambda>m.
         bindR (load_segment rd f es (initData noffH) m) (\<lambda>m.
         bindR (load_segment rd f es (readonlyData noffH) m) (\<lambda>m.
         bindR (cls (machine.more m) f) (\<lambda>d.
         Inr (m\<lparr>machine.more := d\<rparr>, a\<lparr>spaceTable := tp, numPages := np, spaceFileAddr := file_addr noffH\<rparr>, True)))))))))"

section \<open>Translation and release\<close>

definition AddrSpace_Translate :: "addr_space \<Rightarrow> 'a machine_scheme \<Rightarrow> int32 \<Rightarrow> bool
    \<Rightarrow> ('a machine_scheme \<times> (exception_type + int32)) res" where
  "AddrSpace_Translate a m vaddr isReadWrite =
     (let vpn = vaddr div of_nat PageSize; offset = vaddr mod of_nat PageSize in
      if vpn \<ge> numPages a then Inr (m, Inl AddressErrorException)
      else bindR (table_get m (spaceTable a) (unat vpn)) (\<lambda>pte.
        if isReadWrite \<and> readOnly pte then Inr (m, Inl ReadOnlyException)
        else let pfn = physicalPage pte in
        if pfn = -1 \<or> \<not> valid pte then Inr (m, Inl PageFaultException)
        else if sint pfn \<ge> int NumPhysPages then Inr (m, Inl BusErrorException)
        else let m = table_set m (spaceTable a) (unat vpn)
               (pte\<lparr>use := True, dirty := (if isReadWrite then True else dirty pte)\<rparr>);
             paddr = pfn * of_nat PageSize + offset in
        ASSERT (unat paddr < MemorySize) (Inr (m, Inr paddr))))"

text \<open>\<open>mainMemory[physicalPage * PageSize]\<close> and \<open>GlobalPageTable[physicalPage]\<close> are accesses to arrays.\<close>

primrec release_loop :: "nat list \<Rightarrow> table_ptr \<Rightarrow> 'a machine_scheme \<Rightarrow> 'a machine_scheme res" where
  "release_loop [] tp m = Inr m"
| "release_loop (i # is) tp m =
     bindR (table_get m tp i) (\<lambda>e.
     if physicalPage e \<noteq> -1 then
       let f = physicalPage e in
       if 0 \<le> sint f \<and> sint f < int NumPhysPages then
         release_loop is tp (m\<lparr>mainMemory := (\<lambda>x. if unat f * PageSize \<le> x \<and> x < unat f * PageSize + PageSize then 0 else mainMemory m x),
           GlobalPageTable := (GlobalPageTable m)(unat f := (GlobalPageTable m (unat f))\<lparr>RefPageTable := None, VirNum := -1\<rparr>)\<rparr>)
       else Inl Undefined
     else release_loop is tp m)"

definition AddrSpace_delete :: "addr_space \<Rightarrow> 'a machine_scheme \<Rightarrow> 'a machine_scheme res" where
  "AddrSpace_delete a m =
     bindR (release_loop [0..<NumPhysPages] (spaceTable a) m) (\<lambda>m.
     Inr (m\<lparr>tables := (tables m)(spaceTable a := None)\<rparr>))"

section \<open>Context switches\<close>

lemma read_registers_ok:
  "\<forall>i\<in>set is. 0 \<le> i \<and> i < int NumTotalRegs \<Longrightarrow>
   read_registers is m r = Inr (\<lambda>k. if int k \<in> set is then registers m k else r k)"
proof (induction "is" arbitrary: r)
  case (Cons i "is")
  then have "read_registers (i # is) m r = Inr (\<lambda>k. if int k \<in> set is then registers m k else (r(nat i := registers m (nat i))) k)"
    by (simp add: ReadRegister_def)
  also have "(\<lambda>k. if int k \<in> set is then registers m k else (r(nat i := registers m (nat i))) k)
      = (\<lambda>k. if int k \<in> set (i # is) then registers m k else r k)"
    using Cons.prems by (auto simp: fun_eq_iff)
  finally show ?case .
qed simp

lemma write_registers_ok:
  "\<forall>i\<in>set is. 0 \<le> i \<and> i < int NumTotalRegs \<Longrightarrow>
   write_registers is m r = Inr (m\<lparr>registers := \<lambda>k. if int k \<in> set is then r k else registers m k\<rparr>)"
proof (induction "is" arbitrary: m)
  case (Cons i "is")
  have "(\<lambda>k. if int k \<in> set is then r k else ((registers m)(nat i := r (nat i))) k)
      = (\<lambda>k. if int k \<in> set (i # is) then r k else registers m k)"
    using Cons.prems by (auto simp: fun_eq_iff)
  with Cons show ?case by (simp add: WriteRegister_def set_reg_def cong: if_cong)
qed simp

lemma all_registers_mem [simp]: "int k \<in> set all_registers \<longleftrightarrow> k < NumTotalRegs"
  by (auto simp: all_registers_def)

lemma all_registers_range: "\<forall>i\<in>set all_registers. 0 \<le> i \<and> i < int NumTotalRegs"
  by (auto simp: all_registers_def)

lemma SaveState_eq:
  "SaveState a m = Inr (a\<lparr>s_reg := \<lambda>k. if k < NumTotalRegs then registers m k else s_reg a k\<rparr>)"
  by (simp add: SaveState_def read_registers_ok [OF all_registers_range])

lemma RestoreState_eq:
  "RestoreState a m = Inr ((use_space a m)\<lparr>registers := \<lambda>k. if k < NumTotalRegs then s_reg a k else registers m k\<rparr>)"
  by (simp add: RestoreState_def write_registers_ok [OF all_registers_range] use_space_def cong: if_cong)

section \<open>Frames and page tables\<close>

text \<open>
  A frame in use belongs to one page: the global page table names a page table and an index,
  and the entry there, if it is valid, names the frame.
\<close>

definition owner :: "'a machine_scheme \<Rightarrow> nat \<Rightarrow> (table_ptr \<times> nat) option" where
  "owner m f = map_option (\<lambda>t. (t, unat (VirNum (GlobalPageTable m f)))) (RefPageTable (GlobalPageTable m f))"

text \<open>
  Every valid page with a frame has a frame that the global page table gives to it. Hence no
  two valid pages share a frame.
\<close>

definition frames_wf :: "'a machine_scheme \<Rightarrow> bool" where
  "frames_wf m \<longleftrightarrow> (\<forall>t es i. tables m t = Some es \<and> i < length es \<and> valid (es ! i) \<and> physicalPage (es ! i) \<noteq> -1 \<longrightarrow>
     unat (physicalPage (es ! i)) < NumPhysPages \<and> owner m (unat (physicalPage (es ! i))) = Some (t, i))"

lemma frames_wf_cong:
  "tables m' = tables m \<Longrightarrow> GlobalPageTable m' = GlobalPageTable m \<Longrightarrow> frames_wf m' = frames_wf m"
  by (simp add: frames_wf_def owner_def)

lemma frames_wfD:
  assumes "frames_wf m" "tables m t = Some es" "i < length es" "valid (es ! i)" "physicalPage (es ! i) \<noteq> -1"
  shows "unat (physicalPage (es ! i)) < NumPhysPages \<and> owner m (unat (physicalPage (es ! i))) = Some (t, i)"
  using assms unfolding frames_wf_def by blast

lemma frames_wf_exclusive:
  assumes "frames_wf m" "tables m t = Some es" "i < length es" "valid (es ! i)" "physicalPage (es ! i) \<noteq> -1"
    "tables m t' = Some es'" "j < length es'" "valid (es' ! j)" "physicalPage (es' ! j) = physicalPage (es ! i)"
  shows "t' = t \<and> j = i"
proof -
  have "owner m (unat (physicalPage (es ! i))) = Some (t, i)"
    using frames_wfD [OF assms(1-5)] by simp
  moreover have "owner m (unat (physicalPage (es' ! j))) = Some (t', j)"
    using frames_wfD [OF assms(1,6-8)] assms(5,9) by simp
  ultimately show ?thesis using assms(9) by simp
qed

lemma findFreeFrame_cases:
  obtains (found) i where "i < NumPhysPages" "RefPageTable (GlobalPageTable m i) = None"
      "findFreeFrame m v ref = (m\<lparr>GlobalPageTable := (GlobalPageTable m)
          (i := \<lparr>VirNum = v, useStamp = 0, RefPageTable = ref\<rparr>)\<rparr>, of_nat i)"
    | (full) "\<forall>i<NumPhysPages. RefPageTable (GlobalPageTable m i) \<noteq> None" "findFreeFrame m v ref = (m, -1)"
  using frame_search [of m v ref] by blast

lemma unat_of_nat_frame: "f < NumPhysPages \<Longrightarrow> unat (of_nat f :: int32) = f"
  by (simp add: unat_of_nat NumPhysPages_def)

lemma of_nat_frame_not_minus_1: "f < NumPhysPages \<Longrightarrow> (of_nat f :: int32) \<noteq> -1"
proof
  assume f: "f < NumPhysPages" "(of_nat f :: int32) = -1"
  then have "unat (-1 :: int32) = f" using unat_of_nat_frame by metis
  moreover have "unat (-1 :: int32) = 4294967295" by (simp add: unsigned_minus_1_eq_mask mask_eq_exp_minus_1)
  ultimately show False using f(1) by (simp add: NumPhysPages_def)
qed

text \<open>
  The page table that \<open>Load\<close> builds: entry \<open>i\<close> is for page \<open>i\<close>, valid and writable, and has a
  frame that was free and is now its own, or none when every frame is in use.
\<close>

definition frames_full :: "'a machine_scheme \<Rightarrow> bool" where
  "frames_full m \<longleftrightarrow> (\<forall>f<NumPhysPages. RefPageTable (GlobalPageTable m f) \<noteq> None)"

definition new_entry :: "'a machine_scheme \<Rightarrow> 'a machine_scheme \<Rightarrow> string \<Rightarrow> table_ptr \<Rightarrow> nat \<Rightarrow> translation_entry \<Rightarrow> bool" where
  "new_entry m m' fileName tp i e \<longleftrightarrow> DiskFile e = fileName \<and> virtualPage e = of_nat i \<and> valid e \<and> \<not> readOnly e \<and> \<not> dirty e
     \<and> (physicalPage e = -1 \<and> frames_full m' \<or> (\<exists>f<NumPhysPages. physicalPage e = of_nat f
          \<and> RefPageTable (GlobalPageTable m f) = None \<and> owner m' f = Some (tp, i)))"

text \<open>Frames in use keep their entry of the global page table.\<close>

definition frames_kept :: "'a machine_scheme \<Rightarrow> 'a machine_scheme \<Rightarrow> bool" where
  "frames_kept m m' \<longleftrightarrow> (\<forall>f. RefPageTable (GlobalPageTable m f) \<noteq> None \<longrightarrow> GlobalPageTable m' f = GlobalPageTable m f)"

lemma new_entry_mono:
  assumes "frames_kept m m1" "new_entry m1 m' fileName tp i e"
  shows "new_entry m m' fileName tp i e"
proof -
  have "RefPageTable (GlobalPageTable m f) = None" if "RefPageTable (GlobalPageTable m1 f) = None" for f
    using assms(1) that unfolding frames_kept_def by (cases "RefPageTable (GlobalPageTable m f)") auto
  with assms(2) show ?thesis unfolding new_entry_def by blast
qed

lemma Load_table_ok:
  assumes "k + n \<le> NumPhysPages"
  shows "\<exists>g news. Load_table [k..<k + n] tp fileName m es = (m\<lparr>GlobalPageTable := g\<rparr>, es @ news) \<and> length news = n
    \<and> frames_kept m (m\<lparr>GlobalPageTable := g\<rparr>)
    \<and> (\<forall>j<n. new_entry m (m\<lparr>GlobalPageTable := g\<rparr>) fileName tp (k + j) (news ! j))
    \<and> (\<forall>f. g f = GlobalPageTable m f \<or> (\<exists>i<NumPhysPages. owner (m\<lparr>GlobalPageTable := g\<rparr>) f = Some (tp, i)))"
  using assms
proof (induction n arbitrary: k m es)
  case 0
  show ?case by (rule exI [of _ "GlobalPageTable m"]) (simp add: frames_kept_def)
next
  case (Suc n)
  have range: "[k..<k + Suc n] = k # [Suc k..<Suc k + n]" by (simp add: upt_conv_Cons)
  obtain g frame where g: "findFreeFrame m (of_nat k) (Some tp) = (m\<lparr>GlobalPageTable := g\<rparr>, frame)"
    and kept: "frames_kept m (m\<lparr>GlobalPageTable := g\<rparr>)"
    and taken: "\<forall>f. g f = GlobalPageTable m f \<or> g f = \<lparr>VirNum = of_nat k, useStamp = 0, RefPageTable = Some tp\<rparr>"
    and frame: "frame = -1 \<and> frames_full m \<or> (\<exists>f<NumPhysPages. frame = of_nat f
      \<and> RefPageTable (GlobalPageTable m f) = None \<and> g f = \<lparr>VirNum = of_nat k, useStamp = 0, RefPageTable = Some tp\<rparr>)"
  proof (cases rule: findFreeFrame_cases [of m "of_nat k" "Some tp"])
    case (found i)
    show ?thesis by (rule that [OF found(3)]) (use found in \<open>auto simp: frames_kept_def\<close>)
  next
    case full
    show ?thesis by (rule that [of "GlobalPageTable m" "-1"]) (use full in \<open>auto simp: frames_kept_def frames_full_def\<close>)
  qed
  let ?m1 = "m\<lparr>GlobalPageTable := g\<rparr>"
  let ?e = "\<lparr>virtualPage = of_nat k, physicalPage = frame, valid = True, readOnly = False, use = False, dirty = False, DiskFile = fileName\<rparr>"
  obtain g' news where r: "Load_table [Suc k..<Suc k + n] tp fileName ?m1 (es @ [?e]) = (m\<lparr>GlobalPageTable := g'\<rparr>, (es @ [?e]) @ news)"
      "length news = n" "frames_kept ?m1 (m\<lparr>GlobalPageTable := g'\<rparr>)"
      "\<forall>j<n. new_entry ?m1 (m\<lparr>GlobalPageTable := g'\<rparr>) fileName tp (Suc k + j) (news ! j)"
      "\<forall>f. g' f = g f \<or> (\<exists>i<NumPhysPages. owner (m\<lparr>GlobalPageTable := g'\<rparr>) f = Some (tp, i))"
    using Suc.IH [of "Suc k" ?m1 "es @ [?e]"] Suc.prems by auto
  have kept': "frames_kept m (m\<lparr>GlobalPageTable := g'\<rparr>)"
    using kept r(3) by (auto simp: frames_kept_def)
  have "frames_full m \<Longrightarrow> frames_full (m\<lparr>GlobalPageTable := g'\<rparr>)"
    using kept' unfolding frames_full_def frames_kept_def by auto
  then have "new_entry m (m\<lparr>GlobalPageTable := g'\<rparr>) fileName tp k ?e"
    using frame r(3) Suc.prems unat_of_nat_frame [of k]
    by (auto simp: new_entry_def owner_def frames_kept_def)
  moreover have "new_entry m (m\<lparr>GlobalPageTable := g'\<rparr>) fileName tp (Suc k + j) (news ! j)" if "j < n" for j
    by (rule new_entry_mono [OF kept]) (use r(4) that in blast)
  ultimately have "\<forall>j<Suc n. new_entry m (m\<lparr>GlobalPageTable := g'\<rparr>) fileName tp (k + j) ((?e # news) ! j)"
    by (auto simp: less_Suc_eq_0_disj)
  moreover have "g' f = GlobalPageTable m f \<or> (\<exists>i<NumPhysPages. owner (m\<lparr>GlobalPageTable := g'\<rparr>) f = Some (tp, i))" for f
    using r(5) [rule_format, of f] taken [rule_format, of f] Suc.prems unat_of_nat_frame [of k] by (auto simp: owner_def)
  ultimately show ?case using r(1,2) kept' unfolding range
    by (intro exI [of _ g'] exI [of _ "?e # news"]) (simp add: g)
qed

lemma new_entry_frame:
  assumes "new_entry m m' fileName tp i e" "physicalPage e \<noteq> -1"
  shows "unat (physicalPage e) < NumPhysPages" "owner m' (unat (physicalPage e)) = Some (tp, i)"
    "RefPageTable (GlobalPageTable m (unat (physicalPage e))) = None"
  using assms unat_of_nat_frame unfolding new_entry_def by metis+

text \<open>A new page table for free frames keeps the frames well-formed.\<close>

lemma new_table_wf:
  assumes "frames_wf m" "tables m tp = None" "frames_kept m m'" "tables m' = (tables m)(tp \<mapsto> es)"
    "\<forall>i<length es. new_entry m m' fileName tp i (es ! i)"
  shows "frames_wf m'"
  unfolding frames_wf_def
proof (intro allI impI, elim conjE)
  fix t es' i
  assume e: "tables m' t = Some es'" "i < length es'" "valid (es' ! i)" "physicalPage (es' ! i) \<noteq> -1"
  let ?f = "unat (physicalPage (es' ! i))"
  show "?f < NumPhysPages \<and> owner m' ?f = Some (t, i)"
  proof (cases "t = tp")
    case True
    with e(1,2) assms(4,5) have "new_entry m m' fileName tp i (es' ! i)" by auto
    with new_entry_frame [OF this e(4)] True show ?thesis by simp
  next
    case False
    then have o: "?f < NumPhysPages \<and> owner m ?f = Some (t, i)"
      using frames_wfD [OF assms(1) _ e(2-4)] e(1) assms(4) by simp
    then have "RefPageTable (GlobalPageTable m ?f) \<noteq> None" by (auto simp: owner_def)
    then have "owner m' ?f = owner m ?f" using assms(3) by (simp add: frames_kept_def owner_def)
    with o show ?thesis by simp
  qed
qed

section \<open>The file service\<close>

text \<open>
  What the kernel relies on when it loads programs: files are found by name, a read returns
  the bytes of the file that are there and changes nothing, and a file can be closed.
\<close>

locale readable_files =
  fixes opn :: "'d \<Rightarrow> string \<Rightarrow> ('d \<times> 'f option) res"
    and rd :: "'d \<Rightarrow> 'f \<Rightarrow> int \<Rightarrow> int \<Rightarrow> ('d \<times> byte list) res"
    and cls :: "'d \<Rightarrow> 'f \<Rightarrow> 'd res"
    and inv :: "'d \<Rightarrow> bool"
    and okname :: "string \<Rightarrow> bool"
    and contents :: "'d \<Rightarrow> string \<Rightarrow> byte list option"
    and handle :: "'d \<Rightarrow> 'f \<Rightarrow> string \<Rightarrow> bool"
  assumes opn_none: "inv d \<Longrightarrow> okname n \<Longrightarrow> contents d n = None \<Longrightarrow>
      \<exists>d'. opn d n = Inr (d', None) \<and> inv d' \<and> contents d' = contents d"
    and opn_some: "inv d \<Longrightarrow> okname n \<Longrightarrow> contents d n = Some bs \<Longrightarrow>
      \<exists>d' f. opn d n = Inr (d', Some f) \<and> inv d' \<and> contents d' = contents d \<and> handle d' f n"
    and rd_ok: "inv d \<Longrightarrow> handle d f n \<Longrightarrow> contents d n = Some bs \<Longrightarrow> 0 \<le> pos \<Longrightarrow> 0 \<le> k \<Longrightarrow> int_range (pos + k) \<Longrightarrow>
      \<exists>d'. rd d f k pos = Inr (d', take (nat k) (drop (nat pos) bs)) \<and> inv d' \<and> contents d' = contents d \<and> handle d' f n"
    and cls_ok: "inv d \<Longrightarrow> handle d f n \<Longrightarrow> \<exists>d'. cls d f = Inr d' \<and> inv d' \<and> contents d' = contents d"

text \<open>The byte that a segment of a file puts at a virtual address.\<close>

definition seg_byte :: "segment \<Rightarrow> byte list \<Rightarrow> nat \<Rightarrow> byte option" where
  "seg_byte seg file va =
     (let i = int va - sint (virtualAddr seg); pos = sint (inFileAddr seg) + i in
      if 0 \<le> i \<and> i < sint (segSize seg) \<and> pos < int (length file) then Some (file ! nat pos) else None)"

definition seg_ok :: "segment \<Rightarrow> bool" where
  "seg_ok seg \<longleftrightarrow> sint (segSize seg) > 0 \<longrightarrow> 0 \<le> sint (virtualAddr seg) \<and> 0 \<le> sint (inFileAddr seg)
     \<and> sint (virtualAddr seg) + sint (segSize seg) \<le> int MemorySize \<and> int_range (sint (inFileAddr seg) + sint (segSize seg))"

text \<open>The byte of main memory that belongs to a virtual address, and whether there is one.\<close>

definition frame_of :: "translation_entry list \<Rightarrow> nat \<Rightarrow> nat" where
  "frame_of es va = unat (physicalPage (es ! (va div PageSize)))"

definition resident :: "translation_entry list \<Rightarrow> nat \<Rightarrow> bool" where
  "resident es va \<longleftrightarrow> physicalPage (es ! (va div PageSize)) \<noteq> -1"

definition paddr :: "translation_entry list \<Rightarrow> nat \<Rightarrow> nat" where
  "paddr es va = frame_of es va * PageSize + va mod PageSize"

text \<open>A page table of full length with a frame or -1 in every entry, no frame twice.\<close>

definition table_ok :: "translation_entry list \<Rightarrow> bool" where
  "table_ok es \<longleftrightarrow> length es = NumPhysPages
     \<and> (\<forall>i<NumPhysPages. physicalPage (es ! i) = -1 \<or> unat (physicalPage (es ! i)) < NumPhysPages)
     \<and> (\<forall>i<NumPhysPages. \<forall>j<NumPhysPages. physicalPage (es ! i) = physicalPage (es ! j) \<and> physicalPage (es ! i) \<noteq> -1 \<longrightarrow> i = j)"

lemma new_table_ok:
  assumes "length es = NumPhysPages" "\<forall>i<NumPhysPages. new_entry m m' fileName tp i (es ! i)"
  shows "table_ok es"
proof -
  have "i = j" if "i < NumPhysPages" "j < NumPhysPages" "physicalPage (es ! i) = physicalPage (es ! j)"
      "physicalPage (es ! i) \<noteq> -1" for i j
    using new_entry_frame(2) [of m m' fileName tp i "es ! i"] new_entry_frame(2) [of m m' fileName tp j "es ! j"] assms(2) that
    by (metis option.inject prod.inject)
  then show ?thesis unfolding table_ok_def using assms new_entry_frame(1) by blast
qed

lemma page_lt: "va < MemorySize \<Longrightarrow> va div PageSize < NumPhysPages"
  by (simp add: page_defs less_mult_imp_div_less)

lemma paddr_lt: "table_ok es \<Longrightarrow> va < MemorySize \<Longrightarrow> resident es va \<Longrightarrow> paddr es va < MemorySize"
proof -
  assume "table_ok es" "va < MemorySize" "resident es va"
  then have "frame_of es va < NumPhysPages" using page_lt [of va] by (auto simp: table_ok_def resident_def frame_of_def)
  moreover have "va mod PageSize < PageSize" by (simp add: PageSize_def)
  ultimately show ?thesis by (simp add: paddr_def page_defs)
qed

lemma paddr_frame: "paddr es va div PageSize = frame_of es va"
  by (simp add: paddr_def PageSize_def)

lemma paddr_inj:
  assumes "table_ok es" "va < MemorySize" "vb < MemorySize" "resident es va" "paddr es va = paddr es vb"
  shows "va = vb"
proof -
  have "frame_of es va = frame_of es vb" using assms(5) paddr_frame by metis
  then have "physicalPage (es ! (va div PageSize)) = physicalPage (es ! (vb div PageSize))"
    by (simp add: frame_of_def word_unat_eq_iff)
  then have "va div PageSize = vb div PageSize"
    using assms(1,4) page_lt [OF assms(2)] page_lt [OF assms(3)] unfolding table_ok_def resident_def by blast
  moreover have "va mod PageSize = vb mod PageSize"
    using assms(5) \<open>frame_of es va = frame_of es vb\<close> by (simp add: paddr_def)
  ultimately show ?thesis by (metis div_mult_mod_eq)
qed

text \<open>Main memory after the bytes at the given virtual addresses have been put in place.\<close>

primrec fill :: "translation_entry list \<Rightarrow> (nat \<Rightarrow> byte option) \<Rightarrow> nat list \<Rightarrow> (nat \<Rightarrow> byte) \<Rightarrow> nat \<Rightarrow> byte" where
  "fill es img [] mem = mem"
| "fill es img (va # vas) mem = fill es img vas
     (case img va of Some b \<Rightarrow> if resident es va then mem(paddr es va := b) else mem | None \<Rightarrow> mem)"

lemma fill_other: "\<forall>va\<in>set vas. resident es va \<longrightarrow> paddr es va \<noteq> q \<Longrightarrow> fill es img vas mem q = mem q"
  by (induction vas arbitrary: mem) (auto split: option.splits)

lemma fill_None: "img va = None \<or> va \<notin> set vas \<Longrightarrow> table_ok es \<Longrightarrow> va < MemorySize \<Longrightarrow> resident es va \<Longrightarrow> \<forall>v\<in>set vas. v < MemorySize
    \<Longrightarrow> fill es img vas mem (paddr es va) = mem (paddr es va)"
proof (induction vas arbitrary: mem)
  case (Cons v vas)
  have "paddr es v \<noteq> paddr es va" if "v \<noteq> va"
    using paddr_inj [OF Cons.prems(2,3) _ Cons.prems(4), of v] that Cons.prems(5) by auto
  with Cons show ?case by (cases "v = va") (auto split: option.splits)
qed simp

lemma fill_at: "va \<in> set vas \<Longrightarrow> table_ok es \<Longrightarrow> resident es va \<Longrightarrow> \<forall>v\<in>set vas. v < MemorySize
    \<Longrightarrow> fill es img vas mem (paddr es va) = (case img va of Some b \<Rightarrow> b | None \<Rightarrow> mem (paddr es va))"
proof (induction vas arbitrary: mem)
  case (Cons v vas)
  then have lt: "va < MemorySize" by auto
  show ?case
  proof (cases "va \<in> set vas")
    case True
    have "paddr es v \<noteq> paddr es va" if "v \<noteq> va"
      using paddr_inj [OF Cons.prems(2) lt _ Cons.prems(3), of v] that Cons.prems(4) by auto
    with True Cons show ?thesis by (cases "v = va") (auto split: option.splits)
  next
    case False
    with Cons.prems have "v = va" by simp
    then show ?thesis using fill_None [OF disjI2 [OF False] Cons.prems(2) lt Cons.prems(3)] Cons.prems
      by (auto split: option.splits)
  qed
qed simp

lemma sint_frame:
  assumes "table_ok es" "va < MemorySize"
  shows "0 \<le> sint (physicalPage (es ! (va div PageSize))) \<longleftrightarrow> resident es va"
    and "resident es va \<Longrightarrow> sint (physicalPage (es ! (va div PageSize))) = int (frame_of es va)"
proof -
  have "physicalPage (es ! (va div PageSize)) = -1 \<or> unat (physicalPage (es ! (va div PageSize))) < NumPhysPages"
    using assms page_lt [of va] by (auto simp: table_ok_def)
  then show "0 \<le> sint (physicalPage (es ! (va div PageSize))) \<longleftrightarrow> resident es va"
    "resident es va \<Longrightarrow> sint (physicalPage (es ! (va div PageSize))) = int (frame_of es va)"
    by (auto simp: resident_def frame_of_def sint_eq_unat NumPhysPages_def)
qed

lemma take_1_drop: "take (nat 1) (drop (nat i) xs) = (if nat i < length xs then [xs ! nat i] else [])"
  by (auto simp: take_Suc_conv_app_nth hd_drop_conv_nth take_Suc)

context readable_files
begin

lemma Load_segment_fill:
  assumes "inv (machine.more m)" "handle (machine.more m) f n" "contents (machine.more m) n = Some file"
    "table_ok es" "seg_ok seg" "sint (segSize seg) > 0" "\<forall>i\<in>set is. int i < sint (segSize seg)"
  shows "\<exists>d. Load_segment rd f es seg (map int is) m = Inr (m\<lparr>machine.more := d,
      mainMemory := fill es (seg_byte seg file) (map (\<lambda>i. nat (sint (virtualAddr seg)) + i) is) (mainMemory m)\<rparr>)
    \<and> inv d \<and> handle d f n \<and> contents d = contents (machine.more m)"
  using assms
proof (induction "is" arbitrary: m)
  case (Cons i "is")
  let ?va = "nat (sint (virtualAddr seg)) + i" and ?pos = "sint (inFileAddr seg) + int i"
  have seg: "0 \<le> sint (virtualAddr seg)" "0 \<le> sint (inFileAddr seg)" "int i < sint (segSize seg)"
      "sint (virtualAddr seg) + sint (segSize seg) \<le> int MemorySize" "int_range (sint (inFileAddr seg) + sint (segSize seg))"
    using Cons.prems by (auto simp: seg_ok_def)
  then have va: "?va < MemorySize" "sint (virtualAddr seg) + int i = int ?va" by auto
  have pg: "int ?va sdiv int PageSize = int (?va div PageSize)" "int ?va smod int PageSize = int (?va mod PageSize)"
    by (simp_all add: zdiv_int zmod_int)
  have e: "arr_get es (int (?va div PageSize)) = Inr (es ! (?va div PageSize))"
    using page_lt [OF va(1)] Cons.prems(4) by (simp add: table_ok_def)
  have img: "seg_byte seg file ?va = (if nat ?pos < length file then Some (file ! nat ?pos) else None)"
    using seg by (auto simp: seg_byte_def Let_def)
  show ?case
  proof (cases "resident es ?va")
    case False
    then have "Load_segment rd f es seg (map int (i # is)) m = Load_segment rd f es seg (map int is) m"
      by (simp add: va(2) pg e Let_def sint_frame(1) [OF Cons.prems(4) va(1)] del: of_nat_add)
    with False Cons.IH [OF Cons.prems(1-6)] Cons.prems(7) show ?thesis by (simp split: option.splits)
  next
    case True
    have "int_range (?pos + 1)" using seg by (simp add: int_range_def)
    then obtain d where d: "rd (machine.more m) f 1 ?pos = Inr (d, take (nat 1) (drop (nat ?pos) file))"
        "inv d" "contents d = contents (machine.more m)" "handle d f n"
      using rd_ok [OF Cons.prems(1-3), of ?pos 1] seg by auto
    let ?m = "m\<lparr>machine.more := d, mainMemory := (if nat ?pos < length file then (mainMemory m)(paddr es ?va := file ! nat ?pos) else mainMemory m)\<rparr>"
    have lt: "paddr es ?va < MemorySize" by (rule paddr_lt [OF Cons.prems(4) va(1) True])
    have add: "sint (physicalPage (es ! (?va div PageSize))) * int PageSize + int (?va mod PageSize) = int (paddr es ?va)"
      by (simp add: sint_frame(2) [OF Cons.prems(4) va(1) True] paddr_def)
    have "Load_segment rd f es seg (map int (i # is)) m = Load_segment rd f es seg (map int is) ?m"
      using True lt by (simp add: va(2) pg e Let_def sint_frame(1) [OF Cons.prems(4) va(1)] add d(1) take_1_drop hd_drop_conv_nth del: of_nat_add)
    moreover have "\<exists>d'. Load_segment rd f es seg (map int is) ?m = Inr (?m\<lparr>machine.more := d',
        mainMemory := fill es (seg_byte seg file) (map (\<lambda>i. nat (sint (virtualAddr seg)) + i) is) (mainMemory ?m)\<rparr>)
        \<and> inv d' \<and> handle d' f n \<and> contents d' = contents (machine.more ?m)"
      by (rule Cons.IH) (use Cons.prems d in auto)
    ultimately show ?thesis using d(3) True by (cases "nat ?pos < length file") (simp_all add: img)
  qed
next
  case Nil
  then show ?case by (intro exI [of _ "machine.more m"]) simp
qed

lemma load_segment_ok:
  assumes "inv (machine.more m)" "handle (machine.more m) f n" "contents (machine.more m) n = Some file"
    "table_ok es" "seg_ok seg"
  shows "\<exists>d mem. load_segment rd f es seg m = Inr (m\<lparr>machine.more := d, mainMemory := mem\<rparr>)
    \<and> inv d \<and> handle d f n \<and> contents d = contents (machine.more m)
    \<and> (\<forall>va<MemorySize. resident es va \<longrightarrow>
         mem (paddr es va) = (case seg_byte seg file va of Some b \<Rightarrow> b | None \<Rightarrow> mainMemory m (paddr es va)))
    \<and> (\<forall>q. (\<forall>va<MemorySize. resident es va \<longrightarrow> paddr es va \<noteq> q) \<longrightarrow> mem q = mainMemory m q)"
proof (cases "sint (segSize seg) > 0")
  case False
  then have "seg_byte seg file va = None" for va by (simp add: seg_byte_def Let_def)
  with False assms show ?thesis
    by (intro exI [of _ "machine.more m"] exI [of _ "mainMemory m"]) (simp add: load_segment_def)
next
  case True
  define vas where "vas = map (\<lambda>i. nat (sint (virtualAddr seg)) + i) [0..<nat (sint (segSize seg))]"
  let ?mem = "fill es (seg_byte seg file) vas (mainMemory m)"
  obtain d where d: "load_segment rd f es seg m = Inr (m\<lparr>machine.more := d, mainMemory := ?mem\<rparr>)"
      "inv d" "handle d f n" "contents d = contents (machine.more m)"
    using Load_segment_fill [OF assms True, of "[0..<nat (sint (segSize seg))]"] True
    by (auto simp: load_segment_def vas_def)
  have range: "\<forall>v\<in>set vas. v < MemorySize" using assms(5) True by (auto simp: vas_def seg_ok_def)
  have out: "seg_byte seg file va = None" if "va \<notin> set vas" for va
  proof (rule ccontr)
    assume "seg_byte seg file va \<noteq> None"
    then have "va = nat (sint (virtualAddr seg)) + (va - nat (sint (virtualAddr seg)))"
        "va - nat (sint (virtualAddr seg)) < nat (sint (segSize seg))"
      by (auto simp: seg_byte_def Let_def split: if_splits)
    then have "va \<in> set vas" unfolding vas_def by (metis atLeastLessThan_iff image_eqI le0 list.set_map set_upt)
    with that show False ..
  qed
  have "?mem (paddr es va) = (case seg_byte seg file va of Some b \<Rightarrow> b | None \<Rightarrow> mainMemory m (paddr es va))"
    if "va < MemorySize" "resident es va" for va
    using fill_at [OF _ assms(4) that(2) range] fill_None [OF disjI1 assms(4) that range] out [of va]
    by (cases "va \<in> set vas") auto
  moreover have "?mem q = mainMemory m q" if "\<forall>va<MemorySize. resident es va \<longrightarrow> paddr es va \<noteq> q" for q
    using fill_other range that by blast
  ultimately show ?thesis using d by blast
qed

end

text \<open>The image of a program: later segments overwrite earlier ones.\<close>

definition noff_image :: "noff_header \<Rightarrow> byte list \<Rightarrow> nat \<Rightarrow> byte option" where
  "noff_image h file va =
     (case seg_byte (readonlyData h) file va of Some b \<Rightarrow> Some b | None \<Rightarrow>
      case seg_byte (initData h) file va of Some b \<Rightarrow> Some b | None \<Rightarrow> seg_byte (codeSeg h) file va)"

definition prog_ok :: "noff_header \<Rightarrow> bool" where
  "prog_ok h \<longleftrightarrow> noffMagic h = NOFFMAGIC \<and> prog_pages h \<le> of_nat NumPhysPages
     \<and> seg_ok (codeSeg h) \<and> seg_ok (initData h) \<and> seg_ok (readonlyData h)"

context readable_files
begin

lemma load_segments_ok:
  assumes "inv (machine.more m)" "handle (machine.more m) f n" "contents (machine.more m) n = Some file"
    "table_ok es" "seg_ok (codeSeg h)" "seg_ok (initData h)" "seg_ok (readonlyData h)"
  shows "\<exists>d mem. bindR (load_segment rd f es (codeSeg h) m) (\<lambda>m. bindR (load_segment rd f es (initData h) m) (\<lambda>m.
        bindR (load_segment rd f es (readonlyData h) m) (\<lambda>m. K m))) = K (m\<lparr>machine.more := d, mainMemory := mem\<rparr>)
    \<and> inv d \<and> handle d f n \<and> contents d = contents (machine.more m)
    \<and> (\<forall>va<MemorySize. resident es va \<longrightarrow>
         mem (paddr es va) = (case noff_image h file va of Some b \<Rightarrow> b | None \<Rightarrow> mainMemory m (paddr es va)))
    \<and> (\<forall>q. (\<forall>va<MemorySize. resident es va \<longrightarrow> paddr es va \<noteq> q) \<longrightarrow> mem q = mainMemory m q)"
proof -
  obtain d1 mem1 where 1: "load_segment rd f es (codeSeg h) m = Inr (m\<lparr>machine.more := d1, mainMemory := mem1\<rparr>)"
      "inv d1" "handle d1 f n" "contents d1 = contents (machine.more m)"
      "\<forall>va<MemorySize. resident es va \<longrightarrow> mem1 (paddr es va) = (case seg_byte (codeSeg h) file va of Some b \<Rightarrow> b | None \<Rightarrow> mainMemory m (paddr es va))"
      "\<forall>q. (\<forall>va<MemorySize. resident es va \<longrightarrow> paddr es va \<noteq> q) \<longrightarrow> mem1 q = mainMemory m q"
    using load_segment_ok [OF assms(1-5)] by blast
  let ?m1 = "m\<lparr>machine.more := d1, mainMemory := mem1\<rparr>"
  have pre1: "inv (machine.more ?m1)" "handle (machine.more ?m1) f n" "contents (machine.more ?m1) n = Some file"
    using 1 assms(3) by simp_all
  obtain d2 mem2 where 2: "load_segment rd f es (initData h) ?m1 = Inr (?m1\<lparr>machine.more := d2, mainMemory := mem2\<rparr>)"
      "inv d2" "handle d2 f n" "contents d2 = contents (machine.more ?m1)"
      "\<forall>va<MemorySize. resident es va \<longrightarrow> mem2 (paddr es va) = (case seg_byte (initData h) file va of Some b \<Rightarrow> b | None \<Rightarrow> mainMemory ?m1 (paddr es va))"
      "\<forall>q. (\<forall>va<MemorySize. resident es va \<longrightarrow> paddr es va \<noteq> q) \<longrightarrow> mem2 q = mainMemory ?m1 q"
    using load_segment_ok [OF pre1 assms(4,6)] by blast
  let ?m2 = "?m1\<lparr>machine.more := d2, mainMemory := mem2\<rparr>"
  have pre2: "inv (machine.more ?m2)" "handle (machine.more ?m2) f n" "contents (machine.more ?m2) n = Some file"
    using 1 2(2-4) assms(3) by simp_all
  obtain d3 mem3 where 3: "load_segment rd f es (readonlyData h) ?m2 = Inr (?m2\<lparr>machine.more := d3, mainMemory := mem3\<rparr>)"
      "inv d3" "handle d3 f n" "contents d3 = contents (machine.more ?m2)"
      "\<forall>va<MemorySize. resident es va \<longrightarrow> mem3 (paddr es va) = (case seg_byte (readonlyData h) file va of Some b \<Rightarrow> b | None \<Rightarrow> mainMemory ?m2 (paddr es va))"
      "\<forall>q. (\<forall>va<MemorySize. resident es va \<longrightarrow> paddr es va \<noteq> q) \<longrightarrow> mem3 q = mainMemory ?m2 q"
    using load_segment_ok [OF pre2 assms(4,7)] by blast
  have "mem3 (paddr es va) = (case noff_image h file va of Some b \<Rightarrow> b | None \<Rightarrow> mainMemory m (paddr es va))"
    if "va < MemorySize" "resident es va" for va
    using 1(5) 2(5) 3(5) that unfolding noff_image_def by (simp split: option.splits)
  moreover have "mem3 q = mainMemory m q" if "\<forall>va<MemorySize. resident es va \<longrightarrow> paddr es va \<noteq> q" for q
    using 1(6) 2(6) 3(6) that by simp
  ultimately show ?thesis using 1(1,4) 2(1,4) 3(1-4) by (intro exI [of _ d3] exI [of _ mem3]) simp
qed

lemma Load_ok:
  assumes "inv (machine.more m)" "okname n" "contents (machine.more m) n = Some file" "52 \<le> length file"
    "prog_ok (noff_of (take 52 file))" "frames_wf m" "tables m tp = None"
  shows "\<exists>m' es. AddrSpace_Load opn rd cls tp n a m = Inr (m', a\<lparr>spaceTable := tp, numPages := prog_pages (noff_of (take 52 file)),
        spaceFileAddr := file_addr (noff_of (take 52 file))\<rparr>, True)
    \<and> inv (machine.more m') \<and> contents (machine.more m') = contents (machine.more m) \<and> frames_wf m' \<and> frames_kept m m'
    \<and> registers m' = registers m \<and> tables m' = (tables m)(tp \<mapsto> es)
    \<and> table_ok es \<and> (\<forall>i<NumPhysPages. new_entry m m' n tp i (es ! i))
    \<and> (\<forall>va<MemorySize. resident es va \<longrightarrow> mainMemory m' (paddr es va) =
         (case noff_image (noff_of (take 52 file)) file va of Some b \<Rightarrow> b | None \<Rightarrow> mainMemory m (paddr es va)))
    \<and> (\<forall>q. RefPageTable (GlobalPageTable m (q div PageSize)) \<noteq> None \<longrightarrow> mainMemory m' q = mainMemory m q)
    \<and> (\<forall>f. GlobalPageTable m' f = GlobalPageTable m f \<or> (\<exists>i<NumPhysPages. owner m' f = Some (tp, i))) \<and> tlb m' = tlb m"
proof -
  define h where "h = noff_of (take 52 file)"
  obtain d f where d: "opn (machine.more m) n = Inr (d, Some f)" "inv d" "contents d = contents (machine.more m)" "handle d f n"
    using opn_some [OF assms(1-3)] by blast
  have "int_range (0 + 52)" by (simp add: int_range_def)
  then obtain d' where d': "rd d f 52 0 = Inr (d', take (nat 52) (drop (nat 0) file))" "inv d'" "contents d' = contents d" "handle d' f n"
    using rd_ok [OF d(2,4), of "file" 0 52] d(3) assms(3) by auto
  let ?m1 = "m\<lparr>machine.more := d'\<rparr>"
  obtain g es where t: "Load_table [0..<NumPhysPages] tp n ?m1 [] = (?m1\<lparr>GlobalPageTable := g\<rparr>, es)" "length es = NumPhysPages"
      "frames_kept ?m1 (?m1\<lparr>GlobalPageTable := g\<rparr>)" "\<forall>i<NumPhysPages. new_entry ?m1 (?m1\<lparr>GlobalPageTable := g\<rparr>) n tp i (es ! i)"
      "\<forall>f. g f = GlobalPageTable m f \<or> (\<exists>i<NumPhysPages. owner (?m1\<lparr>GlobalPageTable := g\<rparr>) f = Some (tp, i))"
    using Load_table_ok [of 0 NumPhysPages tp n ?m1 "[]"] by auto
  let ?m2 = "?m1\<lparr>GlobalPageTable := g, tables := (tables m)(tp \<mapsto> es)\<rparr>"
  have entries: "\<forall>i<NumPhysPages. new_entry m ?m2 n tp i (es ! i)" and kept: "frames_kept m ?m2"
    using t(3,4) by (simp_all add: new_entry_def frames_kept_def owner_def frames_full_def)
  have tok: "table_ok es" by (rule new_table_ok [OF t(2) entries])
  have wf: "frames_wf ?m2"
    by (rule new_table_wf [where fileName = n and es = es, OF assms(6,7) kept]) (simp, unfold t(2), rule entries)
  have prog: "noffMagic h = NOFFMAGIC" "prog_pages h \<le> of_nat NumPhysPages"
      "seg_ok (codeSeg h)" "seg_ok (initData h)" "seg_ok (readonlyData h)"
    using assms(5) by (simp_all add: prog_ok_def h_def)
  have pre: "inv (machine.more ?m2)" "handle (machine.more ?m2) f n" "contents (machine.more ?m2) n = Some file"
    using d(3) d' assms(3) by simp_all
  let ?K = "\<lambda>m. bindR (cls (machine.more m) f) (\<lambda>d.
      Inr (m\<lparr>machine.more := d\<rparr>, a\<lparr>spaceTable := tp, numPages := prog_pages h, spaceFileAddr := file_addr h\<rparr>, True))"
  obtain d2 mem where s: "bindR (load_segment rd f es (codeSeg h) ?m2) (\<lambda>m. bindR (load_segment rd f es (initData h) m) (\<lambda>m.
        bindR (load_segment rd f es (readonlyData h) m) (\<lambda>m. ?K m))) = ?K (?m2\<lparr>machine.more := d2, mainMemory := mem\<rparr>)"
      "inv d2" "contents d2 = contents (machine.more ?m2)" "handle d2 f n"
      "\<forall>va<MemorySize. resident es va \<longrightarrow>
         mem (paddr es va) = (case noff_image h file va of Some b \<Rightarrow> b | None \<Rightarrow> mainMemory ?m2 (paddr es va))"
      "\<forall>q. (\<forall>va<MemorySize. resident es va \<longrightarrow> paddr es va \<noteq> q) \<longrightarrow> mem q = mainMemory ?m2 q"
    using load_segments_ok [OF pre tok prog(3-5), of ?K] by blast
  obtain d3 where c: "cls d2 f = Inr d3" "inv d3" "contents d3 = contents d2" using cls_ok [OF s(2,4)] by blast
  let ?m3 = "?m2\<lparr>machine.more := d3, mainMemory := mem\<rparr>"
  have "AddrSpace_Load opn rd cls tp n a m = Inr (?m3, a\<lparr>spaceTable := tp, numPages := prog_pages h, spaceFileAddr := file_addr h\<rparr>, True)"
    using d(1) d'(1) assms(4) prog(1,2) t(1) s(1) c(1)
    by (simp add: AddrSpace_Load_def sizeof_NoffHeader_def h_def [symmetric] Let_def)
  moreover have "mem q = mainMemory m q" if "RefPageTable (GlobalPageTable m (q div PageSize)) \<noteq> None" for q
  proof -
    have "paddr es va \<noteq> q" if "va < MemorySize" "resident es va" for va
      using new_entry_frame(3) [of m ?m2 n tp "va div PageSize" "es ! (va div PageSize)"] entries page_lt [OF that(1)] that(2)
        paddr_frame [of es va] \<open>RefPageTable (GlobalPageTable m (q div PageSize)) \<noteq> None\<close>
      by (auto simp: resident_def frame_of_def)
    with s(6) show ?thesis by simp
  qed
  moreover have "frames_wf ?m3" using wf frames_wf_cong [of ?m3 ?m2] by simp
  moreover have "frames_kept m ?m3" "\<forall>i<NumPhysPages. new_entry m ?m3 n tp i (es ! i)"
    using kept entries by (simp_all add: frames_kept_def new_entry_def owner_def frames_full_def)
  moreover have "\<forall>f. GlobalPageTable ?m3 f = GlobalPageTable m f \<or> (\<exists>i<NumPhysPages. owner ?m3 f = Some (tp, i))"
    using t(5) by (simp add: owner_def)
  ultimately show ?thesis
    using s(3,5) c(2,3) d(3) d'(3) tok unfolding h_def
    by (intro exI [of _ ?m3] exI [of _ es]) (simp cong: option.case_cong)
qed

lemma Load_missing:
  assumes "inv (machine.more m)" "okname n" "contents (machine.more m) n = None"
  shows "\<exists>d. AddrSpace_Load opn rd cls tp n a m = Inr (m\<lparr>machine.more := d\<rparr>, a, False) \<and> inv d \<and> contents d = contents (machine.more m)"
  using opn_none [OF assms] by (auto simp: AddrSpace_Load_def)

end

section \<open>Release of an address space\<close>

definition table_frames :: "translation_entry list \<Rightarrow> nat set" where
  "table_frames es = (\<lambda>e. unat (physicalPage e)) ` {e \<in> set es. physicalPage e \<noteq> -1}"

definition released :: "nat set \<Rightarrow> 'a machine_scheme \<Rightarrow> 'a machine_scheme" where
  "released F m = m\<lparr>mainMemory := (\<lambda>x. if x div PageSize \<in> F then 0 else mainMemory m x),
     GlobalPageTable := (\<lambda>f. if f \<in> F then (GlobalPageTable m f)\<lparr>RefPageTable := None, VirNum := -1\<rparr> else GlobalPageTable m f)\<rparr>"

lemma released_empty [simp]: "released {} m = m"
  by (simp add: released_def)

lemma released_insert: "released F (released G m) = released (G \<union> F) m"
  by (auto simp: released_def fun_eq_iff)

lemma in_frame_iff: "f * PageSize \<le> x \<and> x < f * PageSize + PageSize \<longleftrightarrow> x div PageSize = f"
  by (auto simp: PageSize_def)

lemma release_loop_ok:
  assumes "tables m tp = Some es" "\<forall>i\<in>set is. i < length es"
    "\<forall>i\<in>set is. physicalPage (es ! i) \<noteq> -1 \<longrightarrow> unat (physicalPage (es ! i)) < NumPhysPages"
  shows "release_loop is tp m = Inr (released ((\<lambda>i. unat (physicalPage (es ! i))) ` {i \<in> set is. physicalPage (es ! i) \<noteq> -1}) m)"
  using assms
proof (induction "is" arbitrary: m)
  case (Cons i "is")
  let ?P = "\<lambda>i. unat (physicalPage (es ! i))"
  have get: "table_get m tp i = Inr (es ! i)" using Cons.prems by (simp add: table_get_def)
  show ?case
  proof (cases "physicalPage (es ! i) = -1")
    case True
    then have "{j \<in> set (i # is). physicalPage (es ! j) \<noteq> -1} = {j \<in> set is. physicalPage (es ! j) \<noteq> -1}" by auto
    with True Cons get show ?thesis by simp
  next
    case False
    then have lt: "?P i < NumPhysPages" using Cons.prems by simp
    then have s: "sint (physicalPage (es ! i)) = int (?P i)" by (intro sint_eq_unat) (simp add: NumPhysPages_def)
    have lt': "int (?P i) < int NumPhysPages" using lt by (simp only: of_nat_less_iff)
    have "release_loop (i # is) tp m = release_loop is tp (released {?P i} m)"
      using False lt' get by (simp add: s released_def in_frame_iff fun_upd_def Let_def cong: if_cong)
    also have "\<dots> = Inr (released (?P ` {j \<in> set is. physicalPage (es ! j) \<noteq> -1}) (released {?P i} m))"
      by (rule Cons.IH) (use Cons.prems in \<open>auto simp: released_def\<close>)
    also have "{?P i} \<union> ?P ` {j \<in> set is. physicalPage (es ! j) \<noteq> -1} = ?P ` {j \<in> set (i # is). physicalPage (es ! j) \<noteq> -1}"
      using False by auto
    ultimately show ?thesis by (simp only: released_insert)
  qed
qed simp

lemma AddrSpace_delete_eq:
  assumes "tables m (spaceTable a) = Some es" "length es = NumPhysPages"
    "\<forall>e\<in>set es. physicalPage e \<noteq> -1 \<longrightarrow> unat (physicalPage e) < NumPhysPages"
  shows "AddrSpace_delete a m = Inr ((released (table_frames es) m)\<lparr>tables := (tables m)(spaceTable a := None)\<rparr>)"
proof -
  have "(\<lambda>i. unat (physicalPage (es ! i))) ` {i \<in> set [0..<NumPhysPages]. physicalPage (es ! i) \<noteq> -1} = table_frames es"
    using assms(2) by (auto simp: table_frames_def in_set_conv_nth image_iff)
  moreover have "release_loop [0..<NumPhysPages] (spaceTable a) m = Inr (released
      ((\<lambda>i. unat (physicalPage (es ! i))) ` {i \<in> set [0..<NumPhysPages]. physicalPage (es ! i) \<noteq> -1}) m)"
    by (rule release_loop_ok [OF assms(1)]) (use assms in auto)
  ultimately show ?thesis by (simp add: AddrSpace_delete_def released_def)
qed

lemma released_wf:
  assumes "frames_wf m" "tables m tp = Some es" "\<forall>e\<in>set es. physicalPage e \<noteq> -1 \<longrightarrow> valid e"
  shows "frames_wf ((released (table_frames es) m)\<lparr>tables := (tables m)(tp := None)\<rparr>)"
  unfolding frames_wf_def
proof (intro allI impI, elim conjE)
  let ?m = "(released (table_frames es) m)\<lparr>tables := (tables m)(tp := None)\<rparr>"
  fix t es' i
  assume e: "tables ?m t = Some es'" "i < length es'" "valid (es' ! i)" "physicalPage (es' ! i) \<noteq> -1"
  let ?f = "unat (physicalPage (es' ! i))"
  have t: "t \<noteq> tp" "tables m t = Some es'" using e(1) by (auto split: if_splits)
  have o: "?f < NumPhysPages" "owner m ?f = Some (t, i)" using frames_wfD [OF assms(1) t(2) e(2-4)] by simp_all
  have "?f \<notin> table_frames es"
  proof
    assume "?f \<in> table_frames es"
    then obtain j where "j < length es" "physicalPage (es ! j) \<noteq> -1" "?f = unat (physicalPage (es ! j))"
      by (auto simp: table_frames_def in_set_conv_nth)
    then have "owner m ?f = Some (tp, j)" using frames_wfD [OF assms(1,2)] assms(3) by simp
    with o(2) t(1) show False by simp
  qed
  then have "owner ?m ?f = owner m ?f" by (simp add: owner_def released_def)
  with o show "?f < NumPhysPages \<and> owner ?m ?f = Some (t, i)" by simp
qed

section \<open>Properties\<close>

text \<open>
  A context switch keeps a user program's machine state: when \<open>SaveState\<close> has been called
  and other programs have run, \<open>RestoreState\<close> puts all registers back and makes the page
  table, its length and the meta information of the program current again. It changes
  neither main memory nor any page table.
\<close>

theorem context_switch:
  "\<exists>a'. SaveState a m = Inr a' \<and> spaceTable a' = spaceTable a \<and> numPages a' = numPages a
     \<and> spaceFileAddr a' = spaceFileAddr a
     \<and> (\<exists>m''. RestoreState a' m' = Inr m'' \<and> map (registers m'') [0..<NumTotalRegs] = map (registers m) [0..<NumTotalRegs]
          \<and> pageTable m'' = Some (spaceTable a) \<and> pageTableSize m'' = numPages a \<and> FileAddr m'' = spaceFileAddr a
          \<and> mainMemory m'' = mainMemory m' \<and> tables m'' = tables m' \<and> GlobalPageTable m'' = GlobalPageTable m')"
  by (simp add: SaveState_eq RestoreState_eq use_space_def)




text \<open>An address space with page 0 in frame 5 and no other page in memory.\<close>

definition space5 :: addr_space where
  "space5 = \<lparr>spaceTable = 7, numPages = 12, spaceFileAddr = [], s_reg = (\<lambda>_. 0)\<rparr>"

definition entries5 :: "translation_entry list" where
  "entries5 = (replicate NumPhysPages (page0\<lparr>physicalPage := -1\<rparr>))[0 := page0]"

definition machine5 :: machine where
  "machine5 = (Machine_new False 12 [] 0)\<lparr>tables := [7 \<mapsto> entries5],
     GlobalPageTable := (\<lambda>_. GlobalEntry_new)(5 := \<lparr>VirNum = 0, useStamp = 0, RefPageTable = Some 7\<rparr>),
     mainMemory := (\<lambda>_. 42)\<rparr>"

lemma entries5_nth: "i < NumPhysPages \<Longrightarrow> entries5 ! i = (if i = 0 then page0 else page0\<lparr>physicalPage := -1\<rparr>)"
  by (auto simp: entries5_def nth_list_update)

lemma machine5_wf: "frames_wf machine5"
proof -
  have "i = 0" if "i < length entries5" "physicalPage (entries5 ! i) \<noteq> -1" for i
  proof -
    have "length entries5 = NumPhysPages" by (simp add: entries5_def)
    then show ?thesis using that entries5_nth [of i] by (auto split: if_splits)
  qed
  moreover have "entries5 ! 0 = page0" by (simp add: entries5_nth NumPhysPages_def)
  ultimately have five: "i = 0 \<and> physicalPage (entries5 ! i) = 5" if "i < length entries5" "physicalPage (entries5 ! i) \<noteq> -1" for i
    using that by (metis page0_def translation_entry.select_convs(2))
  show ?thesis unfolding frames_wf_def
  proof (intro allI impI, elim conjE)
    fix t es i
    assume "tables machine5 t = Some es" "i < length es" "valid (es ! i)" "physicalPage (es ! i) \<noteq> -1"
    then have "t = 7" "i = 0" "physicalPage (es ! i) = 5" using five by (auto simp: machine5_def split: if_splits)
    then show "unat (physicalPage (es ! i)) < NumPhysPages \<and> owner machine5 (unat (physicalPage (es ! i))) = Some (t, i)"
      by (simp add: owner_def machine5_def NumPhysPages_def)
  qed
qed


end
