(* ===== verification/Bitmap.thy ===== *)
theory Bitmap
  imports Prelude
begin

unbundle bit_operations_syntax

text \<open>
  \<^verbatim>\<open>code/lib/bitmap.h\<close> and \<^verbatim>\<open>code/lib/bitmap.cc\<close>: an array of bits packed in 32-bit words,
  used for the map of free disk sectors.
\<close>

section \<open>Data and operations\<close>

definition BitsInByte :: int where
  "BitsInByte = 8"

definition BitsInWord :: int where
  "BitsInWord = 4 * BitsInByte"

record bitmap =
  numBits :: int
  numWords :: int
  bmap :: "32 word list"

definition Bitmap_Test :: "bitmap \<Rightarrow> int \<Rightarrow> bool res" where
  "Bitmap_Test b which =
     ASSERT (which \<ge> 0 \<and> which < numBits b)
       (bindR (arr_get (bmap b) (which sdiv BitsInWord)) (\<lambda>w.
          Inr (w AND push_bit (nat (which smod BitsInWord)) 1 \<noteq> 0)))"

definition Bitmap_Mark :: "bitmap \<Rightarrow> int \<Rightarrow> bitmap res" where
  "Bitmap_Mark b which =
     ASSERT (which \<ge> 0 \<and> which < numBits b)
       (bindR (arr_get (bmap b) (which sdiv BitsInWord)) (\<lambda>w.
        bindR (arr_set (bmap b) (which sdiv BitsInWord)
                 (w OR push_bit (nat (which smod BitsInWord)) 1)) (\<lambda>m.
        let b' = b\<lparr>bmap := m\<rparr> in
        bindR (Bitmap_Test b' which) (\<lambda>t. ASSERT t (Inr b')))))"

definition Bitmap_Clear :: "bitmap \<Rightarrow> int \<Rightarrow> bitmap res" where
  "Bitmap_Clear b which =
     ASSERT (which \<ge> 0 \<and> which < numBits b)
       (bindR (arr_get (bmap b) (which sdiv BitsInWord)) (\<lambda>w.
        bindR (arr_set (bmap b) (which sdiv BitsInWord)
                 (w AND NOT (push_bit (nat (which smod BitsInWord)) 1))) (\<lambda>m.
        let b' = b\<lparr>bmap := m\<rparr> in
        bindR (Bitmap_Test b' which) (\<lambda>t. ASSERT (\<not> t) (Inr b')))))"

text \<open>The loops of the class run over the bit numbers \<open>0 .. numBits - 1\<close>.\<close>

definition bit_numbers :: "bitmap \<Rightarrow> int list" where
  "bit_numbers b = map int [0..<nat (numBits b)]"

primrec Clear_loop :: "bitmap \<Rightarrow> int list \<Rightarrow> bitmap res" where
  "Clear_loop b [] = Inr b"
| "Clear_loop b (i # is) = bindR (Bitmap_Clear b i) (\<lambda>b'. Clear_loop b' is)"

primrec Mark_loop :: "bitmap \<Rightarrow> int list \<Rightarrow> bitmap res" where
  "Mark_loop b [] = Inr b"
| "Mark_loop b (i # is) = bindR (Bitmap_Mark b i) (\<lambda>b'. Mark_loop b' is)"

definition Bitmap_new :: "int \<Rightarrow> bitmap res" where
  "Bitmap_new numItems =
     ASSERT (numItems > 0)
       (let nw = divRoundUp numItems BitsInWord;
            b = \<lparr>numBits = numItems, numWords = nw, bmap = replicate (nat nw) 0\<rparr>
        in Clear_loop b (bit_numbers b))"

primrec FindAndSet_loop :: "bitmap \<Rightarrow> int list \<Rightarrow> (bitmap \<times> int) res" where
  "FindAndSet_loop b [] = Inr (b, -1)"
| "FindAndSet_loop b (i # is) =
     bindR (Bitmap_Test b i) (\<lambda>t.
       if \<not> t then bindR (Bitmap_Mark b i) (\<lambda>b'. Inr (b', i))
       else FindAndSet_loop b is)"

definition Bitmap_FindAndSet :: "bitmap \<Rightarrow> (bitmap \<times> int) res" where
  "Bitmap_FindAndSet b = FindAndSet_loop b (bit_numbers b)"

primrec NumClear_loop :: "bitmap \<Rightarrow> int list \<Rightarrow> int \<Rightarrow> int res" where
  "NumClear_loop b [] count = Inr count"
| "NumClear_loop b (i # is) count =
     bindR (Bitmap_Test b i) (\<lambda>t. NumClear_loop b is (if \<not> t then count + 1 else count))"

definition Bitmap_NumClear :: "bitmap \<Rightarrow> int res" where
  "Bitmap_NumClear b = NumClear_loop b (bit_numbers b) 0"

definition Bitmap_SelfTest :: "bitmap \<Rightarrow> bitmap res" where
  "Bitmap_SelfTest b =
     ASSERT (numBits b \<ge> BitsInWord) (
     bindR (Bitmap_NumClear b) (\<lambda>n.
     ASSERT (n = numBits b) (
     bindR (Bitmap_FindAndSet b) (\<lambda>(b, r).
     ASSERT (r = 0) (
     bindR (Bitmap_Mark b 31) (\<lambda>b.
     bindR (Bitmap_Test b 0) (\<lambda>t0.
     bindR (Bitmap_Test b 31) (\<lambda>t31.
     ASSERT (t0 \<and> t31) (
     bindR (Bitmap_FindAndSet b) (\<lambda>(b, r).
     ASSERT (r = 1) (
     bindR (Bitmap_Clear b 0) (\<lambda>b.
     bindR (Bitmap_Clear b 1) (\<lambda>b.
     bindR (Bitmap_Clear b 31) (\<lambda>b.
     bindR (Mark_loop b (bit_numbers b)) (\<lambda>b.
     bindR (Bitmap_FindAndSet b) (\<lambda>(b, r).
     ASSERT (r = -1) (
     Clear_loop b (bit_numbers b))))))))))))))))))"

section \<open>The bits of a bitmap\<close>

text \<open>
  A bitmap is well formed when its storage has the size the constructor gives it. Its
  abstraction is the set of the bits that are on; every routine is specified on that set.
\<close>

definition bitmap_wf :: "bitmap \<Rightarrow> bool" where
  "bitmap_wf b \<longleftrightarrow> numBits b > 0 \<and> numWords b = divRoundUp (numBits b) BitsInWord
     \<and> int (length (bmap b)) = numWords b"

definition bits :: "bitmap \<Rightarrow> nat set" where
  "bits b = {i. int i < numBits b \<and> bit (bmap b ! (i div 32)) (i mod 32)}"

abbreviation nbits :: "bitmap \<Rightarrow> nat" where
  "nbits b \<equiv> nat (numBits b)"

lemma BitsInWord_32 [simp]: "BitsInWord = 32"
  by (simp add: BitsInWord_def BitsInByte_def)

lemma bits_bound: "i \<in> bits b \<Longrightarrow> i < nbits b"
  by (simp add: bits_def)

lemma bits_bound_int: "i \<in> bits b \<Longrightarrow> int i < numBits b"
  by (simp add: bits_def)

lemma bits_subset: "bits b \<subseteq> {..<nbits b}"
  by (auto dest: bits_bound)

lemma finite_bits [simp]: "finite (bits b)"
  using bits_subset by (rule finite_subset) simp

lemma bit_numbers_conv: "bit_numbers b = map int [0..<nbits b]"
  by (simp add: bit_numbers_def)

lemma word_in_storage:
  assumes "bitmap_wf b" "0 \<le> which" "which < numBits b"
  shows "which div 32 < int (length (bmap b))"
  using assms divRoundUp_index [of which "numBits b" 32] by (simp add: bitmap_wf_def)

lemma Bitmap_Test_in:
  assumes "bitmap_wf b" "i < nbits b"
  shows "Bitmap_Test b (int i) = Inr (i \<in> bits b)"
proof -
  have "int i div 32 < int (length (bmap b))"
    using assms word_in_storage [of b "int i"] by simp
  then show ?thesis
    using assms
    by (simp add: Bitmap_Test_def ASSERT_holds bits_def bit_iff_and_push_bit_not_eq_0
        nat_div_distrib nat_mod_distrib)
qed

lemma Bitmap_Test_out:
  "\<not> (0 \<le> which \<and> which < numBits b) \<Longrightarrow> Bitmap_Test b which = Inl AssertFailed"
  by (auto simp: Bitmap_Test_def ASSERT_def)

text \<open>Changing one bit of the storage changes exactly that bit of the set.\<close>

lemma bits_update:
  assumes "bitmap_wf b" "i < nbits b"
    and "\<And>k. k < 32 \<Longrightarrow> bit v k = (if k = i mod 32 then on else bit (bmap b ! (i div 32)) k)"
  shows "bits (b\<lparr>bmap := (bmap b)[i div 32 := v]\<rparr>) =
    (if on then insert i (bits b) else bits b - {i})"
proof -
  have len: "i div 32 < length (bmap b)"
    using assms word_in_storage [of b "int i"] by (simp add: int_div_lt_iff)
  have i: "int i < numBits b" using assms(2) by simp
  show ?thesis (is "?L = ?R")
  proof (rule set_eqI)
    fix x
    show "x \<in> ?L \<longleftrightarrow> x \<in> ?R"
    proof (cases "x div 32 = i div 32")
      case True
      then have "x = i \<longleftrightarrow> x mod 32 = i mod 32" by (metis div_mult_mod_eq)
      with True len i assms(3) [of "x mod 32"] show ?thesis by (auto simp: bits_def)
    next
      case False
      then have "x \<noteq> i" by auto
      with False show ?thesis by (auto simp: bits_def)
    qed
  qed
qed

lemma bitmap_wf_update [wf_intros, simp]:
  "bitmap_wf (b\<lparr>bmap := (bmap b)[k := v]\<rparr>) = bitmap_wf b"
  by (simp add: bitmap_wf_def)

text \<open>
  The specification of \<open>Mark\<close> and \<open>Clear\<close>: inside the range they succeed (their own
  assertions hold) and change the one bit; outside of it they stop at the first assertion.
\<close>

lemma Bitmap_Mark_in:
  assumes "bitmap_wf b" "i < nbits b"
  shows "\<exists>b'. Bitmap_Mark b (int i) = Inr b' \<and> bitmap_wf b' \<and> bits b' = insert i (bits b)
    \<and> numBits b' = numBits b"
proof -
  let ?w = "bmap b ! (i div 32)"
  let ?b' = "b\<lparr>bmap := (bmap b)[i div 32 := ?w OR push_bit (i mod 32) 1]\<rparr>"
  have len: "int i div 32 < int (length (bmap b))"
    using assms word_in_storage [of b "int i"] by simp
  have bits: "bits ?b' = insert i (bits b)"
    using assms bits_update [of b i "?w OR push_bit (i mod 32) 1" True]
    by (simp add: bit_simps)
  have wf: "bitmap_wf ?b'" using assms by simp
  have "Bitmap_Test ?b' (int i) = Inr True"
    using Bitmap_Test_in [OF wf, of i] assms bits by simp
  then have "Bitmap_Mark b (int i) = Inr ?b'"
    using assms len
    by (simp add: Bitmap_Mark_def ASSERT_holds Let_def nat_div_distrib nat_mod_distrib)
  with bits wf show ?thesis by simp
qed

lemma Bitmap_Clear_in:
  assumes "bitmap_wf b" "i < nbits b"
  shows "\<exists>b'. Bitmap_Clear b (int i) = Inr b' \<and> bitmap_wf b' \<and> bits b' = bits b - {i}
    \<and> numBits b' = numBits b"
proof -
  let ?w = "bmap b ! (i div 32)"
  let ?b' = "b\<lparr>bmap := (bmap b)[i div 32 := ?w AND NOT (push_bit (i mod 32) 1)]\<rparr>"
  have len: "int i div 32 < int (length (bmap b))"
    using assms word_in_storage [of b "int i"] by simp
  have bits: "bits ?b' = bits b - {i}"
    using assms bits_update [of b i "?w AND NOT (push_bit (i mod 32) 1)" False]
    by (simp add: bit_simps)
  have wf: "bitmap_wf ?b'" using assms by simp
  have "Bitmap_Test ?b' (int i) = Inr False"
    using Bitmap_Test_in [OF wf, of i] assms bits by simp
  then have "Bitmap_Clear b (int i) = Inr ?b'"
    using assms len
    by (simp add: Bitmap_Clear_def ASSERT_holds Let_def nat_div_distrib nat_mod_distrib)
  with bits wf show ?thesis by simp
qed

text \<open>The loops, by induction over the bit numbers still to visit.\<close>

lemma Mark_loop_in:
  assumes "bitmap_wf b" "\<forall>i \<in> set is. i < nbits b"
  shows "\<exists>b'. Mark_loop b (map int is) = Inr b' \<and> bitmap_wf b'
    \<and> bits b' = bits b \<union> set is \<and> numBits b' = numBits b"
  using assms
proof (induction "is" arbitrary: b)
  case (Cons i "is")
  obtain b1 where b1: "Bitmap_Mark b (int i) = Inr b1" "bitmap_wf b1"
      "bits b1 = insert i (bits b)" "numBits b1 = numBits b"
    using Bitmap_Mark_in [of b i] Cons.prems by auto
  with Cons.IH [of b1] Cons.prems show ?case by auto
qed auto

lemma Clear_loop_in:
  assumes "bitmap_wf b" "\<forall>i \<in> set is. i < nbits b"
  shows "\<exists>b'. Clear_loop b (map int is) = Inr b' \<and> bitmap_wf b'
    \<and> bits b' = bits b - set is \<and> numBits b' = numBits b"
  using assms
proof (induction "is" arbitrary: b)
  case (Cons i "is")
  obtain b1 where b1: "Bitmap_Clear b (int i) = Inr b1" "bitmap_wf b1"
      "bits b1 = bits b - {i}" "numBits b1 = numBits b"
    using Bitmap_Clear_in [of b i] Cons.prems by auto
  with Cons.IH [of b1] Cons.prems show ?case by auto
qed auto

lemma Bitmap_new_ok:
  assumes "n > 0"
  shows "\<exists>b. Bitmap_new n = Inr b \<and> bitmap_wf b \<and> bits b = {} \<and> numBits b = n"
proof -
  let ?nw = "divRoundUp n BitsInWord"
  let ?b = "\<lparr>numBits = n, numWords = ?nw, bmap = replicate (nat ?nw) 0\<rparr>"
  have wf: "bitmap_wf ?b"
    using assms divRoundUp_nonneg [of n 32] by (simp add: bitmap_wf_def)
  have "bits ?b \<subseteq> set [0..<nbits ?b]" by (auto simp: bits_def)
  with Clear_loop_in [OF wf, of "[0..<nbits ?b]"] assms show ?thesis
    by (auto simp: Bitmap_new_def ASSERT_holds Let_def bit_numbers_conv)
qed

lemma NumClear_loop_in:
  assumes "bitmap_wf b" "\<forall>i \<in> set is. i < nbits b"
  shows "NumClear_loop b (map int is) c = Inr (c + int (length (filter (\<lambda>i. i \<notin> bits b) is)))"
  using assms by (induction "is" arbitrary: c) (simp_all add: Bitmap_Test_in bits_bound_int)

lemma Bitmap_NumClear_ok:
  assumes "bitmap_wf b"
  shows "Bitmap_NumClear b = Inr (int (card ({..<nbits b} - bits b)))"
proof -
  have "length (filter (\<lambda>i. i \<notin> bits b) [0..<nbits b]) = card ({..<nbits b} - bits b)"
    by (subst distinct_card [symmetric]) (auto intro: arg_cong [where f = card])
  then show ?thesis
    using NumClear_loop_in [OF assms, of "[0..<nbits b]" 0]
    by (simp add: Bitmap_NumClear_def bit_numbers_conv)
qed

text \<open>\<open>FindAndSet\<close> skips the bits that are on and takes the first that is off.\<close>

lemma FindAndSet_loop_full:
  assumes "bitmap_wf b" "set is \<subseteq> bits b"
  shows "FindAndSet_loop b (map int is) = Inr (b, -1)"
  using assms by (induction "is") (simp_all add: Bitmap_Test_in bits_bound_int)

lemma FindAndSet_loop_found:
  assumes "bitmap_wf b" "set is \<subseteq> bits b" "i \<notin> bits b" "i < nbits b"
  shows "FindAndSet_loop b (map int (is @ i # js)) = bindR (Bitmap_Mark b (int i)) (\<lambda>b'. Inr (b', int i))"
  using assms by (induction "is") (simp_all add: Bitmap_Test_in bits_bound_int)

lemma Bitmap_FindAndSet_full:
  assumes "bitmap_wf b" "bits b = {..<nbits b}"
  shows "Bitmap_FindAndSet b = Inr (b, -1)"
proof -
  have "set [0..<nbits b] \<subseteq> bits b" unfolding assms(2) by auto
  then show ?thesis
    unfolding Bitmap_FindAndSet_def bit_numbers_conv by (rule FindAndSet_loop_full [OF assms(1)])
qed

lemma Bitmap_FindAndSet_found:
  assumes "bitmap_wf b" "i < nbits b" "i \<notin> bits b" "{..<i} \<subseteq> bits b"
  shows "\<exists>b'. Bitmap_FindAndSet b = Inr (b', int i) \<and> bitmap_wf b'
    \<and> bits b' = insert i (bits b) \<and> numBits b' = numBits b"
proof -
  have split: "[0..<nbits b] = [0..<i] @ i # [Suc i..<nbits b]"
    using assms(2) by (rule upt_split)
  obtain b' where "Bitmap_Mark b (int i) = Inr b'" "bitmap_wf b'"
      "bits b' = insert i (bits b)" "numBits b' = numBits b"
    using Bitmap_Mark_in [OF assms(1,2)] by blast
  moreover have "FindAndSet_loop b (map int [0..<nbits b]) =
      bindR (Bitmap_Mark b (int i)) (\<lambda>b'. Inr (b', int i))"
    unfolding split using assms by (intro FindAndSet_loop_found) (auto simp: lessThan_atLeast0)
  ultimately show ?thesis
    by (simp add: Bitmap_FindAndSet_def bit_numbers_conv)
qed

lemma first_clear_bit:
  assumes "bits b \<noteq> {..<nbits b}"
  shows "\<exists>i. i < nbits b \<and> i \<notin> bits b \<and> {..<i} \<subseteq> bits b"
proof -
  have ex: "\<exists>i. i < nbits b \<and> i \<notin> bits b"
    using assms bits_subset [of b] by blast
  define i where "i = (LEAST i. i < nbits b \<and> i \<notin> bits b)"
  have "i < nbits b \<and> i \<notin> bits b"
    unfolding i_def using ex by (rule LeastI_ex)
  moreover have "j \<in> bits b" if "j < i" for j
    using not_less_Least [of j "\<lambda>i. i < nbits b \<and> i \<notin> bits b"] that calculation
    by (auto simp: i_def)
  ultimately show ?thesis by blast
qed

section \<open>The interface the file system relies on\<close>

text \<open>
  What a client of the map of free sectors may rely on: which units are in use, and what
  each routine does to them.
\<close>

locale bit_allocator =
  fixes find_and_set :: "'m \<Rightarrow> ('m \<times> int) res"
    and mark :: "'m \<Rightarrow> int \<Rightarrow> 'm res"
    and clear :: "'m \<Rightarrow> int \<Rightarrow> 'm res"
    and test :: "'m \<Rightarrow> int \<Rightarrow> bool res"
    and num_clear :: "'m \<Rightarrow> int res"
    and inv :: "'m \<Rightarrow> bool"
    and used :: "'m \<Rightarrow> nat set"
    and cap :: "'m \<Rightarrow> nat"
  assumes used_cap: "used m \<subseteq> {..<cap m}"
    and find_full: "inv m \<Longrightarrow> used m = {..<cap m} \<Longrightarrow> find_and_set m = Inr (m, -1)"
    and find_free: "inv m \<Longrightarrow> used m \<noteq> {..<cap m} \<Longrightarrow>
      \<exists>i m'. find_and_set m = Inr (m', int i) \<and> inv m' \<and> i < cap m \<and> i \<notin> used m
        \<and> {..<i} \<subseteq> used m \<and> used m' = insert i (used m) \<and> cap m' = cap m"
    and mark_in: "inv m \<Longrightarrow> i < cap m \<Longrightarrow>
      \<exists>m'. mark m (int i) = Inr m' \<and> inv m' \<and> used m' = insert i (used m) \<and> cap m' = cap m"
    and clear_in: "inv m \<Longrightarrow> i < cap m \<Longrightarrow>
      \<exists>m'. clear m (int i) = Inr m' \<and> inv m' \<and> used m' = used m - {i} \<and> cap m' = cap m"
    and test_in: "inv m \<Longrightarrow> i < cap m \<Longrightarrow> test m (int i) = Inr (i \<in> used m)"
    and num_clear_ok: "inv m \<Longrightarrow> num_clear m = Inr (int (card ({..<cap m} - used m)))"
begin

lemma finite_used: "finite (used m)"
  using used_cap finite_lessThan by (rule finite_subset)

lemma card_free: "card ({..<cap m} - used m) = cap m - card (used m)"
  using card_Diff_subset [OF finite_used used_cap] by simp

end

interpretation bm: bit_allocator Bitmap_FindAndSet Bitmap_Mark Bitmap_Clear Bitmap_Test
  Bitmap_NumClear bitmap_wf bits nbits
proof unfold_locales
  fix m assume wf: "bitmap_wf m" and ne: "bits m \<noteq> {..<nbits m}"
  then obtain i where "i < nbits m" "i \<notin> bits m" "{..<i} \<subseteq> bits m"
    using first_clear_bit by blast
  then show "\<exists>i m'. Bitmap_FindAndSet m = Inr (m', int i) \<and> bitmap_wf m' \<and> i < nbits m
      \<and> i \<notin> bits m \<and> {..<i} \<subseteq> bits m \<and> bits m' = insert i (bits m) \<and> nbits m' = nbits m"
    using Bitmap_FindAndSet_found [OF wf, of i] by auto
next
  fix m i assume "bitmap_wf m" "i < nbits m"
  then show "\<exists>m'. Bitmap_Mark m (int i) = Inr m' \<and> bitmap_wf m'
      \<and> bits m' = insert i (bits m) \<and> nbits m' = nbits m"
    using Bitmap_Mark_in by metis
next
  fix m i assume "bitmap_wf m" "i < nbits m"
  then show "\<exists>m'. Bitmap_Clear m (int i) = Inr m' \<and> bitmap_wf m'
      \<and> bits m' = bits m - {i} \<and> nbits m' = nbits m"
    using Bitmap_Clear_in by metis
qed (simp_all only: bits_subset Bitmap_FindAndSet_full Bitmap_Test_in Bitmap_NumClear_ok)

section \<open>Properties\<close>

text \<open>
  \<open>Bitmap::FindAndSet\<close> is a first-fit allocator: on a well-formed bitmap it never stops
  the simulator; it returns \<open>-1\<close> and changes nothing exactly when every bit is on, and
  otherwise it returns the lowest bit that is off and turns exactly that bit on.
\<close>

theorem FindAndSet_first_fit:
  assumes "bitmap_wf b"
  shows "\<exists>b' r. Bitmap_FindAndSet b = Inr (b', r) \<and> bitmap_wf b' \<and> numBits b' = numBits b
    \<and> (if bits b = {..<nbits b} then r = -1 \<and> b' = b
       else r = int (LEAST i. i \<notin> bits b) \<and> r < numBits b \<and> bits b' = insert (nat r) (bits b))"
proof (cases "bits b = {..<nbits b}")
  case True
  then show ?thesis using bm.find_full [OF assms] assms by auto
next
  case False
  then obtain i where i: "i < nbits b" "i \<notin> bits b" "{..<i} \<subseteq> bits b"
    using first_clear_bit by blast
  then have "(LEAST i. i \<notin> bits b) = i"
    by (intro Least_equality) (auto simp: not_less [symmetric])
  with i False show ?thesis using Bitmap_FindAndSet_found [OF assms i] by auto
qed

text \<open>At the bitmap of three bits whose lowest bit is on.\<close>

theorem FindAndSet_first_fit_witness:
  "bitmap_wf \<lparr>numBits = 3, numWords = 1, bmap = [1]\<rparr>
   \<and> (\<exists>b' r. Bitmap_FindAndSet \<lparr>numBits = 3, numWords = 1, bmap = [1]\<rparr> = Inr (b', r)
        \<and> bitmap_wf b' \<and> r \<noteq> 0)"
proof -
  let ?b = "\<lparr>numBits = 3, numWords = 1, bmap = [1]\<rparr>"
  have wf: "bitmap_wf ?b" by (simp add: bitmap_wf_def divRoundUp_def)
  have on: "0 \<in> bits ?b" by (simp add: bits_def)
  then have "(LEAST i. i \<notin> bits ?b) \<noteq> 0"
    by (metis (no_types, lifting) LeastI_ex finite_bits ex_new_if_finite infinite_UNIV_nat)
  with wf show ?thesis using FindAndSet_first_fit [OF wf] by (auto split: if_splits)
qed

text \<open>
  \<open>Mark\<close>, \<open>Clear\<close> and \<open>Test\<close> implement a set of bit numbers: inside the range none of
  their assertions fails and they insert, delete and look up one element of the set;
  outside of the range each of them aborts.
\<close>

theorem Bitmap_refines_set:
  assumes "bitmap_wf b"
  shows "if 0 \<le> i \<and> i < numBits b
    then (\<exists>b'. Bitmap_Mark b i = Inr b' \<and> bitmap_wf b' \<and> bits b' = insert (nat i) (bits b))
       \<and> (\<exists>b'. Bitmap_Clear b i = Inr b' \<and> bitmap_wf b' \<and> bits b' = bits b - {nat i})
       \<and> Bitmap_Test b i = Inr (nat i \<in> bits b)
    else Bitmap_Mark b i = Inl AssertFailed \<and> Bitmap_Clear b i = Inl AssertFailed
       \<and> Bitmap_Test b i = Inl AssertFailed"
proof (cases "0 \<le> i \<and> i < numBits b")
  case True
  then obtain n where n: "i = int n" "n < nbits b" by (metis less_nat_iff_int zero_le_imp_eq_int)
  show ?thesis
    using Bitmap_Mark_in [OF assms n(2)] Bitmap_Clear_in [OF assms n(2)]
      Bitmap_Test_in [OF assms n(2)] n by auto
next
  case False
  then show ?thesis
    by (auto simp: Bitmap_Mark_def Bitmap_Clear_def Bitmap_Test_out ASSERT_def)
qed

text \<open>Marking bit 2 of a bitmap of three bits, and bit 3, which is out of range.\<close>

theorem Bitmap_refines_set_witness:
  "bitmap_wf \<lparr>numBits = 3, numWords = 1, bmap = [1]\<rparr>
   \<and> (\<exists>b'. Bitmap_Mark \<lparr>numBits = 3, numWords = 1, bmap = [1]\<rparr> 2 = Inr b' \<and> 2 \<in> bits b')
   \<and> Bitmap_Mark \<lparr>numBits = 3, numWords = 1, bmap = [1]\<rparr> 3 = Inl AssertFailed"
proof -
  let ?b = "\<lparr>numBits = 3, numWords = 1, bmap = [1]\<rparr>"
  have wf: "bitmap_wf ?b" by (simp add: bitmap_wf_def divRoundUp_def)
  show ?thesis
    using wf Bitmap_refines_set [OF wf, of 2] Bitmap_refines_set [OF wf, of 3] by auto
qed

lemma Bitmap_FindAndSet_at:
  assumes "bitmap_wf b" "i < nbits b" "i \<notin> bits b" "{..<i} \<subseteq> bits b"
  obtains b' where "Bitmap_FindAndSet b = Inr (b', int i)" "bitmap_wf b'"
    "bits b' = insert i (bits b)" "numBits b' = numBits b"
  using Bitmap_FindAndSet_found [OF assms] by blast

lemma Bitmap_Mark_at:
  assumes "bitmap_wf b" "i < nbits b"
  obtains b' where "Bitmap_Mark b (int i) = Inr b'" "bitmap_wf b'"
    "bits b' = insert i (bits b)" "numBits b' = numBits b"
  using Bitmap_Mark_in [OF assms] by blast

lemma Bitmap_Clear_at:
  assumes "bitmap_wf b" "i < nbits b"
  obtains b' where "Bitmap_Clear b (int i) = Inr b'" "bitmap_wf b'"
    "bits b' = bits b - {i}" "numBits b' = numBits b"
  using Bitmap_Clear_in [OF assms] by blast

text \<open>
  The module's own self test passes: on a freshly created bitmap of at least one word,
  \<open>SelfTest\<close> runs to its end with no failed assertion and leaves the bitmap empty.
\<close>

theorem Bitmap_SelfTest_passes:
  assumes "n \<ge> 32"
  shows "\<exists>b b'. Bitmap_new n = Inr b \<and> Bitmap_SelfTest b = Inr b' \<and> bits b' = {}"
proof -
  obtain b where b: "Bitmap_new n = Inr b" "bitmap_wf b" "bits b = {}" "numBits b = n"
    using Bitmap_new_ok [of n] assms by auto
  obtain b1 where b1: "Bitmap_FindAndSet b = Inr (b1, int 0)" "bitmap_wf b1" "bits b1 = {0}"
      "numBits b1 = n"
    using Bitmap_FindAndSet_at [of b 0] b assms by auto
  obtain b2 where b2: "Bitmap_Mark b1 (int 31) = Inr b2" "bitmap_wf b2" "bits b2 = {0, 31}"
      "numBits b2 = n"
    using Bitmap_Mark_at [of b1 31] b1 assms by (auto simp: insert_commute)
  obtain b3 where b3: "Bitmap_FindAndSet b2 = Inr (b3, int 1)" "bitmap_wf b3"
      "bits b3 = {0, 1, 31}" "numBits b3 = n"
    using Bitmap_FindAndSet_at [of b2 1] b2 assms by (auto simp: insert_commute)
  obtain b4 where b4: "Bitmap_Clear b3 (int 0) = Inr b4" "bitmap_wf b4" "bits b4 = {1, 31}"
      "numBits b4 = n"
    using Bitmap_Clear_at [of b3 0] b3 assms by auto
  obtain b5 where b5: "Bitmap_Clear b4 (int 1) = Inr b5" "bitmap_wf b5" "bits b5 = {31}"
      "numBits b5 = n"
    using Bitmap_Clear_at [of b4 1] b4 assms by auto
  obtain b6 where b6: "Bitmap_Clear b5 (int 31) = Inr b6" "bitmap_wf b6" "bits b6 = {}"
      "numBits b6 = n"
    using Bitmap_Clear_at [of b5 31] b5 assms by auto
  obtain b7 where b7: "Mark_loop b6 (bit_numbers b6) = Inr b7" "bitmap_wf b7"
      "bits b7 = {..<nbits b7}" "numBits b7 = n"
    using Mark_loop_in [of b6 "[0..<nbits b6]"] b6
    by (auto simp: bit_numbers_conv lessThan_atLeast0)
  obtain b8 where b8: "Clear_loop b7 (bit_numbers b7) = Inr b8" "bits b8 = {}"
    using Clear_loop_in [of b7 "[0..<nbits b7]"] b7
    by (auto simp: bit_numbers_conv lessThan_atLeast0)
  have t: "Bitmap_Test b2 0 = Inr True" "Bitmap_Test b2 31 = Inr True"
    using Bitmap_Test_in [of b2 0] Bitmap_Test_in [of b2 31] b2 assms by simp_all
  have "Bitmap_NumClear b = Inr n"
    using Bitmap_NumClear_ok [of b] b assms by simp
  then have "Bitmap_SelfTest b = Inr b8"
    using b b1 b2 b3 b4 b5 b6 b7 b8 t assms Bitmap_FindAndSet_full [of b7]
    by (simp add: Bitmap_SelfTest_def ASSERT_holds)
  with b b8 show ?thesis by blast
qed

text \<open>At the size that \<open>LibSelfTest\<close> uses.\<close>

theorem Bitmap_SelfTest_passes_witness:
  "\<exists>b b'. Bitmap_new 200 = Inr b \<and> Bitmap_SelfTest b = Inr b' \<and> bits b' = {}"
  using Bitmap_SelfTest_passes [of 200] by simp

end
