(* ===== verification/Disk.thy ===== *)
theory Disk
  imports Machine
begin

text \<open>
  The simulated disk (\<^verbatim>\<open>code/machine/disk.h\<close>, \<^verbatim>\<open>disk.cc\<close>) and its synchronous interface
  (\<^verbatim>\<open>code/filesys/synchdisk.cc\<close>): the contents of the sectors, the position of the head and
  the track buffer, the time each request takes.  The UNIX file behind the disk is the
  function from sector numbers to their bytes.  A request returns the number of ticks after
  which \<open>Interrupt::Schedule\<close> lets the interrupt occur; the synchronous interface waits for
  it, so that the clock stands at that time when it returns.  The block device that the file
  system relies on is a locale; the synchronous disk is its instance.
\<close>

section \<open>The device\<close>

definition SectorSize :: nat where "SectorSize = 128"
definition SectorsPerTrack :: int where "SectorsPerTrack = 32"
definition NumTracks :: int where "NumTracks = 32"
definition NumSectors :: int where "NumSectors = SectorsPerTrack * NumTracks"
definition RotationTime :: int where "RotationTime = 500"
definition SeekTime :: int where "SeekTime = 500"

lemmas disk_defs = SectorsPerTrack_def NumTracks_def NumSectors_def RotationTime_def SeekTime_def

text \<open>
  \<open>clock\<close> is \<open>kernel->stats->totalTicks\<close>; the counters of requests belong to the statistics
  as well.
\<close>

record disk =
  sectors :: "nat \<Rightarrow> byte list"
  active :: bool
  lastSector :: int
  bufferInit :: int
  clock :: int
  numDiskReads :: int
  numDiskWrites :: int

definition Disk_new :: "(nat \<Rightarrow> byte list) \<Rightarrow> int \<Rightarrow> disk" where
  "Disk_new file now = \<lparr>sectors = file, active = False, lastSector = 0, bufferInit = 0,
     clock = now, numDiskReads = 0, numDiskWrites = 0\<rparr>"

definition TimeToSeek :: "disk \<Rightarrow> int \<Rightarrow> int \<times> int" where
  "TimeToSeek d newSector =
     (let newTrack = newSector sdiv SectorsPerTrack;
          oldTrack = lastSector d sdiv SectorsPerTrack;
          seek = \<bar>newTrack - oldTrack\<bar> * SeekTime;
          over = (clock d + seek) smod RotationTime
      in (seek, if over > 0 then RotationTime - over else 0))"

definition ModuloDiff :: "int \<Rightarrow> int \<Rightarrow> int" where
  "ModuloDiff to from =
     (let toOffset = to smod SectorsPerTrack; fromOffset = from smod SectorsPerTrack
      in ((toOffset - fromOffset) + SectorsPerTrack) smod SectorsPerTrack)"

definition ComputeLatency :: "disk \<Rightarrow> int \<Rightarrow> bool \<Rightarrow> int" where
  "ComputeLatency d newSector writing =
     (let (seek, rotation) = TimeToSeek d newSector;
          timeAfter = clock d + seek + rotation in
      if \<not> writing \<and> seek = 0 \<and>
         (timeAfter - bufferInit d) sdiv RotationTime > ModuloDiff newSector (bufferInit d sdiv RotationTime)
      then RotationTime
      else seek + (rotation + ModuloDiff newSector (timeAfter sdiv RotationTime) * RotationTime) + RotationTime)"

definition UpdateLast :: "disk \<Rightarrow> int \<Rightarrow> disk" where
  "UpdateLast d newSector =
     (let (seek, rotate) = TimeToSeek d newSector;
          d = (if seek \<noteq> 0 then d\<lparr>bufferInit := clock d + seek + rotate\<rparr> else d)
      in d\<lparr>lastSector := newSector\<rparr>)"

text \<open>A request returns the data that is read and the delay of the interrupt.\<close>

definition ReadRequest :: "disk \<Rightarrow> int \<Rightarrow> (disk \<times> byte list \<times> int) res" where
  "ReadRequest d sectorNumber =
     (let ticks = ComputeLatency d sectorNumber False in
      ASSERT (\<not> active d) (
      ASSERT (sectorNumber \<ge> 0 \<and> sectorNumber < NumSectors) (
      let data = sectors d (nat sectorNumber);
          d = UpdateLast (d\<lparr>active := True\<rparr>) sectorNumber
      in Inr (d\<lparr>numDiskReads := numDiskReads d + 1\<rparr>, data, ticks))))"

definition WriteRequest :: "disk \<Rightarrow> int \<Rightarrow> byte list \<Rightarrow> (disk \<times> int) res" where
  "WriteRequest d sectorNumber data =
     (let ticks = ComputeLatency d sectorNumber True in
      ASSERT (\<not> active d) (
      ASSERT (sectorNumber \<ge> 0 \<and> sectorNumber < NumSectors) (
      let d = d\<lparr>sectors := (sectors d)(nat sectorNumber := data)\<rparr>;
          d = UpdateLast (d\<lparr>active := True\<rparr>) sectorNumber
      in Inr (d\<lparr>numDiskWrites := numDiskWrites d + 1\<rparr>, ticks))))"

definition Disk_CallBack :: "disk \<Rightarrow> disk" where
  "Disk_CallBack d = d\<lparr>active := False\<rparr>"

section \<open>The synchronous interface\<close>

text \<open>The thread sleeps in \<open>semaphore->P()\<close> until the interrupt calls back.\<close>

definition await_disk :: "disk \<Rightarrow> int \<Rightarrow> disk" where
  "await_disk d ticks = Disk_CallBack (d\<lparr>clock := clock d + ticks\<rparr>)"

definition ReadSector :: "disk \<Rightarrow> int \<Rightarrow> (disk \<times> byte list) res" where
  "ReadSector d sectorNumber =
     bindR (ReadRequest d sectorNumber) (\<lambda>(d, data, ticks). Inr (await_disk d ticks, data))"

definition WriteSector :: "disk \<Rightarrow> int \<Rightarrow> byte list \<Rightarrow> disk res" where
  "WriteSector d sectorNumber data =
     bindR (WriteRequest d sectorNumber data) (\<lambda>(d, ticks). Inr (await_disk d ticks))"

section \<open>Time\<close>

text \<open>The head and the track buffer are in a state that requests can have led to.\<close>

definition disk_wf :: "disk \<Rightarrow> bool" where
  "disk_wf d \<longleftrightarrow> 0 \<le> clock d \<and> 0 \<le> bufferInit d \<and> 0 \<le> lastSector d \<and> lastSector d < NumSectors
     \<and> (\<forall>s. length (sectors d s) = SectorSize)"

lemma ModuloDiff_nonneg:
  "0 \<le> s \<Longrightarrow> 0 \<le> f \<Longrightarrow> ModuloDiff s f = (s - f) mod 32"
proof -
  assume "0 \<le> s" "0 \<le> f"
  moreover have "0 \<le> s mod 32 - f mod 32 + 32"
    using pos_mod_bound [of 32 f] pos_mod_sign [of 32 s] by simp
  ultimately show ?thesis by (simp add: ModuloDiff_def disk_defs mod_diff_eq)
qed

text \<open>Seeking ends, with the rest of a sector, on a boundary between sectors.\<close>

lemma TimeToSeek_spec:
  assumes "disk_wf d" "0 \<le> s" "s < NumSectors" "TimeToSeek d s = (seek, rot)"
  shows "seek = \<bar>s div 32 - lastSector d div 32\<bar> * 500" "0 \<le> seek" "seek \<le> 15500" "0 \<le> rot" "rot < 500"
    "(clock d + seek + rot) mod 500 = 0"
proof -
  define over where "over = (clock d + seek) mod 500"
  have sk: "seek = \<bar>s div 32 - lastSector d div 32\<bar> * 500"
    using assms by (auto simp: TimeToSeek_def disk_wf_def disk_defs Let_def)
  have "0 \<le> s div 32" "s div 32 \<le> 31" "0 \<le> lastSector d div 32" "lastSector d div 32 \<le> 31"
    using assms by (auto simp: disk_wf_def disk_defs)
  then have "\<bar>s div 32 - lastSector d div 32\<bar> \<le> 31" by linarith
  with sk show "seek = \<bar>s div 32 - lastSector d div 32\<bar> * 500" "0 \<le> seek" "seek \<le> 15500" by auto
  have "0 \<le> clock d + seek" using assms(1) \<open>0 \<le> seek\<close> by (simp add: disk_wf_def)
  then have r: "rot = (if over > 0 then 500 - over else 0)"
    using assms by (auto simp: TimeToSeek_def disk_defs Let_def over_def)
  moreover have "0 \<le> over" "over < 500" by (simp_all add: over_def)
  ultimately show "0 \<le> rot" "rot < 500" by auto
  show "(clock d + seek + rot) mod 500 = 0"
  proof -
    define q where "q = (clock d + seek) div 500"
    have "clock d + seek = 500 * q + over"
      using mult_div_mod_eq [of 500 "clock d + seek"] by (simp add: q_def over_def)
    then have "clock d + seek + rot = 500 * (if over > 0 then q + 1 else q)"
      using r \<open>0 \<le> over\<close> by auto
    then show ?thesis by simp
  qed
qed

text \<open>The sector whose passage under the head ends at a time.\<close>

definition passed :: "int \<Rightarrow> int" where
  "passed t = (t div RotationTime - 1) mod SectorsPerTrack"

lemma first_pass:
  fixes A s T c :: int
  assumes "c \<le> 500 * A" "500 * A < c + 500" "c + 500 \<le> T" "T mod 500 = 0" "(T div 500 - 1) mod 32 = s mod 32"
  shows "500 * (A + (s - A) mod 32 + 1) \<le> T"
proof -
  define B where "B = T div 500"
  have T: "T = 500 * B" using assms(4) mult_div_mod_eq [of 500 T] by (simp add: B_def)
  have ge: "A \<le> B - 1" using assms(2,3) T by linarith
  have "(B - 1 - A) mod 32 = (s - A) mod 32" using assms(5) unfolding B_def [symmetric] by (metis mod_diff_left_eq)
  then have "(s - A) mod 32 \<le> B - 1 - A" using ge by (metis diff_ge_0_iff_ge zmod_le_nonneg_dividend)
  then show ?thesis by (simp add: T)
qed

section \<open>The block device\<close>

text \<open>
  What the file system needs of a disk: sectors of a fixed length, that a read returns and
  leaves as they are and a write replaces one of.
\<close>

locale block_device =
  fixes rd :: "'d \<Rightarrow> int \<Rightarrow> ('d \<times> byte list) res"
    and wr :: "'d \<Rightarrow> int \<Rightarrow> byte list \<Rightarrow> 'd res"
    and content :: "'d \<Rightarrow> nat \<Rightarrow> byte list"
    and inv :: "'d \<Rightarrow> bool"
  assumes len: "inv d \<Longrightarrow> length (content d s) = SectorSize"
    and rd: "inv d \<Longrightarrow> 0 \<le> i \<Longrightarrow> i < NumSectors \<Longrightarrow>
      \<exists>d'. rd d i = Inr (d', content d (nat i)) \<and> inv d' \<and> content d' = content d"
    and wr: "inv d \<Longrightarrow> 0 \<le> i \<Longrightarrow> i < NumSectors \<Longrightarrow> length data = SectorSize \<Longrightarrow>
      \<exists>d'. wr d i data = Inr d' \<and> inv d' \<and> content d' = (content d)(nat i := data)"

text \<open>The synchronous disk is idle between requests.\<close>

definition synch_wf :: "disk \<Rightarrow> bool" where
  "synch_wf d \<longleftrightarrow> disk_wf d \<and> \<not> active d"

lemma ComputeLatency_bounds:
  assumes "disk_wf d" "0 \<le> s" "s < NumSectors"
  shows "500 \<le> ComputeLatency d s w" "ComputeLatency d s w \<le> 32000"
proof -
  obtain seek rot where t: "TimeToSeek d s = (seek, rot)" by fastforce
  note sp = TimeToSeek_spec [OF assms t]
  have nn: "0 \<le> (clock d + seek + rot) sdiv 500"
    using assms(1) sp(2,4) by (simp add: disk_wf_def pos_imp_zdiv_nonneg_iff)
  have "0 \<le> ModuloDiff s ((clock d + seek + rot) sdiv 500)"
    "ModuloDiff s ((clock d + seek + rot) sdiv 500) < 32"
    unfolding ModuloDiff_nonneg [OF assms(2) nn] by simp_all
  then show "500 \<le> ComputeLatency d s w" "ComputeLatency d s w \<le> 32000"
    using sp(2-5) t by (auto simp: ComputeLatency_def Let_def RotationTime_def)
qed

lemma UpdateLast_wf:
  assumes "disk_wf d" "0 \<le> s" "s < NumSectors"
  shows "disk_wf (UpdateLast d s)" "sectors (UpdateLast d s) = sectors d" "clock (UpdateLast d s) = clock d"
proof -
  obtain seek rot where t: "TimeToSeek d s = (seek, rot)" by fastforce
  note sp = TimeToSeek_spec [OF assms t]
  show "disk_wf (UpdateLast d s)" "sectors (UpdateLast d s) = sectors d" "clock (UpdateLast d s) = clock d"
    using assms t sp(2,4) by (auto simp: UpdateLast_def disk_wf_def)
qed

lemma disk_wf_cong:
  "clock d' = clock d \<Longrightarrow> bufferInit d' = bufferInit d \<Longrightarrow> lastSector d' = lastSector d \<Longrightarrow>
   sectors d' = sectors d \<Longrightarrow> disk_wf d' = disk_wf d"
  by (simp add: disk_wf_def)

lemma disk_wf_active [simp]: "disk_wf (d\<lparr>active := a\<rparr>) = disk_wf d"
  by (rule disk_wf_cong) simp_all

lemma disk_wf_write: "disk_wf d \<Longrightarrow> length data = SectorSize \<Longrightarrow>
    disk_wf (d\<lparr>sectors := (sectors d)(s := data)\<rparr>)"
  by (simp add: disk_wf_def)

lemma await_disk_wf:
  "disk_wf d \<Longrightarrow> 0 \<le> t \<Longrightarrow> synch_wf (await_disk d t)" "sectors (await_disk d t) = sectors d"
  by (simp_all add: synch_wf_def await_disk_def Disk_CallBack_def disk_wf_def)

lemma ReadSector_ok:
  assumes "synch_wf d" "0 \<le> s" "s < NumSectors"
  shows "\<exists>d'. ReadSector d s = Inr (d', sectors d (nat s)) \<and> synch_wf d' \<and> sectors d' = sectors d"
proof -
  have wf: "disk_wf (d\<lparr>active := True\<rparr>)" "\<not> active d" using assms(1) by (simp_all add: synch_wf_def)
  note u = UpdateLast_wf [OF wf(1) assms(2,3)]
  have "disk_wf (UpdateLast (d\<lparr>active := True\<rparr>) s\<lparr>numDiskReads := n\<rparr>)" for n
    using u(1) by (subst disk_wf_cong [where d = "UpdateLast (d\<lparr>active := True\<rparr>) s"]) simp_all
  moreover have "0 \<le> ComputeLatency d s False"
    using ComputeLatency_bounds(1) [OF _ assms(2,3), of d False] assms(1) by (simp add: synch_wf_def)
  ultimately show ?thesis
    using wf u assms await_disk_wf by (simp add: ReadSector_def ReadRequest_def Let_def)
qed

lemma WriteSector_ok:
  assumes "synch_wf d" "0 \<le> s" "s < NumSectors" "length data = SectorSize"
  shows "\<exists>d'. WriteSector d s data = Inr d' \<and> synch_wf d' \<and> sectors d' = (sectors d)(nat s := data)"
proof -
  let ?d = "d\<lparr>sectors := (sectors d)(nat s := data), active := True\<rparr>"
  have wf: "disk_wf ?d" "\<not> active d"
    using assms(1) disk_wf_write [OF _ assms(4), of d "nat s"] by (simp_all add: synch_wf_def)
  note u = UpdateLast_wf [OF wf(1) assms(2,3)]
  have "disk_wf (UpdateLast ?d s\<lparr>numDiskWrites := n\<rparr>)" for n
    using u(1) by (subst disk_wf_cong [where d = "UpdateLast ?d s"]) simp_all
  moreover have "0 \<le> ComputeLatency d s True"
    using ComputeLatency_bounds(1) [OF _ assms(2,3), of d True] assms(1) by (simp add: synch_wf_def)
  ultimately show ?thesis
    using wf u assms await_disk_wf by (simp add: WriteSector_def WriteRequest_def Let_def)
qed

interpretation synch: block_device ReadSector WriteSector sectors synch_wf
proof unfold_locales
  show "synch_wf d \<Longrightarrow> length (sectors d s) = SectorSize" for d s
    by (simp add: synch_wf_def disk_wf_def)
qed (use ReadSector_ok WriteSector_ok in auto)

section \<open>Properties\<close>

text \<open>
  The latency of a disk request is exact.  It is at least the transfer time of a sector,
  and unless the data comes from the track buffer (a read on the current track) the request
  ends at the first moment, after the seek and a whole sector, at which the head has just
  passed the requested sector.
\<close>

theorem ComputeLatency_exact:
  assumes "disk_wf d" "0 \<le> s" "s < NumSectors"
  defines "seek \<equiv> \<bar>s div SectorsPerTrack - lastSector d div SectorsPerTrack\<bar> * SeekTime"
  shows "(\<not> w \<and> seek = 0 \<and> ComputeLatency d s w = RotationTime)
    \<or> ((clock d + ComputeLatency d s w) mod RotationTime = 0
       \<and> passed (clock d + ComputeLatency d s w) = s mod SectorsPerTrack
       \<and> (\<forall>t. seek + RotationTime \<le> t \<and> (clock d + t) mod RotationTime = 0
             \<and> passed (clock d + t) = s mod SectorsPerTrack \<longrightarrow> ComputeLatency d s w \<le> t))"
proof -
  obtain sk rot where t: "TimeToSeek d s = (sk, rot)" by fastforce
  note sp = TimeToSeek_spec [OF assms(1-3) t]
  have seek: "seek = sk" using sp(1) by (simp add: seek_def disk_defs)
  define A where "A = (clock d + sk + rot) div 500"
  have A: "500 * A = clock d + sk + rot"
    using sp(6) mult_div_mod_eq [of 500 "clock d + sk + rot"] by (simp add: A_def)
  then have A0: "0 \<le> A" using sp(2,4) assms(1) by (simp add: disk_wf_def)
  let ?L = "ComputeLatency d s w"
  show ?thesis
  proof (cases "\<not> w \<and> sk = 0 \<and> ?L = 500")
    case False
    have "ModuloDiff s ((clock d + sk + rot) sdiv RotationTime) = (s - A) mod 32"
      using A A0 assms(1-3) sp(2,4) by (simp add: ModuloDiff_nonneg A_def RotationTime_def disk_wf_def)
    then have L: "?L = sk + (rot + (s - A) mod 32 * 500) + 500"
      using False t by (auto simp: ComputeLatency_def Let_def RotationTime_def split: if_splits)
    then have e: "clock d + ?L = 500 * (A + (s - A) mod 32 + 1)" using A by simp
    have "passed (clock d + ?L) = s mod 32" unfolding e by (simp add: passed_def disk_defs mod_simps)
    moreover have "?L \<le> x" if "sk + 500 \<le> x" "(clock d + x) mod 500 = 0" "passed (clock d + x) = s mod 32" for x
      using first_pass [of "clock d + sk" A "clock d + x" s] A sp(4,5) that e
      by (simp add: passed_def disk_defs)
    moreover have "(clock d + ?L) mod 500 = 0" unfolding e by simp
    ultimately show ?thesis unfolding seek by (simp add: disk_defs)
  qed (auto simp: seek RotationTime_def)
qed

text \<open>A write to sector 40 from a head on sector 0 at time 7.\<close>

theorem ComputeLatency_exact_witness:
  "disk_wf (Disk_new (\<lambda>_. replicate 128 0) 7)
   \<and> (7 + ComputeLatency (Disk_new (\<lambda>_. replicate 128 0) 7) 40 True) mod RotationTime = 0"
proof -
  have "disk_wf (Disk_new (\<lambda>_. replicate 128 0) 7)"
    by (simp add: disk_wf_def Disk_new_def disk_defs SectorSize_def)
  with ComputeLatency_exact [of "Disk_new (\<lambda>_. replicate 128 0) 7" 40 True] show ?thesis
    by (simp add: Disk_new_def disk_defs)
qed

end
