(* ===== verification/FileHdr.thy ===== *)
theory FileHdr
  imports Bitmap Bytes Disk
begin

text \<open>
  File headers (\<^verbatim>\<open>code/filesys/filehdr.h\<close>, \<^verbatim>\<open>filehdr.cc\<close>): the table of the data sectors of
  a file, its allocation out of the bitmap of free sectors and its image on disk. The loops
  take the operations of the allocator that they call, so that their lemmas are proved from
  the interface \<open>bit_allocator\<close>.
\<close>

section \<open>Headers\<close>

text \<open>
  \<open>NumDirect\<close> sector numbers follow the two counters in a sector. A header that is
  allocated with \<open>new\<close> is not initialised: \<open>Allocate\<close> starts from whatever is there.
\<close>

definition NumDirect :: nat where "NumDirect = (SectorSize - 2 * 4) div 4"
definition MaxFileSize :: nat where "MaxFileSize = NumDirect * SectorSize"

record file_header =
  hdrBytes :: int
  hdrSectors :: int
  dataSectors :: "int list"

primrec Allocate_loop :: "('m \<Rightarrow> ('m \<times> int) res) \<Rightarrow> int list \<Rightarrow> 'm \<Rightarrow> int list \<Rightarrow> ('m \<times> int list) res" where
  "Allocate_loop find_and_set [] m ds = Inr (m, ds)"
| "Allocate_loop find_and_set (i # is) m ds =
     bindR (find_and_set m) (\<lambda>(m, s).
     bindR (arr_set ds i s) (\<lambda>ds.
     ASSERT (s \<ge> 0) (Allocate_loop find_and_set is m ds)))"

definition FileHeader_Allocate :: "file_header \<Rightarrow> bitmap \<Rightarrow> int \<Rightarrow> (bool \<times> file_header \<times> bitmap) res" where
  "FileHeader_Allocate h freeMap fileSize =
     (let h = h\<lparr>hdrBytes := fileSize, hdrSectors := divRoundUp fileSize (int SectorSize)\<rparr> in
      bindR (Bitmap_NumClear freeMap) (\<lambda>n.
      if n < hdrSectors h then Inr (False, h, freeMap)
      else bindR (Allocate_loop Bitmap_FindAndSet (map int [0..<nat (hdrSectors h)]) freeMap (dataSectors h))
        (\<lambda>(freeMap, ds). Inr (True, h\<lparr>dataSectors := ds\<rparr>, freeMap))))"

primrec Deallocate_loop :: "('m \<Rightarrow> int \<Rightarrow> bool res) \<Rightarrow> ('m \<Rightarrow> int \<Rightarrow> 'm res) \<Rightarrow> int list \<Rightarrow> int list \<Rightarrow> 'm \<Rightarrow> 'm res" where
  "Deallocate_loop test clear [] ds m = Inr m"
| "Deallocate_loop test clear (i # is) ds m =
     bindR (arr_get ds i) (\<lambda>s.
     bindR (test m s) (\<lambda>marked.
     ASSERT marked (bindR (clear m s) (Deallocate_loop test clear is ds))))"

definition FileHeader_Deallocate :: "file_header \<Rightarrow> bitmap \<Rightarrow> bitmap res" where
  "FileHeader_Deallocate h freeMap =
     Deallocate_loop Bitmap_Test Bitmap_Clear (map int [0..<nat (hdrSectors h)]) (dataSectors h) freeMap"

text \<open>The object as it lies in memory: the counters and the table, in 128 bytes.\<close>

definition hdr_bytes :: "file_header \<Rightarrow> byte list" where
  "hdr_bytes h = words_bytes (map word_of_int (hdrBytes h # hdrSectors h # dataSectors h))"

definition hdr_of :: "byte list \<Rightarrow> file_header" where
  "hdr_of bs = (let ws = map sint (words_of (2 + NumDirect) bs) in
     \<lparr>hdrBytes = ws ! 0, hdrSectors = ws ! 1, dataSectors = drop 2 ws\<rparr>)"

definition FileHeader_FetchFrom :: "disk \<Rightarrow> int \<Rightarrow> (disk \<times> file_header) res" where
  "FileHeader_FetchFrom d sector = bindR (ReadSector d sector) (\<lambda>(d, bs). Inr (d, hdr_of bs))"

definition FileHeader_WriteBack :: "disk \<Rightarrow> file_header \<Rightarrow> int \<Rightarrow> disk res" where
  "FileHeader_WriteBack d h sector = WriteSector d sector (hdr_bytes h)"

definition ByteToSector :: "file_header \<Rightarrow> int \<Rightarrow> int res" where
  "ByteToSector h offset = arr_get (dataSectors h) (offset sdiv int SectorSize)"

definition FileLength :: "file_header \<Rightarrow> int" where
  "FileLength h = hdrBytes h"

section \<open>Well-formed headers\<close>

text \<open>
  A header in memory has \<open>NumDirect\<close> table slots, all fields being \<open>int\<close>s; the header of a
  file names distinct sectors of the disk, as many as the length of the file needs.
\<close>

definition hdr_wf :: "file_header \<Rightarrow> bool" where
  "hdr_wf h \<longleftrightarrow> length (dataSectors h) = NumDirect \<and> int_range (hdrBytes h) \<and> int_range (hdrSectors h)
     \<and> (\<forall>s\<in>set (dataSectors h). int_range s)"

definition file_sectors :: "file_header \<Rightarrow> nat list" where
  "file_sectors h = map nat (take (nat (hdrSectors h)) (dataSectors h))"

definition file_wf :: "file_header \<Rightarrow> bool" where
  "file_wf h \<longleftrightarrow> hdr_wf h \<and> hdrSectors h = divRoundUp (hdrBytes h) (int SectorSize)
     \<and> hdrSectors h \<le> int NumDirect
     \<and> (\<forall>s\<in>set (take (nat (hdrSectors h)) (dataSectors h)). 0 \<le> s \<and> s < NumSectors)
     \<and> distinct (file_sectors h)"

lemma NumDirect_30 [simp]: "NumDirect = 30"
  by (simp add: NumDirect_def SectorSize_def)

lemma length_hdr_bytes [simp]: "hdr_wf h \<Longrightarrow> length (hdr_bytes h) = SectorSize"
  by (simp add: hdr_bytes_def hdr_wf_def SectorSize_def)

lemma hdr_of_bytes [simp]:
  assumes "hdr_wf h"
  shows "hdr_of (hdr_bytes h) = h"
proof -
  let ?xs = "hdrBytes h # hdrSectors h # dataSectors h"
  have "words_of (2 + NumDirect) (hdr_bytes h) = map word_of_int ?xs"
    using assms unfolding hdr_bytes_def by (intro words_of_bytes') (simp add: hdr_wf_def)
  moreover have "map sint (map (word_of_int :: int \<Rightarrow> 32 word) ?xs) = ?xs"
    using assms by (simp add: hdr_wf_def map_idI)
  ultimately show ?thesis by (simp add: hdr_of_def Let_def del: list.map)
qed

section \<open>Allocation\<close>

context bit_allocator
begin

lemma not_full: "0 < card ({..<cap m} - used m) \<Longrightarrow> used m \<noteq> {..<cap m}"
  by (metis Diff_cancel card.empty less_irrefl)

lemma Allocate_loop_ok:
  "inv m \<Longrightarrow> n \<le> card ({..<cap m} - used m) \<Longrightarrow> k + n \<le> length ds \<Longrightarrow>
   \<exists>m' ss. Allocate_loop find_and_set (map int [k..<k + n]) m ds
       = Inr (m', take k ds @ map int ss @ drop (k + n) ds)
     \<and> inv m' \<and> cap m' = cap m \<and> length ss = n \<and> distinct ss \<and> set ss \<inter> used m = {}
     \<and> set ss \<subseteq> {..<cap m} \<and> used m' = used m \<union> set ss"
proof (induction n arbitrary: m k ds)
  case 0
  then show ?case by simp
next
  case (Suc n)
  from Suc.prems(2) have "used m \<noteq> {..<cap m}" by (intro not_full) linarith
  then obtain i m1 where f: "find_and_set m = Inr (m1, int i)" "inv m1" "i < cap m" "i \<notin> used m"
      "used m1 = insert i (used m)" "cap m1 = cap m"
    using find_free [OF Suc.prems(1)] by blast
  have "{..<cap m1} - used m1 = {..<cap m} - used m - {i}" unfolding f(5,6) by blast
  then have "card ({..<cap m1} - used m1) = card ({..<cap m} - used m) - 1"
    using f(3,4) by (metis Diff_iff card_Diff_singleton lessThan_iff)
  then have "n \<le> card ({..<cap m1} - used m1)" using Suc.prems(2) by linarith
  then obtain m' ss where r: "Allocate_loop find_and_set (map int [Suc k..<Suc k + n]) m1 (ds[k := int i])
       = Inr (m', take (Suc k) (ds[k := int i]) @ map int ss @ drop (Suc k + n) (ds[k := int i]))"
     "inv m'" "cap m' = cap m1" "length ss = n" "distinct ss" "set ss \<inter> used m1 = {}"
     "set ss \<subseteq> {..<cap m1}" "used m' = used m1 \<union> set ss"
    using Suc.IH [OF f(2), of "Suc k" "ds[k := int i]"] Suc.prems by auto
  have "map int [k..<k + Suc n] = int k # map int [Suc k..<Suc k + n]"
    by (simp add: upt_conv_Cons)
  moreover have "take (Suc k) (ds[k := int i]) = take k ds @ [int i]"
    using Suc.prems by (simp add: take_Suc_conv_app_nth)
  ultimately have "Allocate_loop find_and_set (map int [k..<k + Suc n]) m ds
      = Inr (m', take k ds @ map int (i # ss) @ drop (k + Suc n) ds)"
    using f r(1) Suc.prems by simp
  moreover have "distinct (i # ss)" "set (i # ss) \<inter> used m = {}" "set (i # ss) \<subseteq> {..<cap m}"
      "used m' = used m \<union> set (i # ss)"
    using r f by auto
  ultimately show ?case using r f by (intro exI [of _ m'] exI [of _ "i # ss"]) simp
qed

text \<open>Beyond the end of the table the loop writes outside of the header.\<close>

lemma Allocate_loop_overrun:
  assumes "inv m" "n \<le> card ({..<cap m} - used m)" "length ds < n"
  shows "Allocate_loop find_and_set (map int [0..<n]) m ds = Inl Undefined"
proof -
  let ?L = "length ds"
  obtain m' ss where r: "Allocate_loop find_and_set (map int [0..<?L]) m ds = Inr (m', map int ss)"
    and inv: "inv m'" "cap m' = cap m" and ss: "length ss = ?L" "distinct ss" "set ss \<inter> used m = {}"
     "set ss \<subseteq> {..<cap m}" "used m' = used m \<union> set ss"
    using Allocate_loop_ok [OF assms(1), of ?L 0 ds] assms by auto
  have split: "map int [0..<n] = map int [0..<?L] @ int ?L # map int [Suc ?L..<n]"
    using upt_split [OF assms(3)] by simp
  have "card ({..<cap m} - used m - set ss) = card ({..<cap m} - used m) - ?L"
    using ss by (subst card_Diff_subset) (auto simp: distinct_card)
  moreover have "{..<cap m'} - used m' = {..<cap m} - used m - set ss" using inv ss by auto
  ultimately have "card ({..<cap m'} - used m') > 0" using assms by simp
  then have "used m' \<noteq> {..<cap m'}" by (rule not_full)
  then obtain i m2 where "find_and_set m' = Inr (m2, int i)" using find_free [OF inv(1)] by blast
  then have "Allocate_loop find_and_set (int ?L # is) m' (map int ss) = Inl Undefined" for "is"
    using ss by (simp add: arr_set_def)
  moreover have "Allocate_loop find_and_set (xs @ ys) m0 d0
      = bindR (Allocate_loop find_and_set xs m0 d0) (\<lambda>(m, d). Allocate_loop find_and_set ys m d)" for xs ys m0 d0
    by (induction xs arbitrary: m0 d0) (auto simp: bindR_def ASSERT_def split: sum.split)
  ultimately show ?thesis unfolding split by (simp add: r)
qed

lemma Deallocate_loop_ok:
  "inv m \<Longrightarrow> k + n \<le> length ds \<Longrightarrow> \<forall>s\<in>set (take n (drop k ds)). 0 \<le> s \<Longrightarrow>
   nat ` set (take n (drop k ds)) \<subseteq> used m \<Longrightarrow> distinct (map nat (take n (drop k ds))) \<Longrightarrow>
   \<exists>m'. Deallocate_loop test clear (map int [k..<k + n]) ds m = Inr m'
     \<and> inv m' \<and> cap m' = cap m \<and> used m' = used m - nat ` set (take n (drop k ds))"
proof (induction n arbitrary: m k)
  case 0
  then show ?case by simp
next
  case (Suc n)
  define s where "s = ds ! k"
  have ds: "take (Suc n) (drop k ds) = s # take n (drop (Suc k) ds)"
    using Suc.prems(2) by (simp add: s_def Cons_nth_drop_Suc [symmetric])
  note prems = Suc.prems [unfolded ds]
  have s: "0 \<le> s" "nat s \<in> used m" using prems by auto
  then have cap: "nat s < cap m" using used_cap by auto
  have "test m s = Inr True" using test_in [OF prems(1) cap] s by simp
  moreover obtain m1 where m1: "clear m s = Inr m1" "inv m1" "used m1 = used m - {nat s}" "cap m1 = cap m"
    using clear_in [OF prems(1) cap] s(1) by auto
  moreover have "nat ` set (take n (drop (Suc k) ds)) \<subseteq> used m1" using prems(4,5) unfolding m1(3)
    by (auto simp: image_iff)
  then obtain m' where "Deallocate_loop test clear (map int [Suc k..<Suc k + n]) ds m1 = Inr m'"
     "inv m'" "cap m' = cap m1" "used m' = used m1 - nat ` set (take n (drop (Suc k) ds))"
    using Suc.IH [OF m1(2), of "Suc k"] prems(2,3,5) by auto
  moreover have "map int [k..<k + Suc n] = int k # map int [Suc k..<Suc k + n]"
    by (simp add: upt_conv_Cons)
  ultimately show ?case using Suc.prems(2) unfolding ds by (auto simp: s_def)
qed

end

section \<open>The operations on headers\<close>

lemma divRoundUp_range: "0 \<le> n \<Longrightarrow> int_range n \<Longrightarrow> int_range (divRoundUp n (int SectorSize))"
  using divRoundUp_bounds(2) [of n 128] divRoundUp_nonneg [of n 128]
  by (simp add: int_range_def SectorSize_def)

lemma Allocate_no_space:
  assumes "bitmap_wf m" "int (card ({..<nbits m} - bits m)) < divRoundUp fileSize (int SectorSize)"
  shows "FileHeader_Allocate h m fileSize
    = Inr (False, h\<lparr>hdrBytes := fileSize, hdrSectors := divRoundUp fileSize (int SectorSize)\<rparr>, m)"
  using assms bm.num_clear_ok [OF assms(1)] by (simp add: FileHeader_Allocate_def Let_def)

lemma Allocate_ok:
  assumes m: "bitmap_wf m" "numBits m = NumSectors" and h: "hdr_wf h" and fileSize: "0 \<le> fileSize" "int_range fileSize"
    and n: "n = nat (divRoundUp fileSize (int SectorSize))"
    and room: "n \<le> card ({..<nbits m} - bits m)" and dir: "n \<le> NumDirect"
  obtains h' m' where "FileHeader_Allocate h m fileSize = Inr (True, h', m')" "bitmap_wf m'" "nbits m' = nbits m"
    "file_wf h'" "hdrBytes h' = fileSize" "length (file_sectors h') = n"
    "set (file_sectors h') \<inter> bits m = {}" "set (file_sectors h') \<subseteq> {..<nbits m}"
    "bits m' = bits m \<union> set (file_sectors h')"
proof -
  have ds: "length (dataSectors h) = NumDirect" using h by (simp add: hdr_wf_def)
  have pos: "0 \<le> divRoundUp fileSize (int SectorSize)" using fileSize by (simp add: divRoundUp_nonneg SectorSize_def)
  obtain m' ss where loop: "Allocate_loop Bitmap_FindAndSet (map int [0..<n]) m (dataSectors h)
       = Inr (m', map int ss @ drop n (dataSectors h))"
    and m': "bitmap_wf m'" "nbits m' = nbits m"
    and ss: "length ss = n" "distinct ss" "set ss \<inter> bits m = {}" "set ss \<subseteq> {..<nbits m}" "bits m' = bits m \<union> set ss"
    using bm.Allocate_loop_ok [OF m(1) room, of 0 "dataSectors h"] dir ds by auto
  define h' where "h' = h\<lparr>hdrBytes := fileSize, hdrSectors := int n, dataSectors := map int ss @ drop n (dataSectors h)\<rparr>"
  have call: "FileHeader_Allocate h m fileSize = Inr (True, h', m')"
    using bm.num_clear_ok [OF m(1)] loop room pos n by (simp add: FileHeader_Allocate_def Let_def h'_def)
  have fs: "file_sectors h' = ss" using ss by (simp add: file_sectors_def h'_def comp_def)
  have small: "\<forall>s\<in>set ss. int s < NumSectors" using ss(4) m(2) by auto
  have "int_range (int s)" if "s \<in> set ss" for s
    using small that by (force simp: int_range_def disk_defs)
  then have "hdr_wf h'" using h ss fileSize divRoundUp_range [OF fileSize] pos n dir ds
    by (auto simp: hdr_wf_def h'_def dest: in_set_dropD)
  then have "file_wf h'" using ss fs small n pos dir by (auto simp: file_wf_def h'_def)
  with call m' ss fs show ?thesis by (intro that [of h' m']) (simp_all add: h'_def)
qed

lemma Deallocate_ok:
  assumes "bitmap_wf m" "file_wf h" "set (file_sectors h) \<subseteq> bits m"
  obtains m' where "FileHeader_Deallocate h m = Inr m'" "bitmap_wf m'" "nbits m' = nbits m"
    "bits m' = bits m - set (file_sectors h)"
proof -
  let ?n = "nat (hdrSectors h)"
  have "\<exists>m'. Deallocate_loop Bitmap_Test Bitmap_Clear (map int [0..<0 + ?n]) (dataSectors h) m = Inr m'
      \<and> bitmap_wf m' \<and> nbits m' = nbits m \<and> bits m' = bits m - nat ` set (take ?n (drop 0 (dataSectors h)))"
    by (rule bm.Deallocate_loop_ok [OF assms(1)])
      (use assms(2,3) in \<open>auto simp: file_wf_def hdr_wf_def file_sectors_def\<close>)
  then show ?thesis using that by (simp add: FileHeader_Deallocate_def file_sectors_def) blast
qed

lemma Allocate_too_long:
  assumes "bitmap_wf m" "length (dataSectors h) < nat (divRoundUp fileSize (int SectorSize))"
    "nat (divRoundUp fileSize (int SectorSize)) \<le> card ({..<nbits m} - bits m)"
  shows "FileHeader_Allocate h m fileSize = Inl Undefined"
  using bm.num_clear_ok [OF assms(1)] bm.Allocate_loop_overrun [OF assms(1,3,2)] assms(3)
  by (simp add: FileHeader_Allocate_def Let_def)

lemma FileHeader_WriteBack_ok:
  assumes "synch_wf d" "hdr_wf h" "0 \<le> s" "s < NumSectors"
  obtains d' where "FileHeader_WriteBack d h s = Inr d'" "synch_wf d'" "sectors d' = (sectors d)(nat s := hdr_bytes h)"
  using synch.wr [OF assms(1,3,4), of "hdr_bytes h"] assms(2) that by (auto simp: FileHeader_WriteBack_def)

lemma FileHeader_FetchFrom_ok:
  assumes "synch_wf d" "0 \<le> s" "s < NumSectors"
  obtains d' where "FileHeader_FetchFrom d s = Inr (d', hdr_of (sectors d (nat s)))" "synch_wf d'" "sectors d' = sectors d"
  using synch.rd [OF assms] that by (auto simp: FileHeader_FetchFrom_def)

section \<open>Properties\<close>

text \<open>
  C30. \<open>FileHeader::Allocate\<close>, on every branch. Without enough free sectors it returns false and
  leaves the map alone. Otherwise, if the file fits in the table of the header, it takes as many
  distinct free sectors as the size needs, marks exactly these, and \<open>Deallocate\<close> gives exactly
  these back. If the disk has room but the table does not, it writes outside of the header.
\<close>

theorem FileHeader_Allocate_spec:
  assumes "bitmap_wf m" "numBits m = NumSectors" "hdr_wf h" "0 \<le> fileSize" "int_range fileSize"
  defines "n \<equiv> nat (divRoundUp fileSize (int SectorSize))" and "free \<equiv> card ({..<nbits m} - bits m)"
  shows "(free < n \<longrightarrow> (\<exists>h'. FileHeader_Allocate h m fileSize = Inr (False, h', m)))
    \<and> (n \<le> free \<and> n \<le> NumDirect \<longrightarrow>
        (\<exists>h' m' m''. FileHeader_Allocate h m fileSize = Inr (True, h', m')
          \<and> FileLength h' = fileSize \<and> file_wf h' \<and> length (file_sectors h') = n
          \<and> set (file_sectors h') \<inter> bits m = {} \<and> bits m' = bits m \<union> set (file_sectors h')
          \<and> FileHeader_Deallocate h' m' = Inr m'' \<and> bits m'' = bits m))
    \<and> (n \<le> free \<and> NumDirect < n \<longrightarrow> FileHeader_Allocate h m fileSize = Inl Undefined)"
proof (intro conjI impI)
  assume "free < n"
  then show "\<exists>h'. FileHeader_Allocate h m fileSize = Inr (False, h', m)"
    using Allocate_no_space [OF assms(1)] by (simp add: n_def free_def)
next
  assume "n \<le> free \<and> n \<le> NumDirect"
  then obtain h' m' where a: "FileHeader_Allocate h m fileSize = Inr (True, h', m')" "bitmap_wf m'"
    "file_wf h'" "hdrBytes h' = fileSize" "length (file_sectors h') = n"
    "set (file_sectors h') \<inter> bits m = {}" "bits m' = bits m \<union> set (file_sectors h')"
    using Allocate_ok [OF assms(1-5), of n] n_def free_def by metis
  moreover obtain m'' where "FileHeader_Deallocate h' m' = Inr m''" "bits m'' = bits m' - set (file_sectors h')"
    using Deallocate_ok [OF a(2,3)] a(7) by blast
  ultimately show "\<exists>h' m' m''. FileHeader_Allocate h m fileSize = Inr (True, h', m')
      \<and> FileLength h' = fileSize \<and> file_wf h' \<and> length (file_sectors h') = n
      \<and> set (file_sectors h') \<inter> bits m = {} \<and> bits m' = bits m \<union> set (file_sectors h')
      \<and> FileHeader_Deallocate h' m' = Inr m'' \<and> bits m'' = bits m"
    by (intro exI [of _ h'] exI [of _ m'] exI [of _ m'']) (auto simp: FileLength_def)
next
  assume "n \<le> free \<and> NumDirect < n"
  then show "FileHeader_Allocate h m fileSize = Inl Undefined"
    using Allocate_too_long [OF assms(1), of h fileSize] assms(3) by (simp add: n_def free_def hdr_wf_def)
qed

text \<open>C30, on the empty map of a disk: a file of 300 bytes, and one of 31 sectors.\<close>

theorem FileHeader_Allocate_spec_witness:
  "\<exists>m h. Bitmap_new NumSectors = Inr m \<and> bits m = {}
    \<and> (\<exists>h' m'. FileHeader_Allocate h m 300 = Inr (True, h', m') \<and> card (bits m') = 3)
    \<and> FileHeader_Allocate h m 3968 = Inl Undefined"
proof -
  obtain m where m: "Bitmap_new NumSectors = Inr m" "bitmap_wf m" "numBits m = NumSectors" "bits m = {}"
    using Bitmap_new_ok [of NumSectors] by (auto simp: disk_defs)
  define h where "h = \<lparr>hdrBytes = 0, hdrSectors = 0, dataSectors = replicate 30 0\<rparr>"
  have h: "hdr_wf h" by (simp add: hdr_wf_def h_def int_range_def)
  have free: "card ({..<nbits m} - bits m) = 1024" using m by (simp add: disk_defs)
  have n: "nat (divRoundUp 300 (int SectorSize)) = 3" "nat (divRoundUp 3968 (int SectorSize)) = 31"
    by (simp_all add: divRoundUp_def SectorSize_def)
  obtain h' m' where "FileHeader_Allocate h m 300 = Inr (True, h', m')" "file_wf h'" "length (file_sectors h') = 3"
      "bits m' = bits m \<union> set (file_sectors h')"
    using FileHeader_Allocate_spec [OF m(2,3) h, of 300] free n by (auto simp: int_range_def)
  moreover from this have "card (bits m') = 3" using m(4) by (simp add: file_wf_def distinct_card)
  moreover have "FileHeader_Allocate h m 3968 = Inl Undefined"
    using FileHeader_Allocate_spec [OF m(2,3) h, of 3968] free n by (auto simp: int_range_def)
  ultimately show ?thesis using m by blast
qed

end
