(* ===== verification/OpenFile.thy ===== *)
theory OpenFile
  imports FileHdr
begin

text \<open>
  Open files (\<^verbatim>\<open>code/filesys/openfile.h\<close>, \<^verbatim>\<open>openfile.cc\<close>): reading and writing any range of
  bytes of a file on a disk that moves whole sectors. The contents of a file are abstracted
  to the list of its bytes; \<open>ReadAt\<close> and \<open>WriteAt\<close> are shown to return and to replace the
  slice of that list.
\<close>

section \<open>Operations\<close>

record open_file =
  hdr :: file_header
  seekPosition :: int

definition OpenFile_new :: "disk \<Rightarrow> int \<Rightarrow> (disk \<times> open_file) res" where
  "OpenFile_new d sector =
     bindR (FileHeader_FetchFrom d sector) (\<lambda>(d, h). Inr (d, \<lparr>hdr = h, seekPosition = 0\<rparr>))"

definition Seek :: "open_file \<Rightarrow> int \<Rightarrow> open_file" where
  "Seek f position = f\<lparr>seekPosition := position\<rparr>"

text \<open>The sectors arrive one after the other in the buffer.\<close>

primrec ReadAt_loop :: "('d \<Rightarrow> int \<Rightarrow> ('d \<times> byte list) res) \<Rightarrow> file_header \<Rightarrow> int list \<Rightarrow> 'd \<Rightarrow> byte list
    \<Rightarrow> ('d \<times> byte list) res" where
  "ReadAt_loop rd h [] d buf = Inr (d, buf)"
| "ReadAt_loop rd h (i # is) d buf =
     bindR (ByteToSector h (i * int SectorSize)) (\<lambda>s.
     bindR (rd d s) (\<lambda>(d, data).
     ReadAt_loop rd h is d (buf @ data)))"

text \<open>
  The result is the bytes that are copied to the buffer of the caller; the return value is
  their number. The sum of position and length is computed in an \<open>int\<close>.
\<close>

definition ReadAt :: "disk \<Rightarrow> file_header \<Rightarrow> int \<Rightarrow> int \<Rightarrow> (disk \<times> byte list) res" where
  "ReadAt d h numBytes position =
     (let fileLength = FileLength h in
      if numBytes \<le> 0 \<or> position \<ge> fileLength then Inr (d, [])
      else if \<not> int_range (position + numBytes) then Inl Undefined
      else let numBytes = (if position + numBytes > fileLength then fileLength - position else numBytes);
               firstSector = divRoundDown position (int SectorSize);
               lastSector = divRoundDown (position + numBytes - 1) (int SectorSize) in
      bindR (ReadAt_loop ReadSector h [firstSector..lastSector] d []) (\<lambda>(d, buf).
      bindR (buf_get buf (position - firstSector * int SectorSize) numBytes) (\<lambda>bs.
      Inr (d, bs))))"

primrec WriteAt_loop :: "('d \<Rightarrow> int \<Rightarrow> byte list \<Rightarrow> 'd res) \<Rightarrow> file_header \<Rightarrow> int \<Rightarrow> byte list \<Rightarrow> int list \<Rightarrow> 'd \<Rightarrow> 'd res" where
  "WriteAt_loop wr h firstSector buf [] d = Inr d"
| "WriteAt_loop wr h firstSector buf (i # is) d =
     bindR (ByteToSector h (i * int SectorSize)) (\<lambda>s.
     bindR (buf_get buf ((i - firstSector) * int SectorSize) (int SectorSize)) (\<lambda>data.
     bindR (wr d s data) (WriteAt_loop wr h firstSector buf is)))"

text \<open>
  \<open>junk\<close> is what \<open>new char[]\<close> finds in the memory of the buffer; \<open>from\<close> is the buffer of the
  caller.
\<close>

definition WriteAt :: "(nat \<Rightarrow> byte) \<Rightarrow> disk \<Rightarrow> file_header \<Rightarrow> byte list \<Rightarrow> int \<Rightarrow> int \<Rightarrow> (disk \<times> int) res" where
  "WriteAt junk d h from numBytes position =
     (let fileLength = FileLength h in
      if numBytes \<le> 0 \<or> position \<ge> fileLength then Inr (d, 0)
      else if \<not> int_range (position + numBytes) then Inl Undefined
      else let numBytes = (if position + numBytes > fileLength then fileLength - position else numBytes);
               firstSector = divRoundDown position (int SectorSize);
               lastSector = divRoundDown (position + numBytes - 1) (int SectorSize);
               numSectors = 1 + lastSector - firstSector;
               buf = map junk [0..<nat (numSectors * int SectorSize)];
               firstAligned = (position = firstSector * int SectorSize);
               lastAligned = (position + numBytes = (lastSector + 1) * int SectorSize) in
      bindR (if \<not> firstAligned
             then bindR (ReadAt d h (int SectorSize) (firstSector * int SectorSize)) (\<lambda>(d, bs).
                  bindR (buf_put buf 0 bs) (\<lambda>buf. Inr (d, buf)))
             else Inr (d, buf)) (\<lambda>(d, buf).
      bindR (if \<not> lastAligned \<and> (firstSector \<noteq> lastSector \<or> firstAligned)
             then bindR (ReadAt d h (int SectorSize) (lastSector * int SectorSize)) (\<lambda>(d, bs).
                  bindR (buf_put buf ((lastSector - firstSector) * int SectorSize) bs) (\<lambda>buf. Inr (d, buf)))
             else Inr (d, buf)) (\<lambda>(d, buf).
      bindR (buf_get from 0 numBytes) (\<lambda>bs.
      bindR (buf_put buf (position - firstSector * int SectorSize) bs) (\<lambda>buf.
      bindR (WriteAt_loop WriteSector h firstSector buf [firstSector..lastSector] d) (\<lambda>d.
      Inr (d, numBytes)))))))"

definition OpenFile_Read :: "disk \<Rightarrow> open_file \<Rightarrow> int \<Rightarrow> (disk \<times> open_file \<times> byte list) res" where
  "OpenFile_Read d f numBytes =
     bindR (ReadAt d (hdr f) numBytes (seekPosition f)) (\<lambda>(d, bs).
     Inr (d, f\<lparr>seekPosition := seekPosition f + int (length bs)\<rparr>, bs))"

definition OpenFile_Write :: "(nat \<Rightarrow> byte) \<Rightarrow> disk \<Rightarrow> open_file \<Rightarrow> byte list \<Rightarrow> int \<Rightarrow> (disk \<times> open_file \<times> int) res" where
  "OpenFile_Write junk d f from numBytes =
     bindR (WriteAt junk d (hdr f) from numBytes (seekPosition f)) (\<lambda>(d, result).
     Inr (d, f\<lparr>seekPosition := seekPosition f + result\<rparr>, result))"

definition OpenFile_Length :: "open_file \<Rightarrow> int" where
  "OpenFile_Length f = FileLength (hdr f)"

section \<open>The bytes of a file\<close>

text \<open>\<open>file_blocks\<close> is all that the data sectors hold, \<open>file_data\<close> the bytes of the file.\<close>

definition file_blocks :: "(nat \<Rightarrow> byte list) \<Rightarrow> file_header \<Rightarrow> byte list" where
  "file_blocks c h = concat (map c (file_sectors h))"

definition file_data :: "(nat \<Rightarrow> byte list) \<Rightarrow> file_header \<Rightarrow> byte list" where
  "file_data c h = take (nat (hdrBytes h)) (file_blocks c h)"

lemma file_wf_sectors:
  assumes "file_wf h"
  shows "length (file_sectors h) = nat (hdrSectors h)" "distinct (file_sectors h)"
    "\<And>s. s \<in> set (file_sectors h) \<Longrightarrow> int s < NumSectors"
    "0 \<le> hdrBytes h \<Longrightarrow> hdrBytes h \<le> int (length (file_sectors h)) * 128"
proof -
  show l: "length (file_sectors h) = nat (hdrSectors h)"
    using assms by (auto simp: file_sectors_def file_wf_def hdr_wf_def)
  show "distinct (file_sectors h)" using assms by (simp add: file_wf_def)
  show "\<And>s. s \<in> set (file_sectors h) \<Longrightarrow> int s < NumSectors"
    using assms by (auto simp: file_sectors_def file_wf_def)
  assume "0 \<le> hdrBytes h"
  then show "hdrBytes h \<le> int (length (file_sectors h)) * 128"
    using divRoundUp_bounds(1) [of "hdrBytes h" 128] divRoundUp_nonneg [of "hdrBytes h" 128] assms
    by (simp add: l file_wf_def SectorSize_def)
qed

lemma ByteToSector_in:
  assumes "file_wf h" "0 \<le> i" "i < int (length (file_sectors h))"
  shows "ByteToSector h (i * int SectorSize) = Inr (int (file_sectors h ! nat i))"
proof -
  have n: "nat i < nat (hdrSectors h)" "nat i < length (dataSectors h)"
    using assms file_wf_sectors(1) [OF assms(1)] by (auto simp: file_wf_def hdr_wf_def split: if_splits)
  then have "dataSectors h ! nat i \<in> set (take (nat (hdrSectors h)) (dataSectors h))"
    by (metis in_set_conv_nth length_take min_less_iff_conj nth_take)
  then have "0 \<le> dataSectors h ! nat i" using assms(1) by (auto simp: file_wf_def)
  then show ?thesis using n assms by (simp add: ByteToSector_def SectorSize_def file_sectors_def)
qed

context block_device
begin

lemma ReadAt_loop_ok:
  assumes h: "file_wf h"
  shows "inv d \<Longrightarrow> k + n \<le> length (file_sectors h) \<Longrightarrow>
    \<exists>d'. ReadAt_loop rd h (map int [k..<k + n]) d buf
        = Inr (d', buf @ concat (map (content d) (take n (drop k (file_sectors h)))))
      \<and> inv d' \<and> content d' = content d"
proof (induction n arbitrary: k d buf)
  case 0
  then show ?case by simp
next
  case (Suc n)
  let ?s = "file_sectors h ! k"
  have k: "k < length (file_sectors h)" using Suc.prems by simp
  then have s: "int ?s < NumSectors" by (simp add: file_wf_sectors(3) [OF h])
  obtain d1 where d1: "rd d (int ?s) = Inr (d1, content d ?s)" "inv d1" "content d1 = content d"
    using rd [OF Suc.prems(1) _ s] by auto
  obtain d' where d': "ReadAt_loop rd h (map int [Suc k..<Suc k + n]) d1 (buf @ content d ?s)
      = Inr (d', (buf @ content d ?s) @ concat (map (content d1) (take n (drop (Suc k) (file_sectors h)))))"
      "inv d'" "content d' = content d1"
    using Suc.IH [OF d1(2), of "Suc k" "buf @ content d ?s"] Suc.prems(2) by auto
  have "map int [k..<k + Suc n] = int k # map int [Suc k..<Suc k + n]" by (simp add: upt_conv_Cons)
  moreover have "take (Suc n) (drop k (file_sectors h)) = ?s # take n (drop (Suc k) (file_sectors h))"
    using k by (simp add: Cons_nth_drop_Suc [symmetric])
  ultimately show ?case using d1 d' ByteToSector_in [OF h, of "int k"] k by auto
qed

text \<open>The blocks of the buffer go to the sectors of the file one by one.\<close>

lemma WriteAt_loop_ok:
  assumes h: "file_wf h"
  shows "inv d \<Longrightarrow> a \<le> k \<Longrightarrow> k + n \<le> length (file_sectors h) \<Longrightarrow> (k - a + n) * SectorSize \<le> length buf \<Longrightarrow>
    \<exists>d'. WriteAt_loop wr h (int a) buf (map int [k..<k + n]) d = Inr d' \<and> inv d'
      \<and> (\<forall>s. s \<notin> set (take n (drop k (file_sectors h))) \<longrightarrow> content d' s = content d s)
      \<and> (\<forall>i. k \<le> i \<and> i < k + n \<longrightarrow>
            content d' (file_sectors h ! i) = take SectorSize (drop ((i - a) * SectorSize) buf))"
proof (induction n arbitrary: k d)
  case 0
  then show ?case by auto
next
  case (Suc n)
  let ?ss = "file_sectors h" and ?piece = "\<lambda>i. take SectorSize (drop ((i - a) * SectorSize) buf)"
  have k: "k < length ?ss" using Suc.prems by simp
  then have s: "int (?ss ! k) < NumSectors" by (simp add: file_wf_sectors(3) [OF h])
  have room: "(k - a) * SectorSize + SectorSize \<le> length buf" using Suc.prems(4) by (simp add: SectorSize_def)
  have get: "buf_get buf ((int k - int a) * int SectorSize) (int SectorSize) = Inr (?piece k)"
  proof -
    have "(int k - int a) * int SectorSize = int ((k - a) * SectorSize)"
      using Suc.prems(2) by (simp add: of_nat_diff)
    moreover have "int ((k - a) * SectorSize) + int SectorSize \<le> int (length buf)"
      using room by (simp only: of_nat_add [symmetric] of_nat_le_iff)
    ultimately show ?thesis by (simp only: buf_get_def nat_int) simp
  qed
  obtain d1 where d1: "wr d (int (?ss ! k)) (?piece k) = Inr d1" "inv d1"
      "content d1 = (content d)(?ss ! k := ?piece k)"
    using wr [OF Suc.prems(1) _ s, of "?piece k"] room by auto
  obtain d' where d': "WriteAt_loop wr h (int a) buf (map int [Suc k..<Suc k + n]) d1 = Inr d'" "inv d'"
      "\<forall>s. s \<notin> set (take n (drop (Suc k) ?ss)) \<longrightarrow> content d' s = content d1 s"
      "\<forall>i. Suc k \<le> i \<and> i < Suc k + n \<longrightarrow> content d' (?ss ! i) = ?piece i"
    using Suc.IH [OF d1(2), of "Suc k"] Suc.prems by (force simp: Suc_diff_le)
  have range: "map int [k..<k + Suc n] = int k # map int [Suc k..<Suc k + n]" by (simp add: upt_conv_Cons)
  have ss: "take (Suc n) (drop k ?ss) = ?ss ! k # take n (drop (Suc k) ?ss)"
    using k by (simp add: Cons_nth_drop_Suc [symmetric])
  have "distinct (take (Suc n) (drop k ?ss))" using file_wf_sectors(2) [OF h] by (simp add: distinct_drop)
  then have "content d' (?ss ! k) = ?piece k" using d'(3) d1(3) unfolding ss by simp
  then have "\<forall>i. k \<le> i \<and> i < k + Suc n \<longrightarrow> content d' (?ss ! i) = ?piece i"
    using d'(4) by (metis add_Suc_right add_Suc le_neq_implies_less Suc_leI)
  moreover have "WriteAt_loop wr h (int a) buf (map int [k..<k + Suc n]) d = Inr d'"
    using ByteToSector_in [OF h, of "int k"] k get d1 d'(1) unfolding range by simp
  moreover have "\<forall>s. s \<notin> set (take (Suc n) (drop k ?ss)) \<longrightarrow> content d' s = content d s"
    unfolding ss using d'(3) d1(3) by simp
  ultimately show ?case using d'(2) by blast
qed

end

section \<open>Reading\<close>

lemma upto_conv_upt: "[int a..int b] = map int [a..<Suc b]"
  by (rule nth_equalityI) (auto simp: nth_upt simp del: upt_Suc)

text \<open>The sectors that hold the bytes from \<open>P\<close> on, \<open>N\<close> of them.\<close>

lemma window:
  fixes P N :: nat
  assumes "0 < N"
  shows "P div 128 * 128 \<le> P" "P + N \<le> Suc ((P + N - 1) div 128) * 128"
    "P div 128 \<le> (P + N - 1) div 128" "P < Suc (P div 128) * 128" "(P + N - 1) div 128 * 128 < P + N"
proof -
  show "P div 128 \<le> (P + N - 1) div 128" using assms by (intro div_le_mono) linarith
  show "P div 128 * 128 \<le> P" by simp
  show "P < Suc (P div 128) * 128" using mult_div_mod_eq [of 128 P] mod_less_divisor [of 128 P] by simp
  show "P + N \<le> Suc ((P + N - 1) div 128) * 128" "(P + N - 1) div 128 * 128 < P + N"
    using mult_div_mod_eq [of 128 "P + N - 1"] mod_less_divisor [of 128 "P + N - 1"] assms by simp_all
qed

lemma window_in_file:
  assumes "file_wf h" "0 < N" "int (P + N) \<le> hdrBytes h"
  shows "(P + N - 1) div 128 < length (file_sectors h)"
proof -
  have "int (P + N) \<le> int (length (file_sectors h)) * 128"
    using assms file_wf_sectors(4) [OF assms(1)] by linarith
  then have "P + N \<le> length (file_sectors h) * 128" by linarith
  with window(5) [OF assms(2), of P] show ?thesis by linarith
qed

lemma blocks_window:
  assumes "\<And>s. length (c s) = SectorSize"
  shows "concat (map c (take m (drop f (file_sectors h)))) = take (m * 128) (drop (f * 128) (file_blocks c h))"
    "length (file_blocks c h) = length (file_sectors h) * 128"
  using assms by (simp_all add: file_blocks_def take_blocks drop_blocks length_blocks SectorSize_def)

lemma ReadAt_window:
  assumes d: "synch_wf d" and h: "file_wf h" and N: "0 < N" "int (P + N) \<le> hdrBytes h"
  defines "f \<equiv> P div 128" and "l \<equiv> (P + N - 1) div 128"
  obtains d' buf where "ReadAt_loop ReadSector h [int f..int l] d [] = Inr (d', buf)" "synch_wf d'" "sectors d' = sectors d"
    "buf_get buf (int P - int f * int SectorSize) (int N) = Inr (take N (drop P (file_blocks (sectors d) h)))"
proof -
  let ?B = "file_blocks (sectors d) h" and ?m = "Suc l - f"
  note w = window [OF N(1), of P, folded f_def l_def]
  have l: "l < length (file_sectors h)" unfolding l_def by (rule window_in_file [OF h N])
  have range: "[int f..int l] = map int [f..<f + ?m]" using w(3) by (simp only: upto_conv_upt) (simp del: upt_Suc)
  obtain d' where loop: "ReadAt_loop ReadSector h [int f..int l] d []
      = Inr (d', take (?m * 128) (drop (f * 128) ?B))" "synch_wf d'" "sectors d' = sectors d"
    using synch.ReadAt_loop_ok [OF h d, of f ?m "[]"] l w(3) synch.len [OF d]
    unfolding range by (auto simp: blocks_window(1))
  have len: "length (take (?m * 128) (drop (f * 128) ?B)) = ?m * 128"
    using l w(3) synch.len [OF d] by (simp add: blocks_window(2)) 
  have room: "P - f * 128 + N \<le> ?m * 128" using w(1-3) by (simp add: diff_mult_distrib)
  have off: "int P - int f * int SectorSize = int (P - f * 128)" using w(1) by (simp add: SectorSize_def)
  have "buf_get (take (?m * 128) (drop (f * 128) ?B)) (int P - int f * int SectorSize) (int N)
      = Inr (take N (drop (P - f * 128) (take (?m * 128) (drop (f * 128) ?B))))"
    using room len unfolding off by (subst buf_get_in) simp_all
  also have "take N (drop (P - f * 128) (take (?m * 128) (drop (f * 128) ?B))) = take N (drop P ?B)"
    using room w(1) by (simp add: drop_take min_absorb1)
  finally show ?thesis using loop that by blast
qed

lemma ReadAt_ok:
  assumes d: "synch_wf d" and h: "file_wf h" and "0 \<le> position" "int_range (position + n)"
  obtains d' where "ReadAt d h n position = Inr (d', take (nat n) (drop (nat position) (file_data (sectors d) h)))"
    "synch_wf d'" "sectors d' = sectors d"
proof (cases "n \<le> 0 \<or> position \<ge> hdrBytes h")
  case True
  then have "take (nat n) (drop (nat position) (file_data (sectors d) h)) = []"
    using assms(3) by (auto simp: file_data_def)
  with True show ?thesis using d that [of d] by (simp add: ReadAt_def FileLength_def)
next
  case False
  define N where "N = nat (if position + n > hdrBytes h then hdrBytes h - position else n)"
  let ?P = "nat position"
  have N: "0 < N" "int (?P + N) \<le> hdrBytes h" using False assms(3) by (auto simp: N_def)
  have ints: "int ?P = position" "(if position + n > hdrBytes h then hdrBytes h - position else n) = int N"
    using False assms(3) by (auto simp: N_def)
  have sec: "divRoundDown position (int SectorSize) = int (?P div 128)"
    "divRoundDown (position + int N - 1) (int SectorSize) = int ((?P + N - 1) div 128)"
    using N(1) assms(3) by (simp_all add: divRoundDown_def SectorSize_def zdiv_int of_nat_diff)
  obtain d' buf where "ReadAt_loop ReadSector h [int (?P div 128)..int ((?P + N - 1) div 128)] d [] = Inr (d', buf)"
      "synch_wf d'" "sectors d' = sectors d"
      "buf_get buf (position - int (?P div 128) * int SectorSize) (int N)
        = Inr (take N (drop ?P (file_blocks (sectors d) h)))"
    using ReadAt_window [OF d h N, unfolded ints(1)] by metis
  moreover have "take (nat n) (drop ?P (file_data (sectors d) h)) = take N (drop ?P (file_blocks (sectors d) h))"
    using False assms(3) by (auto simp: file_data_def N_def drop_take min_def nat_diff_distrib)
  ultimately show ?thesis using False assms(4) that [of d']
    by (simp add: ReadAt_def FileLength_def ints sec Let_def)
qed

section \<open>Writing\<close>

text \<open>
  The buffer that is written back agrees with the file, the new bytes put in: the sectors
  that are written in part were read first, the others are covered by the new bytes.
\<close>

lemma write_buffer:
  fixes data :: "'a list"
  assumes N: "0 < N" "length bs = N" "P + N \<le> length data" and buf: "length buf = (Suc l - f) * 128"
    and f: "f = P div 128" and l: "l = (P + N - 1) div 128"
    and buf1: "buf1 = (if P \<noteq> f * 128 then overlay buf 0 (take 128 (drop (f * 128) data)) else buf)"
    and buf2: "buf2 = (if P + N \<noteq> Suc l * 128 \<and> (f \<noteq> l \<or> P = f * 128)
      then overlay buf1 ((l - f) * 128) (take 128 (drop (l * 128) data)) else buf1)"
  shows "length buf1 = length buf" "length buf2 = length buf" "P - f * 128 + N \<le> length buf"
    "j < length buf \<Longrightarrow> f * 128 + j < length data \<Longrightarrow>
      overlay buf2 (P - f * 128) bs ! j = overlay data P bs ! (f * 128 + j)"
proof -
  note w = window [OF N(1), of P, folded f l]
  have m: "128 \<le> length buf" "(l - f) * 128 + 128 = length buf" using w(3) buf by auto
  show b1: "length buf1 = length buf" unfolding buf1 using m by simp
  show b2: "length buf2 = length buf" unfolding buf2 using b1 m by simp
  show P: "P - f * 128 + N \<le> length buf" using w(1-3) buf by (simp add: diff_mult_distrib)
  assume j: "j < length buf" "f * 128 + j < length data"
  have last: "f * 128 + j < Suc l * 128" using j(1) m w(3) by (simp add: diff_mult_distrib)
  have old: "buf2 ! j = data ! (f * 128 + j)" if out: "f * 128 + j < P \<or> P + N \<le> f * 128 + j"
  proof (cases "P + N \<noteq> Suc l * 128 \<and> (f \<noteq> l \<or> P = f * 128) \<and> (l - f) * 128 \<le> j")
    case True
    define D r where "D = (l - f) * 128" and "r = take 128 (drop (l * 128) data)"
    have D: "D \<le> j" "D + 128 = length buf" "f * 128 + D = l * 128"
      using True m w(3) by (auto simp: D_def diff_mult_distrib)
    then have r: "D + length r \<le> length buf1" "j < D + length r" using b1 j by (auto simp: r_def min_def)
    have "buf2 = overlay buf1 D r" using True by (simp add: buf2 D_def r_def)
    then have "buf2 ! j = r ! (j - D)" using r D(1) j b1 by (simp add: nth_overlay)
    also have "\<dots> = data ! (l * 128 + (j - D))" using r D j by (simp add: r_def)
    also have "l * 128 + (j - D) = f * 128 + j" using D by linarith
    finally show ?thesis .
  next
    case False
    then have "buf2 ! j = buf1 ! j" using j b1 m by (auto simp: buf2 nth_overlay)
    also have "\<dots> = data ! (f * 128 + j)"
    proof -
      have "P \<noteq> f * 128" "j < 128"
        using False out w last j m by (auto simp: diff_mult_distrib)
      moreover have "j < length data - f * 128" using j by linarith
      ultimately show ?thesis using j m by (simp add: buf1 nth_overlay)
    qed
    finally show ?thesis .
  qed
  show "overlay buf2 (P - f * 128) bs ! j = overlay data P bs ! (f * 128 + j)"
  proof (cases "P \<le> f * 128 + j \<and> f * 128 + j < P + N")
    case True
    then have "P - f * 128 \<le> j" "j < P - f * 128 + N" "j - (P - f * 128) = f * 128 + j - P"
      using w(1) by linarith+
    then have "overlay buf2 (P - f * 128) bs ! j = bs ! (f * 128 + j - P)"
      using nth_overlay [of "P - f * 128" bs buf2 j] N(2) P b2 j(1) by simp
    then show ?thesis using True nth_overlay [of P bs data "f * 128 + j"] N j(2) by simp
  next
    case False
    then have "overlay buf2 (P - f * 128) bs ! j = buf2 ! j" using j N P b2 w(1) by (auto simp: nth_overlay)
    then show ?thesis using False old j N by (auto simp: nth_overlay)
  qed
qed

text \<open>Writing consecutive sectors of a file replaces the blocks of the file.\<close>

lemma written_blocks:
  assumes h: "file_wf h" and c: "\<And>s. length (c s) = SectorSize"
    and buf: "length buf = m * SectorSize" and room: "f + m \<le> length (file_sectors h)"
    and other: "\<forall>s. s \<notin> set (take m (drop f (file_sectors h))) \<longrightarrow> c' s = c s"
    and new: "\<forall>i. f \<le> i \<and> i < f + m \<longrightarrow> c' (file_sectors h ! i) = take SectorSize (drop ((i - f) * SectorSize) buf)"
  shows "file_blocks c' h = overlay (file_blocks c h) (f * SectorSize) buf"
proof -
  let ?ss = "file_sectors h"
  have parts: "?ss = take f ?ss @ take m (drop f ?ss) @ drop (f + m) ?ss"
    by (metis append_take_drop_id drop_drop add.commute)
  have dist: "distinct (take f ?ss @ take m (drop f ?ss) @ drop (f + m) ?ss)"
    using file_wf_sectors(2) [OF h] parts by metis
  have outer: "map c' (take f ?ss) = map c (take f ?ss)" "map c' (drop (f + m) ?ss) = map c (drop (f + m) ?ss)"
    using other dist by (auto intro!: map_cong)
  have "map c' (take m (drop f ?ss)) = map (\<lambda>k. take SectorSize (drop (k * SectorSize) buf)) [0..<m]"
    using new room by (intro nth_equalityI) auto
  then have inner: "concat (map c' (take m (drop f ?ss))) = buf" using concat_cut [OF buf] by simp
  have "file_blocks c' h = concat (map c' (take f ?ss)) @ concat (map c' (take m (drop f ?ss)))
      @ concat (map c' (drop (f + m) ?ss))"
    unfolding file_blocks_def by (subst parts) (simp only: map_append concat_append)
  also have "\<dots> = take (f * SectorSize) (file_blocks c h) @ buf @ drop ((f + m) * SectorSize) (file_blocks c h)"
    unfolding outer inner using c by (simp add: file_blocks_def take_blocks drop_blocks)
  finally show ?thesis using buf by (simp add: overlay_def distrib_right)
qed

lemma written_data:
  assumes "file_wf h" "\<And>s. length (c s) = SectorSize" "0 \<le> hdrBytes h"
    and blocks: "file_blocks c' h = overlay (file_blocks c h) (f * 128) buf"
    and room: "f * 128 + length buf \<le> length (file_blocks c h)"
    and P: "P + length bs \<le> nat (hdrBytes h)" "f * 128 \<le> P" "P + length bs \<le> f * 128 + length buf"
    and buf: "\<And>j. j < length buf \<Longrightarrow> f * 128 + j < nat (hdrBytes h) \<Longrightarrow>
      buf ! j = overlay (file_data c h) P bs ! (f * 128 + j)"
  shows "file_data c' h = overlay (file_data c h) P bs"
proof (rule nth_equalityI)
  have L: "nat (hdrBytes h) \<le> length (file_blocks c h)"
    using file_wf_sectors(4) [OF assms(1,3)] assms(2) by (simp add: blocks_window(2) nat_le_iff)
  have data: "length (file_data c h) = nat (hdrBytes h)" using L by (simp add: file_data_def)
  show len: "length (file_data c' h) = length (overlay (file_data c h) P bs)"
    using L data room P by (simp add: file_data_def blocks)
  fix p assume "p < length (file_data c' h)"
  then have p: "p < nat (hdrBytes h)" using len data P by simp
  show "file_data c' h ! p = overlay (file_data c h) P bs ! p"
  proof (cases "f * 128 \<le> p \<and> p < f * 128 + length buf")
    case True
    then have "file_data c' h ! p = buf ! (p - f * 128)"
      using p L room by (simp add: file_data_def blocks nth_overlay)
    also have "\<dots> = overlay (file_data c h) P bs ! p"
      proof -
        have "p - f * 128 < length buf" "f * 128 + (p - f * 128) = p" using True by linarith+
        then show ?thesis using buf [of "p - f * 128"] p by simp
      qed
    finally show ?thesis .
  next
    case False
    then have "file_data c' h ! p = file_blocks c h ! p"
      using p L room by (auto simp: file_data_def blocks nth_overlay)
    also have "\<dots> = overlay (file_data c h) P bs ! p"
      using False p data P by (auto simp: nth_overlay file_data_def)
    finally show ?thesis .
  qed
qed

lemma WriteAt_window:
  assumes d: "synch_wf d" and h: "file_wf h" and N: "0 < N" "length bs = N" "int (P + N) \<le> hdrBytes h"
    and f: "f = P div 128" and l: "l = (P + N - 1) div 128" and buf: "length buf = (Suc l - f) * 128"
    and buf1: "buf1 = (if P \<noteq> f * 128 then overlay buf 0 (take 128 (drop (f * 128) (file_data (sectors d) h))) else buf)"
    and buf2: "buf2 = (if P + N \<noteq> Suc l * 128 \<and> (f \<noteq> l \<or> P = f * 128)
      then overlay buf1 ((l - f) * 128) (take 128 (drop (l * 128) (file_data (sectors d) h))) else buf1)"
  obtains d' where
    "WriteAt_loop WriteSector h (int f) (overlay buf2 (P - f * 128) bs) [int f..int l] d = Inr d'" "synch_wf d'"
    "\<forall>s. s \<notin> set (file_sectors h) \<longrightarrow> sectors d' s = sectors d s"
    "file_data (sectors d') h = overlay (file_data (sectors d) h) P bs"
proof -
  let ?m = "Suc l - f" and ?data = "file_data (sectors d) h" and ?new = "overlay buf2 (P - f * 128) bs"
  note w = window [OF N(1), of P, folded f l] and len = synch.len [OF d]
  have lss: "f + ?m \<le> length (file_sectors h)" using window_in_file [OF h N(1,3)] w(3) unfolding l by linarith
  have pos: "0 \<le> hdrBytes h" using N(3) by linarith
  have blk: "length (file_blocks (sectors d) h) = length (file_sectors h) * 128" by (rule blocks_window(2) [OF len])
  have data: "length ?data = nat (hdrBytes h)"
    using file_wf_sectors(4) [OF h pos] blk by (simp add: file_data_def min_absorb2 nat_le_iff)
  have PN: "P + N \<le> length ?data" using N(3) data by linarith
  note wb = write_buffer [OF N(1,2) PN buf f l buf1 buf2]
  have new: "length ?new = ?m * 128" using wb(2,3) N(2) buf by simp
  have range: "[int f..int l] = map int [f..<f + ?m]" using w(3) by (simp only: upto_conv_upt) (simp del: upt_Suc)
  obtain d' where loop: "WriteAt_loop WriteSector h (int f) ?new [int f..int l] d = Inr d'" "synch_wf d'"
      "\<forall>s. s \<notin> set (take ?m (drop f (file_sectors h))) \<longrightarrow> sectors d' s = sectors d s"
      "\<forall>i. f \<le> i \<and> i < f + ?m \<longrightarrow>
         sectors d' (file_sectors h ! i) = take SectorSize (drop ((i - f) * SectorSize) ?new)"
    using synch.WriteAt_loop_ok [OF h d, of f f ?m ?new] lss new unfolding range by (auto simp: SectorSize_def)
  have "file_blocks (sectors d') h = overlay (file_blocks (sectors d) h) (f * SectorSize) ?new"
    by (rule written_blocks [OF h len _ lss loop(3,4)]) (simp add: new SectorSize_def)
  then have blocks: "file_blocks (sectors d') h = overlay (file_blocks (sectors d) h) (f * 128) ?new"
    by (simp add: SectorSize_def)
  have "file_data (sectors d') h = overlay ?data P bs"
  proof (rule written_data [OF h len pos blocks])
    show "f * 128 + length ?new \<le> length (file_blocks (sectors d) h)"
      using lss w(3) unfolding new blk by (simp add: diff_mult_distrib)
    show "P + length bs \<le> f * 128 + length ?new"
      using w N(2) unfolding new by (simp add: diff_mult_distrib)
    show "P + length bs \<le> nat (hdrBytes h)" using PN N(2) data by simp
    show "f * 128 \<le> P" by (rule w(1))
  next
    fix j assume "j < length ?new" "f * 128 + j < nat (hdrBytes h)"
    then show "?new ! j = overlay ?data P bs ! (f * 128 + j)" using wb(4) [of j] new buf data by simp
  qed
  moreover have "\<forall>s. s \<notin> set (file_sectors h) \<longrightarrow> sectors d' s = sectors d s"
    using loop(3) by (meson in_set_dropD in_set_takeD)
  ultimately show ?thesis using loop(1,2) that by blast
qed

text \<open>Reading a whole sector of the file into the buffer, as \<open>WriteAt\<close> does before a partial write.\<close>

lemma ReadAt_into_buffer:
  assumes d: "synch_wf d" and h: "file_wf h" and i: "i < length (file_sectors h)" and buf: "k * 128 + 128 \<le> length buf"
  obtains d' where "bindR (ReadAt d h (int SectorSize) (int i * int SectorSize)) (\<lambda>(d, bs).
      bindR (buf_put buf (int k * int SectorSize) bs) (\<lambda>buf. Inr (d, buf)))
    = Inr (d', overlay buf (k * 128) (take 128 (drop (i * 128) (file_data (sectors d) h))))"
    "synch_wf d'" "sectors d' = sectors d"
proof -
  let ?r = "take 128 (drop (i * 128) (file_data (sectors d) h))"
  have "i < 30" using i h file_wf_sectors(1) [OF h] by (simp add: file_wf_def)
  then have "int_range (int i * 128 + 128)" by (simp add: int_range_def)
  then obtain d' where r: "ReadAt d h 128 (int i * 128) = Inr (d', ?r)" "synch_wf d'" "sectors d' = sectors d"
    using ReadAt_ok [OF d h, of "int i * 128" 128] by (auto simp: nat_mult_distrib)
  moreover have "buf_put buf (int k * 128) ?r = Inr (overlay buf (k * 128) ?r)"
    using buf by (subst buf_put_in) (auto simp: nat_mult_distrib)
  ultimately show ?thesis using that [of d'] by (simp add: SectorSize_def)
qed

lemma WriteAt_ok:
  assumes d: "synch_wf d" and h: "file_wf h" and pos: "0 \<le> position" and rng: "int_range (position + n)"
    and src: "n \<le> int (length from)"
  defines "bs \<equiv> take (nat (min n (hdrBytes h - position))) from"
  obtains d' where "WriteAt junk d h from n position = Inr (d', int (length bs))" "synch_wf d'"
    "\<forall>s. s \<notin> set (file_sectors h) \<longrightarrow> sectors d' s = sectors d s"
    "file_data (sectors d') h = overlay (file_data (sectors d) h) (nat position) bs"
proof (cases "n \<le> 0 \<or> position \<ge> hdrBytes h")
  case True
  then have "bs = []" by (auto simp: bs_def)
  with True show ?thesis using d that [of d] by (simp add: WriteAt_def FileLength_def overlay_def)
next
  case False
  define P N where "P = nat position" and "N = nat (min n (hdrBytes h - position))"
  define f l where "f = P div 128" and "l = (P + N - 1) div 128"
  have bs: "length bs = N" "bs = take N from" using src by (auto simp: bs_def N_def)
  have N: "0 < N" "int (P + N) \<le> hdrBytes h" using False pos by (auto simp: N_def P_def)
  note w = window [OF N(1), of P, folded f_def l_def]
  have l: "l < length (file_sectors h)" unfolding l_def by (rule window_in_file [OF h N])
  have n: "(if position + n > hdrBytes h then hdrBytes h - position else n) = int N" and P: "position = int P"
    using False pos by (auto simp: N_def P_def)
  have sec: "divRoundDown position (int SectorSize) = int f" "divRoundDown (position + int N - 1) (int SectorSize) = int l"
    using N(1) pos by (simp_all add: divRoundDown_def SectorSize_def zdiv_int of_nat_diff f_def l_def P)
  define buf where "buf = map junk [0..<nat ((1 + int l - int f) * int SectorSize)]"
  have buf: "length buf = (Suc l - f) * 128"
    using w(3) by (simp add: buf_def SectorSize_def nat_mult_distrib nat_diff_distrib)
  have alg: "(position = int f * int SectorSize) = (P = f * 128)"
    "(position + int N = (int l + 1) * int SectorSize) = (P + N = Suc l * 128)"
    unfolding P SectorSize_def by (simp_all, presburger+)
  define data where "data = file_data (sectors d) h"
  define buf1 where "buf1 = (if P \<noteq> f * 128 then overlay buf 0 (take 128 (drop (f * 128) data)) else buf)"
  define buf2 where "buf2 = (if P + N \<noteq> Suc l * 128 \<and> (f \<noteq> l \<or> P = f * 128)
      then overlay buf1 ((l - f) * 128) (take 128 (drop (l * 128) data)) else buf1)"
  have PN: "P + N \<le> length data"
    using N(2) file_wf_sectors(4) [OF h] blocks_window(2) [OF synch.len [OF d], where h = h]
    by (simp add: data_def file_data_def)
  note wb = write_buffer [OF N(1) bs(1) PN buf f_def l_def buf1_def buf2_def]
  obtain d1 where d1: "(if position \<noteq> int f * int SectorSize
      then bindR (ReadAt d h (int SectorSize) (int f * int SectorSize)) (\<lambda>(d, bs).
           bindR (buf_put buf 0 bs) (\<lambda>buf. Inr (d, buf)))
      else Inr (d, buf)) = Inr (d1, buf1)" "synch_wf d1" "sectors d1 = sectors d"
  proof (cases "P = f * 128")
    case False
    have "f < length (file_sectors h)" "0 * 128 + 128 \<le> length buf" using l w(3) buf by auto
    from ReadAt_into_buffer [OF d h this] that False show ?thesis unfolding alg buf1_def data_def by auto
  qed (use that [of d] d in \<open>simp add: alg buf1_def\<close>)
  have fl: "(l - f) * 128 + 128 \<le> length buf1" using wb(1) buf w(3) by simp
  obtain d2 where d2: "(if position + int N \<noteq> (int l + 1) * int SectorSize \<and> (int f \<noteq> int l \<or> position = int f * int SectorSize)
      then bindR (ReadAt d1 h (int SectorSize) (int l * int SectorSize)) (\<lambda>(d, bs).
           bindR (buf_put buf1 ((int l - int f) * int SectorSize) bs) (\<lambda>buf. Inr (d, buf)))
      else Inr (d1, buf1)) = Inr (d2, buf2)" "synch_wf d2" "sectors d2 = sectors d"
  proof (cases "P + N \<noteq> Suc l * 128 \<and> (f \<noteq> l \<or> P = f * 128)")
    case True
    from ReadAt_into_buffer [OF d1(2) h l fl] that True w(3) d1(3) show ?thesis
      unfolding alg buf2_def data_def by (auto simp: of_nat_diff)
  qed (use that [of d1] d1(2,3) in \<open>auto simp: alg buf2_def\<close>)
  obtain d3 where d3: "WriteAt_loop WriteSector h (int f) (overlay buf2 (P - f * 128) bs) [int f..int l] d2 = Inr d3"
      "synch_wf d3" "\<forall>s. s \<notin> set (file_sectors h) \<longrightarrow> sectors d3 s = sectors d s"
      "file_data (sectors d3) h = overlay data P bs"
    using WriteAt_window [OF d2(2) h N(1) bs(1) N(2) f_def l_def buf, unfolded d2(3),
        OF buf1_def [unfolded data_def] buf2_def [unfolded data_def]] that
    unfolding data_def by blast
  have get: "buf_get from 0 (int N) = Inr bs" using src N by (simp add: buf_get_def bs N_def)
  have put: "buf_put buf2 (position - int f * int SectorSize) bs = Inr (overlay buf2 (P - f * 128) bs)"
  proof -
    have "position - int f * int SectorSize = int (P - f * 128)" using w(1) by (simp add: P SectorSize_def)
    then show ?thesis using wb(2,3) bs(1) by (simp add: buf_put_def)
  qed
  have "WriteAt junk d h from n position = Inr (d3, int N)"
  proof -
    have "(n \<le> 0 \<or> hdrBytes h \<le> position) = False" "(\<not> int_range (position + n)) = False"
      using False rng by simp_all
    then show ?thesis
      by (simp only: WriteAt_def FileLength_def Let_def n sec if_False buf_def [symmetric] d1(1) d2(1) d3(1)
          get put bindR_simps prod.case)
  qed
  then show ?thesis using d3 bs that by (simp add: P_def data_def)
qed

section \<open>Properties\<close>

text \<open>
  C12. An open file is a sequence of bytes. On every range that starts in or after the file,
  \<open>ReadAt\<close> returns the bytes of the file in the range and leaves the disk as it is; \<open>WriteAt\<close>
  replaces them, up to the end of the file, by the bytes of the buffer, returns how many it
  replaced, and changes no sector of another file, whatever the fresh buffer holds.
\<close>

theorem open_file_refines_bytes:
  assumes "synch_wf d" "file_wf h" "0 \<le> position" "int_range (position + n)" "n \<le> int (length from)"
  defines "data \<equiv> file_data (sectors d) h" and "bs \<equiv> take (nat (min n (FileLength h - position))) from"
  shows "(\<exists>d'. ReadAt d h n position = Inr (d', take (nat n) (drop (nat position) data))
        \<and> synch_wf d' \<and> sectors d' = sectors d)
    \<and> (\<exists>d'. WriteAt junk d h from n position = Inr (d', int (length bs)) \<and> synch_wf d'
        \<and> file_data (sectors d') h = overlay data (nat position) bs
        \<and> (\<forall>s. s \<notin> set (file_sectors h) \<longrightarrow> sectors d' s = sectors d s))"
  using ReadAt_ok [OF assms(1-4)] WriteAt_ok [OF assms(1-5), of junk]
  unfolding data_def bs_def FileLength_def by metis

text \<open>C12, on a file of 200 bytes in sectors 7 and 5, with the ranges over its end.\<close>

theorem open_file_refines_bytes_witness:
  "\<exists>d h. synch_wf d \<and> file_sectors h = [7, 5]
    \<and> (\<exists>d'. ReadAt d h 100 120 = Inr (d', replicate 80 0))
    \<and> (\<exists>d'. WriteAt (\<lambda>_. 9) d h (replicate 100 1) 100 120 = Inr (d', 80)
        \<and> file_data (sectors d') h = replicate 120 0 @ replicate 80 1)"
proof -
  define d where "d = Disk_new (\<lambda>_. replicate 128 0) 0"
  define h where "h = \<lparr>hdrBytes = 200, hdrSectors = 2, dataSectors = [7, 5] @ replicate 28 0\<rparr>"
  have d: "synch_wf d" by (simp add: synch_wf_def disk_wf_def d_def Disk_new_def disk_defs SectorSize_def)
  have h: "file_wf h" "file_sectors h = [7, 5]"
    by (auto simp: file_wf_def hdr_wf_def h_def int_range_def divRoundUp_def SectorSize_def disk_defs file_sectors_def)
  have "replicate 128 (0 :: byte) @ replicate 72 0 = replicate (128 + 72) 0" by (rule replicate_add [symmetric])
  then have data: "file_data (sectors d) h = replicate 200 0"
    by (simp add: file_data_def file_blocks_def h(2)) (simp add: h_def d_def Disk_new_def)
  have "hdrBytes h = 200" by (simp add: h_def)
  from open_file_refines_bytes [OF d h(1), of 120 100 "replicate 100 1" "\<lambda>_. 9"] show ?thesis
    unfolding data by (intro exI [of _ d] exI [of _ h])
      (auto simp: d h(2) int_range_def FileLength_def \<open>hdrBytes h = 200\<close> overlay_def)
qed

text \<open>
  What is written through an open file is read back from it: \<open>Write\<close> advances the
  position of the file by the number of bytes it has written, and after a \<open>Seek\<close> to where it
  began, \<open>Read\<close> returns exactly these bytes and leaves the position where \<open>Write\<close> left it.
\<close>

theorem open_file_write_read:
  assumes "synch_wf d" "file_wf (hdr f)" "0 \<le> seekPosition f" "seekPosition f \<le> OpenFile_Length f"
    "int_range (seekPosition f + n)" "0 \<le> n" "n \<le> int (length from)"
  shows "\<exists>d' f' r d''. OpenFile_Write junk d f from n = Inr (d', f', r)
    \<and> r = min n (OpenFile_Length f - seekPosition f) \<and> seekPosition f' = seekPosition f + r
    \<and> OpenFile_Read d' (Seek f' (seekPosition f)) r = Inr (d'', f', take (nat r) from)"
proof -
  let ?h = "hdr f" and ?P = "nat (seekPosition f)"
  define r where "r = min n (OpenFile_Length f - seekPosition f)"
  define bs where "bs = take (nat r) from"
  have r: "0 \<le> r" "int (length bs) = r" using assms by (auto simp: r_def bs_def)
  obtain d' where d': "WriteAt junk d ?h from n (seekPosition f) = Inr (d', int (length bs))" "synch_wf d'"
      "file_data (sectors d') ?h = overlay (file_data (sectors d) ?h) ?P bs"
    using WriteAt_ok [OF assms(1,2,3,5,7), of junk] unfolding bs_def r_def OpenFile_Length_def FileLength_def by metis
  have "int_range (seekPosition f + r)" using assms r(1) by (auto simp: int_range_def r_def)
  then obtain d'' where "ReadAt d' ?h r (seekPosition f) = Inr (d'', take (nat r) (drop ?P (file_data (sectors d') ?h)))"
    using ReadAt_ok [OF d'(2) assms(2,3)] by metis
  moreover have "take (nat r) (drop ?P (file_data (sectors d') ?h)) = bs"
  proof -
    have "hdrBytes ?h \<le> int (length (file_blocks (sectors d) ?h))"
      using file_wf_sectors(4) [OF assms(2)] blocks_window(2) [OF synch.len [OF assms(1)], where h = ?h] assms(3,4)
      by (simp add: OpenFile_Length_def FileLength_def)
    then have "?P \<le> length (file_data (sectors d) ?h)"
      using assms(3,4) by (simp add: file_data_def OpenFile_Length_def FileLength_def nat_le_iff)
    moreover have "nat r = length bs" using r by simp
    ultimately show ?thesis unfolding d'(3) by (simp add: overlay_def)
  qed
  ultimately have "ReadAt d' ?h r (seekPosition f) = Inr (d'', take (nat r) from)" by (simp add: bs_def)
  moreover have "int (length (take (nat r) from)) = r" using r(2) by (simp add: bs_def)
  ultimately show ?thesis using d'(1) r(2) unfolding r_def [symmetric]
    by (simp add: OpenFile_Write_def OpenFile_Read_def Seek_def)
qed

text \<open>150 bytes written at position 100 of the same file.\<close>

theorem open_file_write_read_witness:
  "\<exists>d f d' f' d''. OpenFile_Write (\<lambda>_. 9) d f (replicate 150 1) 150 = Inr (d', f', 100) \<and> seekPosition f' = 200
    \<and> OpenFile_Read d' (Seek f' 100) 100 = Inr (d'', f', replicate 100 1)"
proof -
  define d where "d = Disk_new (\<lambda>_. replicate 128 0) 0"
  define f where "f = \<lparr>hdr = \<lparr>hdrBytes = 200, hdrSectors = 2, dataSectors = [7, 5] @ replicate 28 0\<rparr>, seekPosition = 100\<rparr>"
  have d: "synch_wf d" by (simp add: synch_wf_def disk_wf_def d_def Disk_new_def disk_defs SectorSize_def)
  have f: "file_wf (hdr f)"
    by (auto simp: file_wf_def hdr_wf_def f_def int_range_def divRoundUp_def SectorSize_def disk_defs file_sectors_def)
  have "OpenFile_Length f = 200" by (simp add: OpenFile_Length_def FileLength_def f_def)
  moreover have "seekPosition f = 100" by (simp add: f_def)
  ultimately have "\<exists>d' f' d''. OpenFile_Write (\<lambda>_. 9) d f (replicate 150 1) 150 = Inr (d', f', 100)
      \<and> seekPosition f' = 200 \<and> OpenFile_Read d' (Seek f' 100) 100 = Inr (d'', f', replicate 100 1)"
    using open_file_write_read [OF d f, of 150 "replicate 150 1" "\<lambda>_. 9"] by (simp add: int_range_def)
  then show ?thesis by blast
qed

end
