(* ===== verification/Directory.thy ===== *)
theory Directory
  imports OpenFile
begin

text \<open>
  The bitmap of free sectors and the directory, both kept in files
  (\<^verbatim>\<open>code/filesys/pbitmap.cc\<close>, \<^verbatim>\<open>directory.h\<close>, \<^verbatim>\<open>directory.cc\<close>). A directory is abstracted
  to the map from the significant part of a file name, its first nine characters, to the
  sector of the file's header.
\<close>

section \<open>The persistent bitmap\<close>

definition map_of_bytes :: "32 word list \<Rightarrow> byte list \<Rightarrow> 32 word list" where
  "map_of_bytes old bs = words_of (length old) (overlay (words_bytes old) 0 bs)"

definition PersistentBitmap_FetchFrom :: "disk \<Rightarrow> bitmap \<Rightarrow> file_header \<Rightarrow> (disk \<times> bitmap) res" where
  "PersistentBitmap_FetchFrom d b h =
     bindR (ReadAt d h (numWords b * 4) 0) (\<lambda>(d, bs). Inr (d, b\<lparr>bmap := map_of_bytes (bmap b) bs\<rparr>))"

definition PersistentBitmap_new :: "disk \<Rightarrow> file_header \<Rightarrow> int \<Rightarrow> (disk \<times> bitmap) res" where
  "PersistentBitmap_new d h numItems =
     bindR (Bitmap_new numItems) (\<lambda>b.
     bindR (ReadAt d h (numWords b * 4) 0) (\<lambda>(d, bs). Inr (d, b\<lparr>bmap := map_of_bytes (bmap b) bs\<rparr>)))"

definition PersistentBitmap_WriteBack :: "(nat \<Rightarrow> byte) \<Rightarrow> disk \<Rightarrow> bitmap \<Rightarrow> file_header \<Rightarrow> disk res" where
  "PersistentBitmap_WriteBack junk d b h =
     bindR (WriteAt junk d h (words_bytes (bmap b)) (numWords b * 4) 0) (\<lambda>(d, _). Inr d)"

section \<open>Directory entries\<close>

text \<open>
  A name is a C string: its characters up to the terminating zero. \<open>strncmp_eq\<close> is
  \<open>!strncmp(a, b, n)\<close> for an array \<open>a\<close> of at least \<open>n\<close> characters and a string \<open>b\<close>;
  \<open>strncpy_to\<close> is the array after \<open>strncpy(a, b, n)\<close>.
\<close>

definition FileNameMaxLen :: nat where "FileNameMaxLen = 9"

fun strncmp_eq :: "nat \<Rightarrow> byte list \<Rightarrow> byte list \<Rightarrow> bool" where
  "strncmp_eq 0 a b = True"
| "strncmp_eq (Suc n) [] b = (b = [])"
| "strncmp_eq (Suc n) (x # a) [] = (x = 0)"
| "strncmp_eq (Suc n) (x # a) (y # b) = (x = y \<and> strncmp_eq n a b)"

definition strncpy_to :: "byte list \<Rightarrow> byte list \<Rightarrow> nat \<Rightarrow> byte list" where
  "strncpy_to a b n = take n (b @ replicate n 0) @ drop n a"

text \<open>
  An entry occupies 20 bytes: the flag, three bytes of padding, the sector, ten characters of
  name and two bytes of padding.
\<close>

record dir_entry =
  entryInUse :: bool
  entryPad :: "byte list"
  entrySector :: int
  entryName :: "byte list"
  entryEnd :: "byte list"

definition sizeof_DirectoryEntry :: nat where "sizeof_DirectoryEntry = 20"

definition entry_bytes :: "dir_entry \<Rightarrow> byte list" where
  "entry_bytes e = (if entryInUse e then 1 else 0) # entryPad e @ word_bytes (word_of_int (entrySector e))
     @ entryName e @ entryEnd e"

definition entry_of :: "byte list \<Rightarrow> dir_entry" where
  "entry_of bs = \<lparr>entryInUse = (bs ! 0 \<noteq> 0), entryPad = take 3 (drop 1 bs),
     entrySector = sint (bytes_word (take 4 (drop 4 bs))),
     entryName = take (FileNameMaxLen + 1) (drop 8 bs), entryEnd = take 2 (drop 18 bs)\<rparr>"

fun table_of :: "nat \<Rightarrow> byte list \<Rightarrow> dir_entry list" where
  "table_of 0 bs = []"
| "table_of (Suc n) bs = entry_of (take sizeof_DirectoryEntry bs) # table_of n (drop sizeof_DirectoryEntry bs)"

definition table_bytes :: "dir_entry list \<Rightarrow> byte list" where
  "table_bytes t = concat (map entry_bytes t)"

definition entry_wf :: "dir_entry \<Rightarrow> bool" where
  "entry_wf e \<longleftrightarrow> length (entryPad e) = 3 \<and> length (entryName e) = 10 \<and> length (entryEnd e) = 2
     \<and> int_range (entrySector e)"

section \<open>The directory\<close>

record directory =
  tableSize :: int
  dirTable :: "dir_entry list"

text \<open>\<open>junk\<close> is what \<open>new DirectoryEntry[size]\<close> finds in memory.\<close>

definition Directory_new :: "(nat \<Rightarrow> dir_entry) \<Rightarrow> int \<Rightarrow> directory" where
  "Directory_new junk sz =
     \<lparr>tableSize = sz, dirTable = map (\<lambda>i. (junk i)\<lparr>entryInUse := False\<rparr>) [0..<nat sz]\<rparr>"

definition Directory_FetchFrom :: "disk \<Rightarrow> directory \<Rightarrow> file_header \<Rightarrow> (disk \<times> directory) res" where
  "Directory_FetchFrom d dir h =
     bindR (ReadAt d h (tableSize dir * int sizeof_DirectoryEntry) 0) (\<lambda>(d, bs).
     Inr (d, dir\<lparr>dirTable := table_of (length (dirTable dir)) (overlay (table_bytes (dirTable dir)) 0 bs)\<rparr>))"

definition Directory_WriteBack :: "(nat \<Rightarrow> byte) \<Rightarrow> disk \<Rightarrow> directory \<Rightarrow> file_header \<Rightarrow> disk res" where
  "Directory_WriteBack junk d dir h =
     bindR (WriteAt junk d h (table_bytes (dirTable dir)) (tableSize dir * int sizeof_DirectoryEntry) 0)
       (\<lambda>(d, _). Inr d)"

primrec FindIndex_loop :: "dir_entry list \<Rightarrow> byte list \<Rightarrow> int list \<Rightarrow> int res" where
  "FindIndex_loop t name [] = Inr (-1)"
| "FindIndex_loop t name (i # is) =
     bindR (arr_get t i) (\<lambda>e.
     if entryInUse e \<and> strncmp_eq FileNameMaxLen (entryName e) name then Inr i
     else FindIndex_loop t name is)"

definition FindIndex :: "directory \<Rightarrow> byte list \<Rightarrow> int res" where
  "FindIndex dir name = FindIndex_loop (dirTable dir) name (map int [0..<nat (tableSize dir)])"

definition Directory_Find :: "directory \<Rightarrow> byte list \<Rightarrow> int res" where
  "Directory_Find dir name =
     bindR (FindIndex dir name) (\<lambda>i.
     if i \<noteq> -1 then bindR (arr_get (dirTable dir) i) (\<lambda>e. Inr (entrySector e)) else Inr (-1))"

primrec Add_loop :: "directory \<Rightarrow> byte list \<Rightarrow> int \<Rightarrow> int list \<Rightarrow> (directory \<times> bool) res" where
  "Add_loop dir name newSector [] = Inr (dir, False)"
| "Add_loop dir name newSector (i # is) =
     bindR (arr_get (dirTable dir) i) (\<lambda>e.
     if \<not> entryInUse e then
       bindR (arr_set (dirTable dir) i
         (e\<lparr>entryInUse := True, entryName := strncpy_to (entryName e) name FileNameMaxLen,
            entrySector := newSector\<rparr>)) (\<lambda>t. Inr (dir\<lparr>dirTable := t\<rparr>, True))
     else Add_loop dir name newSector is)"

definition Directory_Add :: "directory \<Rightarrow> byte list \<Rightarrow> int \<Rightarrow> (directory \<times> bool) res" where
  "Directory_Add dir name newSector =
     bindR (FindIndex dir name) (\<lambda>i.
     if i \<noteq> -1 then Inr (dir, False)
     else Add_loop dir name newSector (map int [0..<nat (tableSize dir)]))"

definition Directory_Remove :: "directory \<Rightarrow> byte list \<Rightarrow> (directory \<times> bool) res" where
  "Directory_Remove dir name =
     bindR (FindIndex dir name) (\<lambda>i.
     if i = -1 then Inr (dir, False)
     else bindR (arr_get (dirTable dir) i) (\<lambda>e.
          bindR (arr_set (dirTable dir) i (e\<lparr>entryInUse := False\<rparr>)) (\<lambda>t.
          Inr (dir\<lparr>dirTable := t\<rparr>, True))))"

text \<open>
  \<open>printf("%s\n", name)\<close> prints up to the first zero of the array. A name of nine characters
  is followed by the tenth, which \<open>strncpy\<close> has not written: printing goes on until there is
  a zero, beyond the array if need be.
\<close>

definition print_string :: "byte list \<Rightarrow> byte list res" where
  "print_string a = (if 0 \<in> set a then Inr (takeWhile (\<lambda>c. c \<noteq> 0) a) else Inl Undefined)"

primrec List_loop :: "dir_entry list \<Rightarrow> int list \<Rightarrow> byte list list res" where
  "List_loop t [] = Inr []"
| "List_loop t (i # is) =
     bindR (arr_get t i) (\<lambda>e.
     if entryInUse e then bindR (print_string (entryName e)) (\<lambda>l. bindR (List_loop t is) (\<lambda>ls. Inr (l # ls)))
     else List_loop t is)"

definition Directory_List :: "directory \<Rightarrow> byte list list res" where
  "Directory_List dir = List_loop (dirTable dir) (map int [0..<nat (tableSize dir)])"

section \<open>Images\<close>

lemma length_entry_bytes [simp]: "entry_wf e \<Longrightarrow> length (entry_bytes e) = 20"
  by (simp add: entry_bytes_def entry_wf_def)

lemma entry_of_bytes [simp]: "entry_wf e \<Longrightarrow> entry_of (entry_bytes e) = e"
  by (cases e) (simp add: entry_of_def entry_bytes_def entry_wf_def FileNameMaxLen_def)

lemma length_table_of [simp]: "length (table_of n bs) = n"
  by (induction n arbitrary: bs) auto

lemma length_table_bytes: "\<forall>e\<in>set t. entry_wf e \<Longrightarrow> length (table_bytes t) = 20 * length t"
  by (induction t) (auto simp: table_bytes_def)

lemma table_of_bytes: "\<forall>e\<in>set t. entry_wf e \<Longrightarrow> table_of (length t) (table_bytes t) = t"
  by (induction t) (auto simp: table_bytes_def sizeof_DirectoryEntry_def)

lemma entry_wf_of: "20 \<le> length bs \<Longrightarrow> entry_wf (entry_of bs)"
  by (simp add: entry_wf_def entry_of_def FileNameMaxLen_def)

lemma table_of_wf: "n * 20 \<le> length bs \<Longrightarrow> e \<in> set (table_of n bs) \<Longrightarrow> entry_wf e"
proof (induction n arbitrary: bs)
  case (Suc n)
  then show ?case using Suc.IH [of "drop 20 bs"] by (auto simp: sizeof_DirectoryEntry_def intro: entry_wf_of)
qed simp

section \<open>Names\<close>

text \<open>\<open>key\<close> is the part of a name that counts; \<open>stored_name\<close> is what an entry holds of it.\<close>

definition key :: "byte list \<Rightarrow> byte list" where
  "key name = take FileNameMaxLen name"

definition stored_name :: "dir_entry \<Rightarrow> byte list" where
  "stored_name e = takeWhile (\<lambda>c. c \<noteq> 0) (take FileNameMaxLen (entryName e))"

lemma strncmp_takeWhile:
  "0 \<notin> set b \<Longrightarrow> n \<le> length a \<Longrightarrow> strncmp_eq n a b = (takeWhile (\<lambda>c. c \<noteq> 0) (take n a) = take n b)"
  by (induction n a b rule: strncmp_eq.induct) auto

lemma strncmp_stored:
  "0 \<notin> set name \<Longrightarrow> entry_wf e \<Longrightarrow> strncmp_eq FileNameMaxLen (entryName e) name = (stored_name e = key name)"
  by (simp add: strncmp_takeWhile stored_name_def key_def entry_wf_def FileNameMaxLen_def)

lemma takeWhile_padded: "0 \<notin> set b \<Longrightarrow> takeWhile (\<lambda>c. c \<noteq> (0 :: byte)) (b @ replicate m 0) = b"
  by (subst takeWhile_append2) (auto simp: takeWhile_replicate)

lemma stored_new:
  assumes "0 \<notin> set name" "entry_wf e" "int_range s"
  shows "stored_name (e\<lparr>entryInUse := True, entryName := strncpy_to (entryName e) name FileNameMaxLen, entrySector := s\<rparr>) = key name"
    "entry_wf (e\<lparr>entryInUse := True, entryName := strncpy_to (entryName e) name FileNameMaxLen, entrySector := s\<rparr>)"
  using assms takeWhile_padded [of "take 9 name"] in_set_takeD [of 0 9 name]
  by (auto simp: stored_name_def key_def strncpy_to_def entry_wf_def FileNameMaxLen_def)

section \<open>The directory as a map\<close>

definition dir_map :: "directory \<Rightarrow> byte list \<Rightarrow> int option" where
  "dir_map dir = map_of (map (\<lambda>e. (stored_name e, entrySector e)) (filter entryInUse (dirTable dir)))"

definition dir_full :: "directory \<Rightarrow> bool" where
  "dir_full dir = (\<forall>e\<in>set (dirTable dir). entryInUse e)"

definition dir_wf :: "directory \<Rightarrow> bool" where
  "dir_wf dir \<longleftrightarrow> tableSize dir = int (length (dirTable dir)) \<and> (\<forall>e\<in>set (dirTable dir). entry_wf e)
     \<and> distinct (map stored_name (filter entryInUse (dirTable dir)))
     \<and> (\<forall>e\<in>set (dirTable dir). entryInUse e \<longrightarrow> 0 \<le> entrySector e)"

lemma FindIndex_loop_none:
  "\<forall>i\<in>set is. 0 \<le> i \<and> i < int (length t) \<and> \<not> (entryInUse (t ! nat i) \<and> strncmp_eq FileNameMaxLen (entryName (t ! nat i)) name)
    \<Longrightarrow> FindIndex_loop t name is = Inr (-1)"
  by (induction "is") auto

lemma FindIndex_loop_some:
  "\<forall>i\<in>set is. 0 \<le> i \<and> i < int (length t) \<and> \<not> (entryInUse (t ! nat i) \<and> strncmp_eq FileNameMaxLen (entryName (t ! nat i)) name)
    \<Longrightarrow> k < length t \<Longrightarrow> entryInUse (t ! k) \<Longrightarrow> strncmp_eq FileNameMaxLen (entryName (t ! k)) name
    \<Longrightarrow> FindIndex_loop t name (is @ int k # js) = Inr (int k)"
  by (induction "is") auto

lemma FindIndex_none:
  assumes "dir_wf dir" "0 \<notin> set name" "dir_map dir (key name) = None"
  shows "FindIndex dir name = Inr (-1)"
  unfolding FindIndex_def
proof (rule FindIndex_loop_none, intro ballI)
  fix i assume "i \<in> set (map int [0..<nat (tableSize dir)])"
  then obtain k where k: "i = int k" "k < length (dirTable dir)" using assms(1) by (auto simp: dir_wf_def)
  then have "dirTable dir ! k \<in> set (dirTable dir)" by simp
  then have "\<not> (entryInUse (dirTable dir ! k) \<and> stored_name (dirTable dir ! k) = key name)"
    using assms(3) by (auto simp: dir_map_def map_of_eq_None_iff image_iff)
  then show "0 \<le> i \<and> i < int (length (dirTable dir))
      \<and> \<not> (entryInUse (dirTable dir ! nat i) \<and> strncmp_eq FileNameMaxLen (entryName (dirTable dir ! nat i)) name)"
    using k assms strncmp_stored [OF assms(2)] by (auto simp: dir_wf_def)
qed

lemma FindIndex_some:
  assumes "dir_wf dir" "0 \<notin> set name" "dir_map dir (key name) = Some s"
  obtains A e B where "dirTable dir = A @ e # B" "FindIndex dir name = Inr (int (length A))"
    "entryInUse e" "stored_name e = key name" "entrySector e = s"
    "\<forall>x\<in>set A \<union> set B. entryInUse x \<longrightarrow> stored_name x \<noteq> key name"
proof -
  from assms(3) obtain e where "e \<in> set (dirTable dir)" and e: "entryInUse e" "stored_name e = key name" "entrySector e = s"
    by (auto simp: dir_map_def dest!: map_of_SomeD)
  then obtain A B where t: "dirTable dir = A @ e # B" by (auto dest: split_list)
  have other: "\<forall>x\<in>set A \<union> set B. entryInUse x \<longrightarrow> stored_name x \<noteq> key name"
    using assms(1) e unfolding dir_wf_def t by (auto simp: image_iff)
  have wf: "\<forall>x\<in>set (dirTable dir). entry_wf x" "nat (tableSize dir) = length A + Suc (length B)"
    using assms(1) t by (auto simp: dir_wf_def)
  have split: "map int [0..<nat (tableSize dir)] = map int [0..<length A] @ int (length A) # map int [Suc (length A)..<length A + Suc (length B)]"
    using upt_split [of "length A" "length A + Suc (length B)"] by (simp only: wf(2) map_append list.map)
  have "FindIndex dir name = Inr (int (length A))" unfolding FindIndex_def split t
  proof (rule FindIndex_loop_some)
    show "\<forall>i\<in>set (map int [0..<length A]). 0 \<le> i \<and> i < int (length (A @ e # B)) \<and>
       \<not> (entryInUse ((A @ e # B) ! nat i) \<and> strncmp_eq FileNameMaxLen (entryName ((A @ e # B) ! nat i)) name)"
      using other wf(1) strncmp_stored [OF assms(2)] by (auto simp: nth_append t)
  qed (use e wf(1) strncmp_stored [OF assms(2)] t in auto)
  then show ?thesis using that t e other by blast
qed

lemma dir_map_cong:
  "dirTable dir = A @ e # B \<Longrightarrow>
   dir_map dir = map_of (map (\<lambda>e. (stored_name e, entrySector e)) (filter entryInUse (A @ e # B)))"
  by (simp add: dir_map_def)

lemma dir_map_not_in:
  "\<forall>x\<in>set A. entryInUse x \<longrightarrow> stored_name x \<noteq> k \<Longrightarrow>
   map_of (map (\<lambda>e. (stored_name e, entrySector e)) (filter entryInUse A)) k = None"
  by (auto simp: map_of_eq_None_iff)

text \<open>Replacing one entry of the table.\<close>

lemma dir_map_insert:
  assumes "dirTable dir = A @ e # B" "\<not> entryInUse e" "entryInUse e'" "dir_map dir (stored_name e') = None"
  shows "dir_map (dir\<lparr>dirTable := A @ e' # B\<rparr>) = (dir_map dir)(stored_name e' \<mapsto> entrySector e')"
  using assms by (auto simp: dir_map_def fun_eq_iff map_add_def split: option.splits)

lemma dir_map_delete:
  assumes "dirTable dir = A @ e # B" "entryInUse e" "\<not> entryInUse e'"
    "\<forall>x\<in>set A \<union> set B. entryInUse x \<longrightarrow> stored_name x \<noteq> stored_name e"
  shows "dir_map (dir\<lparr>dirTable := A @ e' # B\<rparr>) = (dir_map dir)(stored_name e := None)"
  using assms dir_map_not_in [of A "stored_name e"] dir_map_not_in [of B "stored_name e"]
  by (auto simp: dir_map_def fun_eq_iff map_add_def split: option.splits)

lemma Directory_Find_ok:
  assumes "dir_wf dir" "0 \<notin> set name"
  shows "Directory_Find dir name = Inr (case dir_map dir (key name) of None \<Rightarrow> -1 | Some s \<Rightarrow> s)"
proof (cases "dir_map dir (key name)")
  case None
  then show ?thesis using FindIndex_none [OF assms] by (simp add: Directory_Find_def)
next
  case (Some s)
  obtain A e B where "dirTable dir = A @ e # B" "FindIndex dir name = Inr (int (length A))" "entrySector e = s"
    using FindIndex_some [OF assms Some] by metis
  then show ?thesis using Some by (simp add: Directory_Find_def)
qed

lemma dir_map_nonneg: "dir_wf dir \<Longrightarrow> dir_map dir k = Some s \<Longrightarrow> 0 \<le> s"
  by (auto simp: dir_map_def dir_wf_def dest!: map_of_SomeD)

text \<open>\<open>Add\<close> takes the first entry that is not in use.\<close>

lemma Add_loop_full:
  "\<forall>i\<in>set is. 0 \<le> i \<and> i < int (length (dirTable dir)) \<Longrightarrow> dir_full dir \<Longrightarrow> Add_loop dir name s is = Inr (dir, False)"
  by (induction "is") (auto simp: dir_full_def)

lemma Add_loop_free:
  assumes "dirTable dir = A @ e # B" "\<forall>x\<in>set A. entryInUse x" "\<not> entryInUse e"
  shows "Add_loop dir name s (map int [k..<length A] @ int (length A) # is) =
    Inr (dir\<lparr>dirTable := A @ e\<lparr>entryInUse := True, entryName := strncpy_to (entryName e) name FileNameMaxLen,
       entrySector := s\<rparr> # B\<rparr>, True)"
proof (induction "length A - k" arbitrary: k)
  case 0
  then show ?case using assms by simp
next
  case (Suc n)
  then have "map int [k..<length A] = int k # map int [Suc k..<length A]" by (simp add: upt_conv_Cons)
  moreover have "entryInUse (dirTable dir ! k)" using assms Suc by (simp add: nth_append)
  ultimately show ?case using Suc.hyps(1) [of "Suc k"] Suc.hyps(2) assms(1) by simp
qed

lemma Directory_Add_found:
  assumes "dir_wf dir" "0 \<notin> set name" "dir_map dir (key name) \<noteq> None"
  shows "Directory_Add dir name s = Inr (dir, False)"
proof -
  from assms(3) obtain s' where "dir_map dir (key name) = Some s'" by blast
  then obtain A :: "dir_entry list" where "FindIndex dir name = Inr (int (length A))"
    using FindIndex_some [OF assms(1,2)] by metis
  then show ?thesis by (simp add: Directory_Add_def)
qed

lemma Directory_Add_full:
  assumes "dir_wf dir" "0 \<notin> set name" "dir_full dir"
  shows "Directory_Add dir name s = Inr (dir, False)"
proof (cases "dir_map dir (key name)")
  case None
  then show ?thesis using FindIndex_none [OF assms(1,2)] Add_loop_full [OF _ assms(3)] assms(1)
    by (simp add: Directory_Add_def dir_wf_def)
qed (use Directory_Add_found [OF assms(1,2)] in simp)

lemma Directory_Add_ok:
  assumes wf: "dir_wf dir" and name: "0 \<notin> set name" and new: "dir_map dir (key name) = None"
    and free: "\<not> dir_full dir" and s: "0 \<le> s" "int_range s"
  obtains dir' where "Directory_Add dir name s = Inr (dir', True)" "dir_wf dir'"
    "tableSize dir' = tableSize dir" "dir_map dir' = (dir_map dir)(key name \<mapsto> s)"
    "\<exists>A e e' B. dirTable dir = A @ e # B \<and> \<not> entryInUse e \<and> dirTable dir' = A @ e' # B \<and> entryInUse e' \<and> entrySector e' = s"
proof -
  from free obtain A e B where t: "dirTable dir = A @ e # B" and e: "\<not> entryInUse e" and A: "\<forall>x\<in>set A. entryInUse x"
    using split_list_first_prop [of "dirTable dir" "\<lambda>e. \<not> entryInUse e"] by (auto simp: dir_full_def)
  let ?e = "e\<lparr>entryInUse := True, entryName := strncpy_to (entryName e) name FileNameMaxLen, entrySector := s\<rparr>"
  let ?dir = "dir\<lparr>dirTable := A @ ?e # B\<rparr>"
  have "entry_wf e" using wf t by (simp add: dir_wf_def)
  note e' = stored_new [OF name this s(2)]
  have n: "nat (tableSize dir) = length A + Suc (length B)" using wf t by (simp add: dir_wf_def)
  have "Directory_Add dir name s = Inr (?dir, True)"
    using FindIndex_none [OF wf name new] Add_loop_free [OF t A e, of name s 0] upt_split [of "length A" "length A + Suc (length B)"]
    by (simp only: Directory_Add_def bindR_simps n map_append list.map) simp
  moreover have "dir_wf ?dir"
    using wf t e s e' new by (auto simp: dir_wf_def dir_map_def map_of_eq_None_iff image_iff)
  moreover have "dir_map ?dir = (dir_map dir)(key name \<mapsto> s)"
    using dir_map_insert [OF t e, of ?e] e'(1) new by simp
  ultimately show ?thesis using that [of ?dir] t e by force
qed

lemma Directory_Remove_none:
  assumes "dir_wf dir" "0 \<notin> set name" "dir_map dir (key name) = None"
  shows "Directory_Remove dir name = Inr (dir, False)"
  using FindIndex_none [OF assms] by (simp add: Directory_Remove_def)

lemma Directory_Remove_ok:
  assumes wf: "dir_wf dir" and name: "0 \<notin> set name" and s: "dir_map dir (key name) = Some s"
  obtains dir' where "Directory_Remove dir name = Inr (dir', True)" "dir_wf dir'"
    "tableSize dir' = tableSize dir" "dir_map dir' = (dir_map dir)(key name := None)" "\<not> dir_full dir'"
    "\<exists>A e e' B. dirTable dir = A @ e # B \<and> entryInUse e \<and> stored_name e = key name \<and> entrySector e = s
      \<and> dirTable dir' = A @ e' # B \<and> \<not> entryInUse e'"
proof -
  obtain A e B where t: "dirTable dir = A @ e # B" "FindIndex dir name = Inr (int (length A))"
    and e: "entryInUse e" "stored_name e = key name" "entrySector e = s"
      "\<forall>x\<in>set A \<union> set B. entryInUse x \<longrightarrow> stored_name x \<noteq> key name"
    using FindIndex_some [OF assms] by metis
  let ?e = "e\<lparr>entryInUse := False\<rparr>"
  let ?dir = "dir\<lparr>dirTable := A @ ?e # B\<rparr>"
  have "Directory_Remove dir name = Inr (?dir, True)"
    using t by (simp add: Directory_Remove_def list_update_append)
  moreover have "dir_wf ?dir" using wf t(1) e by (auto simp: dir_wf_def entry_wf_def)
  moreover have "dir_map ?dir = (dir_map dir)(key name := None)"
    using dir_map_delete [OF t(1) e(1), of ?e] e(2,4) by simp
  moreover have "\<not> dir_full ?dir" by (simp add: dir_full_def)
  ultimately show ?thesis using that [of ?dir] t(1) e by force
qed

section \<open>The interface of a table of names\<close>

text \<open>
  What the file system needs of its directory: a map from the significant parts of names to
  sector numbers, of limited capacity.
\<close>

locale name_table =
  fixes find :: "'t \<Rightarrow> 'n \<Rightarrow> int res"
    and add :: "'t \<Rightarrow> 'n \<Rightarrow> int \<Rightarrow> ('t \<times> bool) res"
    and remove :: "'t \<Rightarrow> 'n \<Rightarrow> ('t \<times> bool) res"
    and amap :: "'t \<Rightarrow> 'k \<Rightarrow> int option"
    and keyof :: "'n \<Rightarrow> 'k"
    and okname :: "'n \<Rightarrow> bool"
    and full :: "'t \<Rightarrow> bool"
    and inv :: "'t \<Rightarrow> bool"
  assumes find_eq: "inv t \<Longrightarrow> okname n \<Longrightarrow> find t n = Inr (case amap t (keyof n) of None \<Rightarrow> -1 | Some s \<Rightarrow> s)"
    and nonneg: "inv t \<Longrightarrow> amap t k = Some s \<Longrightarrow> 0 \<le> s"
    and add_refused: "inv t \<Longrightarrow> okname n \<Longrightarrow> amap t (keyof n) \<noteq> None \<or> full t \<Longrightarrow> add t n s = Inr (t, False)"
    and add_done: "inv t \<Longrightarrow> okname n \<Longrightarrow> amap t (keyof n) = None \<Longrightarrow> \<not> full t \<Longrightarrow> 0 \<le> s \<Longrightarrow> int_range s \<Longrightarrow>
      \<exists>t'. add t n s = Inr (t', True) \<and> inv t' \<and> amap t' = (amap t)(keyof n \<mapsto> s)"
    and remove_refused: "inv t \<Longrightarrow> okname n \<Longrightarrow> amap t (keyof n) = None \<Longrightarrow> remove t n = Inr (t, False)"
    and remove_done: "inv t \<Longrightarrow> okname n \<Longrightarrow> amap t (keyof n) = Some s \<Longrightarrow>
      \<exists>t'. remove t n = Inr (t', True) \<and> inv t' \<and> amap t' = (amap t)(keyof n := None) \<and> \<not> full t'"
begin

lemma find_minus_one: "inv t \<Longrightarrow> okname n \<Longrightarrow> find t n = Inr (-1) \<longleftrightarrow> amap t (keyof n) = None"
  using nonneg by (force simp: find_eq split: option.splits)

lemma add_was_new: "inv t \<Longrightarrow> okname n \<Longrightarrow> add t n s = Inr (t', True) \<Longrightarrow> amap t (keyof n) = None \<and> \<not> full t"
  using add_refused [of t n s] by (cases "amap t (keyof n) \<noteq> None \<or> full t") auto

lemma find_after_add:
  assumes "inv t" "okname n" "okname n'" "0 \<le> s" "int_range s" "add t n s = Inr (t', True)"
  shows "find t' n' = (if keyof n' = keyof n then Inr s else find t n')"
proof -
  have "amap t (keyof n) = None \<and> \<not> full t" using add_was_new [OF assms(1,2,6)] .
  then show ?thesis using add_done [OF assms(1,2) _ _ assms(4,5)] assms find_eq by auto
qed

lemma find_after_remove:
  assumes "inv t" "okname n" "okname n'" "remove t n = Inr (t', True)"
  shows "find t' n' = (if keyof n' = keyof n then Inr (-1) else find t n')"
proof -
  obtain s where "amap t (keyof n) = Some s" using remove_refused [OF assms(1,2)] assms(4) by fastforce
  then show ?thesis using remove_done [OF assms(1,2)] assms find_eq by auto
qed

text \<open>A name that was removed can be added again, and the table is as if it had never been there.\<close>

lemma remove_undoes_add:
  assumes "inv t" "okname n" "0 \<le> s" "int_range s" "add t n s = Inr (t', True)"
  shows "\<exists>t''. remove t' n = Inr (t'', True) \<and> amap t'' = amap t \<and> \<not> full t''"
proof -
  have new: "amap t (keyof n) = None" "\<not> full t" using add_was_new [OF assms(1,2,5)] by simp_all
  then have "inv t'" "amap t' = (amap t)(keyof n \<mapsto> s)"
    using add_done [OF assms(1,2) _ _ assms(3,4)] assms(5) by auto
  with remove_done [of t' n s] assms(2) new(1) show ?thesis by (auto simp: fun_upd_idem)
qed

end

interpretation dir: name_table Directory_Find Directory_Add Directory_Remove dir_map key
  "\<lambda>name. 0 \<notin> set name" dir_full dir_wf
proof unfold_locales
  fix t n s assume "dir_wf t" "0 \<notin> set n" "dir_map t (key n) \<noteq> None \<or> dir_full t"
  then show "Directory_Add t n s = Inr (t, False)" using Directory_Add_found Directory_Add_full by blast
next
  fix t n and s :: int
  assume "dir_wf t" "0 \<notin> set n" "dir_map t (key n) = None" "\<not> dir_full t" "0 \<le> s" "int_range s"
  then show "\<exists>t'. Directory_Add t n s = Inr (t', True) \<and> dir_wf t' \<and> dir_map t' = (dir_map t)(key n \<mapsto> s)"
    by (metis Directory_Add_ok)
next
  fix t n s assume "dir_wf t" "0 \<notin> set n" "dir_map t (key n) = Some s"
  then show "\<exists>t'. Directory_Remove t n = Inr (t', True) \<and> dir_wf t' \<and> dir_map t' = (dir_map t)(key n := None) \<and> \<not> dir_full t'"
    by (metis Directory_Remove_ok)
qed (simp_all add: Directory_Find_ok dir_map_nonneg Directory_Remove_none)

section \<open>Bitmap and directory on disk\<close>

definition disk_map :: "(nat \<Rightarrow> byte list) \<Rightarrow> file_header \<Rightarrow> bitmap" where
  "disk_map c h = \<lparr>numBits = NumSectors, numWords = 32, bmap = words_of 32 (file_data c h)\<rparr>"

definition disk_dir :: "(nat \<Rightarrow> byte list) \<Rightarrow> file_header \<Rightarrow> directory" where
  "disk_dir c h = \<lparr>tableSize = 10, dirTable = table_of 10 (file_data c h)\<rparr>"

lemma length_file_data:
  assumes "file_wf h" "\<And>s. length (c s) = SectorSize" "0 \<le> hdrBytes h"
  shows "length (file_data c h) = nat (hdrBytes h)"
  using file_wf_sectors(4) [OF assms(1,3)] assms(2)
  by (simp add: file_data_def blocks_window(2) min_absorb2 nat_le_iff)

lemma bitmap_wf_disk_map: "bitmap_wf (disk_map c h)"
  by (simp add: bitmap_wf_def disk_map_def disk_defs divRoundUp_def)

lemma disk_bitmap_eq:
  assumes "bitmap_wf b" "numBits b = NumSectors"
  shows "numWords b = 32" "length (bmap b) = 32" "b = \<lparr>numBits = NumSectors, numWords = 32, bmap = bmap b\<rparr>"
  using assms by (auto simp: bitmap_wf_def disk_defs divRoundUp_def)

lemma PersistentBitmap_new_ok:
  assumes "synch_wf d" "file_wf h" "hdrBytes h = 128"
  obtains d' where "PersistentBitmap_new d h NumSectors = Inr (d', disk_map (sectors d) h)" "synch_wf d'" "sectors d' = sectors d"
proof -
  obtain b where b: "Bitmap_new NumSectors = Inr b" "bitmap_wf b" "numBits b = NumSectors"
    using Bitmap_new_ok [of NumSectors] by (auto simp: disk_defs)
  note eq = disk_bitmap_eq [OF b(2,3)]
  have data: "length (file_data (sectors d) h) = 128"
    using length_file_data [OF assms(2) synch.len [OF assms(1)]] assms(3) by simp
  obtain d' where "ReadAt d h (32 * 4) 0 = Inr (d', file_data (sectors d) h)" "synch_wf d'" "sectors d' = sectors d"
    using ReadAt_ok [OF assms(1,2), of 0 128] data by (auto simp: int_range_def)
  moreover have "map_of_bytes (bmap b) (file_data (sectors d) h) = words_of 32 (file_data (sectors d) h)"
    using data by (simp add: map_of_bytes_def eq(2))
  moreover have "b\<lparr>bmap := w\<rparr> = \<lparr>numBits = NumSectors, numWords = 32, bmap = w\<rparr>" for w by (subst eq(3)) simp
  ultimately show ?thesis using that [of d'] b eq by (simp add: PersistentBitmap_new_def disk_map_def)
qed

lemma WriteAt_whole:
  assumes "synch_wf d" "file_wf h" "hdrBytes h = int (length bs)"
  obtains d' where "WriteAt junk d h bs (int (length bs)) 0 = Inr (d', int (length bs))" "synch_wf d'"
    "\<forall>s. s \<notin> set (file_sectors h) \<longrightarrow> sectors d' s = sectors d s" "file_data (sectors d') h = bs"
proof -
  have "int_range (0 + int (length bs))" using assms(2,3) by (simp add: file_wf_def hdr_wf_def)
  moreover have "length (file_data (sectors d) h) = length bs"
    using length_file_data [OF assms(2) synch.len [OF assms(1)]] assms(3) by simp
  ultimately show ?thesis
    using WriteAt_ok [OF assms(1,2), of 0 "int (length bs)" bs junk] assms(3) that by auto
qed

lemma PersistentBitmap_WriteBack_ok:
  assumes "synch_wf d" "file_wf h" "hdrBytes h = 128" "bitmap_wf b" "numBits b = NumSectors"
  obtains d' where "PersistentBitmap_WriteBack junk d b h = Inr d'" "synch_wf d'"
    "\<forall>s. s \<notin> set (file_sectors h) \<longrightarrow> sectors d' s = sectors d s" "disk_map (sectors d') h = b"
proof -
  note eq = disk_bitmap_eq [OF assms(4,5)]
  have "hdrBytes h = int (length (words_bytes (bmap b)))" using assms(3) eq by simp
  then obtain d' where "WriteAt junk d h (words_bytes (bmap b)) 128 0 = Inr (d', 128)" "synch_wf d'"
    "\<forall>s. s \<notin> set (file_sectors h) \<longrightarrow> sectors d' s = sectors d s" "file_data (sectors d') h = words_bytes (bmap b)"
    using WriteAt_whole [OF assms(1,2), of "words_bytes (bmap b)" junk] eq by auto
  moreover have "words_of 32 (words_bytes (bmap b)) = bmap b" using eq(2) by simp
  ultimately show ?thesis using that [of d'] eq(1) eq(3) [symmetric]
    by (simp add: PersistentBitmap_WriteBack_def disk_map_def)
qed

lemma Directory_FetchFrom_ok:
  assumes "synch_wf d" "file_wf h" "hdrBytes h = 200" "tableSize dir = 10" "length (dirTable dir) = 10"
    "\<forall>e\<in>set (dirTable dir). entry_wf e"
  obtains d' where "Directory_FetchFrom d dir h = Inr (d', disk_dir (sectors d) h)" "synch_wf d'" "sectors d' = sectors d"
proof -
  have data: "length (file_data (sectors d) h) = 200"
    using length_file_data [OF assms(2) synch.len [OF assms(1)]] assms(3) by simp
  then obtain d' where "ReadAt d h 200 0 = Inr (d', file_data (sectors d) h)" "synch_wf d'" "sectors d' = sectors d"
    using ReadAt_ok [OF assms(1,2), of 0 200] by (auto simp: int_range_def)
  moreover have "overlay (table_bytes (dirTable dir)) 0 (file_data (sectors d) h) = file_data (sectors d) h"
    using length_table_bytes [OF assms(6)] assms(5) data by simp
  ultimately show ?thesis using that [of d'] assms(4,5)
    by (simp add: Directory_FetchFrom_def sizeof_DirectoryEntry_def disk_dir_def)
qed

lemma Directory_WriteBack_ok:
  assumes "synch_wf d" "file_wf h" "hdrBytes h = 200" "tableSize dir = 10" "length (dirTable dir) = 10"
    "\<forall>e\<in>set (dirTable dir). entry_wf e"
  obtains d' where "Directory_WriteBack junk d dir h = Inr d'" "synch_wf d'"
    "\<forall>s. s \<notin> set (file_sectors h) \<longrightarrow> sectors d' s = sectors d s" "disk_dir (sectors d') h = dir"
proof -
  have len: "length (table_bytes (dirTable dir)) = 200" using length_table_bytes [OF assms(6)] assms(5) by simp
  then obtain d' where "WriteAt junk d h (table_bytes (dirTable dir)) 200 0 = Inr (d', 200)" "synch_wf d'"
    "\<forall>s. s \<notin> set (file_sectors h) \<longrightarrow> sectors d' s = sectors d s" "file_data (sectors d') h = table_bytes (dirTable dir)"
    using WriteAt_whole [OF assms(1,2), of "table_bytes (dirTable dir)" junk] assms(3) by auto
  moreover have "table_of 10 (table_bytes (dirTable dir)) = dirTable dir" using table_of_bytes [OF assms(6)] assms(5) by simp
  ultimately show ?thesis using that [of d'] assms(4)
    by (simp add: Directory_WriteBack_def sizeof_DirectoryEntry_def disk_dir_def)
qed

section \<open>Properties\<close>

text \<open>
  C16. A directory is a map from the first nine characters of names to sectors. \<open>Find\<close> looks the
  name up and returns -1 if it is not there; \<open>Add\<close> refuses a name that is there or that finds no
  free entry, and otherwise extends the map by it; \<open>Remove\<close> deletes the name if it is there and
  makes room for another. The names in use stay distinct.
\<close>

theorem Directory_refines_map:
  assumes "dir_wf dir" "0 \<notin> set name" "0 \<le> s" "int_range s"
  shows "Directory_Find dir name = Inr (case dir_map dir (key name) of None \<Rightarrow> -1 | Some s \<Rightarrow> s)
    \<and> (if dir_map dir (key name) \<noteq> None \<or> dir_full dir then Directory_Add dir name s = Inr (dir, False)
       else \<exists>dir'. Directory_Add dir name s = Inr (dir', True) \<and> dir_wf dir' \<and> dir_map dir' = (dir_map dir)(key name \<mapsto> s))
    \<and> (if dir_map dir (key name) = None then Directory_Remove dir name = Inr (dir, False)
       else \<exists>dir'. Directory_Remove dir name = Inr (dir', True) \<and> dir_wf dir'
         \<and> dir_map dir' = (dir_map dir)(key name := None) \<and> \<not> dir_full dir')"
  using dir.find_eq [OF assms(1,2)] dir.add_refused [OF assms(1,2)] dir.add_done [OF assms(1,2) _ _ assms(3,4)]
    dir.remove_refused [OF assms(1,2)] dir.remove_done [OF assms(1,2)] by auto

text \<open>C16, adding two names that differ after the ninth character to an empty directory.\<close>

theorem Directory_refines_map_witness:
  "\<exists>junk dir. Directory_Add (Directory_new junk 10) (replicate 9 65) 7 = Inr (dir, True)
    \<and> Directory_Find dir (replicate 12 65) = Inr 7 \<and> Directory_Add dir (replicate 12 65) 8 = Inr (dir, False)"
proof -
  define e where "e = \<lparr>entryInUse = True, entryPad = replicate 3 0, entrySector = 5, entryName = replicate 10 1,
    entryEnd = replicate 2 0\<rparr>"
  define dir0 where "dir0 = Directory_new (\<lambda>_. e) 10"
  have "entry_wf (e\<lparr>entryInUse := False\<rparr>)" by (simp add: e_def entry_wf_def int_range_def)
  then have wf: "dir_wf dir0" "dir_map dir0 = Map.empty" "\<not> dir_full dir0"
    by (auto simp: dir0_def Directory_new_def dir_wf_def dir_map_def dir_full_def intro: exI [of _ 0])
  have n: "(0 :: byte) \<notin> set (replicate 9 65)" "(0 :: byte) \<notin> set (replicate 12 65)"
    "key (replicate 12 65) = key (replicate 9 (65 :: byte))"
    by (simp_all add: key_def FileNameMaxLen_def)
  obtain dir where dir: "Directory_Add dir0 (replicate 9 65) 7 = Inr (dir, True)" "dir_wf dir"
      "dir_map dir = [key (replicate 9 65) \<mapsto> 7]"
    using Directory_refines_map [OF wf(1) n(1), of 7] wf by (auto simp: int_range_def)
  then show ?thesis using Directory_refines_map [OF dir(2) n(2), of 8] n(3) dir0_def by (auto simp: int_range_def)
qed

end
