(* ===== verification/FileSys.thy ===== *)
theory FileSys
  imports Directory "HOL-Library.Multiset"
begin

text \<open>
  The file system (\<^verbatim>\<open>code/filesys/filesys.h\<close>, \<^verbatim>\<open>filesys.cc\<close>): formatting, creation, opening
  and removal of files. The invariant says that the sectors in use are exactly those of the
  bitmap file, the directory file and the files of the directory, each of them used once; a
  file system in a consistent state is abstracted to a map from names to contents.
\<close>

section \<open>Operations\<close>

definition FreeMapSector :: int where "FreeMapSector = 0"
definition DirectorySector :: int where "DirectorySector = 1"
definition FreeMapFileSize :: int where "FreeMapFileSize = NumSectors sdiv BitsInByte"
definition NumDirEntries :: int where "NumDirEntries = 10"
definition DirectoryFileSize :: int where "DirectoryFileSize = int sizeof_DirectoryEntry * NumDirEntries"

record file_system =
  freeMapFile :: open_file
  directoryFile :: open_file

text \<open>What the allocator of C++ hands out: buffers, directory tables and headers with arbitrary contents.\<close>

record uninit =
  freshBuf :: "nat \<Rightarrow> byte"
  freshEntry :: "nat \<Rightarrow> dir_entry"
  freshHdr :: "nat \<Rightarrow> file_header"

definition uninit_wf :: "uninit \<Rightarrow> bool" where
  "uninit_wf u \<longleftrightarrow> (\<forall>i. entry_wf (freshEntry u i)) \<and> (\<forall>i. hdr_wf (freshHdr u i))"

definition FileSystem_format :: "uninit \<Rightarrow> disk \<Rightarrow> (disk \<times> file_system) res" where
  "FileSystem_format u d =
     bindR (Bitmap_new NumSectors) (\<lambda>freeMap.
     let directory = Directory_new (freshEntry u) NumDirEntries in
     bindR (Bitmap_Mark freeMap FreeMapSector) (\<lambda>freeMap.
     bindR (Bitmap_Mark freeMap DirectorySector) (\<lambda>freeMap.
     bindR (FileHeader_Allocate (freshHdr u 0) freeMap FreeMapFileSize) (\<lambda>(ok, mapHdr, freeMap). ASSERT ok (
     bindR (FileHeader_Allocate (freshHdr u 1) freeMap DirectoryFileSize) (\<lambda>(ok, dirHdr, freeMap). ASSERT ok (
     bindR (FileHeader_WriteBack d mapHdr FreeMapSector) (\<lambda>d.
     bindR (FileHeader_WriteBack d dirHdr DirectorySector) (\<lambda>d.
     bindR (OpenFile_new d FreeMapSector) (\<lambda>(d, freeMapFile).
     bindR (OpenFile_new d DirectorySector) (\<lambda>(d, directoryFile).
     bindR (PersistentBitmap_WriteBack (freshBuf u) d freeMap (hdr freeMapFile)) (\<lambda>d.
     bindR (Directory_WriteBack (freshBuf u) d directory (hdr directoryFile)) (\<lambda>d.
     Inr (d, \<lparr>freeMapFile = freeMapFile, directoryFile = directoryFile\<rparr>))))))))))))))"

definition FileSystem_new :: "uninit \<Rightarrow> disk \<Rightarrow> bool \<Rightarrow> (disk \<times> file_system) res" where
  "FileSystem_new u d format =
     (if format then FileSystem_format u d
      else bindR (OpenFile_new d FreeMapSector) (\<lambda>(d, freeMapFile).
           bindR (OpenFile_new d DirectorySector) (\<lambda>(d, directoryFile).
           Inr (d, \<lparr>freeMapFile = freeMapFile, directoryFile = directoryFile\<rparr>))))"

text \<open>The directory is read anew by each operation.\<close>

definition fetch_directory :: "uninit \<Rightarrow> disk \<Rightarrow> file_system \<Rightarrow> (disk \<times> directory) res" where
  "fetch_directory u d fs =
     Directory_FetchFrom d (Directory_new (freshEntry u) NumDirEntries) (hdr (directoryFile fs))"

definition FileSystem_Create :: "uninit \<Rightarrow> disk \<Rightarrow> file_system \<Rightarrow> byte list \<Rightarrow> int \<Rightarrow> (disk \<times> bool) res" where
  "FileSystem_Create u d fs name initialSize =
     bindR (fetch_directory u d fs) (\<lambda>(d, directory).
     bindR (Directory_Find directory name) (\<lambda>found.
     if found \<noteq> -1 then Inr (d, False) else
     bindR (PersistentBitmap_new d (hdr (freeMapFile fs)) NumSectors) (\<lambda>(d, freeMap).
     bindR (Bitmap_FindAndSet freeMap) (\<lambda>(freeMap, sector).
     if sector = -1 then Inr (d, False) else
     bindR (Directory_Add directory name sector) (\<lambda>(directory, added).
     if \<not> added then Inr (d, False) else
     bindR (FileHeader_Allocate (freshHdr u 0) freeMap initialSize) (\<lambda>(allocated, h, freeMap).
     if \<not> allocated then Inr (d, False) else
     bindR (FileHeader_WriteBack d h sector) (\<lambda>d.
     bindR (Directory_WriteBack (freshBuf u) d directory (hdr (directoryFile fs))) (\<lambda>d.
     bindR (PersistentBitmap_WriteBack (freshBuf u) d freeMap (hdr (freeMapFile fs))) (\<lambda>d.
     Inr (d, True))))))))))"

definition FileSystem_Open :: "uninit \<Rightarrow> disk \<Rightarrow> file_system \<Rightarrow> byte list \<Rightarrow> (disk \<times> open_file option) res" where
  "FileSystem_Open u d fs name =
     bindR (fetch_directory u d fs) (\<lambda>(d, directory).
     bindR (Directory_Find directory name) (\<lambda>sector.
     if sector \<ge> 0 then bindR (OpenFile_new d sector) (\<lambda>(d, f). Inr (d, Some f))
     else Inr (d, None)))"

definition FileSystem_Remove :: "uninit \<Rightarrow> disk \<Rightarrow> file_system \<Rightarrow> byte list \<Rightarrow> (disk \<times> bool) res" where
  "FileSystem_Remove u d fs name =
     bindR (fetch_directory u d fs) (\<lambda>(d, directory).
     bindR (Directory_Find directory name) (\<lambda>sector.
     if sector = -1 then Inr (d, False) else
     bindR (FileHeader_FetchFrom d sector) (\<lambda>(d, fileHdr).
     bindR (PersistentBitmap_new d (hdr (freeMapFile fs)) NumSectors) (\<lambda>(d, freeMap).
     bindR (FileHeader_Deallocate fileHdr freeMap) (\<lambda>freeMap.
     bindR (Bitmap_Clear freeMap sector) (\<lambda>freeMap.
     bindR (Directory_Remove directory name) (\<lambda>(directory, _).
     bindR (PersistentBitmap_WriteBack (freshBuf u) d freeMap (hdr (freeMapFile fs))) (\<lambda>d.
     bindR (Directory_WriteBack (freshBuf u) d directory (hdr (directoryFile fs))) (\<lambda>d.
     Inr (d, True))))))))))"

definition FileSystem_List :: "uninit \<Rightarrow> disk \<Rightarrow> file_system \<Rightarrow> (disk \<times> byte list list) res" where
  "FileSystem_List u d fs =
     bindR (fetch_directory u d fs) (\<lambda>(d, directory).
     bindR (Directory_List directory) (\<lambda>names. Inr (d, names)))"

section \<open>Consistency\<close>

text \<open>The sectors of a file with its header in a given sector, and all sectors that are in use.\<close>

definition extent :: "(nat \<Rightarrow> byte list) \<Rightarrow> nat \<Rightarrow> nat list" where
  "extent c s = s # file_sectors (hdr_of (c s))"

definition owned :: "(nat \<Rightarrow> byte list) \<Rightarrow> file_header \<Rightarrow> file_header \<Rightarrow> dir_entry list \<Rightarrow> nat list" where
  "owned c mapHdr dirHdr t = 0 # 1 # file_sectors mapHdr @ file_sectors dirHdr
     @ concat (map (\<lambda>e. extent c (nat (entrySector e))) (filter entryInUse t))"

definition fs_dir :: "file_system \<Rightarrow> disk \<Rightarrow> directory" where
  "fs_dir fs d = disk_dir (sectors d) (hdr (directoryFile fs))"

definition fs_map :: "file_system \<Rightarrow> disk \<Rightarrow> bitmap" where
  "fs_map fs d = disk_map (sectors d) (hdr (freeMapFile fs))"

definition fs_inv :: "file_system \<Rightarrow> disk \<Rightarrow> bool" where
  "fs_inv fs d \<longleftrightarrow> synch_wf d
     \<and> file_wf (hdr (freeMapFile fs)) \<and> hdrBytes (hdr (freeMapFile fs)) = FreeMapFileSize
     \<and> file_wf (hdr (directoryFile fs)) \<and> hdrBytes (hdr (directoryFile fs)) = DirectoryFileSize
     \<and> sectors d 0 = hdr_bytes (hdr (freeMapFile fs)) \<and> sectors d 1 = hdr_bytes (hdr (directoryFile fs))
     \<and> dir_wf (fs_dir fs d)
     \<and> (\<forall>e\<in>set (dirTable (fs_dir fs d)). entryInUse e \<longrightarrow>
          entrySector e < NumSectors \<and> file_wf (hdr_of (sectors d (nat (entrySector e)))))
     \<and> distinct (owned (sectors d) (hdr (freeMapFile fs)) (hdr (directoryFile fs)) (dirTable (fs_dir fs d)))
     \<and> set (owned (sectors d) (hdr (freeMapFile fs)) (hdr (directoryFile fs)) (dirTable (fs_dir fs d))) = bits (fs_map fs d)"

text \<open>The files: the contents that belong to the significant part of a name.\<close>

definition fs_files :: "file_system \<Rightarrow> disk \<Rightarrow> byte list \<Rightarrow> byte list option" where
  "fs_files fs d k = map_option (\<lambda>s. file_data (sectors d) (hdr_of (sectors d (nat s)))) (dir_map (fs_dir fs d) k)"

lemmas fs_consts = FreeMapSector_def DirectorySector_def FreeMapFileSize_def NumDirEntries_def DirectoryFileSize_def
  sizeof_DirectoryEntry_def

lemma file_sizes [simp]: "FreeMapFileSize = 128" "DirectoryFileSize = 200"
  by (simp_all add: fs_consts BitsInByte_def disk_defs)

lemma owned_unused: "\<not> entryInUse e \<Longrightarrow> owned c hM hD (A @ e # B) = owned c hM hD (A @ B)"
  by (simp add: owned_def)

lemma owned_used:
  "entryInUse e \<Longrightarrow> mset (owned c hM hD (A @ e # B)) = mset (owned c hM hD (A @ B) @ extent c (nat (entrySector e)))"
  by (simp add: owned_def)

lemma owned_cong:
  "\<forall>e\<in>set t. entryInUse e \<longrightarrow> extent c' (nat (entrySector e)) = extent c (nat (entrySector e)) \<Longrightarrow>
   owned c' hM hD t = owned c hM hD t"
  by (auto simp: owned_def intro!: arg_cong [where f = concat] map_cong)

lemma owned_used_split:
  assumes "entryInUse e"
  shows "distinct (owned c hM hD (A @ e # B)) = distinct (owned c hM hD (A @ B) @ extent c (nat (entrySector e)))"
    "set (owned c hM hD (A @ e # B)) = set (owned c hM hD (A @ B)) \<union> set (extent c (nat (entrySector e)))"
  using mset_eq_imp_distinct_iff [OF owned_used [OF assms, of c hM hD A B]]
    mset_eq_setD [OF owned_used [OF assms, of c hM hD A B]] by simp_all

lemma file_data_cong: "(\<And>s. s \<in> set (file_sectors h) \<Longrightarrow> c' s = c s) \<Longrightarrow> file_data c' h = file_data c h"
  by (simp add: file_data_def file_blocks_def cong: map_cong)

lemma disk_dir_cong: "(\<And>s. s \<in> set (file_sectors h) \<Longrightarrow> c' s = c s) \<Longrightarrow> disk_dir c' h = disk_dir c h"
  using file_data_cong [of h c' c] by (simp add: disk_dir_def)

lemma disk_map_cong: "(\<And>s. s \<in> set (file_sectors h) \<Longrightarrow> c' s = c s) \<Longrightarrow> disk_map c' h = disk_map c h"
  using file_data_cong [of h c' c] by (simp add: disk_map_def)

text \<open>Sectors that no file of a table uses can change without an effect on these files.\<close>

lemma files_unchanged:
  assumes "\<And>s. s \<in> set (owned c hM hD t) \<Longrightarrow> s \<notin> set (file_sectors hM) \<Longrightarrow> s \<notin> set (file_sectors hD) \<Longrightarrow> c' s = c s"
    and "distinct (owned c hM hD t)" "e \<in> set t" "entryInUse e"
  shows "c' (nat (entrySector e)) = c (nat (entrySector e))"
    "file_data c' (hdr_of (c (nat (entrySector e)))) = file_data c (hdr_of (c (nat (entrySector e))))"
proof -
  have same: "c' s = c s" if "s \<in> set (extent c (nat (entrySector e)))" for s
  proof (rule assms(1))
    show "s \<in> set (owned c hM hD t)" using that assms(3,4) by (auto simp: owned_def)
    show "s \<notin> set (file_sectors hM)" "s \<notin> set (file_sectors hD)"
      using that assms(2-4) by (auto simp: owned_def)
  qed
  show "c' (nat (entrySector e)) = c (nat (entrySector e))" by (rule same) (simp add: extent_def)
  show "file_data c' (hdr_of (c (nat (entrySector e)))) = file_data c (hdr_of (c (nat (entrySector e))))"
    by (rule file_data_cong, rule same) (simp add: extent_def)
qed

text \<open>Files and directory stay when only sectors outside of the table's files change.\<close>

lemma fs_invD:
  assumes "fs_inv fs d"
  shows "synch_wf d" "file_wf (hdr (freeMapFile fs))" "hdrBytes (hdr (freeMapFile fs)) = 128"
    "file_wf (hdr (directoryFile fs))" "hdrBytes (hdr (directoryFile fs)) = 200" "dir_wf (fs_dir fs d)"
    "bitmap_wf (fs_map fs d)" "numBits (fs_map fs d) = NumSectors"
    "tableSize (fs_dir fs d) = 10" "length (dirTable (fs_dir fs d)) = 10"
    "0 \<in> bits (fs_map fs d)" "1 \<in> bits (fs_map fs d)"
    "set (file_sectors (hdr (freeMapFile fs))) \<subseteq> bits (fs_map fs d)"
    "set (file_sectors (hdr (directoryFile fs))) \<subseteq> bits (fs_map fs d)"
    "set (file_sectors (hdr (freeMapFile fs))) \<inter> set (file_sectors (hdr (directoryFile fs))) = {}"
    "0 \<notin> set (file_sectors (hdr (freeMapFile fs))) \<union> set (file_sectors (hdr (directoryFile fs)))"
    "1 \<notin> set (file_sectors (hdr (freeMapFile fs))) \<union> set (file_sectors (hdr (directoryFile fs)))"
proof -
  show "0 \<in> bits (fs_map fs d)" "1 \<in> bits (fs_map fs d)"
    "set (file_sectors (hdr (freeMapFile fs))) \<subseteq> bits (fs_map fs d)"
    "set (file_sectors (hdr (directoryFile fs))) \<subseteq> bits (fs_map fs d)"
    using assms unfolding fs_inv_def owned_def by auto
qed (use assms in \<open>auto simp: fs_inv_def owned_def fs_map_def fs_dir_def disk_dir_def bitmap_wf_disk_map, auto simp: disk_map_def\<close>)

lemma fetch_directory_ok:
  assumes "fs_inv fs d" "uninit_wf u"
  obtains d' where "fetch_directory u d fs = Inr (d', fs_dir fs d)" "synch_wf d'" "sectors d' = sectors d"
  using Directory_FetchFrom_ok [OF fs_invD(1,4,5) [OF assms(1)], of "Directory_new (freshEntry u) NumDirEntries"] assms(2) that
  by (auto simp: fetch_directory_def fs_dir_def Directory_new_def NumDirEntries_def uninit_wf_def entry_wf_def)

lemma fetch_map_ok:
  assumes "fs_inv fs d" "synch_wf d1" "sectors d1 = sectors d"
  obtains d' where "PersistentBitmap_new d1 (hdr (freeMapFile fs)) NumSectors = Inr (d', fs_map fs d)"
    "synch_wf d'" "sectors d' = sectors d"
  using PersistentBitmap_new_ok [OF assms(2) fs_invD(2,3) [OF assms(1)]] assms(3) that by (auto simp: fs_map_def)

text \<open>An operation that fails leaves everything in its place.\<close>

lemma fs_inv_same:
  assumes "sectors d' = sectors d" "synch_wf d'" "fs_inv fs d"
  shows "fs_inv fs d'" "fs_files fs d' = fs_files fs d"
proof -
  show "fs_inv fs d'" using assms by (simp add: fs_inv_def fs_dir_def fs_map_def)
  show "fs_files fs d' = fs_files fs d" by (rule ext) (simp add: fs_files_def fs_dir_def assms(1))
qed

text \<open>
  The new state after both files of the file system have been written: the table differs in
  one entry and the bitmap is that of the sectors in use.
\<close>

lemma fs_inv_update:
  assumes inv: "fs_inv fs d" and d': "synch_wf d'" "fs_dir fs d' = dir'" "dir_wf dir'"
    and frame: "\<And>s. s \<in> set (owned (sectors d) (hdr (freeMapFile fs)) (hdr (directoryFile fs)) t) \<Longrightarrow>
      s \<notin> set (file_sectors (hdr (freeMapFile fs))) \<Longrightarrow> s \<notin> set (file_sectors (hdr (directoryFile fs))) \<Longrightarrow>
      sectors d' s = sectors d s"
    and t: "distinct (owned (sectors d) (hdr (freeMapFile fs)) (hdr (directoryFile fs)) t)"
      "\<forall>e\<in>set t. entryInUse e \<longrightarrow> e \<in> set (dirTable (fs_dir fs d))"
    and more: "\<forall>e\<in>set (dirTable dir') - set t. entryInUse e \<longrightarrow>
      entrySector e < NumSectors \<and> file_wf (hdr_of (sectors d' (nat (entrySector e))))"
    and own: "distinct (owned (sectors d') (hdr (freeMapFile fs)) (hdr (directoryFile fs)) (dirTable dir'))"
      "set (owned (sectors d') (hdr (freeMapFile fs)) (hdr (directoryFile fs)) (dirTable dir')) = bits (fs_map fs d')"
  shows "fs_inv fs d'"
proof -
  let ?c = "sectors d" and ?c' = "sectors d'"
  note files = files_unchanged [OF frame t(1)]
  have "?c' 0 = ?c 0" "?c' 1 = ?c 1"
    by (intro frame; use fs_invD(16,17) [OF inv] in \<open>simp add: owned_def\<close>)+
  moreover have "entrySector e < NumSectors \<and> file_wf (hdr_of (?c' (nat (entrySector e))))"
    if "e \<in> set (dirTable dir')" "entryInUse e" for e
  proof (cases "e \<in> set t")
    case True
    then show ?thesis using files(1) that t(2) inv by (auto simp: fs_inv_def)
  qed (use that more in auto)
  ultimately show ?thesis using inv d' own unfolding fs_inv_def by auto
qed

section \<open>Creating files\<close>

definition fs_free :: "file_system \<Rightarrow> disk \<Rightarrow> nat" where
  "fs_free fs d = card ({..<nat NumSectors} - bits (fs_map fs d))"

definition sectors_needed :: "int \<Rightarrow> nat" where
  "sectors_needed n = nat (divRoundUp n (int SectorSize))"

lemma fs_files_None: "fs_files fs d k = None \<longleftrightarrow> dir_map (fs_dir fs d) k = None"
  by (simp add: fs_files_def)

text \<open>The part of \<open>Create\<close> up to the allocation of the data sectors.\<close>

lemma Create_prefix:
  assumes inv: "fs_inv fs d" and u: "uninit_wf u" and name: "0 \<notin> set name"
    and new: "fs_files fs d (key name) = None" and free: "0 < fs_free fs d" and room: "\<not> dir_full (fs_dir fs d)"
  obtains d2 i m dir' where
    "FileSystem_Create u d fs name n =
       bindR (FileHeader_Allocate (freshHdr u 0) m n) (\<lambda>(allocated, h, freeMap).
       if \<not> allocated then Inr (d2, False) else
       bindR (FileHeader_WriteBack d2 h (int i)) (\<lambda>d.
       bindR (Directory_WriteBack (freshBuf u) d dir' (hdr (directoryFile fs))) (\<lambda>d.
       bindR (PersistentBitmap_WriteBack (freshBuf u) d freeMap (hdr (freeMapFile fs))) (\<lambda>d.
       Inr (d, True)))))"
    "synch_wf d2" "sectors d2 = sectors d" "bitmap_wf m" "numBits m = NumSectors" "i \<notin> bits (fs_map fs d)"
    "int i < NumSectors" "bits m = insert i (bits (fs_map fs d))" "dir_wf dir'" "tableSize dir' = 10"
    "dir_map dir' = (dir_map (fs_dir fs d))(key name \<mapsto> int i)"
    "\<exists>A e e' B. dirTable (fs_dir fs d) = A @ e # B \<and> \<not> entryInUse e \<and> dirTable dir' = A @ e' # B
       \<and> entryInUse e' \<and> entrySector e' = int i"
proof -
  let ?m = "fs_map fs d"
  note I = fs_invD [OF inv]
  obtain d1 where d1: "fetch_directory u d fs = Inr (d1, fs_dir fs d)" "synch_wf d1" "sectors d1 = sectors d"
    using fetch_directory_ok [OF inv u] by blast
  obtain d2 where d2: "PersistentBitmap_new d1 (hdr (freeMapFile fs)) NumSectors = Inr (d2, ?m)" "synch_wf d2" "sectors d2 = sectors d"
    using fetch_map_ok [OF inv d1(2,3)] by blast
  have find: "Directory_Find (fs_dir fs d) name = Inr (-1)"
    using dir.find_minus_one [OF I(6) name] new by (simp add: fs_files_None)
  have "bits ?m \<noteq> {..<nbits ?m}" using free by (intro bm.not_full) (simp add: fs_free_def I(8))
  then obtain i m where m: "Bitmap_FindAndSet ?m = Inr (m, int i)" "bitmap_wf m" "i < nbits ?m" "i \<notin> bits ?m"
      "bits m = insert i (bits ?m)" "nbits m = nbits ?m"
    using bm.find_free [OF I(7)] by blast
  have i: "int i < NumSectors" "int_range (int i)" using m(3) I(8) by (auto simp: int_range_def disk_defs)
  have nb: "numBits m = NumSectors" using m(2,6) I(8) by (auto simp: bitmap_wf_def disk_defs nat_eq_iff)
  obtain dir' where dir': "Directory_Add (fs_dir fs d) name (int i) = Inr (dir', True)" "dir_wf dir'"
    "tableSize dir' = tableSize (fs_dir fs d)" "dir_map dir' = (dir_map (fs_dir fs d))(key name \<mapsto> int i)"
    "\<exists>A e e' B. dirTable (fs_dir fs d) = A @ e # B \<and> \<not> entryInUse e \<and> dirTable dir' = A @ e' # B
       \<and> entryInUse e' \<and> entrySector e' = int i"
    by (rule Directory_Add_ok [OF I(6) name new [unfolded fs_files_None] room of_nat_0_le_iff i(2)]) (rule that)
  show ?thesis
  proof (rule that)
    show "FileSystem_Create u d fs name n =
       bindR (FileHeader_Allocate (freshHdr u 0) m n) (\<lambda>(allocated, h, freeMap).
       if \<not> allocated then Inr (d2, False) else
       bindR (FileHeader_WriteBack d2 h (int i)) (\<lambda>d.
       bindR (Directory_WriteBack (freshBuf u) d dir' (hdr (directoryFile fs))) (\<lambda>d.
       bindR (PersistentBitmap_WriteBack (freshBuf u) d freeMap (hdr (freeMapFile fs))) (\<lambda>d.
       Inr (d, True)))))"
      by (simp add: FileSystem_Create_def d1(1) find d2(1) m(1) dir'(1))
  qed (fact d2 m(2,4,5) i(1) nb dir'(2,4,5) | simp add: dir'(3) I(9))+
qed

lemma Create_refused:
  assumes inv: "fs_inv fs d" and u: "uninit_wf u" and name: "0 \<notin> set name" and n: "0 \<le> n"
    and why: "fs_files fs d (key name) \<noteq> None \<or> dir_full (fs_dir fs d) \<or> fs_free fs d \<le> sectors_needed n"
  obtains d' where "FileSystem_Create u d fs name n = Inr (d', False)" "synch_wf d'" "sectors d' = sectors d"
proof -
  note I = fs_invD [OF inv]
  obtain d1 where d1: "fetch_directory u d fs = Inr (d1, fs_dir fs d)" "synch_wf d1" "sectors d1 = sectors d"
    using fetch_directory_ok [OF inv u] by blast
  obtain d2 where d2: "PersistentBitmap_new d1 (hdr (freeMapFile fs)) NumSectors = Inr (d2, fs_map fs d)" "synch_wf d2" "sectors d2 = sectors d"
    using fetch_map_ok [OF inv d1(2,3)] by blast
  consider (found) "fs_files fs d (key name) \<noteq> None" | (no_sector) "fs_files fs d (key name) = None" "fs_free fs d = 0"
    | (no_entry) "fs_files fs d (key name) = None" "0 < fs_free fs d" "dir_full (fs_dir fs d)"
    | (no_data) "fs_files fs d (key name) = None" "0 < fs_free fs d" "\<not> dir_full (fs_dir fs d)" "fs_free fs d \<le> sectors_needed n"
    using why by blast
  then show ?thesis
  proof cases
    case found
    then have "Directory_Find (fs_dir fs d) name \<noteq> Inr (-1)"
      using dir.find_minus_one [OF I(6) name] by (simp add: fs_files_None)
    then show ?thesis using that [of d1] d1 dir.find_eq [OF I(6) name] by (simp add: FileSystem_Create_def)
  next
    case no_sector
    have "{..<nbits (fs_map fs d)} - bits (fs_map fs d) = {}" using no_sector(2) by (simp add: fs_free_def I(8))
    then have "bits (fs_map fs d) = {..<nbits (fs_map fs d)}" using bits_subset by blast
    then have "Bitmap_FindAndSet (fs_map fs d) = Inr (fs_map fs d, -1)" by (rule bm.find_full [OF I(7)])
    moreover have "Directory_Find (fs_dir fs d) name = Inr (-1)"
      using dir.find_minus_one [OF I(6) name] no_sector by (simp add: fs_files_None)
    ultimately show ?thesis using that [of d2] d1(1) d2 by (simp add: FileSystem_Create_def)
  next
    case no_entry
    have "bits (fs_map fs d) \<noteq> {..<nbits (fs_map fs d)}" using no_entry by (intro bm.not_full) (simp add: fs_free_def I(8))
    then obtain i m where "Bitmap_FindAndSet (fs_map fs d) = Inr (m, int i)" using bm.find_free [OF I(7)] by blast
    moreover have "Directory_Find (fs_dir fs d) name = Inr (-1)"
      using dir.find_minus_one [OF I(6) name] no_entry by (simp add: fs_files_None)
    moreover have "Directory_Add (fs_dir fs d) name (int i) = Inr (fs_dir fs d, False)" for i
      using dir.add_refused [OF I(6) name] no_entry by blast
    ultimately show ?thesis using that [of d2] d1(1) d2 by (simp add: FileSystem_Create_def)
  next
    case no_data
    show ?thesis
    proof (rule Create_prefix [OF inv u name no_data(1-3), of n])
      fix d2 i m dir'
      assume pre: "FileSystem_Create u d fs name n =
          bindR (FileHeader_Allocate (freshHdr u 0) m n) (\<lambda>(allocated, h, freeMap).
          if \<not> allocated then Inr (d2, False) else
          bindR (FileHeader_WriteBack d2 h (int i)) (\<lambda>d.
          bindR (Directory_WriteBack (freshBuf u) d dir' (hdr (directoryFile fs))) (\<lambda>d.
          bindR (PersistentBitmap_WriteBack (freshBuf u) d freeMap (hdr (freeMapFile fs))) (\<lambda>d.
          Inr (d, True)))))"
        and d2: "synch_wf d2" "sectors d2 = sectors d"
        and m: "bitmap_wf m" "numBits m = NumSectors" "i \<notin> bits (fs_map fs d)" "int i < NumSectors"
          "bits m = insert i (bits (fs_map fs d))"
      have "{..<nbits m} - bits m = {..<nat NumSectors} - bits (fs_map fs d) - {i}" using m by auto
      then have "card ({..<nbits m} - bits m) = fs_free fs d - 1"
        using m(3,4) by (simp add: fs_free_def card_Diff_singleton)
      then have "int (card ({..<nbits m} - bits m)) < divRoundUp n (int SectorSize)"
        using no_data(2,4) n by (simp add: sectors_needed_def)
      with Allocate_no_space [OF m(1)] pre d2 that [of d2] show ?thesis by simp
    qed
  qed
qed

lemma fs_files_other:
  assumes frame: "\<And>s. s \<in> set (owned (sectors d) hM hD t) \<Longrightarrow>
      s \<notin> set (file_sectors hM) \<Longrightarrow> s \<notin> set (file_sectors hD) \<Longrightarrow> sectors d' s = sectors d s"
    and t: "distinct (owned (sectors d) hM hD t)"
      "\<forall>e\<in>set (dirTable (fs_dir fs d)). entryInUse e \<and> stored_name e = k \<longrightarrow> e \<in> set t"
    and dir: "dir_map (fs_dir fs d') k = dir_map (fs_dir fs d) k"
  shows "fs_files fs d' k = fs_files fs d k"
proof (cases "dir_map (fs_dir fs d) k")
  case (Some s)
  then obtain e where "e \<in> set (dirTable (fs_dir fs d))" "entryInUse e" "stored_name e = k" "entrySector e = s"
    by (auto simp: dir_map_def dest!: map_of_SomeD)
  then show ?thesis using files_unchanged [OF frame t(1), of e] t(2) Some dir by (simp add: fs_files_def)
qed (use dir in \<open>simp add: fs_files_def\<close>)

lemma Create_write:
  assumes inv: "fs_inv fs d" and d2: "synch_wf d2" "sectors d2 = sectors d" and i: "i \<notin> bits (fs_map fs d)" "int i < NumSectors"
    and h: "hdr_wf h" and dir': "dir_wf dir'" "tableSize dir' = 10" and m': "bitmap_wf m'" "numBits m' = NumSectors"
  obtains d' where
    "bindR (FileHeader_WriteBack d2 h (int i)) (\<lambda>d.
     bindR (Directory_WriteBack junk d dir' (hdr (directoryFile fs))) (\<lambda>d.
     bindR (PersistentBitmap_WriteBack junk d m' (hdr (freeMapFile fs))) (\<lambda>d. Inr (d, True)))) = Inr (d', True)"
    "synch_wf d'" "fs_dir fs d' = dir'" "fs_map fs d' = m'" "sectors d' i = hdr_bytes h"
    "\<forall>s. s \<noteq> i \<and> s \<notin> set (file_sectors (hdr (freeMapFile fs))) \<and> s \<notin> set (file_sectors (hdr (directoryFile fs)))
      \<longrightarrow> sectors d' s = sectors d s"
proof -
  let ?hM = "hdr (freeMapFile fs)" and ?hD = "hdr (directoryFile fs)"
  note I = fs_invD [OF inv]
  have len: "length (dirTable dir') = 10" "\<forall>e\<in>set (dirTable dir'). entry_wf e" using dir' by (auto simp: dir_wf_def)
  obtain d3 where d3: "FileHeader_WriteBack d2 h (int i) = Inr d3" "synch_wf d3" "sectors d3 = (sectors d)(i := hdr_bytes h)"
    using FileHeader_WriteBack_ok [OF d2(1) h _ i(2)] d2(2) by auto
  obtain d4 where d4: "Directory_WriteBack junk d3 dir' ?hD = Inr d4" "synch_wf d4"
      "\<forall>s. s \<notin> set (file_sectors ?hD) \<longrightarrow> sectors d4 s = sectors d3 s" "disk_dir (sectors d4) ?hD = dir'"
    using Directory_WriteBack_ok [OF d3(2) I(4,5) dir'(2) len] by blast
  obtain d5 where d5: "PersistentBitmap_WriteBack junk d4 m' ?hM = Inr d5" "synch_wf d5"
      "\<forall>s. s \<notin> set (file_sectors ?hM) \<longrightarrow> sectors d5 s = sectors d4 s" "disk_map (sectors d5) ?hM = m'"
    using PersistentBitmap_WriteBack_ok [OF d4(2) I(2,3) m'] by blast
  have "disk_dir (sectors d5) ?hD = disk_dir (sectors d4) ?hD"
    by (rule disk_dir_cong) (use d5(3) I(15) in blast)
  moreover have "i \<notin> set (file_sectors ?hM)" "i \<notin> set (file_sectors ?hD)" using i(1) I(13,14) by auto
  ultimately show ?thesis using that [of d5] d3 d4 d5 by (simp add: fs_dir_def fs_map_def)
qed

lemma Create_ok:
  assumes inv: "fs_inv fs d" and u: "uninit_wf u" and name: "0 \<notin> set name" and n: "0 \<le> n" "int_range n"
    and new: "fs_files fs d (key name) = None" and room: "\<not> dir_full (fs_dir fs d)"
    and free: "sectors_needed n < fs_free fs d" and fits: "sectors_needed n \<le> NumDirect"
  obtains d' data where "FileSystem_Create u d fs name n = Inr (d', True)" "fs_inv fs d'"
    "fs_files fs d' = (fs_files fs d)(key name \<mapsto> data)" "length data = nat n"
proof -
  let ?hM = "hdr (freeMapFile fs)" and ?hD = "hdr (directoryFile fs)" and ?c = "sectors d" and ?B = "bits (fs_map fs d)"
  obtain d2 i m dir' A e e' B where create: "FileSystem_Create u d fs name n =
       bindR (FileHeader_Allocate (freshHdr u 0) m n) (\<lambda>(allocated, h, freeMap).
       if \<not> allocated then Inr (d2, False) else
       bindR (FileHeader_WriteBack d2 h (int i)) (\<lambda>d.
       bindR (Directory_WriteBack (freshBuf u) d dir' ?hD) (\<lambda>d.
       bindR (PersistentBitmap_WriteBack (freshBuf u) d freeMap ?hM) (\<lambda>d. Inr (d, True)))))"
    and d2: "synch_wf d2" "sectors d2 = sectors d" and m: "bitmap_wf m" "numBits m = NumSectors"
    and i: "i \<notin> ?B" "int i < NumSectors" and bits: "bits m = insert i ?B"
    and dir': "dir_wf dir'" "tableSize dir' = 10" "dir_map dir' = (dir_map (fs_dir fs d))(key name \<mapsto> int i)"
    and tab: "dirTable (fs_dir fs d) = A @ e # B" "\<not> entryInUse e" "dirTable dir' = A @ e' # B" "entryInUse e'" "entrySector e' = int i"
    using Create_prefix [OF inv u name new _ room, of n] free by (metis gr_implies_not0 gr0I)
  have "{..<nbits m} - bits m = {..<nat NumSectors} - ?B - {i}" using m(2) bits by auto
  then have "card ({..<nbits m} - bits m) = fs_free fs d - 1"
    using i by (simp add: fs_free_def card_Diff_singleton)
  then have "sectors_needed n \<le> card ({..<nbits m} - bits m)" using free by linarith
  then obtain h m' where alloc: "FileHeader_Allocate (freshHdr u 0) m n = Inr (True, h, m')" "bitmap_wf m'" "nbits m' = nbits m"
    "file_wf h" "hdrBytes h = n" "set (file_sectors h) \<inter> bits m = {}" "bits m' = bits m \<union> set (file_sectors h)"
    using Allocate_ok [OF m _ n sectors_needed_def _ fits] u unfolding uninit_wf_def by metis
  have m': "numBits m' = NumSectors" using alloc(2,3) m by (auto simp: bitmap_wf_def nat_eq_iff)
  have h: "hdr_wf h" using alloc(4) by (simp add: file_wf_def)
  obtain d' where d': "FileSystem_Create u d fs name n = Inr (d', True)" "synch_wf d'" "fs_dir fs d' = dir'"
      "fs_map fs d' = m'" "sectors d' i = hdr_bytes h"
      "\<forall>s. s \<noteq> i \<and> s \<notin> set (file_sectors ?hM) \<and> s \<notin> set (file_sectors ?hD) \<longrightarrow> sectors d' s = ?c s"
    using Create_write [OF inv d2 i h dir'(1,2) alloc(2) m', of "freshBuf u"] create alloc(1) by auto
  have t: "distinct (owned ?c ?hM ?hD (A @ B))" "set (owned ?c ?hM ?hD (A @ B)) = ?B"
    using inv tab(1,2) by (simp_all add: fs_inv_def owned_unused)
  have frame: "sectors d' s = ?c s" if "s \<in> set (owned ?c ?hM ?hD (A @ B))" "s \<notin> set (file_sectors ?hM)" "s \<notin> set (file_sectors ?hD)" for s
    using d'(6) that t(2) i(1) by auto
  have same: "owned (sectors d') ?hM ?hD (A @ B) = owned ?c ?hM ?hD (A @ B)"
    using files_unchanged(1) [OF frame t(1)] by (intro owned_cong) (auto simp: extent_def)
  have ext: "extent (sectors d') (nat (entrySector e')) = i # file_sectors h" by (simp add: extent_def tab(5) d'(5) h)
  have "fs_inv fs d'"
  proof (rule fs_inv_update [OF inv d'(2,3) dir'(1) frame t(1)])
    show "\<forall>x\<in>set (A @ B). entryInUse x \<longrightarrow> x \<in> set (dirTable (fs_dir fs d))" using tab(1) by auto
    show "\<forall>x\<in>set (dirTable dir') - set (A @ B). entryInUse x \<longrightarrow>
        entrySector x < NumSectors \<and> file_wf (hdr_of (sectors d' (nat (entrySector x))))"
      using tab(3,5) i(2) d'(5) h alloc(4) by auto
    show "distinct (owned (sectors d') ?hM ?hD (dirTable dir'))"
      unfolding tab(3) owned_used_split(1) [OF tab(4)] same ext
      using t alloc(4,6) bits i(1) by (auto simp: file_wf_def)
    show "set (owned (sectors d') ?hM ?hD (dirTable dir')) = bits (fs_map fs d')"
      unfolding tab(3) owned_used_split(2) [OF tab(4)] same ext using t(2) alloc(7) bits d'(4) by auto
  qed
  moreover have "fs_files fs d' k = ((fs_files fs d)(key name \<mapsto> file_data (sectors d') h)) k" for k
  proof (cases "k = key name")
    case True
    then show ?thesis using d'(3,5) dir'(3) h by (simp add: fs_files_def)
  next
    case False
    have "fs_files fs d' k = fs_files fs d k"
      by (rule fs_files_other [OF frame t(1)]) (use tab(1,2) False d'(3) dir'(3) in auto)
    then show ?thesis using False by simp
  qed
  moreover have "length (file_data (sectors d') h) = nat n"
    using length_file_data [OF alloc(4) synch.len [OF d'(2)]] alloc(5) n(1) by simp
  ultimately show ?thesis using that d'(1) by blast
qed

text \<open>A file that the disk has room for but its header has not: the allocation overruns the header.\<close>

lemma Create_too_long:
  assumes inv: "fs_inv fs d" and u: "uninit_wf u" and name: "0 \<notin> set name"
    and new: "fs_files fs d (key name) = None" and room: "\<not> dir_full (fs_dir fs d)"
    and free: "sectors_needed n < fs_free fs d" and long: "NumDirect < sectors_needed n"
  shows "FileSystem_Create u d fs name n = Inl Undefined"
proof -
  have pos: "0 < fs_free fs d" using free by linarith
  show ?thesis
  proof (rule Create_prefix [OF inv u name new pos room, of n])
    fix d2 i m dir'
    assume pre: "FileSystem_Create u d fs name n =
        bindR (FileHeader_Allocate (freshHdr u 0) m n) (\<lambda>(allocated, h, freeMap).
        if \<not> allocated then Inr (d2, False) else
        bindR (FileHeader_WriteBack d2 h (int i)) (\<lambda>d.
        bindR (Directory_WriteBack (freshBuf u) d dir' (hdr (directoryFile fs))) (\<lambda>d.
        bindR (PersistentBitmap_WriteBack (freshBuf u) d freeMap (hdr (freeMapFile fs))) (\<lambda>d. Inr (d, True)))))"
      and m: "bitmap_wf m" "numBits m = NumSectors" "i \<notin> bits (fs_map fs d)" "int i < NumSectors"
        "bits m = insert i (bits (fs_map fs d))"
    have "{..<nbits m} - bits m = {..<nat NumSectors} - bits (fs_map fs d) - {i}" using m by auto
    then have "card ({..<nbits m} - bits m) = fs_free fs d - 1"
      using m(3,4) by (simp add: fs_free_def card_Diff_singleton)
    moreover have "length (dataSectors (freshHdr u 0)) = NumDirect" using u by (simp add: uninit_wf_def hdr_wf_def)
    ultimately have "FileHeader_Allocate (freshHdr u 0) m n = Inl Undefined"
      using free long by (intro Allocate_too_long [OF m(1)]) (simp_all add: sectors_needed_def)
    then show ?thesis using pre by simp
  qed
qed

section \<open>Opening and removing files\<close>

lemma Open_ok:
  assumes inv: "fs_inv fs d" and u: "uninit_wf u" and name: "0 \<notin> set name"
  obtains d' where "synch_wf d'" "sectors d' = sectors d"
    "FileSystem_Open u d fs name = Inr (d', map_option (\<lambda>s. \<lparr>hdr = hdr_of (sectors d (nat s)), seekPosition = 0\<rparr>)
       (dir_map (fs_dir fs d) (key name)))"
    "\<forall>s. dir_map (fs_dir fs d) (key name) = Some s \<longrightarrow> file_wf (hdr_of (sectors d (nat s)))"
proof -
  note I = fs_invD [OF inv]
  obtain d1 where d1: "fetch_directory u d fs = Inr (d1, fs_dir fs d)" "synch_wf d1" "sectors d1 = sectors d"
    using fetch_directory_ok [OF inv u] by blast
  show ?thesis
  proof (cases "dir_map (fs_dir fs d) (key name)")
    case None
    then show ?thesis using that [of d1] d1 dir.find_eq [OF I(6) name] by (simp add: FileSystem_Open_def)
  next
    case (Some s)
    then obtain e where "e \<in> set (dirTable (fs_dir fs d))" "entryInUse e" "entrySector e = s"
      by (auto simp: dir_map_def dest!: map_of_SomeD)
    then have s: "s < NumSectors" "file_wf (hdr_of (sectors d (nat s)))" using inv by (auto simp: fs_inv_def)
    have pos: "0 \<le> s" using dir.nonneg [OF I(6) Some] .
    obtain d2 where "FileHeader_FetchFrom d1 s = Inr (d2, hdr_of (sectors d (nat s)))" "synch_wf d2" "sectors d2 = sectors d"
      using FileHeader_FetchFrom_ok [OF d1(2) pos s(1)] d1(3) by auto
    then show ?thesis using that [of d2] d1(1) Some pos s(2) dir.find_eq [OF I(6) name]
      by (simp add: FileSystem_Open_def OpenFile_new_def)
  qed
qed

lemma Remove_none:
  assumes inv: "fs_inv fs d" and u: "uninit_wf u" and name: "0 \<notin> set name" and none: "fs_files fs d (key name) = None"
  obtains d' where "FileSystem_Remove u d fs name = Inr (d', False)" "synch_wf d'" "sectors d' = sectors d"
  using fetch_directory_ok [OF inv u] dir.find_minus_one [OF fs_invD(6) [OF inv] name] none that
  by (force simp: FileSystem_Remove_def fs_files_None)

lemma Remove_write:
  assumes inv: "fs_inv fs d" and d2: "synch_wf d2" "sectors d2 = sectors d"
    and dir': "dir_wf dir'" "tableSize dir' = 10" and m': "bitmap_wf m'" "numBits m' = NumSectors"
  obtains d' where
    "bindR (PersistentBitmap_WriteBack junk d2 m' (hdr (freeMapFile fs))) (\<lambda>d.
     bindR (Directory_WriteBack junk d dir' (hdr (directoryFile fs))) (\<lambda>d. Inr (d, True))) = Inr (d', True)"
    "synch_wf d'" "fs_dir fs d' = dir'" "fs_map fs d' = m'"
    "\<forall>s. s \<notin> set (file_sectors (hdr (freeMapFile fs))) \<and> s \<notin> set (file_sectors (hdr (directoryFile fs)))
      \<longrightarrow> sectors d' s = sectors d s"
proof -
  let ?hM = "hdr (freeMapFile fs)" and ?hD = "hdr (directoryFile fs)"
  note I = fs_invD [OF inv]
  have len: "length (dirTable dir') = 10" "\<forall>e\<in>set (dirTable dir'). entry_wf e" using dir' by (auto simp: dir_wf_def)
  obtain d3 where d3: "PersistentBitmap_WriteBack junk d2 m' ?hM = Inr d3" "synch_wf d3"
      "\<forall>s. s \<notin> set (file_sectors ?hM) \<longrightarrow> sectors d3 s = sectors d2 s" "disk_map (sectors d3) ?hM = m'"
    using PersistentBitmap_WriteBack_ok [OF d2(1) I(2,3) m'] by blast
  obtain d4 where d4: "Directory_WriteBack junk d3 dir' ?hD = Inr d4" "synch_wf d4"
      "\<forall>s. s \<notin> set (file_sectors ?hD) \<longrightarrow> sectors d4 s = sectors d3 s" "disk_dir (sectors d4) ?hD = dir'"
    using Directory_WriteBack_ok [OF d3(2) I(4,5) dir'(2) len] by blast
  have "disk_map (sectors d4) ?hM = disk_map (sectors d3) ?hM"
    by (rule disk_map_cong) (use d4(3) I(15) in blast)
  then show ?thesis using that [of d4] d2(2) d3 d4 by (simp add: fs_dir_def fs_map_def)
qed

lemma Remove_ok:
  assumes inv: "fs_inv fs d" and u: "uninit_wf u" and name: "0 \<notin> set name" and some: "fs_files fs d (key name) \<noteq> None"
  obtains d' where "FileSystem_Remove u d fs name = Inr (d', True)" "fs_inv fs d'"
    "fs_files fs d' = (fs_files fs d)(key name := None)" "\<not> dir_full (fs_dir fs d')"
proof -
  let ?hM = "hdr (freeMapFile fs)" and ?hD = "hdr (directoryFile fs)" and ?c = "sectors d" and ?B = "bits (fs_map fs d)"
  note I = fs_invD [OF inv]
  from some obtain s where s: "dir_map (fs_dir fs d) (key name) = Some s" by (auto simp: fs_files_def)
  define h where "h = hdr_of (?c (nat s))"
  obtain dir' A e e' B where dir': "Directory_Remove (fs_dir fs d) name = Inr (dir', True)" "dir_wf dir'"
      "tableSize dir' = tableSize (fs_dir fs d)" "dir_map dir' = (dir_map (fs_dir fs d))(key name := None)" "\<not> dir_full dir'"
    and tab: "dirTable (fs_dir fs d) = A @ e # B" "entryInUse e" "entrySector e = s" "dirTable dir' = A @ e' # B" "\<not> entryInUse e'"
      and stored: "stored_name e = key name"
    using Directory_Remove_ok [OF I(6) name s] by (metis (no_types))
  have sok: "0 \<le> s" "s < NumSectors" "file_wf h"
    using dir.nonneg [OF I(6) s] inv tab(1-3) by (auto simp: fs_inv_def h_def)
  have ext: "extent ?c (nat (entrySector e)) = nat s # file_sectors h" by (simp add: extent_def tab(3) h_def)
  have "distinct (owned ?c ?hM ?hD (A @ e # B))" "set (owned ?c ?hM ?hD (A @ e # B)) = ?B"
    using inv tab(1) by (simp_all add: fs_inv_def)
  then have t: "distinct (owned ?c ?hM ?hD (A @ B))" "nat s \<notin> set (file_sectors h)"
      "set (owned ?c ?hM ?hD (A @ B)) = ?B - set (file_sectors h) - {nat s}" "set (file_sectors h) \<subseteq> ?B" "nat s \<in> ?B"
    unfolding owned_used_split [OF tab(2)] ext by auto
  obtain d1 where d1: "fetch_directory u d fs = Inr (d1, fs_dir fs d)" "synch_wf d1" "sectors d1 = ?c"
    using fetch_directory_ok [OF inv u] by blast
  obtain d2 where d2: "FileHeader_FetchFrom d1 s = Inr (d2, h)" "synch_wf d2" "sectors d2 = ?c"
    using FileHeader_FetchFrom_ok [OF d1(2) sok(1,2)] d1(3) by (auto simp: h_def)
  obtain d3 where d3: "PersistentBitmap_new d2 ?hM NumSectors = Inr (d3, fs_map fs d)" "synch_wf d3" "sectors d3 = ?c"
    using fetch_map_ok [OF inv d2(2,3)] by blast
  obtain m1 where m1: "FileHeader_Deallocate h (fs_map fs d) = Inr m1" "bitmap_wf m1" "nbits m1 = nbits (fs_map fs d)"
      "bits m1 = ?B - set (file_sectors h)"
    using Deallocate_ok [OF I(7) sok(3) t(4)] by blast
  have "nat s < nbits m1" using sok m1(3) I(8) by simp
  then obtain m2 where m2: "Bitmap_Clear m1 s = Inr m2" "bitmap_wf m2" "bits m2 = bits m1 - {nat s}" "nbits m2 = nbits m1"
    using bm.clear_in [OF m1(2), of "nat s"] sok(1) by auto
  have nb: "numBits m2 = NumSectors" using m2(2,4) m1(3) I(8) by (auto simp: bitmap_wf_def disk_defs nat_eq_iff)
  have "tableSize dir' = 10" using dir'(3) I(9) by simp
  then obtain d' where d': "bindR (PersistentBitmap_WriteBack (freshBuf u) d3 m2 ?hM) (\<lambda>d.
      bindR (Directory_WriteBack (freshBuf u) d dir' ?hD) (\<lambda>d. Inr (d, True))) = Inr (d', True)"
      "synch_wf d'" "fs_dir fs d' = dir'" "fs_map fs d' = m2"
      "\<forall>s. s \<notin> set (file_sectors ?hM) \<and> s \<notin> set (file_sectors ?hD) \<longrightarrow> sectors d' s = ?c s"
    using Remove_write [OF inv d3(2,3) dir'(2) _ m2(2) nb] by blast
  have "s \<noteq> -1" using sok(1) by simp
  then have "FileSystem_Remove u d fs name = Inr (d', True)"
    using dir.find_eq [OF I(6) name] by (simp add: FileSystem_Remove_def d1(1) s d2(1) d3(1) m1(1) m2(1) dir'(1) d'(1))
  moreover have frame: "sectors d' s = ?c s" if "s \<in> set (owned ?c ?hM ?hD (A @ B))" "s \<notin> set (file_sectors ?hM)" "s \<notin> set (file_sectors ?hD)" for s
    using d'(5) that by simp
  have same: "owned (sectors d') ?hM ?hD (A @ e' # B) = owned ?c ?hM ?hD (A @ B)"
    unfolding owned_unused [OF tab(5)] using files_unchanged(1) [OF frame t(1)]
    by (intro owned_cong) (auto simp: extent_def)
  have "fs_inv fs d'"
    by (rule fs_inv_update [OF inv d'(2,3) dir'(2) frame t(1)])
      (use tab t(1,3) m1(4) m2(3) d'(4) in \<open>auto simp: same\<close>)
  moreover have "fs_files fs d' k = ((fs_files fs d)(key name := None)) k" for k
  proof (cases "k = key name")
    case True
    then show ?thesis using d'(3) dir'(4) by (simp add: fs_files_def)
  next
    case False
    have "fs_files fs d' k = fs_files fs d k"
      by (rule fs_files_other [OF frame t(1)]) (use tab(1) False stored d'(3) dir'(4) in auto)
    then show ?thesis using False by simp
  qed
  ultimately show ?thesis using that dir'(5) d'(3) by blast
qed

section \<open>Formatting\<close>

lemma format_headers:
  assumes "uninit_wf u"
  obtains m0 m1 m2 hM hD m3 m4 where "Bitmap_new NumSectors = Inr m0" "Bitmap_Mark m0 FreeMapSector = Inr m1"
    "Bitmap_Mark m1 DirectorySector = Inr m2"
    "FileHeader_Allocate (freshHdr u 0) m2 FreeMapFileSize = Inr (True, hM, m3)"
    "FileHeader_Allocate (freshHdr u 1) m3 DirectoryFileSize = Inr (True, hD, m4)"
    "file_wf hM" "hdrBytes hM = 128" "file_wf hD" "hdrBytes hD = 200"
    "bitmap_wf m4" "numBits m4 = NumSectors" "distinct (0 # 1 # file_sectors hM @ file_sectors hD)"
    "bits m4 = set (0 # 1 # file_sectors hM @ file_sectors hD)" "card (bits m4) = 5"
proof -
  have u: "hdr_wf (freshHdr u i)" for i using assms by (simp add: uninit_wf_def)
  obtain m0 where m0: "Bitmap_new NumSectors = Inr m0" "bitmap_wf m0" "numBits m0 = NumSectors" "bits m0 = {}"
    using Bitmap_new_ok [of NumSectors] by (auto simp: disk_defs)
  have nb: "numBits m = NumSectors" if "bitmap_wf m" "nbits m = nat NumSectors" for m
    using that by (auto simp: bitmap_wf_def disk_defs nat_eq_iff)
  obtain m1 where m1: "Bitmap_Mark m0 (int 0) = Inr m1" "bitmap_wf m1" "bits m1 = {0}" "nbits m1 = nat NumSectors"
    using bm.mark_in [OF m0(2), of 0] m0(3,4) by (auto simp: disk_defs)
  obtain m2 where m2: "Bitmap_Mark m1 (int 1) = Inr m2" "bitmap_wf m2" "bits m2 = {0, 1}" "nbits m2 = nat NumSectors"
    using bm.mark_in [OF m1(2), of 1] m1(3,4) by (auto simp: disk_defs)
  have sz: "0 \<le> (128::int)" "int_range 128" "0 \<le> (200::int)" "int_range 200" by (simp_all add: int_range_def)
  have need: "nat (divRoundUp 128 (int SectorSize)) = 1" "nat (divRoundUp 200 (int SectorSize)) = 2"
    by (simp_all add: divRoundUp_def SectorSize_def)
  have le: "1 \<le> NumDirect" "2 \<le> NumDirect" by simp_all
  have c2: "1 \<le> card ({..<nbits m2} - bits m2)"
    using m2(3,4) by (simp add: bm.card_free disk_defs)
  obtain hM m3 where m3: "FileHeader_Allocate (freshHdr u 0) m2 128 = Inr (True, hM, m3)" "bitmap_wf m3" "nbits m3 = nbits m2"
      "file_wf hM" "hdrBytes hM = 128" "length (file_sectors hM) = 1" "set (file_sectors hM) \<inter> bits m2 = {}"
      "bits m3 = bits m2 \<union> set (file_sectors hM)"
    by (rule Allocate_ok [OF m2(2) nb [OF m2(2,4)] u sz(1,2) need(1) [symmetric] c2 le(1), of 0]) (rule that; assumption)
  have "card (bits m3) = 3" using m3(4,6,7,8) m2(3) by (simp add: card_Un_disjoint file_wf_def distinct_card)
  then have c3: "2 \<le> card ({..<nbits m3} - bits m3)"
    using m3(3) m2(4) unfolding bm.card_free by (simp add: disk_defs)
  have nb3: "numBits m3 = NumSectors" using nb m3(2,3) m2(4) by metis
  obtain hD m4 where m4: "FileHeader_Allocate (freshHdr u 1) m3 200 = Inr (True, hD, m4)" "bitmap_wf m4" "nbits m4 = nbits m3"
      "file_wf hD" "hdrBytes hD = 200" "length (file_sectors hD) = 2" "set (file_sectors hD) \<inter> bits m3 = {}" "bits m4 = bits m3 \<union> set (file_sectors hD)"
    by (rule Allocate_ok [OF m3(2) nb3 u sz(3,4) need(2) [symmetric] c3 le(2), of 1]) (rule that; assumption)
  have dist: "distinct (0 # 1 # file_sectors hM @ file_sectors hD)"
    using m2(3) m3(4,7,8) m4(4,7) by (auto simp: file_wf_def)
  moreover have "bits m4 = set (0 # 1 # file_sectors hM @ file_sectors hD)" using m2(3) m3(8) m4(8) by auto
  moreover from this have "card (bits m4) = 5" using distinct_card [OF dist] m3(6) m4(6) by simp
  moreover have "numBits m4 = NumSectors" using nb m4(2,3) m3(3) m2(4) by metis
  ultimately show ?thesis
    using that [of m0 m1 m2 hM m3 hD m4] m0(1) m1(1) m2(1) m3(1,4,5) m4(1,2,4,5)
    by (simp add: FreeMapSector_def DirectorySector_def)
qed

lemma format_ok:
  assumes d: "synch_wf d" and u: "uninit_wf u"
  obtains d' fs where "FileSystem_format u d = Inr (d', fs)" "fs_inv fs d'" "fs_files fs d' = Map.empty"
    "\<not> dir_full (fs_dir fs d')" "1000 < fs_free fs d'"
proof -
  obtain m0 m1 m2 hM hD m3 m4 where b: "Bitmap_new NumSectors = Inr m0" "Bitmap_Mark m0 FreeMapSector = Inr m1"
    "Bitmap_Mark m1 DirectorySector = Inr m2"
    "FileHeader_Allocate (freshHdr u 0) m2 FreeMapFileSize = Inr (True, hM, m3)"
    "FileHeader_Allocate (freshHdr u 1) m3 DirectoryFileSize = Inr (True, hD, m4)"
    and h: "file_wf hM" "hdrBytes hM = 128" "file_wf hD" "hdrBytes hD = 200"
    and m4: "bitmap_wf m4" "numBits m4 = NumSectors" "distinct (0 # 1 # file_sectors hM @ file_sectors hD)"
      "bits m4 = set (0 # 1 # file_sectors hM @ file_sectors hD)"
      "card (bits m4) = 5"
    using format_headers [OF u] by metis
  have wf: "hdr_wf hM" "hdr_wf hD" using h by (simp_all add: file_wf_def)
  have rng: "0 \<le> FreeMapSector" "FreeMapSector < NumSectors" "0 \<le> DirectorySector" "DirectorySector < NumSectors"
    by (simp_all add: FreeMapSector_def DirectorySector_def disk_defs)
  obtain d1 where d1: "FileHeader_WriteBack d hM FreeMapSector = Inr d1" "synch_wf d1" "sectors d1 = (sectors d)(0 := hdr_bytes hM)"
    using FileHeader_WriteBack_ok [OF d wf(1) rng(1,2)] by (auto simp: FreeMapSector_def)
  obtain d2 where d2: "FileHeader_WriteBack d1 hD DirectorySector = Inr d2" "synch_wf d2"
      "sectors d2 = (sectors d)(0 := hdr_bytes hM, 1 := hdr_bytes hD)"
    using FileHeader_WriteBack_ok [OF d1(2) wf(2) rng(3,4)] d1(3) by (auto simp: DirectorySector_def)
  obtain d3 where d3: "FileHeader_FetchFrom d2 FreeMapSector = Inr (d3, hM)" "synch_wf d3" "sectors d3 = sectors d2"
    using FileHeader_FetchFrom_ok [OF d2(2) rng(1,2)] d2(3) wf(1) by (auto simp: FreeMapSector_def)
  obtain d4 where d4: "FileHeader_FetchFrom d3 DirectorySector = Inr (d4, hD)" "synch_wf d4" "sectors d4 = sectors d2"
    using FileHeader_FetchFrom_ok [OF d3(2) rng(3,4)] d2(3) d3(3) wf(2) by (auto simp: DirectorySector_def)
  let ?dir = "Directory_new (freshEntry u) NumDirEntries"
  have dir: "tableSize ?dir = 10" "length (dirTable ?dir) = 10" "\<forall>e\<in>set (dirTable ?dir). entry_wf e"
    "\<forall>e\<in>set (dirTable ?dir). \<not> entryInUse e"
    using u by (auto simp: Directory_new_def NumDirEntries_def uninit_wf_def entry_wf_def)
  obtain d5 where d5: "PersistentBitmap_WriteBack (freshBuf u) d4 m4 hM = Inr d5" "synch_wf d5"
      "\<forall>s. s \<notin> set (file_sectors hM) \<longrightarrow> sectors d5 s = sectors d4 s" "disk_map (sectors d5) hM = m4"
    using PersistentBitmap_WriteBack_ok [OF d4(2) h(1,2) m4(1,2)] by blast
  obtain d6 where d6: "Directory_WriteBack (freshBuf u) d5 ?dir hD = Inr d6" "synch_wf d6"
      "\<forall>s. s \<notin> set (file_sectors hD) \<longrightarrow> sectors d6 s = sectors d5 s" "disk_dir (sectors d6) hD = ?dir"
    using Directory_WriteBack_ok [OF d5(2) h(3,4) dir(1-3)] by blast
  define fs where "fs = \<lparr>freeMapFile = \<lparr>hdr = hM, seekPosition = 0\<rparr>, directoryFile = \<lparr>hdr = hD, seekPosition = 0\<rparr>\<rparr>"
  have "FileSystem_format u d = Inr (d6, fs)"
    using b d1(1) d2(1) d3(1) d4(1) d5(1) d6(1) by (simp add: FileSystem_format_def OpenFile_new_def fs_def Let_def)
  moreover have sec: "sectors d6 0 = hdr_bytes hM" "sectors d6 1 = hdr_bytes hD"
    using m4(3) d6(3) d5(3) d4(3) d2(3) by auto
  moreover have map: "fs_map fs d6 = m4"
    using disk_map_cong [of hM "sectors d6" "sectors d5"] d5(4) d6(3) m4(3) by (auto simp: fs_map_def fs_def)
  moreover have dir6: "fs_dir fs d6 = ?dir" using d6(4) by (simp add: fs_dir_def fs_def)
  moreover have none: "filter entryInUse (dirTable ?dir) = []" using dir(4) by (simp add: filter_empty_conv)
  then have "dir_wf ?dir" using dir by (simp add: dir_wf_def)
  moreover have own: "owned c hM hD (dirTable ?dir) = 0 # 1 # file_sectors hM @ file_sectors hD" for c
    by (simp add: owned_def none)
  ultimately have "fs_inv fs d6" unfolding fs_inv_def using d6(2) h m4(3,4) dir(4) by (auto simp: fs_def)
  moreover have "fs_files fs d6 = Map.empty" by (rule ext) (simp add: fs_files_def dir6 dir_map_def none)
  moreover have "\<not> dir_full (fs_dir fs d6)" using dir(2,4) by (auto simp: dir6 dir_full_def)
  moreover have "1000 < fs_free fs d6"
    using m4(1,2,5) unfolding fs_free_def map using bm.card_free [of m4] by (simp add: disk_defs)
  ultimately show ?thesis using that \<open>FileSystem_format u d = Inr (d6, fs)\<close> by blast
qed

section \<open>Writing to a file\<close>

lemma dir_map_entry:
  assumes "dir_map dir k = Some s"
  obtains A e B where "dirTable dir = A @ e # B" "entryInUse e" "stored_name e = k" "entrySector e = s"
proof -
  have "\<exists>e\<in>set (dirTable dir). entryInUse e \<and> stored_name e = k \<and> entrySector e = s"
    using assms by (auto simp: dir_map_def dest!: map_of_SomeD)
  then show ?thesis using that by (meson split_list)
qed

lemma owned_entry:
  "distinct (owned c hM hD (A @ e # B)) \<Longrightarrow> entryInUse e \<Longrightarrow>
   set (file_sectors (hdr_of (c (nat (entrySector e))))) \<inter>
     (set (owned c hM hD (A @ B)) \<union> {nat (entrySector e)} \<union> set (file_sectors hM) \<union> set (file_sectors hD)) = {}"
  using owned_used_split(1) [of e c hM hD A B] by (auto simp: owned_def extent_def)

lemma write_keeps_inv:
  assumes inv: "fs_inv fs d" and d': "synch_wf d'" and k: "dir_map (fs_dir fs d) k = Some s"
    and h: "h = hdr_of (sectors d (nat s))" and frame: "\<forall>x. x \<notin> set (file_sectors h) \<longrightarrow> sectors d' x = sectors d x"
  shows "fs_inv fs d'" "fs_files fs d' = (fs_files fs d)(k \<mapsto> file_data (sectors d') h)"
    "fs_dir fs d' = fs_dir fs d" "sectors d' (nat s) = sectors d (nat s)"
proof -
  let ?hM = "hdr (freeMapFile fs)" and ?hD = "hdr (directoryFile fs)" and ?c = "sectors d" and ?c' = "sectors d'"
  note I = fs_invD [OF inv]
  obtain A e B where e: "dirTable (fs_dir fs d) = A @ e # B" "entryInUse e" "stored_name e = k" "entrySector e = s"
    using dir_map_entry [OF k] by blast
  have dist: "distinct (owned ?c ?hM ?hD (A @ e # B))" using inv e(1) by (simp add: fs_inv_def)
  have disj: "set (file_sectors h) \<inter> (set (owned ?c ?hM ?hD (A @ B)) \<union> {nat s} \<union> set (file_sectors ?hM) \<union> set (file_sectors ?hD)) = {}"
    using owned_entry [OF dist e(2)] by (simp add: e(4) h)
  have dir: "fs_dir fs d' = fs_dir fs d"
    unfolding fs_dir_def by (rule disk_dir_cong) (use frame disj in blast)
  have map: "fs_map fs d' = fs_map fs d"
    unfolding fs_map_def by (rule disk_map_cong) (use frame disj in blast)
  have dAB: "distinct (owned ?c ?hM ?hD (A @ B))" using dist unfolding owned_used_split(1) [OF e(2)] by simp
  have fAB: "?c' x = ?c x" if "x \<in> set (owned ?c ?hM ?hD (A @ B))" for x using frame disj that by blast
  note other = files_unchanged [OF fAB dAB]
  have head: "?c' (nat (entrySector x)) = ?c (nat (entrySector x))" if "x \<in> set (A @ e # B)" "entryInUse x" for x
    using other(1) [of x] that frame disj e(4) by auto
  have own: "owned ?c' ?hM ?hD (A @ e # B) = owned ?c ?hM ?hD (A @ e # B)"
    using head by (intro owned_cong) (auto simp: extent_def)
  have z: "?c' 0 = ?c 0" "?c' 1 = ?c 1" by (rule fAB, simp add: owned_def)+
  show "fs_inv fs d'"
    using inv d' head own z unfolding fs_inv_def dir map e(1) by auto
  show "fs_files fs d' = (fs_files fs d)(k \<mapsto> file_data ?c' h)"
  proof (rule ext)
    fix k'
    show "fs_files fs d' k' = ((fs_files fs d)(k \<mapsto> file_data ?c' h)) k'"
    proof (cases "k' = k")
      case True
      then show ?thesis using head [of e] e(2,4) by (simp add: fs_files_def dir k h)
    next
      case False
      have "fs_files fs d' k' = fs_files fs d k'"
        by (rule fs_files_other [OF fAB dAB]) (use e False dir in auto)
      then show ?thesis using False by simp
    qed
  qed
  show "fs_dir fs d' = fs_dir fs d" by (rule dir)
  show "?c' (nat s) = ?c (nat s)" using head [of e] e(2,4) by simp
qed

section \<open>Histories\<close>

text \<open>
  The states that a formatted disk can get into: every call may find other memory in its
  fresh objects; a file is written through the handle that \<open>Open\<close> returns.
\<close>

inductive fs_reach :: "file_system \<Rightarrow> disk \<Rightarrow> bool" where
  fs_format: "synch_wf d \<Longrightarrow> uninit_wf u \<Longrightarrow> FileSystem_new u d True = Inr (d', fs) \<Longrightarrow> fs_reach fs d'"
| fs_mount: "fs_reach fs d \<Longrightarrow> FileSystem_new u d False = Inr (d', fs') \<Longrightarrow> fs_reach fs' d'"
| fs_create: "fs_reach fs d \<Longrightarrow> uninit_wf u \<Longrightarrow> 0 \<notin> set name \<Longrightarrow> 0 \<le> n \<Longrightarrow> int_range n \<Longrightarrow>
    FileSystem_Create u d fs name n = Inr (d', r) \<Longrightarrow> fs_reach fs d'"
| fs_remove: "fs_reach fs d \<Longrightarrow> uninit_wf u \<Longrightarrow> 0 \<notin> set name \<Longrightarrow>
    FileSystem_Remove u d fs name = Inr (d', r) \<Longrightarrow> fs_reach fs d'"
| fs_write: "fs_reach fs d \<Longrightarrow> uninit_wf u \<Longrightarrow> 0 \<notin> set name \<Longrightarrow> FileSystem_Open u d fs name = Inr (d1, Some f) \<Longrightarrow>
    0 \<le> position \<Longrightarrow> int_range (position + n) \<Longrightarrow> n \<le> int (length from) \<Longrightarrow>
    WriteAt junk d1 (hdr f) from n position = Inr (d', r) \<Longrightarrow> fs_reach fs d'"

lemma mount_ok:
  assumes inv: "fs_inv fs d"
  obtains d' where "FileSystem_new u d False = Inr (d', \<lparr>freeMapFile = \<lparr>hdr = hdr (freeMapFile fs), seekPosition = 0\<rparr>,
      directoryFile = \<lparr>hdr = hdr (directoryFile fs), seekPosition = 0\<rparr>\<rparr>)" "synch_wf d'" "sectors d' = sectors d"
proof -
  note I = fs_invD [OF inv]
  have wf: "hdr_wf (hdr (freeMapFile fs))" "hdr_wf (hdr (directoryFile fs))" using I(2,4) by (simp_all add: file_wf_def)
  have sec: "sectors d 0 = hdr_bytes (hdr (freeMapFile fs))" "sectors d 1 = hdr_bytes (hdr (directoryFile fs))"
    using inv by (simp_all add: fs_inv_def)
  obtain d1 where d1: "FileHeader_FetchFrom d 0 = Inr (d1, hdr (freeMapFile fs))" "synch_wf d1" "sectors d1 = sectors d"
    using FileHeader_FetchFrom_ok [OF I(1), of 0] sec(1) wf(1) by (auto simp: disk_defs)
  obtain d2 where "FileHeader_FetchFrom d1 1 = Inr (d2, hdr (directoryFile fs))" "synch_wf d2" "sectors d2 = sectors d"
    using FileHeader_FetchFrom_ok [OF d1(2), of 1] d1(3) sec(2) wf(2) by (auto simp: disk_defs)
  then show ?thesis using that d1(1)
    by (simp add: FileSystem_new_def OpenFile_new_def FreeMapSector_def DirectorySector_def)
qed

lemma fs_inv_headers:
  "fs_inv fs d \<Longrightarrow> hdr (freeMapFile fs') = hdr (freeMapFile fs) \<Longrightarrow> hdr (directoryFile fs') = hdr (directoryFile fs) \<Longrightarrow> fs_inv fs' d"
  by (simp add: fs_inv_def fs_dir_def fs_map_def)

lemma create_keeps_inv:
  assumes "fs_inv fs d" "uninit_wf u" "0 \<notin> set name" "0 \<le> n" "int_range n" "FileSystem_Create u d fs name n = Inr (d', r)"
  shows "fs_inv fs d'"
proof (cases "fs_files fs d (key name) \<noteq> None \<or> dir_full (fs_dir fs d) \<or> fs_free fs d \<le> sectors_needed n")
  case True
  then show ?thesis using Create_refused [OF assms(1-4)] assms(6) fs_inv_same(1) [OF _ _ assms(1)] by (metis Inr_inject Pair_inject)
next
  case False
  then have c: "fs_files fs d (key name) = None" "\<not> dir_full (fs_dir fs d)" "sectors_needed n < fs_free fs d" by auto
  show ?thesis
  proof (cases "sectors_needed n \<le> NumDirect")
    case True
    then show ?thesis using Create_ok [OF assms(1-5) c] assms(6) by (metis Inr_inject Pair_inject)
  next
    case False
    then show ?thesis using Create_too_long [OF assms(1-3) c] assms(6) by simp
  qed
qed

lemma remove_keeps_inv:
  assumes "fs_inv fs d" "uninit_wf u" "0 \<notin> set name" "FileSystem_Remove u d fs name = Inr (d', r)"
  shows "fs_inv fs d'"
proof (cases "fs_files fs d (key name) = None")
  case True
  then show ?thesis using Remove_none [OF assms(1-3)] assms(4) fs_inv_same(1) [OF _ _ assms(1)] by (metis Inr_inject Pair_inject)
next
  case False
  then show ?thesis using Remove_ok [OF assms(1-3)] assms(4) by (metis Inr_inject Pair_inject)
qed

lemma fs_write_keeps_inv:
  assumes inv: "fs_inv fs d" and u: "uninit_wf u" "0 \<notin> set name" and op: "FileSystem_Open u d fs name = Inr (d1, Some f)"
    and rng: "0 \<le> position" "int_range (position + n)" "n \<le> int (length from)"
    and wr: "WriteAt junk d1 (hdr f) from n position = Inr (d', r)"
  shows "fs_inv fs d'"
proof -
  obtain d2 where d2: "synch_wf d2" "sectors d2 = sectors d"
      "FileSystem_Open u d fs name = Inr (d2, map_option (\<lambda>s. \<lparr>hdr = hdr_of (sectors d (nat s)), seekPosition = 0\<rparr>)
         (dir_map (fs_dir fs d) (key name)))"
      "\<forall>s. dir_map (fs_dir fs d) (key name) = Some s \<longrightarrow> file_wf (hdr_of (sectors d (nat s)))"
    using Open_ok [OF inv u] by blast
  then obtain s where s: "dir_map (fs_dir fs d) (key name) = Some s" "hdr f = hdr_of (sectors d (nat s))" "d1 = d2"
    using op by (cases "dir_map (fs_dir fs d) (key name)") auto
  have "file_wf (hdr f)" using d2(4) s by simp
  then obtain d3 where "WriteAt junk d2 (hdr f) from n position = Inr (d3, int (length (take (nat (min n (hdrBytes (hdr f) - position))) from)))"
      "synch_wf d3" "\<forall>s. s \<notin> set (file_sectors (hdr f)) \<longrightarrow> sectors d3 s = sectors d s"
    using WriteAt_ok [OF d2(1) _ rng, of "hdr f" junk] d2(2) by metis
  with wr s show ?thesis using write_keeps_inv(1) [OF inv _ s(1)] by auto
qed

section \<open>Properties\<close>

text \<open>A blank disk and memory, for the instances of the properties.\<close>

definition blank_disk :: disk where
  "blank_disk = Disk_new (\<lambda>_. replicate 128 0) 0"

definition blank_memory :: uninit where
  "blank_memory = \<lparr>freshBuf = (\<lambda>_. 7),
     freshEntry = (\<lambda>_. \<lparr>entryInUse = True, entryPad = replicate 3 1, entrySector = 3, entryName = replicate 10 1, entryEnd = [1, 1]\<rparr>),
     freshHdr = (\<lambda>_. \<lparr>hdrBytes = 5, hdrSectors = 6, dataSectors = replicate 30 7\<rparr>)\<rparr>"

lemma blank_wf: "synch_wf blank_disk" "uninit_wf blank_memory"
  by (simp_all add: blank_disk_def blank_memory_def synch_wf_def disk_wf_def Disk_new_def disk_defs SectorSize_def
      uninit_wf_def entry_wf_def hdr_wf_def int_range_def)

text \<open>
  C1. Every state that a formatted disk gets into, through any sequence of mounting, creating,
  removing and writing files, is consistent: the headers in the well-known sectors, the
  directory and the headers of its files are well-formed, no sector belongs to two files, and
  the bitmap marks exactly the sectors that are in use.
\<close>

theorem fs_reach_consistent:
  assumes "fs_reach fs d"
  shows "fs_inv fs d"
  using assms
proof induction
  case (fs_format d u d' fs)
  then show ?case using format_ok [of d u] by (metis FileSystem_new_def Inr_inject Pair_inject)
next
  case (fs_mount fs d u d' fs')
  from mount_ok [OF fs_mount.IH, of u] fs_mount.hyps(2) show ?case
    using fs_inv_same(1) [OF _ _ fs_mount.IH] fs_inv_headers by (metis (no_types) Inr_inject Pair_inject file_system.select_convs open_file.select_convs(1))
next
  case fs_create
  then show ?case by (metis create_keeps_inv)
next
  case fs_remove
  then show ?case by (metis remove_keeps_inv)
next
  case fs_write
  then show ?case by (metis fs_write_keeps_inv)
qed

text \<open>C1, after formatting a blank disk.\<close>

theorem fs_reach_consistent_witness:
  "\<exists>d fs. FileSystem_new blank_memory blank_disk True = Inr (d, fs) \<and> fs_inv fs d \<and> fs_files fs d = Map.empty"
proof -
  obtain d fs where f: "FileSystem_format blank_memory blank_disk = Inr (d, fs)" "fs_files fs d = Map.empty"
    using format_ok [OF blank_wf] by blast
  then have new: "FileSystem_new blank_memory blank_disk True = Inr (d, fs)" by (simp add: FileSystem_new_def)
  have "fs_inv fs d" by (rule fs_reach_consistent, rule fs_reach.fs_format [OF blank_wf new])
  with new f show ?thesis by blast
qed

text \<open>
  C14. \<open>Create\<close>, on every branch. If the name is taken (in its first nine characters), the
  directory is full or there are not enough free sectors for the header and the data, it
  returns false and leaves the disk as it is. Otherwise, if the size is at most what a header
  can describe, it returns true, the file exists with the given size, and all other files are
  what they were. A larger file that the disk has room for overruns the header in memory.
\<close>

theorem FileSystem_Create_spec:
  assumes "fs_inv fs d" "uninit_wf u" "0 \<notin> set name" "0 \<le> n" "int_range n"
  shows "if fs_files fs d (key name) \<noteq> None \<or> dir_full (fs_dir fs d) \<or> fs_free fs d \<le> sectors_needed n
    then \<exists>d'. FileSystem_Create u d fs name n = Inr (d', False) \<and> sectors d' = sectors d \<and> fs_inv fs d'
    else if sectors_needed n \<le> NumDirect
    then \<exists>d' data. FileSystem_Create u d fs name n = Inr (d', True) \<and> fs_inv fs d'
      \<and> fs_files fs d' = (fs_files fs d)(key name \<mapsto> data) \<and> int (length data) = n
    else FileSystem_Create u d fs name n = Inl Undefined"
proof (cases "fs_files fs d (key name) \<noteq> None \<or> dir_full (fs_dir fs d) \<or> fs_free fs d \<le> sectors_needed n")
  case True
  from Create_refused [OF assms(1-4) True] show ?thesis
    using True fs_inv_same(1) [OF _ _ assms(1)] by (metis (no_types))
next
  case False
  then have c: "fs_files fs d (key name) = None" "\<not> dir_full (fs_dir fs d)" "sectors_needed n < fs_free fs d" by auto
  show ?thesis
  proof (cases "sectors_needed n \<le> NumDirect")
    case True
    obtain d' data where "FileSystem_Create u d fs name n = Inr (d', True)" "fs_inv fs d'"
        "fs_files fs d' = (fs_files fs d)(key name \<mapsto> data)" "length data = nat n"
      using Create_ok [OF assms c True] by blast
    moreover from this have "int (length data) = n" using assms(4) by simp
    ultimately show ?thesis using True False by auto
  next
    case long: False
    then show ?thesis using Create_too_long [OF assms(1-3) c] False by auto
  qed
qed

text \<open>C14, on a formatted disk: a file of 300 bytes.\<close>

theorem FileSystem_Create_spec_witness:
  "\<exists>d fs d' data. FileSystem_new blank_memory blank_disk True = Inr (d, fs)
    \<and> FileSystem_Create blank_memory d fs [104, 105] 300 = Inr (d', True)
    \<and> fs_files fs d' = [[104, 105] \<mapsto> data] \<and> int (length data) = 300"
proof -
  obtain d fs where f: "FileSystem_format blank_memory blank_disk = Inr (d, fs)" "fs_inv fs d"
      "fs_files fs d = Map.empty" "\<not> dir_full (fs_dir fs d)" "1000 < fs_free fs d"
    using format_ok [OF blank_wf] by blast
  have "sectors_needed 300 = 3" by (simp add: sectors_needed_def divRoundUp_def SectorSize_def)
  moreover have "key [104, 105] = [104, 105 :: byte]" by (simp add: key_def FileNameMaxLen_def)
  moreover have "(0::byte) \<notin> set [104, 105]" by simp
  ultimately have "\<exists>d' data. FileSystem_Create blank_memory d fs [104, 105] 300 = Inr (d', True)
      \<and> fs_files fs d' = [[104, 105] \<mapsto> data] \<and> int (length data) = 300"
    using FileSystem_Create_spec [OF f(2) blank_wf(2), of "[104, 105]" 300] f(3-5) by (auto simp: int_range_def)
  then show ?thesis using f(1) by (auto simp: FileSystem_new_def)
qed

text \<open>
  C15. \<open>Remove\<close> returns false and changes nothing if there is no file of the name; otherwise it
  returns true, the file is gone, all others are what they were, and creating a file of the
  name that is no larger than a header can describe succeeds when the sectors suffice.
\<close>

theorem FileSystem_Remove_spec:
  assumes "fs_inv fs d" "uninit_wf u" "0 \<notin> set name"
  shows "if fs_files fs d (key name) = None
    then \<exists>d'. FileSystem_Remove u d fs name = Inr (d', False) \<and> sectors d' = sectors d \<and> fs_inv fs d'
    else \<exists>d'. FileSystem_Remove u d fs name = Inr (d', True) \<and> fs_inv fs d'
      \<and> fs_files fs d' = (fs_files fs d)(key name := None)
      \<and> (\<forall>n. 0 \<le> n \<and> int_range n \<and> sectors_needed n < fs_free fs d' \<and> sectors_needed n \<le> NumDirect
          \<longrightarrow> (\<exists>d''. FileSystem_Create u d' fs name n = Inr (d'', True)))"
proof (cases "fs_files fs d (key name) = None")
  case True
  from Remove_none [OF assms True] show ?thesis
    using True fs_inv_same(1) [OF _ _ assms(1)] by (metis (no_types))
next
  case False
  obtain d' where d': "FileSystem_Remove u d fs name = Inr (d', True)" "fs_inv fs d'"
      "fs_files fs d' = (fs_files fs d)(key name := None)" "\<not> dir_full (fs_dir fs d')"
    using Remove_ok [OF assms False] by blast
  have "\<exists>d''. FileSystem_Create u d' fs name n = Inr (d'', True)"
    if "0 \<le> n" "int_range n" "sectors_needed n < fs_free fs d'" "sectors_needed n \<le> NumDirect" for n
    using Create_ok [OF d'(2) assms(2,3) that(1,2) _ d'(4) that(3,4)] d'(3) by (metis fun_upd_same)
  with d' False show ?thesis by auto
qed

text \<open>C15, on a formatted disk.\<close>

theorem FileSystem_Remove_spec_witness:
  "\<exists>d fs d' d''. FileSystem_new blank_memory blank_disk True = Inr (d, fs)
    \<and> FileSystem_Create blank_memory d fs [104, 105] 300 = Inr (d', True)
    \<and> FileSystem_Remove blank_memory d' fs [104, 105] = Inr (d'', True) \<and> fs_files fs d'' = Map.empty"
proof -
  have n: "sectors_needed 300 = 3" "key [104, 105] = [104, 105 :: byte]" "(0::byte) \<notin> set [104, 105]"
    by (simp_all add: sectors_needed_def divRoundUp_def SectorSize_def key_def FileNameMaxLen_def)
  obtain d fs where f: "FileSystem_format blank_memory blank_disk = Inr (d, fs)" "fs_inv fs d"
      "fs_files fs d = Map.empty" "\<not> dir_full (fs_dir fs d)" "1000 < fs_free fs d"
    using format_ok [OF blank_wf] by blast
  have "0 \<le> (300::int)" "int_range 300" "fs_files fs d (key [104, 105]) = None" "sectors_needed 300 < fs_free fs d"
      "sectors_needed 300 \<le> NumDirect" using f n by (auto simp: int_range_def)
  then obtain d' data where c: "FileSystem_Create blank_memory d fs [104, 105] 300 = Inr (d', True)" "fs_inv fs d'"
      "fs_files fs d' = [[104, 105] \<mapsto> data]"
    using Create_ok [OF f(2) blank_wf(2) n(3) _ _ _ f(4)] f(3) n(2) by metis
  then obtain d'' where "FileSystem_Remove blank_memory d' fs [104, 105] = Inr (d'', True)" "fs_files fs d'' = Map.empty"
    using FileSystem_Remove_spec [OF c(2) blank_wf(2) n(3)] n(2) by auto
  then show ?thesis using f(1) c(1) by (auto simp: FileSystem_new_def)
qed

text \<open>
  \<open>Open\<close> finds a file by its name, and writing through the handle is writing to that file
  and to no other: the contents that belong to the name are replaced in the range that is
  written, and the disk stays consistent.
\<close>

theorem FileSystem_Open_write:
  assumes "fs_inv fs d" "uninit_wf u" "0 \<notin> set name" "0 \<le> position" "int_range (position + n)" "n \<le> int (length from)"
  shows "case fs_files fs d (key name) of
      None \<Rightarrow> \<exists>d'. FileSystem_Open u d fs name = Inr (d', None) \<and> sectors d' = sectors d
    | Some data \<Rightarrow> \<exists>d1 f d2 r. FileSystem_Open u d fs name = Inr (d1, Some f) \<and> sectors d1 = sectors d
        \<and> seekPosition f = 0 \<and> file_data (sectors d1) (hdr f) = data
        \<and> WriteAt junk d1 (hdr f) from n position = Inr (d2, r) \<and> fs_inv fs d2
        \<and> fs_files fs d2 = (fs_files fs d)(key name \<mapsto>
            overlay data (nat position) (take (nat (min n (OpenFile_Length f - position))) from))"
proof -
  obtain d1 where d1: "synch_wf d1" "sectors d1 = sectors d"
      "FileSystem_Open u d fs name = Inr (d1, map_option (\<lambda>s. \<lparr>hdr = hdr_of (sectors d (nat s)), seekPosition = 0\<rparr>)
         (dir_map (fs_dir fs d) (key name)))"
      "\<forall>s. dir_map (fs_dir fs d) (key name) = Some s \<longrightarrow> file_wf (hdr_of (sectors d (nat s)))"
    using Open_ok [OF assms(1-3)] by blast
  show ?thesis
  proof (cases "dir_map (fs_dir fs d) (key name)")
    case None
    then show ?thesis using d1 by (auto simp: fs_files_def)
  next
    case (Some s)
    define h where "h = hdr_of (sectors d (nat s))"
    have h: "file_wf h" using d1(4) Some by (simp add: h_def)
    obtain d2 where d2: "WriteAt junk d1 h from n position
          = Inr (d2, int (length (take (nat (min n (hdrBytes h - position))) from)))" "synch_wf d2"
        "\<forall>s. s \<notin> set (file_sectors h) \<longrightarrow> sectors d2 s = sectors d s"
        "file_data (sectors d2) h = overlay (file_data (sectors d) h) (nat position) (take (nat (min n (hdrBytes h - position))) from)"
      using WriteAt_ok [OF d1(1) h assms(4-6), of junk] d1(2) by metis
    note w = write_keeps_inv [OF assms(1) d2(2) Some h_def d2(3)]
    have "fs_files fs d (key name) = Some (file_data (sectors d) h)" by (simp add: fs_files_def Some h_def)
    then show ?thesis using d1(2,3) Some d2(1,4) w
      by (auto simp: h_def OpenFile_Length_def FileLength_def)
  qed
qed

text \<open>Five bytes at the beginning of a new file.\<close>

theorem FileSystem_Open_write_witness:
  "\<exists>d fs d' d1 f d2 r data. FileSystem_Create blank_memory d fs [104, 105] 300 = Inr (d', True)
    \<and> FileSystem_Open blank_memory d' fs [104, 105] = Inr (d1, Some f)
    \<and> WriteAt (\<lambda>_. 0) d1 (hdr f) [1, 2, 3, 4, 5] 5 0 = Inr (d2, r) \<and> length data = 300
    \<and> fs_files fs d2 = [[104, 105] \<mapsto> overlay data 0 (take (nat (min 5 (OpenFile_Length f))) [1, 2, 3, 4, 5])]"
proof -
  have n: "sectors_needed 300 = 3" "key [104, 105] = [104, 105 :: byte]" "(0::byte) \<notin> set [104, 105]"
    by (simp_all add: sectors_needed_def divRoundUp_def SectorSize_def key_def FileNameMaxLen_def)
  obtain d fs where f: "FileSystem_format blank_memory blank_disk = Inr (d, fs)" "fs_inv fs d"
      "fs_files fs d = Map.empty" "\<not> dir_full (fs_dir fs d)" "1000 < fs_free fs d"
    using format_ok [OF blank_wf] by blast
  have "0 \<le> (300::int)" "int_range 300" "fs_files fs d (key [104, 105]) = None" "sectors_needed 300 < fs_free fs d"
      "sectors_needed 300 \<le> NumDirect" using f n by (auto simp: int_range_def)
  then obtain d' data where c: "FileSystem_Create blank_memory d fs [104, 105] 300 = Inr (d', True)" "fs_inv fs d'"
      "fs_files fs d' = [[104, 105] \<mapsto> data]" "length data = nat 300"
    using Create_ok [OF f(2) blank_wf(2) n(3) _ _ _ f(4)] f(3) n(2) by metis
  have "int_range (0 + 5)" by (simp add: int_range_def)
  then obtain d1 f d2 r where w: "FileSystem_Open blank_memory d' fs [104, 105] = Inr (d1, Some f)" "sectors d1 = sectors d'"
      "file_data (sectors d1) (hdr f) = data" "WriteAt (\<lambda>_. 0) d1 (hdr f) [1, 2, 3, 4, 5] 5 0 = Inr (d2, r)"
      "fs_files fs d2 = [[104, 105] \<mapsto> overlay data 0 (take (nat (min 5 (OpenFile_Length f))) [1, 2, 3, 4, 5])]"
    using FileSystem_Open_write [OF c(2) blank_wf(2) n(3), of 0 5 "[1, 2, 3, 4, 5]" "\<lambda>_. 0"] c(3) n(2) by auto
  show ?thesis
    by (intro exI [of _ d] exI [of _ fs] exI [of _ d'] exI [of _ d1] exI [of _ f] exI [of _ d2] exI [of _ r] exI [of _ data])
      (simp add: c(1,4) w(1,4,5))
qed

end
