(* ===== verification/Exception.thy ===== *)
theory Exception
  imports AddrSpace FileSys
begin

text \<open>
  Entry of user programs into the kernel (\<^verbatim>\<open>code/userprog/exception.cc\<close>, \<^verbatim>\<open>ksyscall.h\<close>):
  the system calls and the handler of page faults. The file service and the calls of the
  host system (\<open>write\<close>, \<open>read\<close>, \<open>fork\<close>, \<open>waitpid\<close>) are arguments; their state is the part
  \<open>machine.more\<close> of the state.
\<close>

section \<open>Page faults\<close>

text \<open>An access to a page table with an index of type \<open>int\<close>.\<close>

definition table_at :: "'a machine_scheme \<Rightarrow> table_ptr \<Rightarrow> int \<Rightarrow> translation_entry res" where
  "table_at m t i = (if i < 0 then Inl Undefined else table_get m t (nat i))"

text \<open>Where in the file the byte of a virtual address is: code, initialised data, read-only data.\<close>

definition fault_pos :: "int32 list \<Rightarrow> int \<Rightarrow> int option" where
  "fault_pos fa vAddr =
     (let cVir = sint (fa ! 0); cSize = sint (fa ! 1); cIn = sint (fa ! 2);
          dVir = sint (fa ! 3); dSize = sint (fa ! 4); dIn = sint (fa ! 5);
          roVir = sint (fa ! 6); roSize = sint (fa ! 7); roIn = sint (fa ! 8) in
      if vAddr \<ge> cVir \<and> vAddr < cVir + cSize then Some (cIn + vAddr - cVir)
      else if vAddr \<ge> dVir \<and> vAddr < dVir + dSize then Some (dIn + vAddr - dVir)
      else if vAddr \<ge> roVir \<and> vAddr < roVir + roSize then Some (roIn + vAddr - roVir)
      else None)"

primrec PageFault_load ::
    "('d \<Rightarrow> 'f \<Rightarrow> int \<Rightarrow> int \<Rightarrow> ('d \<times> byte list) res) \<Rightarrow> 'f \<Rightarrow> int32 list \<Rightarrow> int \<Rightarrow> int \<Rightarrow> int list
     \<Rightarrow> 'd machine_scheme \<Rightarrow> 'd machine_scheme res" where
  "PageFault_load rd f fa vpn phy [] m = Inr m"
| "PageFault_load rd f fa vpn phy (i # is) m =
     (let vAddr = vpn * int PageSize + i; pAddr = phy * int PageSize + i in
      case fault_pos fa vAddr of
        None \<Rightarrow> PageFault_load rd f fa vpn phy is m
      | Some pos \<Rightarrow>
          bindR (rd (machine.more m) f 1 pos) (\<lambda>(d, bs).
          let m = m\<lparr>machine.more := d\<rparr> in
          if bs = [] then PageFault_load rd f fa vpn phy is m
          else if 0 \<le> pAddr \<and> pAddr < int MemorySize
          then PageFault_load rd f fa vpn phy is (m\<lparr>mainMemory := (mainMemory m)(nat pAddr := hd bs)\<rparr>)
          else Inl Undefined))"

text \<open>The bytes of a frame.\<close>

definition frame_bytes :: "(nat \<Rightarrow> byte) \<Rightarrow> nat \<Rightarrow> byte list" where
  "frame_bytes mem phy = map (\<lambda>k. mem (phy * PageSize + k)) [0..<PageSize]"

text \<open>The victim of a replacement, its page written back to the file if it is dirty: the frame and the page number.\<close>

definition PageFault_evict ::
    "('d \<Rightarrow> string \<Rightarrow> ('d \<times> 'f option) res) \<Rightarrow> ('d \<Rightarrow> 'f \<Rightarrow> byte list \<Rightarrow> int \<Rightarrow> 'd res) \<Rightarrow> ('d \<Rightarrow> 'f \<Rightarrow> 'd res)
     \<Rightarrow> 'd machine_scheme \<Rightarrow> ('d machine_scheme \<times> nat \<times> int) res" where
  "PageFault_evict opn wr cls m =
     bindR (findFreeByLRU m) (\<lambda>phy.
     let vir = sint (VirNum (GlobalPageTable m phy)) in
     case RefPageTable (GlobalPageTable m phy) of None \<Rightarrow> Inl Undefined
     | Some t \<Rightarrow>
         bindR (table_at m t vir) (\<lambda>e.
         bindR (opn (machine.more m) (DiskFile e)) (\<lambda>(d, out_file).
         let m = m\<lparr>machine.more := d\<rparr> in
         case out_file of None \<Rightarrow> Inl AssertFailed
         | Some f \<Rightarrow>
             bindR (if dirty e
                    then wr (machine.more m) f (frame_bytes (mainMemory m) phy) (sint (virtualPage e) * int PageSize)
                    else Inr (machine.more m)) (\<lambda>d.
             bindR (cls d f) (\<lambda>d. Inr (m\<lparr>machine.more := d\<rparr>, phy, vir))))))"

text \<open>
  The tables after the page has been loaded. \<open>vir\<close> has no value when a free frame was found;
  then it is used without having been assigned.
\<close>

definition PageFault_update :: "table_ptr \<Rightarrow> int \<Rightarrow> nat \<Rightarrow> int option \<Rightarrow> 'd machine_scheme \<Rightarrow> 'd machine_scheme res" where
  "PageFault_update pt vpn phy vir m =
     (case vir of None \<Rightarrow> Inl Undefined
      | Some vir \<Rightarrow>
          bindR (case RefPageTable (GlobalPageTable m phy) of None \<Rightarrow> Inr m
                 | Some t \<Rightarrow> bindR (table_at m t vir) (\<lambda>e. Inr (table_set m t (nat vir) (e\<lparr>valid := False\<rparr>)))) (\<lambda>m.
          bindR (table_at m pt vpn) (\<lambda>e.
          let m = m\<lparr>GlobalPageTable := (GlobalPageTable m)(phy := \<lparr>VirNum = virtualPage e, useStamp = 0, RefPageTable = Some pt\<rparr>)\<rparr> in
          Inr (table_set m pt (nat vpn)
            (e\<lparr>physicalPage := of_nat phy, valid := True, use := False, dirty := False, readOnly := False\<rparr>)))))"

definition PageFault ::
    "('d \<Rightarrow> string \<Rightarrow> ('d \<times> 'f option) res) \<Rightarrow> ('d \<Rightarrow> 'f \<Rightarrow> int \<Rightarrow> int \<Rightarrow> ('d \<times> byte list) res)
     \<Rightarrow> ('d \<Rightarrow> 'f \<Rightarrow> byte list \<Rightarrow> int \<Rightarrow> 'd res) \<Rightarrow> ('d \<Rightarrow> 'f \<Rightarrow> 'd res) \<Rightarrow> 'd machine_scheme \<Rightarrow> 'd machine_scheme res" where
  "PageFault opn rd wr cls m =
     bindR (ReadRegister m (int BadVAddrReg)) (\<lambda>virAddr.
     let vpn = sint virAddr sdiv int PageSize;
         (m, phy) = findFreeFrame m (word_of_int vpn) (pageTable m) in
     bindR (if phy = -1 then bindR (PageFault_evict opn wr cls m) (\<lambda>(m, phy, vir). Inr (m, phy, Some vir))
            else Inr (m, unat phy, None)) (\<lambda>(m, phy, vir).
     case pageTable m of None \<Rightarrow> Inl Undefined
     | Some pt \<Rightarrow>
         bindR (table_at m pt vpn) (\<lambda>e.
         bindR (opn (machine.more m) (DiskFile e)) (\<lambda>(d, in_file).
         let m = m\<lparr>machine.more := d\<rparr> in
         case in_file of None \<Rightarrow> Inl AssertFailed
         | Some f \<Rightarrow>
             if length (FileAddr m) < 9 then Inl Undefined else
             bindR (PageFault_load rd f (FileAddr m) vpn (int phy) (map int [0..<PageSize]) m) (\<lambda>m.
             bindR (PageFault_update pt vpn phy vir m) (\<lambda>m.
             bindR (cls (machine.more m) f) (\<lambda>d. Inr (m\<lparr>machine.more := d\<rparr>))))))))"

section \<open>System calls\<close>

abbreviation (input) SC_Halt :: int32 where "SC_Halt \<equiv> 0"
abbreviation (input) SC_Exec :: int32 where "SC_Exec \<equiv> 2"
abbreviation (input) SC_Join :: int32 where "SC_Join \<equiv> 3"
abbreviation (input) SC_Read :: int32 where "SC_Read \<equiv> 7"
abbreviation (input) SC_Write :: int32 where "SC_Write \<equiv> 8"
abbreviation (input) SC_Add :: int32 where "SC_Add \<equiv> 42"

text \<open>The host system: \<open>write\<close>, \<open>read\<close> (to an address of the simulator's own memory), \<open>fork\<close> and \<open>waitpid\<close>.\<close>

record 'd host =
  host_write :: "'d \<Rightarrow> int32 \<Rightarrow> byte list \<Rightarrow> 'd \<times> int32"
  host_read :: "'d \<Rightarrow> int32 \<Rightarrow> int32 \<Rightarrow> int32 \<Rightarrow> 'd \<times> int32"
  host_fork :: "'d \<Rightarrow> 'd \<times> int32"
  host_waitpid :: "'d \<Rightarrow> int32 \<Rightarrow> 'd \<times> int32"

definition incrementPC :: "'a machine_scheme \<Rightarrow> 'a machine_scheme res" where
  "incrementPC m =
     bindR (ReadRegister m (int PCReg)) (\<lambda>v. bindR (WriteRegister m (int PrevPCReg) v) (\<lambda>m.
     bindR (ReadRegister m (int NextPCReg)) (\<lambda>v. bindR (WriteRegister m (int PCReg) v) (\<lambda>m.
     bindR (ReadRegister m (int NextPCReg)) (\<lambda>v. WriteRegister m (int NextPCReg) (v + 4))))))"

definition SysAdd :: "int32 \<Rightarrow> int32 \<Rightarrow> int32" where
  "SysAdd op1 op2 = op1 + op2"

text \<open>
  The loop of \<open>SysWrite\<close>: \<open>buffer\<close> has 128 bytes, \<open>count\<close> is also incremented when it is 127,
  so that the loop then stores a byte behind the array.
\<close>

function SysWrite_loop :: "'a handler \<Rightarrow> 'a machine_scheme \<Rightarrow> int32 \<Rightarrow> byte list \<Rightarrow> nat \<Rightarrow> ('a machine_scheme \<times> byte list) res" where
  "SysWrite_loop h m buf buffer cnt =
     bindR (ReadMem h m buf 1) (\<lambda>(m, r).
     case r of None \<Rightarrow> Inl Undefined
     | Some ch \<Rightarrow>
         if cnt < length buffer then
           let buffer = buffer[cnt := ucast ch] in
           if ch \<noteq> 0 \<and> cnt \<le> 127 then SysWrite_loop h m (buf + 1) buffer (cnt + 1)
           else Inr (m, buffer)
         else Inl Undefined)"
  by pat_completeness auto

termination
  by (relation "measure (\<lambda>(h, m, buf, buffer, cnt). 128 - cnt)") auto

declare SysWrite_loop.simps [simp del]

definition SysWrite :: "'d host \<Rightarrow> byte list \<Rightarrow> 'd handler \<Rightarrow> 'd machine_scheme \<Rightarrow> int32 \<Rightarrow> int32 \<Rightarrow> int32
    \<Rightarrow> ('d machine_scheme \<times> int32) res" where
  "SysWrite os fresh h m buf sz fileId =
     bindR (SysWrite_loop h m buf fresh 0) (\<lambda>(m, buffer).
     if unat sz \<le> length buffer
     then let (d, r) = host_write os (machine.more m) fileId (take (unat sz) buffer) in Inr (m\<lparr>machine.more := d\<rparr>, r)
     else Inl Undefined)"

definition SysRead :: "'d host \<Rightarrow> 'd machine_scheme \<Rightarrow> int32 \<Rightarrow> int32 \<Rightarrow> int32 \<Rightarrow> 'd machine_scheme \<times> int32" where
  "SysRead os m buffer sz fileId = (let (d, r) = host_read os (machine.more m) fileId buffer sz in (m\<lparr>machine.more := d\<rparr>, r))"

definition SysJoin :: "'d host \<Rightarrow> 'd machine_scheme \<Rightarrow> int32 \<Rightarrow> 'd machine_scheme \<times> int32" where
  "SysJoin os m child = (let (d, r) = host_waitpid os (machine.more m) child in (m\<lparr>machine.more := d\<rparr>, r))"

text \<open>\<open>pid\<close> is the truth value of \<open>fork() == 0\<close>; the child leaves the simulator.\<close>

definition SysExec :: "'d host \<Rightarrow> 'd machine_scheme \<Rightarrow> ('d machine_scheme \<times> int32) res" where
  "SysExec os m =
     (let (d, r) = host_fork os (machine.more m); m = m\<lparr>machine.more := d\<rparr>;
          pid = (if r = 0 then 1 else 0 :: int32) in
      if pid \<noteq> 0 then Inl Halted
      else if pid = 1 then Inr (m, pid) else Inr (m, -1))"

text \<open>The part of the handler for all exceptions but system calls; \<open>SysWrite\<close> reaches it through \<open>ReadMem\<close>.\<close>

definition fault_handler ::
    "('d \<Rightarrow> string \<Rightarrow> ('d \<times> 'f option) res) \<Rightarrow> ('d \<Rightarrow> 'f \<Rightarrow> int \<Rightarrow> int \<Rightarrow> ('d \<times> byte list) res)
     \<Rightarrow> ('d \<Rightarrow> 'f \<Rightarrow> byte list \<Rightarrow> int \<Rightarrow> 'd res) \<Rightarrow> ('d \<Rightarrow> 'f \<Rightarrow> 'd res) \<Rightarrow> 'd handler" where
  "fault_handler opn rd wr cls which m =
     (if which = PageFaultException then PageFault opn rd wr cls m else Inl AssertFailed)"

definition Add_return :: "'a machine_scheme \<Rightarrow> 'a machine_scheme res" where
  "Add_return m =
     bindR (ReadRegister m (int PCReg)) (\<lambda>v. bindR (WriteRegister m (int PrevPCReg) v) (\<lambda>m.
     bindR (ReadRegister m (int PCReg)) (\<lambda>v. bindR (WriteRegister m (int PCReg) (v + 4)) (\<lambda>m.
     bindR (ReadRegister m (int PCReg)) (\<lambda>v. WriteRegister m (int NextPCReg) (v + 4))))))"

definition ExceptionHandler ::
    "('d \<Rightarrow> string \<Rightarrow> ('d \<times> 'f option) res) \<Rightarrow> ('d \<Rightarrow> 'f \<Rightarrow> int \<Rightarrow> int \<Rightarrow> ('d \<times> byte list) res)
     \<Rightarrow> ('d \<Rightarrow> 'f \<Rightarrow> byte list \<Rightarrow> int \<Rightarrow> 'd res) \<Rightarrow> ('d \<Rightarrow> 'f \<Rightarrow> 'd res) \<Rightarrow> 'd host \<Rightarrow> byte list \<Rightarrow> 'd handler" where
  "ExceptionHandler opn rd wr cls os fresh which m =
     bindR (ReadRegister m 2) (\<lambda>type.
     if which = SyscallException then
       bindR (ReadRegister m 4) (\<lambda>r4. bindR (ReadRegister m 5) (\<lambda>r5. bindR (ReadRegister m 6) (\<lambda>r6.
       if type = SC_Halt then Inl Halted
       else if type = SC_Add then bindR (WriteRegister m 2 (SysAdd r4 r5)) Add_return
       else if type = SC_Write then
         bindR (SysWrite os fresh (fault_handler opn rd wr cls) m r4 r5 r6) (\<lambda>(m, r). bindR (WriteRegister m 2 r) incrementPC)
       else if type = SC_Read then
         (let (m, r) = SysRead os m r4 r5 r6 in bindR (WriteRegister m 2 r) incrementPC)
       else if type = SC_Exec then
         bindR (SysExec os m) (\<lambda>(m, r). bindR (WriteRegister m 2 r) incrementPC)
       else if type = SC_Join then
         (let (m, r) = SysJoin os m r4 in bindR (WriteRegister m 2 r) incrementPC)
       else Inl AssertFailed)))
     else fault_handler opn rd wr cls which m)"

section \<open>The file service of the handler\<close>

text \<open>A write changes one file, in a way that depends on whether files can grow, and keeps the set of files.\<close>

locale program_files = readable_files opn rd cls inv okname contents handle
  for opn :: "'d \<Rightarrow> string \<Rightarrow> ('d \<times> 'f option) res"
    and rd :: "'d \<Rightarrow> 'f \<Rightarrow> int \<Rightarrow> int \<Rightarrow> ('d \<times> byte list) res"
    and cls :: "'d \<Rightarrow> 'f \<Rightarrow> 'd res"
    and inv :: "'d \<Rightarrow> bool"
    and okname :: "string \<Rightarrow> bool"
    and contents :: "'d \<Rightarrow> string \<Rightarrow> byte list option"
    and handle :: "'d \<Rightarrow> 'f \<Rightarrow> string \<Rightarrow> bool" +
  fixes wr :: "'d \<Rightarrow> 'f \<Rightarrow> byte list \<Rightarrow> int \<Rightarrow> 'd res"
    and written :: "byte list \<Rightarrow> nat \<Rightarrow> byte list \<Rightarrow> byte list"
  assumes wr_ok: "inv d \<Longrightarrow> handle d f n \<Longrightarrow> contents d n = Some bs \<Longrightarrow> 0 \<le> pos \<Longrightarrow> int_range (pos + int (length ys)) \<Longrightarrow>
      \<exists>d'. wr d f ys pos = Inr d' \<and> inv d' \<and> handle d' f n
        \<and> (\<forall>x. contents d' x = None \<longleftrightarrow> contents d x = None) \<and> contents d' n = Some (written bs (nat pos) ys)"

section \<open>Loading a page\<close>

definition fa_ok :: "int32 list \<Rightarrow> bool" where
  "fa_ok fa \<longleftrightarrow> length fa = 9 \<and> (\<forall>(s, p)\<in>{(1, 2), (4, 5), (7, 8)}. sint (fa ! s) > 0 \<longrightarrow>
     0 \<le> sint (fa ! p) \<and> int_range (sint (fa ! p) + sint (fa ! s)))"

lemma prog_fa_ok: "prog_ok h \<Longrightarrow> fa_ok (file_addr h)"
  by (auto simp: fa_ok_def file_addr_def prog_ok_def seg_ok_def)

lemma fault_pos_range:
  assumes "fa_ok fa" "fault_pos fa v = Some pos"
  shows "0 \<le> pos" "int_range (pos + 1)"
proof -
  have r: "0 \<le> sint (fa ! p) \<and> int_range (sint (fa ! p) + sint (fa ! s))"
    if "(k, s, p) \<in> {(0, 1, 2), (3, 4, 5), (6, 7, 8)}" "sint (fa ! k) \<le> v" "v < sint (fa ! k) + sint (fa ! s)" for k s p
  proof -
    have "sint (fa ! s) > 0" using that by linarith
    with assms(1) that(1) show ?thesis unfolding fa_ok_def by auto
  qed
  have "0 \<le> pos \<and> int_range (pos + 1)"
    using assms(2) r [of 0 1 2] r [of 3 4 5] r [of 6 7 8]
    by (auto simp: fault_pos_def Let_def int_range_def split: if_splits)
  then show "0 \<le> pos" "int_range (pos + 1)" by auto
qed

text \<open>The byte that the handler puts at a virtual address, and a frame after some of its bytes have been put.\<close>

definition fault_byte :: "int32 list \<Rightarrow> byte list \<Rightarrow> nat \<Rightarrow> byte option" where
  "fault_byte fa file va = (case fault_pos fa (int va) of None \<Rightarrow> None
     | Some pos \<Rightarrow> if nat pos < length file then Some (file ! nat pos) else None)"

definition page_mem :: "(nat \<Rightarrow> byte option) \<Rightarrow> nat \<Rightarrow> nat set \<Rightarrow> (nat \<Rightarrow> byte) \<Rightarrow> nat \<Rightarrow> byte" where
  "page_mem B phy S mem = (\<lambda>q. if q div PageSize = phy \<and> q mod PageSize \<in> S
     then (case B (q mod PageSize) of Some b \<Rightarrow> b | None \<Rightarrow> mem q) else mem q)"

lemma page_mem_empty [simp]: "page_mem B phy {} mem = mem"
  by (simp add: page_mem_def)

lemma page_mem_insert: "page_mem B phy S (page_mem B phy {i} mem) = page_mem B phy (insert i S) mem"
  by (auto simp: page_mem_def fun_eq_iff split: option.splits)

lemma page_mem_one:
  assumes "i < PageSize"
  shows "page_mem B phy {i} mem = (case B i of Some b \<Rightarrow> mem(phy * PageSize + i := b) | None \<Rightarrow> mem)"
proof -
  have "q div PageSize = phy \<and> q mod PageSize = i \<longleftrightarrow> q = phy * PageSize + i" for q
    using assms by (metis PageSize_def div_mult_mod_eq div_mult_self3 mod_mult_self3 add.commute div_less mod_less
        add_0_right zero_neq_numeral)
  then show ?thesis using assms by (auto simp: page_mem_def fun_eq_iff split: option.splits)
qed

context program_files
begin

lemma PageFault_load_ok:
  assumes "inv (machine.more m)" "handle (machine.more m) f n" "contents (machine.more m) n = Some file"
    "fa_ok fa" "phy < NumPhysPages" "\<forall>i\<in>set is. i < PageSize"
  shows "\<exists>d. PageFault_load rd f fa (int vpn) (int phy) (map int is) m = Inr (m\<lparr>machine.more := d,
      mainMemory := page_mem (\<lambda>i. fault_byte fa file (vpn * PageSize + i)) phy (set is) (mainMemory m)\<rparr>)
    \<and> inv d \<and> contents d = contents (machine.more m) \<and> handle d f n"
  using assms
proof (induction "is" arbitrary: m)
  case Nil
  then show ?case by (intro exI [of _ "machine.more m"]) simp
next
  case (Cons i "is")
  let ?B = "\<lambda>i. fault_byte fa file (vpn * PageSize + i)"
  have ia: "int vpn * int PageSize + int i = int (vpn * PageSize + i)" "int phy * int PageSize + int i = int (phy * PageSize + i)"
    by simp_all
  have lt: "phy * PageSize + i < MemorySize" using Cons.prems(5,6) by (simp add: page_defs)
  note one = page_mem_one [of i ?B phy "mainMemory m"]
  show ?case
  proof (cases "fault_pos fa (int (vpn * PageSize + i))")
    case None
    then have "?B i = None" by (simp add: fault_byte_def)
    then have mem: "page_mem ?B phy (set (i # is)) (mainMemory m) = page_mem ?B phy (set is) (mainMemory m)"
      using page_mem_insert [of ?B phy "set is" i "mainMemory m"] one Cons.prems(6) by simp
    from None have "PageFault_load rd f fa (int vpn) (int phy) (map int (i # is)) m = PageFault_load rd f fa (int vpn) (int phy) (map int is) m"
      by (simp add: ia Let_def del: of_nat_add of_nat_mult)
    with Cons.IH [OF Cons.prems(1-5)] Cons.prems(6) show ?thesis unfolding mem by simp
  next
    case (Some pos)
    obtain d where d: "rd (machine.more m) f 1 pos = Inr (d, take (nat 1) (drop (nat pos) file))"
        "inv d" "contents d = contents (machine.more m)" "handle d f n"
      using rd_ok [OF Cons.prems(1-3) fault_pos_range(1) [OF Cons.prems(4) Some], of 1] fault_pos_range(2) [OF Cons.prems(4) Some] by auto
    let ?m = "m\<lparr>machine.more := d, mainMemory := page_mem ?B phy {i} (mainMemory m)\<rparr>"
    have "?B i = (if nat pos < length file then Some (file ! nat pos) else None)" unfolding fault_byte_def Some by simp
    then have "PageFault_load rd f fa (int vpn) (int phy) (map int (i # is)) m = PageFault_load rd f fa (int vpn) (int phy) (map int is) ?m"
      using Some lt one Cons.prems(6)
      by (cases "nat pos < length file") (simp_all add: ia Let_def d(1) take_1_drop hd_drop_conv_nth del: of_nat_add of_nat_mult)
    moreover have "\<exists>d'. PageFault_load rd f fa (int vpn) (int phy) (map int is) ?m = Inr (?m\<lparr>machine.more := d',
        mainMemory := page_mem ?B phy (set is) (mainMemory ?m)\<rparr>) \<and> inv d' \<and> contents d' = contents (machine.more ?m) \<and> handle d' f n"
      by (rule Cons.IH) (use Cons.prems d in auto)
    ultimately show ?thesis using d(3) by (simp add: page_mem_insert)
  qed
qed

end

section \<open>Serving a page fault\<close>

text \<open>
  The state in which the handler works: frames and page tables agree, every page table has
  its full length with its pages in order and a program file for each page, and the entry of a
  frame in use names an existing page.
\<close>

definition paging :: "('d \<Rightarrow> string \<Rightarrow> bool) \<Rightarrow> 'd machine_scheme \<Rightarrow> bool" where
  "paging okfile m \<longleftrightarrow> frames_wf m \<and> fa_ok (FileAddr m)
     \<and> (\<exists>pt. pageTable m = Some pt \<and> tables m pt \<noteq> None)
     \<and> (\<forall>t es. tables m t = Some es \<longrightarrow> length es = NumPhysPages
          \<and> (\<forall>i<NumPhysPages. virtualPage (es ! i) = of_nat i \<and> okfile (machine.more m) (DiskFile (es ! i))))
     \<and> (\<forall>f<NumPhysPages. \<forall>t. RefPageTable (GlobalPageTable m f) = Some t \<longrightarrow>
          tables m t \<noteq> None \<and> unat (VirNum (GlobalPageTable m f)) < NumPhysPages)"

text \<open>Page \<open>v\<close> of table \<open>t\<close> loses frame \<open>k\<close> and page \<open>p\<close> of table \<open>pt\<close> gets it.\<close>

definition moved :: "table_ptr \<Rightarrow> nat \<Rightarrow> table_ptr \<Rightarrow> nat \<Rightarrow> nat \<Rightarrow> (table_ptr \<rightharpoonup> translation_entry list) \<Rightarrow> table_ptr \<rightharpoonup> translation_entry list" where
  "moved t v pt p k T =
     (let T = T(t := map_option (\<lambda>es. es[v := (es ! v)\<lparr>valid := False\<rparr>]) (T t)) in
      T(pt := map_option (\<lambda>es. es[p := (es ! p)\<lparr>physicalPage := of_nat k, valid := True, use := False, dirty := False, readOnly := False\<rparr>]) (T pt)))"

lemma moved_Some:
  assumes "moved t v pt p k T x = Some es'" "v < NumPhysPages" "p < NumPhysPages" "\<forall>x es. T x = Some es \<longrightarrow> length es = NumPhysPages"
  obtains es where "T x = Some es" "length es' = length es" "length es = NumPhysPages"
    "\<forall>i<NumPhysPages. virtualPage (es' ! i) = virtualPage (es ! i) \<and> DiskFile (es' ! i) = DiskFile (es ! i)"
    "\<forall>i<NumPhysPages. (x, i) \<noteq> (pt, p) \<longrightarrow> physicalPage (es' ! i) = physicalPage (es ! i)
       \<and> (valid (es' ! i) \<longleftrightarrow> valid (es ! i) \<and> (x, i) \<noteq> (t, v))"
    "x = pt \<Longrightarrow> valid (es' ! p) \<and> physicalPage (es' ! p) = of_nat k \<and> \<not> readOnly (es' ! p) \<and> \<not> dirty (es' ! p)"
proof -
  obtain es where es: "T x = Some es" using assms(1) by (auto simp: moved_def Let_def split: if_splits)
  then have len: "length es = NumPhysPages" using assms(4) by blast
  have es': "es' = (let e1 = (if x = t then es[v := (es ! v)\<lparr>valid := False\<rparr>] else es) in
      if x = pt then e1[p := (e1 ! p)\<lparr>physicalPage := of_nat k, valid := True, use := False, dirty := False, readOnly := False\<rparr>] else e1)"
    using assms(1) es by (auto simp: moved_def Let_def split: if_splits)
  show ?thesis
    by (rule that [OF es _ len]) (use es' len assms(2,3) in \<open>auto simp: Let_def nth_list_update split: if_splits\<close>)
qed

lemma moved_wf:
  assumes wf: "frames_wf m" and len: "\<forall>x es. tables m x = Some es \<longrightarrow> length es = NumPhysPages"
    and k: "k < NumPhysPages" "owner m k = Some (t, v)" and v: "v < NumPhysPages" and p: "p < NumPhysPages"
    and m': "tables m' = moved t v pt p k (tables m)" "GlobalPageTable m' = (GlobalPageTable m)(k := g)"
      "RefPageTable g = Some pt" "unat (VirNum g) = p"
  shows "frames_wf m'"
  unfolding frames_wf_def
proof (intro allI impI, elim conjE)
  fix x es' i
  assume e: "tables m' x = Some es'" "i < length es'" "valid (es' ! i)" "physicalPage (es' ! i) \<noteq> -1"
  have own_k: "owner m' k = Some (pt, p)" by (simp add: owner_def m')
  obtain es where es: "tables m x = Some es" "length es' = length es" "length es = NumPhysPages"
    "\<forall>i<NumPhysPages. (x, i) \<noteq> (pt, p) \<longrightarrow> physicalPage (es' ! i) = physicalPage (es ! i)
       \<and> (valid (es' ! i) \<longleftrightarrow> valid (es ! i) \<and> (x, i) \<noteq> (t, v))"
    "x = pt \<Longrightarrow> valid (es' ! p) \<and> physicalPage (es' ! p) = of_nat k"
    using moved_Some [OF e(1) [unfolded m'(1)] v p len] by metis
  let ?f = "unat (physicalPage (es' ! i))"
  show "?f < NumPhysPages \<and> owner m' ?f = Some (x, i)"
  proof (cases "(x, i) = (pt, p)")
    case True
    then show ?thesis using es(5) own_k k(1) unat_of_nat_frame [OF k(1)] by simp
  next
    case False
    then have i: "i < length es" "physicalPage (es' ! i) = physicalPage (es ! i)" "valid (es ! i)" "(x, i) \<noteq> (t, v)"
      using es e(2,3) by auto
    have o: "?f < NumPhysPages" "owner m ?f = Some (x, i)"
      using frames_wfD [OF wf es(1) i(1,3)] e(4) i(2) by auto
    with k(2) i(4) have "?f \<noteq> k" by auto
    then have "owner m' ?f = owner m ?f" by (simp add: owner_def m'(2))
    with o show ?thesis by simp
  qed
qed

lemma table_at_in: "tables m t = Some es \<Longrightarrow> i < length es \<Longrightarrow> table_at m t (int i) = Inr (es ! i)"
  by (simp add: table_at_def table_get_def)

lemma PageFault_update_ok:
  assumes "RefPageTable (GlobalPageTable m k) = Some t" "tables m t = Some es" "v < length es"
    "tables m pt = Some es'" "p < length es'"
  shows "PageFault_update pt (int p) k (Some (int v)) m = Inr (m\<lparr>
    GlobalPageTable := (GlobalPageTable m)(k := \<lparr>VirNum = virtualPage (es' ! p), useStamp = 0, RefPageTable = Some pt\<rparr>),
    tables := moved t v pt p k (tables m)\<rparr>)"
proof -
  let ?m = "table_set m t v ((es ! v)\<lparr>valid := False\<rparr>)"
  define es2 where "es2 = (if pt = t then es[v := (es ! v)\<lparr>valid := False\<rparr>] else es')"
  have t2: "tables ?m pt = Some es2" "p < length es2" "virtualPage (es2 ! p) = virtualPage (es' ! p)"
    using assms by (auto simp: table_set_def es2_def nth_list_update)
  have "PageFault_update pt (int p) k (Some (int v)) m = Inr (table_set (?m\<lparr>GlobalPageTable := (GlobalPageTable ?m)
      (k := \<lparr>VirNum = virtualPage (es2 ! p), useStamp = 0, RefPageTable = Some pt\<rparr>)\<rparr>) pt p
      ((es2 ! p)\<lparr>physicalPage := of_nat k, valid := True, use := False, dirty := False, readOnly := False\<rparr>))"
    using assms(1) table_at_in [OF assms(2,3)] table_at_in [OF t2(1,2)] by (simp add: PageFault_update_def Let_def)
  also have "\<dots> = Inr (m\<lparr>GlobalPageTable := (GlobalPageTable m)(k := \<lparr>VirNum = virtualPage (es' ! p), useStamp = 0, RefPageTable = Some pt\<rparr>),
      tables := moved t v pt p k (tables m)\<rparr>)"
    using t2 assms by (auto simp: table_set_def moved_def Let_def es2_def fun_eq_iff)
  finally show ?thesis .
qed

lemma length_frame_bytes [simp]: "length (frame_bytes mem k) = PageSize"
  by (simp add: frame_bytes_def)

context program_files
begin

lemma evict_ok:
  assumes inv: "inv (machine.more m)" and pg: "paging (\<lambda>d n. okname n \<and> contents d n \<noteq> None) m" and full: "frames_full m"
  obtains k t v es d where "findFreeByLRU m = Inr k" "k < NumPhysPages" "RefPageTable (GlobalPageTable m k) = Some t"
    "v = unat (VirNum (GlobalPageTable m k))" "v < NumPhysPages" "tables m t = Some es"
    "PageFault_evict opn wr cls m = Inr (m\<lparr>machine.more := d\<rparr>, k, int v)" "inv d"
    "\<forall>x. contents d x = None \<longleftrightarrow> contents (machine.more m) x = None"
    "\<not> dirty (es ! v) \<Longrightarrow> contents d = contents (machine.more m)"
    "dirty (es ! v) \<Longrightarrow> contents d (DiskFile (es ! v)) =
       map_option (\<lambda>bs. written bs (v * PageSize) (frame_bytes (mainMemory m) k))
         (contents (machine.more m) (DiskFile (es ! v)))"
proof -
  obtain k where k: "findFreeByLRU m = Inr k" "k < NumPhysPages"
    using frame_search [of m 0 None] full unfolding frames_full_def by blast
  obtain t where t: "RefPageTable (GlobalPageTable m k) = Some t" using full k(2) by (auto simp: frames_full_def)
  define v where "v = unat (VirNum (GlobalPageTable m k))"
  obtain es where es: "v < NumPhysPages" "tables m t = Some es" using pg k(2) t unfolding paging_def v_def by fastforce
  have e: "length es = NumPhysPages" "virtualPage (es ! v) = of_nat v" "okname (DiskFile (es ! v))"
      "contents (machine.more m) (DiskFile (es ! v)) \<noteq> None"
    using pg es unfolding paging_def by auto
  then obtain bs where bs: "contents (machine.more m) (DiskFile (es ! v)) = Some bs" by auto
  obtain d f where d: "opn (machine.more m) (DiskFile (es ! v)) = Inr (d, Some f)" "inv d"
      "contents d = contents (machine.more m)" "handle d f (DiskFile (es ! v))"
    using opn_some [OF inv e(3) bs] by blast
  have sv: "sint (VirNum (GlobalPageTable m k)) = int v" "sint (of_nat v :: int32) = int v"
    using es(1) unat_of_nat_frame [OF es(1)] by (simp_all add: v_def sint_eq_unat NumPhysPages_def)
  have start: "PageFault_evict opn wr cls m = bindR (if dirty (es ! v)
      then wr d f (frame_bytes (mainMemory m) k) (int v * int PageSize) else Inr d)
      (\<lambda>d. bindR (cls d f) (\<lambda>d. Inr (m\<lparr>machine.more := d\<rparr>, k, int v)))"
    using k t es e(1,2) d(1) table_at_in [OF es(2), of v] by (simp add: PageFault_evict_def sv Let_def)
  show ?thesis
  proof (cases "dirty (es ! v)")
    case False
    obtain d' where "cls d f = Inr d'" "inv d'" "contents d' = contents d" using cls_ok [OF d(2,4)] by blast
    then show ?thesis
      by (intro that [OF k t v_def es, of d']) (use False start d in simp_all)
  next
    case True
    have r: "0 \<le> int v * int PageSize" "int_range (int v * int PageSize + int (length (frame_bytes (mainMemory m) k)))"
      using es(1) by (simp_all add: int_range_def page_defs)
    have n: "nat (int v * int PageSize) = v * PageSize" by (simp flip: of_nat_mult)
    have "contents d (DiskFile (es ! v)) = Some bs" using d(3) bs by simp
    then obtain d' where d': "wr d f (frame_bytes (mainMemory m) k) (int v * int PageSize) = Inr d'" "inv d'" "handle d' f (DiskFile (es ! v))"
        "\<forall>x. contents d' x = None \<longleftrightarrow> contents d x = None"
        "contents d' (DiskFile (es ! v)) = Some (written bs (v * PageSize) (frame_bytes (mainMemory m) k))"
      using wr_ok [OF d(2,4) _ r] unfolding n by blast
    obtain d2 where "cls d' f = Inr d2" "inv d2" "contents d2 = contents d'" using cls_ok [OF d'(2,3)] by blast
    then show ?thesis
      by (intro that [OF k t v_def es, of d2]) (use True start d' d(3) bs in \<open>simp_all\<close>)
  qed
qed

lemma PageFault_served:
  assumes inv: "inv (machine.more m)" and pg: "paging (\<lambda>d n. okname n \<and> contents d n \<noteq> None) m" and full: "frames_full m"
    and pt: "pageTable m = Some pt" "tables m pt = Some es" and p: "p = page_no (registers m BadVAddrReg)" "p < NumPhysPages"
  obtains m' k t v fbs where "PageFault opn rd wr cls m = Inr m'" "findFreeByLRU m = Inr k" "k < NumPhysPages"
    "owner m k = Some (t, v)" "inv (machine.more m')" "paging (\<lambda>d n. okname n \<and> contents d n \<noteq> None) m'"
    "\<exists>d mem g. m' = m\<lparr>machine.more := d, mainMemory := mem, GlobalPageTable := (GlobalPageTable m)(k := g),
       tables := moved t v pt p k (tables m)\<rparr>"
    "owner m' k = Some (pt, p)" "frames_full m'"
    "contents (machine.more m') (DiskFile (es ! p)) = Some fbs"
    "mainMemory m' = page_mem (\<lambda>i. fault_byte (FileAddr m) fbs (p * PageSize + i)) k {..<PageSize} (mainMemory m)"
    "\<forall>e. tables m t = Some e \<longrightarrow> (if dirty (e ! v) then contents (machine.more m') (DiskFile (e ! v)) =
         map_option (\<lambda>bs. written bs (v * PageSize) (frame_bytes (mainMemory m) k))
           (contents (machine.more m) (DiskFile (e ! v)))
       else contents (machine.more m') = contents (machine.more m))"
proof -
  obtain k t v es1 d where k: "findFreeByLRU m = Inr k" "k < NumPhysPages" "RefPageTable (GlobalPageTable m k) = Some t"
    "v = unat (VirNum (GlobalPageTable m k))" "v < NumPhysPages" "tables m t = Some es1"
    "PageFault_evict opn wr cls m = Inr (m\<lparr>machine.more := d\<rparr>, k, int v)" "inv d"
    "\<forall>x. contents d x = None \<longleftrightarrow> contents (machine.more m) x = None"
    "\<not> dirty (es1 ! v) \<Longrightarrow> contents d = contents (machine.more m)"
    "dirty (es1 ! v) \<Longrightarrow> contents d (DiskFile (es1 ! v)) =
       map_option (\<lambda>bs. written bs (v * PageSize) (frame_bytes (mainMemory m) k))
         (contents (machine.more m) (DiskFile (es1 ! v)))"
    by (rule evict_ok [OF inv pg full]) (rule that; assumption)
  have len: "\<forall>x es. tables m x = Some es \<longrightarrow> length es = NumPhysPages" using pg by (simp add: paging_def)
  have e: "length es = NumPhysPages" "virtualPage (es ! p) = of_nat p" "okname (DiskFile (es ! p))"
      "contents (machine.more m) (DiskFile (es ! p)) \<noteq> None" and fa: "fa_ok (FileAddr m)"
    using pg pt p(2) unfolding paging_def by auto
  have len1: "length es1 = NumPhysPages" using len k(6) by blast
  from e(4) k(9) obtain fbs where fbs: "contents d (DiskFile (es ! p)) = Some fbs" by (cases "contents d (DiskFile (es ! p))") auto
  obtain d1 f where d1: "opn d (DiskFile (es ! p)) = Inr (d1, Some f)" "inv d1" "contents d1 = contents d" "handle d1 f (DiskFile (es ! p))"
    using opn_some [OF k(8) e(3) fbs] by blast
  let ?m1 = "m\<lparr>machine.more := d1\<rparr>" and ?mem = "page_mem (\<lambda>i. fault_byte (FileAddr m) fbs (p * PageSize + i)) k {..<PageSize} (mainMemory m)"
  obtain d2 where d2: "PageFault_load rd f (FileAddr m) (int p) (int k) (map int [0..<PageSize]) ?m1
        = Inr (?m1\<lparr>machine.more := d2, mainMemory := ?mem\<rparr>)" "inv d2" "contents d2 = contents d1"
        "handle d2 f (DiskFile (es ! p))"
    using PageFault_load_ok [of ?m1 f "DiskFile (es ! p)" "fbs" "FileAddr m" k "[0..<PageSize]" p] d1 fbs fa k(2)
    by (auto simp: atLeast0LessThan)
  let ?g = "\<lparr>VirNum = virtualPage (es ! p), useStamp = 0, RefPageTable = Some pt\<rparr>"
  let ?m2 = "?m1\<lparr>machine.more := d2, mainMemory := ?mem\<rparr>"
  obtain d3 where d3: "cls d2 f = Inr d3" "inv d3" "contents d3 = contents d2" using cls_ok [OF d2(2,4)] by blast
  let ?m3 = "?m2\<lparr>machine.more := d3, GlobalPageTable := (GlobalPageTable m)(k := ?g), tables := moved t v pt p k (tables m)\<rparr>"
  have va: "sint (registers m BadVAddrReg) sdiv int PageSize = int p"
  proof -
    have "unat (registers m BadVAddrReg) < 2147483648" using p by (simp add: page_defs)
    then show ?thesis using p(1) by (simp add: sint_eq_unat zdiv_int flip: int_eq_iff_numeral)
  qed
  have free: "findFreeFrame m x y = (m, -1)" for x y
    using frame_search [of m x y] full unfolding frames_full_def by blast
  have upd: "PageFault_update pt (int p) k (Some (int v)) ?m2 = Inr (?m3\<lparr>machine.more := d2\<rparr>)"
    using PageFault_update_ok [of ?m2 k t es1 v pt es p] k(3,5,6) len1 pt(2) p(2) e(1) by simp
  have run: "PageFault opn rd wr cls m = Inr ?m3"
    using va free k(7) pt table_at_in [of "m\<lparr>machine.more := d\<rparr>" pt es p] p(2) e(1) d1(1) d2(1) d3(1) fa upd
    by (simp add: PageFault_def ReadRegister_def fa_ok_def)
  have own: "owner m k = Some (t, v)" using k(3,4) by (simp add: owner_def)
  have nof: "\<forall>x. contents d3 x = None \<longleftrightarrow> contents (machine.more m) x = None" using k(9) d1(3) d2(3) d3(3) by simp
  have wf: "frames_wf ?m3"
    by (rule moved_wf [OF _ len k(2) own k(5) p(2), of _ _ ?g]) (use pg e(2) unat_of_nat_frame [OF p(2)] in \<open>simp_all add: paging_def\<close>)
  have "length es' = NumPhysPages \<and> (\<forall>i<NumPhysPages. virtualPage (es' ! i) = of_nat i
      \<and> okname (DiskFile (es' ! i)) \<and> contents d3 (DiskFile (es' ! i)) \<noteq> None)"
    if moved: "moved t v pt p k (tables m) x = Some es'" for x es'
  proof -
    obtain es0 where es0: "tables m x = Some es0" "length es' = length es0" "length es0 = NumPhysPages"
        "\<forall>i<NumPhysPages. virtualPage (es' ! i) = virtualPage (es0 ! i) \<and> DiskFile (es' ! i) = DiskFile (es0 ! i)"
      using moved_Some [OF moved k(5) p(2) len] by metis
    with pg nof show ?thesis unfolding paging_def by auto
  qed
  moreover have "moved t v pt p k (tables m) x \<noteq> None \<longleftrightarrow> tables m x \<noteq> None" for x
    by (auto simp: moved_def Let_def)
  moreover have "\<forall>f<NumPhysPages. \<forall>x. RefPageTable (GlobalPageTable m f) = Some x \<longrightarrow> tables m x \<noteq> None \<and> unat (VirNum (GlobalPageTable m f)) < NumPhysPages"
    using pg unfolding paging_def by blast
  ultimately have pg': "paging (\<lambda>d n. okname n \<and> contents d n \<noteq> None) ?m3"
    unfolding paging_def using wf fa pt p(2) e(2) unat_of_nat_frame [OF p(2)] by auto
  show ?thesis
  proof (rule that [OF run k(1,2) own _ pg'])
    show "owner ?m3 k = Some (pt, p)" using e(2) unat_of_nat_frame [OF p(2)] by (simp add: owner_def)
    show "frames_full ?m3" using full by (simp add: frames_full_def)
    show "contents (machine.more ?m3) (DiskFile (es ! p)) = Some fbs" using fbs d1(3) d2(3) d3(3) by simp
    show "\<forall>e. tables m t = Some e \<longrightarrow> (if dirty (e ! v) then contents (machine.more ?m3) (DiskFile (e ! v)) =
         map_option (\<lambda>bs. written bs (v * PageSize) (frame_bytes (mainMemory m) k))
           (contents (machine.more m) (DiskFile (e ! v)))
       else contents (machine.more ?m3) = contents (machine.more m))"
      using k(6,10,11) d1(3) d2(3) d3(3) by simp
    show "\<exists>d mem g. ?m3 = m\<lparr>machine.more := d, mainMemory := mem, GlobalPageTable := (GlobalPageTable m)(k := g),
       tables := moved t v pt p k (tables m)\<rparr>"
      by (rule exI [of _ d3], rule exI [of _ ?mem], rule exI [of _ ?g]) simp
  qed (use d3(2) in simp_all)
qed

end

lemma bad_page:
  assumes "page_no va < NumPhysPages"
  shows "sint va sdiv int PageSize = int (page_no va)"
proof -
  have "unat va < 2147483648" using assms by (simp add: page_defs)
  then show ?thesis by (simp add: sint_eq_unat zdiv_int flip: int_eq_iff_numeral)
qed

lemma paging_cong:
  assumes "machine.more m' = machine.more m" "tables m' = tables m" "GlobalPageTable m' = GlobalPageTable m"
    "pageTable m' = pageTable m" "FileAddr m' = FileAddr m"
  shows "paging okfile m' = paging okfile m"
  using assms frames_wf_cong [OF assms(2,3)] by (simp add: paging_def)

lemma paging_touched:
  assumes pg: "paging okfile m" and lin: "linear m es"
  shows "paging okfile (touched m es va w)"
proof -
  let ?m = "touched m es va w"
  obtain pt where pt: "pageTable m = Some pt" "tables m pt = Some es" using lin by (auto simp: linear_def)
  have t: "tables ?m = (tables m)(pt \<mapsto> marked es va w)" "pageTable ?m = Some pt" "machine.more ?m = machine.more m" "FileAddr ?m = FileAddr m"
    using pt by (simp_all add: touched_def touch_frame_def table_set_def marked_def)
  have g: "RefPageTable (GlobalPageTable ?m f) = RefPageTable (GlobalPageTable m f)" "VirNum (GlobalPageTable ?m f) = VirNum (GlobalPageTable m f)" for f
    by (simp_all add: touched_def touch_frame_def table_set_def)
  have own: "owner ?m f = owner m f" for f by (simp add: owner_def g)
  have mk: "valid (marked es va w ! i) = valid (es ! i) \<and> physicalPage (marked es va w ! i) = physicalPage (es ! i)
      \<and> virtualPage (marked es va w ! i) = virtualPage (es ! i) \<and> DiskFile (marked es va w ! i) = DiskFile (es ! i)" if "i < length es" for i
    using that by (cases "i = page_no va") (simp_all add: marked_def)
  have same: "\<exists>es0. tables m x = Some es0 \<and> length es0 = length es' \<and> (\<forall>i<length es'. valid (es' ! i) = valid (es0 ! i)
      \<and> physicalPage (es' ! i) = physicalPage (es0 ! i) \<and> virtualPage (es' ! i) = virtualPage (es0 ! i) \<and> DiskFile (es' ! i) = DiskFile (es0 ! i))"
    if "tables ?m x = Some es'" for x es'
  proof (cases "x = pt")
    case True
    then have "es' = marked es va w" using that by (simp add: t(1))
    with True pt(2) mk marked_entry(1) [of es va w] show ?thesis by (intro exI [of _ es]) simp
  next
    case False
    then show ?thesis using that by (simp add: t(1))
  qed
  have "frames_wf ?m" unfolding frames_wf_def own using pg same unfolding paging_def frames_wf_def by metis
  moreover have "fa_ok (FileAddr m)" "\<forall>f<NumPhysPages. \<forall>x. RefPageTable (GlobalPageTable m f) = Some x \<longrightarrow>
      tables m x \<noteq> None \<and> unat (VirNum (GlobalPageTable m f)) < NumPhysPages"
    using pg unfolding paging_def by blast+
  moreover have "tables ?m x \<noteq> None \<longleftrightarrow> tables m x \<noteq> None" for x using pt(2) by (simp add: t(1))
  moreover have "length es' = NumPhysPages \<and> (\<forall>i<NumPhysPages. virtualPage (es' ! i) = of_nat i \<and> okfile (machine.more m) (DiskFile (es' ! i)))"
    if "tables ?m x = Some es'" for x es'
    using same [OF that] pg unfolding paging_def by metis
  ultimately show ?thesis using pt(2) unfolding paging_def g t(2,3,4) by simp
qed

context program_files
begin

text \<open>When a free frame is found, the handler uses a variable that it has not assigned.\<close>

lemma PageFault_free_frame:
  assumes inv: "inv (machine.more m)" and pg: "paging (\<lambda>d n. okname n \<and> contents d n \<noteq> None) m" and free: "\<not> frames_full m"
    and p: "page_no (registers m BadVAddrReg) < NumPhysPages"
  shows "PageFault opn rd wr cls m = Inl Undefined"
proof -
  define q where "q = page_no (registers m BadVAddrReg)"
  obtain pt es where pt: "pageTable m = Some pt" "tables m pt = Some es" using pg by (auto simp: paging_def)
  have e: "length es = NumPhysPages" "okname (DiskFile (es ! q))" "contents (machine.more m) (DiskFile (es ! q)) \<noteq> None"
    and fa: "fa_ok (FileAddr m)"
    using pg pt p unfolding paging_def q_def by auto
  obtain fbs where fbs: "contents (machine.more m) (DiskFile (es ! q)) = Some fbs" using e(3) by auto
  define x where "x = (word_of_int (int q) :: int32)"
  obtain k g where k: "k < NumPhysPages" "findFreeFrame m x (pageTable m) = (m\<lparr>GlobalPageTable := g\<rparr>, of_nat k)"
    using free frame_search [of m x "pageTable m"] unfolding frames_full_def by blast
  obtain d1 f where d1: "opn (machine.more m) (DiskFile (es ! q)) = Inr (d1, Some f)" "inv d1"
      "contents d1 = contents (machine.more m)" "handle d1 f (DiskFile (es ! q))"
    using opn_some [OF inv e(2) fbs] by blast
  obtain m2 where "PageFault_load rd f (FileAddr m) (int q) (int k) (map int [0..<PageSize]) (m\<lparr>GlobalPageTable := g, machine.more := d1\<rparr>) = Inr m2"
    using PageFault_load_ok [of "m\<lparr>GlobalPageTable := g, machine.more := d1\<rparr>" f "DiskFile (es ! q)" fbs "FileAddr m" k "[0..<PageSize]" q] d1 fbs fa k(1)
    by auto
  then show ?thesis
    using bad_page [OF p] k of_nat_frame_not_minus_1 [OF k(1)] unat_of_nat_frame [OF k(1)] pt d1(1) fa e(1)
      table_at_in [of "m\<lparr>GlobalPageTable := g\<rparr>" pt es q] p
    by (simp add: PageFault_def ReadRegister_def fa_ok_def PageFault_update_def q_def [symmetric] x_def)
qed

text \<open>The fault is raised, served and leaves the machine in user mode.\<close>

lemma raise_served:
  assumes inv: "inv (machine.more m)" and pg: "paging (\<lambda>d n. okname n \<and> contents d n \<noteq> None) m" and full: "frames_full m"
    and regs: "regs_wf m" and pt: "pageTable m = Some pt" "tables m pt = Some es" and p: "page_no va < NumPhysPages"
  obtains m' k t v fbs where "RaiseException (fault_handler opn rd wr cls) m PageFaultException va = Inr m'" "findFreeByLRU m = Inr k" "k < NumPhysPages"
    "owner m k = Some (t, v)" "inv (machine.more m')" "paging (\<lambda>d n. okname n \<and> contents d n \<noteq> None) m'" "frames_full m'" "regs_wf m'"
    "tlb m' = tlb m" "pageTable m' = Some pt" "pageTableSize m' = pageTableSize m" "tables m' = moved t v pt (page_no va) k (tables m)"
    "contents (machine.more m') (DiskFile (es ! page_no va)) = Some fbs"
    "mainMemory m' = page_mem (\<lambda>i. fault_byte (FileAddr m) fbs (page_no va * PageSize + i)) k {..<PageSize} (mainMemory m)"
    "\<forall>e. tables m t = Some e \<longrightarrow> \<not> dirty (e ! v) \<longrightarrow> contents (machine.more m') = contents (machine.more m)"
proof -
  let ?P = "paging (\<lambda>d n. okname n \<and> contents d n \<noteq> None)"
  define m1 where "m1 = (delayed (set_reg m BadVAddrReg va) 0 0)\<lparr>status := SystemMode\<rparr>"
  have regs1: "regs_wf (set_reg m BadVAddrReg va)" by (rule set_reg_wf [OF regs]) simp_all
  have m1: "machine.more m1 = machine.more m" "tables m1 = tables m" "GlobalPageTable m1 = GlobalPageTable m"
      "pageTable m1 = pageTable m" "FileAddr m1 = FileAddr m" "tlb m1 = tlb m" "pageTableSize m1 = pageTableSize m" "mainMemory m1 = mainMemory m"
    by (simp_all add: m1_def delayed_def set_reg_def)
  have wf1: "regs_wf m1" using delayed_regs_wf [of 0 "set_reg m BadVAddrReg va" 0] by (simp add: m1_def regs_wf_def)
  have bad: "registers m1 BadVAddrReg = va"
    using regs by (auto simp: m1_def delayed_def regs_wf_def)
  have lru: "findFreeByLRU m1 = findFreeByLRU m"
  proof -
    have "LRU_loop is m1 i = LRU_loop is m i" for "is" i by (induction "is" arbitrary: i) (simp_all add: m1(3))
    then show ?thesis by (simp add: findFreeByLRU_def)
  qed
  have pre: "inv (machine.more m1)" "?P m1" "frames_full m1" "pageTable m1 = Some pt" "tables m1 pt = Some es"
      "page_no va = page_no (registers m1 BadVAddrReg)"
    using inv pg full pt bad by (simp_all add: m1 paging_cong [OF m1(1-5)] frames_full_def)
  obtain m2 k t v fbs where r: "PageFault opn rd wr cls m1 = Inr m2" "findFreeByLRU m1 = Inr k" "k < NumPhysPages"
    "owner m1 k = Some (t, v)" "inv (machine.more m2)" "?P m2"
    "\<exists>d mem g. m2 = m1\<lparr>machine.more := d, mainMemory := mem, GlobalPageTable := (GlobalPageTable m1)(k := g),
       tables := moved t v pt (page_no va) k (tables m1)\<rparr>" "frames_full m2"
    "contents (machine.more m2) (DiskFile (es ! page_no va)) = Some fbs"
    "mainMemory m2 = page_mem (\<lambda>i. fault_byte (FileAddr m1) fbs (page_no va * PageSize + i)) k {..<PageSize} (mainMemory m1)"
    "\<forall>e. tables m1 t = Some e \<longrightarrow> (if dirty (e ! v) then contents (machine.more m2) (DiskFile (e ! v)) =
         map_option (\<lambda>bs. written bs (v * PageSize) (frame_bytes (mainMemory m1) k))
           (contents (machine.more m1) (DiskFile (e ! v)))
       else contents (machine.more m2) = contents (machine.more m1))"
    by (rule PageFault_served [OF pre p]) (rule that; assumption)
  from r(7) obtain d mem g where m2: "m2 = m1\<lparr>machine.more := d, mainMemory := mem, GlobalPageTable := (GlobalPageTable m1)(k := g),
       tables := moved t v pt (page_no va) k (tables m1)\<rparr>" by blast
  let ?m = "m2\<lparr>status := UserMode\<rparr>"
  have run: "RaiseException (fault_handler opn rd wr cls) m PageFaultException va = Inr ?m"
    using r(1) by (simp add: RaiseException_def DelayedLoad_eq [OF regs1] fault_handler_def m1_def [symmetric])
  have "?P ?m" using r(6) paging_cong [of ?m m2] by simp
  moreover have "frames_full ?m" "regs_wf ?m" "owner m k = Some (t, v)" using r(4,8) wf1 by (simp_all add: frames_full_def regs_wf_def m2 owner_def m1)
  moreover have "tlb ?m = tlb m" "pageTable ?m = Some pt" "pageTableSize ?m = pageTableSize m"
      "tables ?m = moved t v pt (page_no va) k (tables m)"
    using m1 pt(1) by (simp_all add: m2)
  ultimately show ?thesis
    using that [OF run _ r(3)] lru r(2,5,9,10,11) by (simp add: m1)
qed

lemma access_served:
  assumes inv: "inv (machine.more m)" and pg: "paging (\<lambda>d n. okname n \<and> contents d n \<noteq> None) m" and full: "frames_full m"
    and regs: "regs_wf m" and lin: "linear m es" and sz: "sz \<in> {1, 2, 4}" and ref: "check_ref m es va sz w = PageFaultException"
  obtains m' es' k t v fbs where "access_address (fault_handler opn rd wr cls) m va sz w = Inr (touched m' es' va w, Some (phys es' va))"
    "linear m' es'" "regs_wf m'" "findFreeByLRU m = Inr k" "phys es' va = k * PageSize + unat va mod PageSize" "k < NumPhysPages"
    "paging (\<lambda>d n. okname n \<and> contents d n \<noteq> None) (touched m' es' va w)" "frames_full m'" "inv (machine.more m')"
    "owner m k = Some (t, v)" "contents (machine.more m') (DiskFile (es ! page_no va)) = Some fbs"
    "mainMemory m' = page_mem (\<lambda>i. fault_byte (FileAddr m) fbs (page_no va * PageSize + i)) k {..<PageSize} (mainMemory m)"
    "\<forall>e. tables m t = Some e \<longrightarrow> \<not> dirty (e ! v) \<longrightarrow> contents (machine.more m') = contents (machine.more m)"
proof -
  obtain pt where pt: "pageTable m = Some pt" "tables m pt = Some es" and tlb: "tlb m = None" "unat (pageTableSize m) \<le> length es"
    using lin by (auto simp: linear_def)
  have len: "length es = NumPhysPages" "\<forall>x es. tables m x = Some es \<longrightarrow> length es = NumPhysPages" using pg pt(2) by (auto simp: paging_def)
  have al: "aligned va sz" "page_no va < unat (pageTableSize m)" using ref by (auto simp: check_ref_def Let_def split: if_splits)
  then have p: "page_no va < NumPhysPages" using tlb(2) len by simp
  obtain m' k t v fbs where r: "RaiseException (fault_handler opn rd wr cls) m PageFaultException va = Inr m'" "findFreeByLRU m = Inr k" "k < NumPhysPages"
    "owner m k = Some (t, v)" "inv (machine.more m')" "paging (\<lambda>d n. okname n \<and> contents d n \<noteq> None) m'" "frames_full m'" "regs_wf m'"
    "tlb m' = tlb m" "pageTable m' = Some pt" "pageTableSize m' = pageTableSize m" "tables m' = moved t v pt (page_no va) k (tables m)"
    "contents (machine.more m') (DiskFile (es ! page_no va)) = Some fbs"
    "mainMemory m' = page_mem (\<lambda>i. fault_byte (FileAddr m) fbs (page_no va * PageSize + i)) k {..<PageSize} (mainMemory m)"
    "\<forall>e. tables m t = Some e \<longrightarrow> \<not> dirty (e ! v) \<longrightarrow> contents (machine.more m') = contents (machine.more m)"
    by (rule raise_served [OF inv pg full regs pt p]) (rule that; assumption)
  have v: "v < NumPhysPages" using pg r(3,4) by (auto simp: paging_def owner_def)
  have "moved t v pt (page_no va) k (tables m) pt \<noteq> None" using pt(2) by (auto simp: moved_def Let_def)
  then obtain es' where es': "tables m' pt = Some es'" by (auto simp: r(12))
  have e: "length es' = NumPhysPages" "valid (es' ! page_no va)" "physicalPage (es' ! page_no va) = of_nat k" "\<not> readOnly (es' ! page_no va)"
    using moved_Some [OF es' [unfolded r(12)] v p len(2)] by metis+
  have lin': "linear m' es'" using r(9-11) es' e(1) tlb len(1) by (simp add: linear_def)
  have ok: "check_ref m' es' va sz w = NoException"
    using al r(11) e of_nat_frame_not_minus_1 [OF r(3)] unat_of_nat_frame [OF r(3)] r(3) by (simp add: check_ref_NoException)
  have "access_address (fault_handler opn rd wr cls) m va sz w = Inr (touched m' es' va w, Some (phys es' va))"
    using Translate_linear [OF lin sz, of va w] ref r(1) Translate_linear [OF lin' sz, of va w] ok access_allowed [OF lin' sz ok, of "\<lambda>_ m. Inr m"]
    by (simp add: access_address_def)
  moreover have "phys es' va = k * PageSize + unat va mod PageSize"
    using e(3) unat_of_nat_frame [OF r(3)] by (simp add: phys_def)
  ultimately show ?thesis
    by (rule that [OF _ lin' r(8,2) _ r(3) paging_touched [OF r(6) lin'] r(7,5,4,13,14,15)])
qed

end

section \<open>The Nachos file system as the file service\<close>

text \<open>The state is the disk with the handles of the file system; names are strings of C.\<close>

definition cstr :: "string \<Rightarrow> byte list" where
  "cstr n = map of_char n"

definition fs_open :: "uninit \<Rightarrow> disk \<times> file_system \<Rightarrow> string \<Rightarrow> ((disk \<times> file_system) \<times> open_file option) res" where
  "fs_open u = (\<lambda>(d, fs) n. bindR (FileSystem_Open u d fs (cstr n)) (\<lambda>(d, f). Inr ((d, fs), f)))"

definition fs_read :: "disk \<times> file_system \<Rightarrow> open_file \<Rightarrow> int \<Rightarrow> int \<Rightarrow> ((disk \<times> file_system) \<times> byte list) res" where
  "fs_read = (\<lambda>(d, fs) f k pos. bindR (ReadAt d (hdr f) k pos) (\<lambda>(d, bs). Inr ((d, fs), bs)))"

definition fs_write :: "uninit \<Rightarrow> disk \<times> file_system \<Rightarrow> open_file \<Rightarrow> byte list \<Rightarrow> int \<Rightarrow> (disk \<times> file_system) res" where
  "fs_write u = (\<lambda>(d, fs) f bs pos. bindR (WriteAt (freshBuf u) d (hdr f) bs (int (length bs)) pos) (\<lambda>(d, _). Inr (d, fs)))"

text \<open>The destructor of an open file releases only the copy of its header.\<close>

definition fs_close :: "disk \<times> file_system \<Rightarrow> open_file \<Rightarrow> (disk \<times> file_system) res" where
  "fs_close d f = Inr d"

definition fs_ok :: "disk \<times> file_system \<Rightarrow> bool" where
  "fs_ok = (\<lambda>(d, fs). fs_inv fs d)"

definition fs_name :: "string \<Rightarrow> bool" where
  "fs_name n \<longleftrightarrow> 0 \<notin> set (cstr n)"

definition fs_contents :: "disk \<times> file_system \<Rightarrow> string \<Rightarrow> byte list option" where
  "fs_contents = (\<lambda>(d, fs) n. fs_files fs d (key (cstr n)))"

definition fs_handle :: "disk \<times> file_system \<Rightarrow> open_file \<Rightarrow> string \<Rightarrow> bool" where
  "fs_handle = (\<lambda>(d, fs) f n. \<exists>s. dir_map (fs_dir fs d) (key (cstr n)) = Some s
     \<and> hdr f = hdr_of (sectors d (nat s)) \<and> file_wf (hdr f))"

lemma fs_contents_cong: "sectors d' = sectors d \<Longrightarrow> fs_contents (d', fs) = fs_contents (d, fs)"
  by (rule ext) (simp add: fs_contents_def fs_files_def fs_dir_def)

lemma fs_handle_cong: "sectors d' = sectors d \<Longrightarrow> fs_handle (d', fs) f n = fs_handle (d, fs) f n"
  by (simp add: fs_handle_def fs_dir_def)

text \<open>A write through a handle: the bytes that the file has room for, and how many they are.\<close>

lemma fs_WriteAt_ok:
  assumes "fs_ok (d, fs)" "fs_handle (d, fs) f n" "fs_contents (d, fs) n = Some bs" "0 \<le> pos" "int_range (pos + int (length ys))"
  obtains d' where "WriteAt junk d (hdr f) ys (int (length ys)) pos = Inr (d', int (min (length ys) (length bs - nat pos)))"
    "fs_ok (d', fs)" "fs_handle (d', fs) f n"
    "fs_files fs d' = (fs_files fs d)(key (cstr n) \<mapsto> overlay bs (nat pos) (take (length bs - nat pos) ys))"
proof -
  obtain s where s: "dir_map (fs_dir fs d) (key (cstr n)) = Some s" "hdr f = hdr_of (sectors d (nat s))" "file_wf (hdr f)"
    using assms(2) by (auto simp: fs_handle_def)
  have bs: "bs = file_data (sectors d) (hdr f)" using assms(3) s by (simp add: fs_contents_def fs_files_def)
  have inv: "fs_inv fs d" and wf: "synch_wf d" using assms(1) by (simp_all add: fs_ok_def fs_inv_def)
  have len: "length bs = nat (hdrBytes (hdr f))"
  proof (cases "0 \<le> hdrBytes (hdr f)")
    case True
    show ?thesis unfolding bs by (rule length_file_data [OF s(3) synch.len [OF wf] True])
  qed (simp add: bs file_data_def)
  have cut: "take (nat (min (int (length ys)) (hdrBytes (hdr f) - pos))) ys = take (length bs - nat pos) ys"
  proof -
    have "nat (min (int (length ys)) (hdrBytes (hdr f) - pos)) = min (length ys) (length bs - nat pos)"
      using assms(4) len by auto
    then show ?thesis by (simp add: min_def)
  qed
  obtain d' where d': "WriteAt junk d (hdr f) ys (int (length ys)) pos = Inr (d', int (length (take (length bs - nat pos) ys)))" "synch_wf d'"
      "\<forall>x. x \<notin> set (file_sectors (hdr f)) \<longrightarrow> sectors d' x = sectors d x"
      "file_data (sectors d') (hdr f) = overlay bs (nat pos) (take (length bs - nat pos) ys)"
    using WriteAt_ok [OF wf s(3) assms(4,5) order_refl, of junk] unfolding cut bs [symmetric] by metis
  note w = write_keeps_inv [OF inv d'(2) s(1,2) d'(3)]
  show ?thesis
    by (rule that [of d']) (use d'(1,4) w s in \<open>simp_all add: fs_ok_def fs_handle_def\<close>)
qed

lemma fs_program_files:
  assumes u: "uninit_wf u"
  shows "program_files (fs_open u) fs_read fs_close fs_ok fs_name fs_contents fs_handle (fs_write u)
    (\<lambda>bs pos ys. overlay bs pos (take (length bs - pos) ys))"
proof unfold_locales
  fix d n
  assume a: "fs_ok d" "fs_name n" "fs_contents d n = None"
  obtain dk fs where d: "d = (dk, fs)" by (cases d)
  obtain d' where d': "synch_wf d'" "sectors d' = sectors dk"
      "FileSystem_Open u dk fs (cstr n) = Inr (d', map_option (\<lambda>s. \<lparr>hdr = hdr_of (sectors dk (nat s)), seekPosition = 0\<rparr>)
         (dir_map (fs_dir fs dk) (key (cstr n))))"
    using Open_ok [of fs dk u "cstr n"] a(1,2) u unfolding fs_ok_def fs_name_def d by auto
  have "dir_map (fs_dir fs dk) (key (cstr n)) = None" using a(3) by (simp add: fs_contents_def d fs_files_None)
  then show "\<exists>d'. fs_open u d n = Inr (d', None) \<and> fs_ok d' \<and> fs_contents d' = fs_contents d"
    using d' a(1) fs_inv_same(1) [OF d'(2,1)] fs_contents_cong [OF d'(2)] by (simp add: fs_open_def d fs_ok_def)
next
  fix d n bs
  assume a: "fs_ok d" "fs_name n" "fs_contents d n = Some bs"
  obtain dk fs where d: "d = (dk, fs)" by (cases d)
  obtain d' where d': "synch_wf d'" "sectors d' = sectors dk"
      "FileSystem_Open u dk fs (cstr n) = Inr (d', map_option (\<lambda>s. \<lparr>hdr = hdr_of (sectors dk (nat s)), seekPosition = 0\<rparr>)
         (dir_map (fs_dir fs dk) (key (cstr n))))"
      "\<forall>s. dir_map (fs_dir fs dk) (key (cstr n)) = Some s \<longrightarrow> file_wf (hdr_of (sectors dk (nat s)))"
    using Open_ok [of fs dk u "cstr n"] a(1,2) u unfolding fs_ok_def fs_name_def d by auto
  obtain s where s: "dir_map (fs_dir fs dk) (key (cstr n)) = Some s" using a(3) by (auto simp: fs_contents_def d fs_files_def)
  then show "\<exists>d' f. fs_open u d n = Inr (d', Some f) \<and> fs_ok d' \<and> fs_contents d' = fs_contents d \<and> fs_handle d' f n"
    using d' a(1) fs_inv_same(1) [OF d'(2,1)] fs_contents_cong [OF d'(2)] fs_handle_cong [OF d'(2)]
    by (auto simp: fs_open_def d fs_ok_def fs_handle_def)
next
  fix d f n bs and pos k :: int
  assume a: "fs_ok d" "fs_handle d f n" "fs_contents d n = Some bs" "0 \<le> pos" "0 \<le> k" "int_range (pos + k)"
  obtain dk fs where d: "d = (dk, fs)" by (cases d)
  have bs: "bs = file_data (sectors dk) (hdr f)" "file_wf (hdr f)"
    using a(2,3) by (auto simp: fs_handle_def fs_contents_def d fs_files_def)
  have wf: "synch_wf dk" using a(1) by (simp add: fs_ok_def d fs_inv_def)
  obtain d' where d': "ReadAt dk (hdr f) k pos = Inr (d', take (nat k) (drop (nat pos) bs))" "synch_wf d'" "sectors d' = sectors dk"
    using ReadAt_ok [OF wf bs(2) a(4,6)] unfolding bs(1) by blast
  then show "\<exists>d'. fs_read d f k pos = Inr (d', take (nat k) (drop (nat pos) bs)) \<and> fs_ok d' \<and> fs_contents d' = fs_contents d \<and> fs_handle d' f n"
    using a(1,2) fs_inv_same(1) [OF d'(3,2)] fs_contents_cong [OF d'(3)] fs_handle_cong [OF d'(3)]
    by (simp add: fs_read_def d fs_ok_def)
next
  fix d f n bs pos and ys :: "byte list"
  assume a: "fs_ok d" "fs_handle d f n" "fs_contents d n = Some bs" "0 \<le> pos" "int_range (pos + int (length ys))"
  obtain dk fs where d: "d = (dk, fs)" by (cases d)
  obtain d' where d': "WriteAt (freshBuf u) dk (hdr f) ys (int (length ys)) pos = Inr (d', int (min (length ys) (length bs - nat pos)))"
      "fs_ok (d', fs)" "fs_handle (d', fs) f n" "fs_files fs d' = (fs_files fs dk)(key (cstr n) \<mapsto> overlay bs (nat pos) (take (length bs - nat pos) ys))"
    by (rule fs_WriteAt_ok [OF a [unfolded d], where junk = "freshBuf u"]) (rule that; assumption)
  show "\<exists>d'. fs_write u d f ys pos = Inr d' \<and> fs_ok d' \<and> fs_handle d' f n \<and> (\<forall>x. fs_contents d' x = None \<longleftrightarrow> fs_contents d x = None)
      \<and> fs_contents d' n = Some (overlay bs (nat pos) (take (length bs - nat pos) ys))"
    using a(3) d' by (auto simp: fs_write_def d fs_contents_def)
qed (simp add: fs_close_def)

interpretation nachos: program_files "fs_open blank_memory" fs_read fs_close fs_ok fs_name fs_contents fs_handle "fs_write blank_memory"
  "\<lambda>bs pos ys. overlay bs pos (take (length bs - pos) ys)"
  by (rule fs_program_files [OF blank_wf(2)])

end
