(* ===== verification/UserProg.thy ===== *)
theory UserProg
  imports Exception
begin

text \<open>
  User programs on the Nachos file system: the properties of loading a program, of page
  faults and of system calls, with the file service of \<open>AddrSpace\<close> and \<open>Exception\<close>
  instantiated by the file system.
\<close>

section \<open>A program on disk, for the witnesses\<close>

definition demo_words :: "int32 list" where
  "demo_words = [0xbadfad, 0, 52, 4, 0, 0, 0, 0, 0, 0, 0, 0, 0]"

lemma demo_noff: "noff_of (words_bytes demo_words) =
    \<lparr>noffMagic = 0xbadfad, codeSeg = \<lparr>virtualAddr = 0, inFileAddr = 52, segSize = 4\<rparr>,
     initData = \<lparr>virtualAddr = 0, inFileAddr = 0, segSize = 0\<rparr>, readonlyData = \<lparr>virtualAddr = 0, inFileAddr = 0, segSize = 0\<rparr>,
     uninitData = \<lparr>virtualAddr = 0, inFileAddr = 0, segSize = 0\<rparr>\<rparr>"
proof -
  have "words_of 13 (words_bytes demo_words) = demo_words" by (rule words_of_bytes') (simp add: demo_words_def)
  then show ?thesis by (simp add: noff_of_def segment_of_def demo_words_def)
qed

lemma demo_prog: "prog_ok (noff_of (words_bytes demo_words))"
  unfolding demo_noff
  by (simp add: prog_ok_def NOFFMAGIC_def prog_pages_def UserStackSize_def page_defs seg_ok_def int_range_def)

lemma demo_name: "fs_name ''prog''" "key (cstr ''prog'') = [112, 114, 111, 103]"
  by (simp_all add: fs_name_def cstr_def key_def FileNameMaxLen_def of_char_def)

lemma demo_disk:
  obtains d fs bs where "fs_ok (d, fs)" "fs_contents (d, fs) ''prog'' = Some bs" "length bs = 300"
    "take 52 bs = words_bytes demo_words"
proof -
  let ?n = "cstr ''prog''"
  have n: "sectors_needed 300 = 3" "0 \<notin> set ?n"
    using demo_name(1) by (simp_all add: sectors_needed_def divRoundUp_def SectorSize_def fs_name_def)
  obtain d fs where f: "fs_inv fs d" "fs_files fs d = Map.empty" "\<not> dir_full (fs_dir fs d)" "1000 < fs_free fs d"
    using format_ok [OF blank_wf] by blast
  have "0 \<le> (300::int)" "int_range 300" "fs_files fs d (key ?n) = None" "sectors_needed 300 < fs_free fs d"
      "sectors_needed 300 \<le> NumDirect" using f n by (auto simp: int_range_def)
  then obtain d' data where c: "fs_inv fs d'" "fs_files fs d' = [key ?n \<mapsto> data]" "length data = nat 300"
    using Create_ok [OF f(1) blank_wf(2) n(2) _ _ _ f(3)] f(2) by metis
  have c': "fs_ok (d', fs)" "fs_contents (d', fs) ''prog'' = Some data" using c by (simp_all add: fs_ok_def fs_contents_def)
  obtain d1 h where o: "fs_ok d1" "fs_contents d1 = fs_contents (d', fs)" "fs_handle d1 h ''prog''"
    using nachos.opn_some [OF c'(1) demo_name(1) c'(2)] by blast
  have cont: "fs_contents d1 ''prog'' = Some data" using o(2) c'(2) by simp
  have r: "(0::int) \<le> 0" "int_range (0 + int (length (words_bytes demo_words)))"
    by (simp_all add: int_range_def demo_words_def)
  obtain d2 where d2: "fs_ok d2" "fs_contents d2 ''prog'' = Some (overlay data (nat 0) (take (length data - nat 0) (words_bytes demo_words)))"
    using nachos.wr_ok [OF o(1,3) cont r] by blast
  have l: "length (words_bytes demo_words) = 52" by (simp add: demo_words_def)
  show ?thesis
    by (rule that [of "fst d2" "snd d2" "overlay data 0 (words_bytes demo_words)"])
      (use d2 l c(3) in \<open>simp_all add: overlay_def\<close>)
qed

text \<open>
  A machine on that disk: \<open>k\<close> frames are in use by the program with page table 3, and the
  current program, with page table 4, has no page in memory.
\<close>

definition demo_table :: "nat \<Rightarrow> translation_entry list" where
  "demo_table k = map (\<lambda>i. \<lparr>virtualPage = of_nat i, physicalPage = (if i < k then of_nat i else -1), valid = True,
     readOnly = False, use = False, dirty = False, DiskFile = ''prog''\<rparr>) [0..<NumPhysPages]"

definition demo_machine :: "nat \<Rightarrow> disk \<times> file_system \<Rightarrow> (disk \<times> file_system) machine_scheme" where
  "demo_machine k d = machine.extend ((Machine_new False 9 (file_addr (noff_of (words_bytes demo_words))) 0)\<lparr>
     tables := [3 \<mapsto> demo_table k, 4 \<mapsto> demo_table 0], pageTable := Some 4,
     GlobalPageTable := (\<lambda>f. if f < k then \<lparr>VirNum = of_nat f, useStamp = 0, RefPageTable = Some 3\<rparr> else GlobalEntry_new)\<rparr>) d"

lemma demo_machine_sel [simp]:
  "machine.more (demo_machine k d) = d" "tables (demo_machine k d) = [3 \<mapsto> demo_table k, 4 \<mapsto> demo_table 0]"
  "pageTable (demo_machine k d) = Some 4" "registers (demo_machine k d) = (\<lambda>_. 0)" "pageTableSize (demo_machine k d) = 9"
  "GlobalPageTable (demo_machine k d) = (\<lambda>f. if f < k then \<lparr>VirNum = of_nat f, useStamp = 0, RefPageTable = Some 3\<rparr> else GlobalEntry_new)"
  "FileAddr (demo_machine k d) = file_addr (noff_of (words_bytes demo_words))" "tlb (demo_machine k d) = None"
  by (simp_all add: demo_machine_def machine.defs Machine_new_def)

lemma demo_table_nth [simp]:
  "length (demo_table k) = NumPhysPages"
  "i < NumPhysPages \<Longrightarrow> demo_table k ! i = \<lparr>virtualPage = of_nat i, physicalPage = (if i < k then of_nat i else -1), valid = True,
     readOnly = False, use = False, dirty = False, DiskFile = ''prog''\<rparr>"
  by (simp_all add: demo_table_def)

lemma demo_machine_ok:
  assumes "fs_contents d ''prog'' \<noteq> None" "k \<le> NumPhysPages"
  shows "paging (\<lambda>d n. fs_name n \<and> fs_contents d n \<noteq> None) (demo_machine k d)" "frames_full (demo_machine k d) \<longleftrightarrow> k = NumPhysPages"
    "regs_wf (demo_machine k d)" "linear (demo_machine k d) (demo_table 0)"
proof -
  have "unat (physicalPage (es ! i)) < NumPhysPages \<and> owner (demo_machine k d) (unat (physicalPage (es ! i))) = Some (t, i)"
    if "tables (demo_machine k d) t = Some es" "i < length es" "physicalPage (es ! i) \<noteq> -1" for t es i
  proof -
    have "t = 3" "i < k" "es = demo_table k" "i < NumPhysPages" using that assms(2) by (auto split: if_splits)
    then show ?thesis using unat_of_nat_frame [of i] by (simp add: owner_def)
  qed
  then have wf: "frames_wf (demo_machine k d)" unfolding frames_wf_def by blast
  show "paging (\<lambda>d n. fs_name n \<and> fs_contents d n \<noteq> None) (demo_machine k d)"
    unfolding paging_def using wf assms demo_name(1) prog_fa_ok [OF demo_prog] unat_of_nat_frame
    by (auto simp: GlobalEntry_new_def split: if_splits)
  show "frames_full (demo_machine k d) \<longleftrightarrow> k = NumPhysPages"
    unfolding frames_full_def demo_machine_sel using assms(2)
    by (auto simp: GlobalEntry_new_def split: if_splits)
  show "regs_wf (demo_machine k d)" "linear (demo_machine k d) (demo_table 0)"
    by (simp_all add: regs_wf_def linear_def NumPhysPages_def)
qed

section \<open>Loading programs\<close>

text \<open>The code that loads programs and serves faults, on the Nachos file system.\<close>

abbreviation nachos_Load :: "uninit \<Rightarrow> table_ptr \<Rightarrow> string \<Rightarrow> addr_space \<Rightarrow> (disk \<times> file_system) machine_scheme
    \<Rightarrow> ((disk \<times> file_system) machine_scheme \<times> addr_space \<times> bool) res" where
  "nachos_Load u \<equiv> AddrSpace_Load (fs_open u) fs_read fs_close"

abbreviation nachos_handler :: "uninit \<Rightarrow> (disk \<times> file_system) host \<Rightarrow> byte list \<Rightarrow> (disk \<times> file_system) handler" where
  "nachos_handler u \<equiv> ExceptionHandler (fs_open u) fs_read (fs_write u) fs_close"

abbreviation nachos_paging :: "(disk \<times> file_system) machine_scheme \<Rightarrow> bool" where
  "nachos_paging \<equiv> paging (\<lambda>d n. fs_name n \<and> fs_contents d n \<noteq> None)"

text \<open>
  C24. \<open>AddrSpace::Load\<close>. A program file with a valid header is loaded: the new page table has
  an entry for every page, valid and writable, with a frame that was free, or none when memory
  is full; every byte of a segment that has a frame is the byte of the file; frames in use keep
  their owner and their contents, no other page table changes, and no frame gets two owners.
\<close>

theorem Load_program:
  assumes "uninit_wf u" "fs_ok (machine.more m)" "fs_name n" "fs_contents (machine.more m) n = Some bs" "52 \<le> length bs"
    "prog_ok (noff_of (take 52 bs))" "frames_wf m" "tables m tp = None"
  shows "\<exists>m' a' es. nachos_Load u tp n a m = Inr (m', a', True) \<and> spaceTable a' = tp
    \<and> numPages a' = prog_pages (noff_of (take 52 bs)) \<and> spaceFileAddr a' = file_addr (noff_of (take 52 bs))
    \<and> frames_wf m' \<and> frames_kept m m' \<and> tables m' = (tables m)(tp \<mapsto> es)
    \<and> fs_ok (machine.more m') \<and> fs_contents (machine.more m') = fs_contents (machine.more m)
    \<and> length es = NumPhysPages \<and> (\<forall>i<NumPhysPages. new_entry m m' n tp i (es ! i))
    \<and> (\<forall>va<MemorySize. resident es va \<longrightarrow> mainMemory m' (paddr es va) =
         (case noff_image (noff_of (take 52 bs)) bs va of Some b \<Rightarrow> b | None \<Rightarrow> mainMemory m (paddr es va)))
    \<and> (\<forall>q. RefPageTable (GlobalPageTable m (q div PageSize)) \<noteq> None \<longrightarrow> mainMemory m' q = mainMemory m q)"
proof -
  note pf = fs_program_files [OF assms(1), unfolded program_files_def, THEN conjunct1]
  obtain m' es where "nachos_Load u tp n a m = Inr (m', a\<lparr>spaceTable := tp, numPages := prog_pages (noff_of (take 52 bs)),
        spaceFileAddr := file_addr (noff_of (take 52 bs))\<rparr>, True)"
    "fs_ok (machine.more m')" "fs_contents (machine.more m') = fs_contents (machine.more m)" "frames_wf m'" "frames_kept m m'"
    "tables m' = (tables m)(tp \<mapsto> es)" "table_ok es" "\<forall>i<NumPhysPages. new_entry m m' n tp i (es ! i)"
    "\<forall>va<MemorySize. resident es va \<longrightarrow> mainMemory m' (paddr es va) =
         (case noff_image (noff_of (take 52 bs)) bs va of Some b \<Rightarrow> b | None \<Rightarrow> mainMemory m (paddr es va))"
    "\<forall>q. RefPageTable (GlobalPageTable m (q div PageSize)) \<noteq> None \<longrightarrow> mainMemory m' q = mainMemory m q"
    using readable_files.Load_ok [OF pf assms(2-8), of a] by blast
  then show ?thesis
    by (intro exI [of _ m'] exI [of _ "a\<lparr>spaceTable := tp, numPages := prog_pages (noff_of (take 52 bs)),
        spaceFileAddr := file_addr (noff_of (take 52 bs))\<rparr>"] exI [of _ es]) (simp add: table_ok_def)
qed

text \<open>C24, the first instruction of a program on a formatted disk.\<close>

definition boot :: "disk \<times> file_system \<Rightarrow> (disk \<times> file_system) machine_scheme" where
  "boot d = machine.extend (Machine_new False 0 [] 0) d"

theorem Load_program_witness:
  "\<exists>d bs m' a' es. fs_contents d ''prog'' = Some bs \<and> nachos_Load blank_memory 7 ''prog'' space5 (boot d) = Inr (m', a', True)
     \<and> numPages a' = 9 \<and> tables m' 7 = Some es \<and> (resident es 2 \<longrightarrow> mainMemory m' (paddr es 2) = bs ! 54)"
proof -
  obtain d fs bs where d: "fs_ok (d, fs)" "fs_contents (d, fs) ''prog'' = Some bs" "length bs = 300" "take 52 bs = words_bytes demo_words"
    by (rule demo_disk)
  have m: "machine.more (boot (d, fs)) = (d, fs)" "tables (boot (d, fs)) = Map.empty"
    by (simp_all add: boot_def machine.defs Machine_new_def)
  have "frames_wf (boot (d, fs))" by (simp add: frames_wf_def m)
  then obtain m' a' es where l: "nachos_Load blank_memory 7 ''prog'' space5 (boot (d, fs)) = Inr (m', a', True)"
      "numPages a' = prog_pages (noff_of (take 52 bs))" "tables m' = (tables (boot (d, fs)))(7 \<mapsto> es)"
      "\<forall>va<MemorySize. resident es va \<longrightarrow> mainMemory m' (paddr es va) =
         (case noff_image (noff_of (take 52 bs)) bs va of Some b \<Rightarrow> b | None \<Rightarrow> mainMemory (boot (d, fs)) (paddr es va))"
    using Load_program [where m = "boot (d, fs)" and u = blank_memory and n = "''prog''" and bs = bs and tp = 7 and a = space5,
        unfolded m(1), OF blank_wf(2) d(1) demo_name(1) d(2)] d(3,4) demo_prog m(2) by auto
  have "noff_image (noff_of (words_bytes demo_words)) bs 2 = Some (bs ! 54)"
    unfolding demo_noff by (simp add: noff_image_def seg_byte_def d(3))
  then have "resident es 2 \<longrightarrow> mainMemory m' (paddr es 2) = bs ! 54"
    using l(4) [rule_format, of 2] by (simp add: d(4) page_defs)
  moreover have "prog_pages (noff_of (words_bytes demo_words)) = 9"
    unfolding demo_noff by (simp add: prog_pages_def UserStackSize_def PageSize_def)
  ultimately show ?thesis
    by (intro exI [of _ "(d, fs)"] exI [of _ bs] exI [of _ m'] exI [of _ a'] exI [of _ es]) (simp add: d l m)
qed

section \<open>Page faults\<close>

lemma handler_PageFault: "nachos_handler u os fresh PageFaultException = PageFault (fs_open u) fs_read (fs_write u) fs_close"
  by (rule ext) (simp add: ExceptionHandler_def ReadRegister_def fault_handler_def)


text \<open>C2, the first page of the program on disk.\<close>

definition no_host :: "'d host" where
  "no_host = \<lparr>host_write = \<lambda>d _ bs. (d, of_nat (length bs)), host_read = \<lambda>d _ _ _. (d, 0), host_fork = \<lambda>d. (d, 1), host_waitpid = \<lambda>d x. (d, x)\<rparr>"


text \<open>
  When there is a free frame the handler claims it and reads the page, and then stores
  through the index \<open>vir\<close>, which this path has never assigned: there is no defined behaviour.
\<close>

theorem page_fault_free_frame:
  assumes "uninit_wf u" "fs_ok (machine.more m)" "nachos_paging m" "\<not> frames_full m" "page_no (registers m BadVAddrReg) < NumPhysPages"
  shows "nachos_handler u os fresh PageFaultException m = Inl Undefined"
  unfolding handler_PageFault
  by (rule program_files.PageFault_free_frame [OF fs_program_files [OF assms(1)] assms(2-5)])


text \<open>With one frame left.\<close>

theorem page_fault_free_frame_witness:
  "\<exists>d. nachos_handler blank_memory no_host [] PageFaultException (demo_machine 127 d) = Inl Undefined"
proof -
  obtain d fs bs where d: "fs_ok (d, fs)" "fs_contents (d, fs) ''prog'' = Some bs" by (rule demo_disk)
  let ?m = "demo_machine 127 (d, fs)"
  have "nachos_paging ?m" "\<not> frames_full ?m" "page_no (registers ?m BadVAddrReg) < NumPhysPages"
    using demo_machine_ok [of "(d, fs)" 127] d(2) by (simp_all add: NumPhysPages_def)
  then show ?thesis using page_fault_free_frame [of blank_memory ?m no_host "[]"] blank_wf(2) d(1) by auto
qed




section \<open>System calls\<close>

text \<open>The state after a system call with result \<open>r\<close> that continues with the next instruction.\<close>

definition returned :: "int32 \<Rightarrow> int32 \<Rightarrow> int32 \<Rightarrow> 'd \<Rightarrow> 'd machine_scheme \<Rightarrow> 'd machine_scheme" where
  "returned r pc npc d m = m\<lparr>machine.more := d,
     registers := (registers m)(2 := r, PrevPCReg := registers m PCReg, PCReg := pc, NextPCReg := npc)\<rparr>"

lemma write_result_increment:
  "bindR (WriteRegister (m\<lparr>machine.more := d\<rparr>) 2 r) incrementPC = Inr (returned r (registers m NextPCReg) (registers m NextPCReg + 4) d m)"
  by (simp add: WriteRegister_def incrementPC_def ReadRegister_def set_reg_def returned_def fun_upd_twist)

lemma write_result_add:
  "bindR (WriteRegister m 2 r) Add_return = Inr (returned r (registers m PCReg + 4) (registers m PCReg + 8) (machine.more m) m)"
  by (simp add: WriteRegister_def Add_return_def ReadRegister_def set_reg_def returned_def fun_upd_twist add.commute)



section \<open>Writing a string\<close>

text \<open>The bytes of a string of a user program: readable, in memory at consecutive virtual addresses.\<close>

definition user_bytes :: "'d machine_scheme \<Rightarrow> translation_entry list \<Rightarrow> int32 \<Rightarrow> byte list \<Rightarrow> bool" where
  "user_bytes m es va bs \<longleftrightarrow> (\<forall>k<length bs. check_ref m es (va + of_nat k) 1 False = NoException
     \<and> mainMemory m (phys es (va + of_nat k)) = bs ! k)"

lemma user_bytes_Cons:
  "user_bytes m es va (b # bs) \<longleftrightarrow> check_ref m es va 1 False = NoException \<and> mainMemory m (phys es va) = b \<and> user_bytes m es (va + 1) bs"
  unfolding user_bytes_def by (auto simp: less_Suc_eq_0_disj algebra_simps)

lemma user_bytes_touched:
  assumes "linear m es" "user_bytes m es va bs"
  shows "user_bytes (touched m es x False) (marked es x False) va bs"
  using assms(2) by (simp add: user_bytes_def check_ref_marked [OF assms(1)] phys_marked [OF assms(1), where sz = "Suc 0" and w' = False])

lemma scast_byte: "scast (b :: byte) = (0 :: int32) \<longleftrightarrow> b = 0" "ucast (scast (b :: byte) :: int32) = b"
proof -
  show u: "ucast (scast b :: int32) = b" by (rule bit_word_eqI) (simp add: bit_simps)
  show "scast b = (0 :: int32) \<longleftrightarrow> b = 0" using u by (metis scast_0 unsigned_0)
qed

lemma SysWrite_step:
  assumes "linear m es" "check_ref m es va 1 False = NoException" "mainMemory m (phys es va) = b" "length buffer = 128"
  shows "SysWrite_loop h m va buffer cnt = (if cnt < 128 then
      if b \<noteq> 0 then SysWrite_loop h (touched m es va False) (va + 1) (buffer[cnt := b]) (cnt + 1)
      else Inr (touched m es va False, buffer[cnt := b]) else Inl Undefined)"
proof -
  have "ReadMem h m va 1 = Inr (touched m es va False, Some (scast b))"
    using ReadMem_allowed [OF assms(1) _ assms(2), of h] assms(3) by (simp add: read_value_def)
  then show ?thesis using assms(4) by (subst SysWrite_loop.simps) (simp add: scast_byte)
qed

lemma overlay_step:
  "cnt + length bs < length buffer \<Longrightarrow> overlay (buffer[cnt := b]) (Suc cnt) bs = overlay buffer cnt (b # bs)"
  by (rule nth_equalityI) (auto simp: nth_overlay nth_list_update nth_Cons')

lemma SysWrite_loop_string:
  assumes "linear m es" "user_bytes m es va (bs @ [0])" "0 \<notin> set bs" "cnt + length bs < 128" "length buffer = 128"
  shows "\<exists>m'. SysWrite_loop h m va buffer cnt = Inr (m', overlay buffer cnt (bs @ [0])) \<and> machine.more m' = machine.more m
    \<and> mainMemory m' = mainMemory m \<and> registers m' = registers m"
  using assms
proof (induction bs arbitrary: m es va buffer cnt)
  case Nil
  then have c: "check_ref m es va 1 False = NoException" "mainMemory m (phys es va) = 0" by (simp_all add: user_bytes_Cons)
  have "overlay buffer cnt [0] = buffer[cnt := 0]" using Nil.prems(4,5) by (simp add: overlay_def upd_conv_take_nth_drop)
  with SysWrite_step [OF Nil.prems(1) c Nil.prems(5)] Nil.prems(4) show ?case
    by (auto simp: touched_def touch_frame_def table_set_def)
next
  case (Cons b bs)
  have c: "check_ref m es va 1 False = NoException" "mainMemory m (phys es va) = b" and bs: "user_bytes m es (va + 1) (bs @ [0])"
    using Cons.prems(2) by (simp_all add: user_bytes_Cons)
  let ?m = "touched m es va False"
  have "\<exists>m'. SysWrite_loop h ?m (va + 1) (buffer[cnt := b]) (Suc cnt) = Inr (m', overlay (buffer[cnt := b]) (Suc cnt) (bs @ [0]))
      \<and> machine.more m' = machine.more ?m \<and> mainMemory m' = mainMemory ?m \<and> registers m' = registers ?m"
    by (rule Cons.IH [OF linear_touched [OF Cons.prems(1)] user_bytes_touched [OF Cons.prems(1) bs]]) (use Cons.prems in auto)
  then show ?case using SysWrite_step [OF Cons.prems(1) c Cons.prems(5), of h cnt] Cons.prems(3-5) overlay_step [of cnt "bs @ [0]" buffer b]
    by (auto simp: touched_def touch_frame_def table_set_def)
qed

lemma SysWrite_loop_overrun:
  assumes "linear m es" "user_bytes m es va bs" "0 \<notin> set bs" "128 < cnt + length bs" "cnt \<le> 128" "length buffer = 128"
  shows "SysWrite_loop h m va buffer cnt = Inl Undefined"
  using assms
proof (induction bs arbitrary: m es va buffer cnt)
  case (Cons b bs)
  have c: "check_ref m es va 1 False = NoException" "mainMemory m (phys es va) = b" and bs: "user_bytes m es (va + 1) bs"
    using Cons.prems(2) by (simp_all add: user_bytes_Cons)
  note step = SysWrite_step [OF Cons.prems(1) c Cons.prems(6), of h cnt]
  show ?case
  proof (cases "cnt = 128")
    case False
    have "SysWrite_loop h (touched m es va False) (va + 1) (buffer[cnt := b]) (Suc cnt) = Inl Undefined"
      by (rule Cons.IH [OF linear_touched [OF Cons.prems(1)] user_bytes_touched [OF Cons.prems(1) bs]]) (use Cons.prems False in auto)
    with step False Cons.prems(3,5) show ?thesis by simp
  qed (use step in simp)
qed simp



end
