(* ===== verification/RunProg.thy ===== *)
theory RunProg
  imports UserProg
begin

text \<open>
  The start of a user program: \<open>main\<close> loads a program into two address spaces and executes
  the second one (end of \<^verbatim>\<open>code/threads/main.cc\<close>). The lemmas hold for every file service
  that keeps the laws of \<open>readable_files\<close> and \<open>program_files\<close>: the state that results is one
  in which the handler of page faults works, and what the program reads comes from its file.
\<close>

section \<open>The user program of main\<close>

text \<open>
  The program is loaded into two address spaces, with page tables at \<open>tp1\<close> and \<open>tp2\<close>, and the
  second one is executed; the result tells whether it is running.
\<close>

definition main_program ::
    "('d \<Rightarrow> string \<Rightarrow> ('d \<times> 'f option) res) \<Rightarrow> ('d \<Rightarrow> 'f \<Rightarrow> int \<Rightarrow> int \<Rightarrow> ('d \<times> byte list) res) \<Rightarrow> ('d \<Rightarrow> 'f \<Rightarrow> 'd res)
     \<Rightarrow> table_ptr \<Rightarrow> table_ptr \<Rightarrow> addr_space \<Rightarrow> addr_space \<Rightarrow> string \<Rightarrow> 'd machine_scheme \<Rightarrow> ('d machine_scheme \<times> bool) res" where
  "main_program opn rd cls tp1 tp2 space1 space2 prog m =
     bindR (AddrSpace_Load opn rd cls tp1 prog space1 m) (\<lambda>(m, space1, loaded).
     if loaded then
       bindR (AddrSpace_Load opn rd cls tp2 prog space2 m) (\<lambda>(m, space2, loaded).
       if loaded then bindR (Execute space2 m) (\<lambda>m. Inr (m, True)) else Inr (m, False))
     else Inr (m, False))"

section \<open>The state that main starts the program in\<close>

text \<open>A page table for every page takes all frames of an empty memory.\<close>

lemma all_frames_taken:
  assumes free: "\<forall>f. RefPageTable (GlobalPageTable m f) = None"
    and entries: "\<forall>i<NumPhysPages. new_entry m m' n tp i (es ! i)"
    and owners: "\<forall>f. GlobalPageTable m' f = GlobalPageTable m f \<or> (\<exists>i<NumPhysPages. owner m' f = Some (tp, i))"
  shows "\<forall>f<NumPhysPages. \<exists>i<NumPhysPages. owner m' f = Some (tp, i)"
proof (rule ccontr)
  assume "\<not> ?thesis"
  then obtain f0 where f0: "f0 < NumPhysPages" "RefPageTable (GlobalPageTable m' f0) = None"
    using owners free by metis
  then have "\<not> frames_full m'" by (auto simp: frames_full_def)
  then have "\<forall>i\<in>{..<NumPhysPages}. \<exists>f<NumPhysPages. owner m' f = Some (tp, i)"
    using entries unfolding new_entry_def by auto
  then obtain F where F: "\<forall>i\<in>{..<NumPhysPages}. F i < NumPhysPages \<and> owner m' (F i) = Some (tp, i)" by metis
  have "inj_on F {..<NumPhysPages}" using F by (metis (mono_tags, lifting) inj_onI option.inject prod.inject)
  moreover have "F ` {..<NumPhysPages} \<subseteq> {..<NumPhysPages} - {f0}" using F f0(2) by (auto simp: owner_def)
  ultimately have "card {..<NumPhysPages} \<le> card ({..<NumPhysPages} - {f0})"
    by (metis card_inj_on_le finite_Diff finite_lessThan)
  then show False using f0(1) by (simp add: card_Diff_singleton)
qed

definition start_registers :: "int32 \<Rightarrow> nat \<Rightarrow> int32" where
  "start_registers pages = (\<lambda>_. 0)(NextPCReg := 4, StackReg := pages * of_nat PageSize - 16)"

lemma Execute_ok:
  "\<forall>k. NumTotalRegs \<le> k \<longrightarrow> registers m k = 0 \<Longrightarrow>
   Execute a m = Inr (use_space a (m\<lparr>registers := start_registers (numPages a)\<rparr>))"
  by (simp add: Execute_def InitRegisters_def write_registers_ok [OF all_registers_range] WriteRegister_def set_reg_def)
    (auto simp: start_registers_def all_registers_def fun_eq_iff use_space_def)

text \<open>The machine as the kernel has constructed it.\<close>

definition fresh_machine :: "'a machine_scheme \<Rightarrow> bool" where
  "fresh_machine m \<longleftrightarrow> registers m = (\<lambda>_. 0) \<and> tables m = Map.empty \<and> tlb m = None
     \<and> (\<forall>f. RefPageTable (GlobalPageTable m f) = None)"

context readable_files
begin

lemma main_program_ok:
  assumes fs: "inv (machine.more m)" "okname n" "contents (machine.more m) n = Some bs"
    and prog: "52 \<le> length bs" "prog_ok (noff_of (take 52 bs))" and m: "fresh_machine m" and tp: "tp1 \<noteq> tp2"
  defines "h \<equiv> noff_of (take 52 bs)"
  obtains m' es where "main_program opn rd cls tp1 tp2 a1 a2 n m = Inr (m', True)" "inv (machine.more m')"
    "contents (machine.more m') = contents (machine.more m)" "paging (\<lambda>d n. okname n \<and> contents d n \<noteq> None) m'" "frames_full m'" "regs_wf m'" "Machine.linear m' es"
    "pageTable m' = Some tp2" "pageTableSize m' = prog_pages h" "registers m' = start_registers (prog_pages h)" "FileAddr m' = file_addr h"
    "\<forall>i<NumPhysPages. physicalPage (es ! i) = -1 \<and> DiskFile (es ! i) = n"
    "\<forall>f<NumPhysPages. \<exists>i<NumPhysPages. owner m' f = Some (tp1, i)"
    "\<forall>t e. tables m' t = Some e \<longrightarrow> (\<forall>i<NumPhysPages. \<not> dirty (e ! i))"
proof -
  have fresh: "registers m = (\<lambda>_. 0)" "tables m = Map.empty" "tlb m = None" "\<forall>f. RefPageTable (GlobalPageTable m f) = None"
    using m by (simp_all add: fresh_machine_def)
  have wf0: "frames_wf m" "tables m tp1 = None" using fresh(2) by (simp_all add: frames_wf_def)
  let ?a = "\<lambda>tp a. a\<lparr>spaceTable := tp, numPages := prog_pages h, spaceFileAddr := file_addr h\<rparr>"
  obtain m1 es1 where 1: "AddrSpace_Load opn rd cls tp1 n a1 m = Inr (m1, ?a tp1 a1, True)" "inv (machine.more m1)"
      "contents (machine.more m1) = contents (machine.more m)" "frames_wf m1" "registers m1 = registers m"
      "tables m1 = (tables m)(tp1 \<mapsto> es1)" "table_ok es1" "\<forall>i<NumPhysPages. new_entry m m1 n tp1 i (es1 ! i)"
      "\<forall>f. GlobalPageTable m1 f = GlobalPageTable m f \<or> (\<exists>i<NumPhysPages. owner m1 f = Some (tp1, i))" "tlb m1 = tlb m"
    using Load_ok [OF fs prog wf0, of a1] unfolding h_def by blast
  have own1: "\<forall>f<NumPhysPages. \<exists>i<NumPhysPages. owner m1 f = Some (tp1, i)"
    by (rule all_frames_taken [OF fresh(4) 1(8,9)])
  then have full1: "frames_full m1" unfolding frames_full_def owner_def by (metis map_option_is_None option.distinct(1))
  have fs1: "contents (machine.more m1) n = Some bs" "tables m1 tp2 = None" using 1(3,6) fs(3) fresh(2) tp by simp_all
  obtain m2 es where 2: "AddrSpace_Load opn rd cls tp2 n a2 m1 = Inr (m2, ?a tp2 a2, True)" "inv (machine.more m2)"
      "contents (machine.more m2) = contents (machine.more m1)" "frames_wf m2" "frames_kept m1 m2" "registers m2 = registers m1"
      "tables m2 = (tables m1)(tp2 \<mapsto> es)" "table_ok es" "\<forall>i<NumPhysPages. new_entry m1 m2 n tp2 i (es ! i)" "tlb m2 = tlb m1"
    using Load_ok [OF 1(2) fs(2) fs1(1) prog 1(4) fs1(2), of a2] unfolding h_def by blast
  let ?m = "use_space (?a tp2 a2) (m2\<lparr>registers := start_registers (prog_pages h)\<rparr>)"
  have run: "main_program opn rd cls tp1 tp2 a1 a2 n m = Inr (?m, True)"
    using 1(1) 2(1) Execute_ok [of m2 "?a tp2 a2"] 1(5) 2(6) fresh(1) by (simp add: main_program_def)
  have g: "GlobalPageTable m2 f = GlobalPageTable m1 f" if "f < NumPhysPages" for f
    using 2(5) full1 that by (simp add: frames_kept_def frames_full_def)
  have own: "\<forall>f<NumPhysPages. \<exists>i<NumPhysPages. owner ?m f = Some (tp1, i)"
    using own1 g by (simp add: owner_def use_space_def)
  have full: "frames_full ?m" using full1 g by (simp add: frames_full_def use_space_def)
  have tabs: "tables ?m = [tp1 \<mapsto> es1, tp2 \<mapsto> es]" "length es1 = NumPhysPages" "length es = NumPhysPages"
    using 1(6,7) 2(7,8) fresh(2) by (simp_all add: use_space_def table_ok_def)
  have ent: "virtualPage (e ! i) = of_nat i \<and> DiskFile (e ! i) = n \<and> \<not> dirty (e ! i)" if "e \<in> {es1, es}" "i < NumPhysPages" for e i
    using that 1(8) 2(9) by (auto simp: new_entry_def)
  have none: "physicalPage (es ! i) = -1" if "i < NumPhysPages" for i
    using 2(9) [rule_format, OF that] full1 by (auto simp: new_entry_def frames_full_def)
  have okf: "okname n \<and> contents (machine.more ?m) n \<noteq> None" using fs 1(3) 2(3) by (simp add: use_space_def)
  have "paging (\<lambda>d n. okname n \<and> contents d n \<noteq> None) ?m"
    unfolding paging_def
  proof (intro conjI allI impI)
    show "frames_wf ?m" using 2(4) frames_wf_cong [of ?m m2] by (simp add: use_space_def)
    show "fa_ok (FileAddr ?m)" using prog_fa_ok [OF prog(2)] by (simp add: use_space_def h_def)
    show "\<exists>pt. pageTable ?m = Some pt \<and> tables ?m pt \<noteq> None" using tabs(1) by (simp add: use_space_def)
    show "length e = NumPhysPages" if "tables ?m t = Some e" for t e using that tabs by (auto split: if_splits)
    show "virtualPage (e ! i) = of_nat i" "okname (DiskFile (e ! i))" "contents (machine.more ?m) (DiskFile (e ! i)) \<noteq> None"
      if "tables ?m t = Some e" "i < NumPhysPages" for t e i
      using that tabs ent [of e i] okf by (auto split: if_splits)
    show "tables ?m t \<noteq> None" "unat (VirNum (GlobalPageTable ?m f)) < NumPhysPages"
      if "f < NumPhysPages" "RefPageTable (GlobalPageTable ?m f) = Some t" for f t
      using own that tabs(1) tp by (force simp: owner_def)+
  qed
  moreover have "Machine.linear ?m es"
  proof -
    have "unat (prog_pages h) \<le> NumPhysPages"
      using prog(2) by (simp add: prog_ok_def h_def word_le_nat_alt NumPhysPages_def)
    then show ?thesis using tabs 1(10) 2(10) fresh(3) by (simp add: Machine.linear_def use_space_def)
  qed
  moreover have "regs_wf ?m" by (simp add: regs_wf_def use_space_def start_registers_def)
  moreover have "\<forall>t e. tables ?m t = Some e \<longrightarrow> (\<forall>i<NumPhysPages. \<not> dirty (e ! i))"
    using tabs(1) ent by (auto split: if_splits)
  ultimately show ?thesis
    using full own none ent 1(3) 2(2,3) by (intro that [OF run]) (auto simp: use_space_def)
qed

end

section \<open>What the program reads\<close>

lemma aligned_in_page:
  assumes "sz \<in> {1, 2, 4 :: nat}" "unat va mod sz = 0" "i < sz"
  shows "unat (va :: int32) mod PageSize + i < PageSize"
proof -
  have "unat va mod PageSize mod sz = 0" using assms(1,2) by (auto simp: PageSize_def mod_mod_cancel)
  then obtain q where q: "unat va mod PageSize = sz * q" by auto
  have "unat va mod PageSize < PageSize" by (simp add: PageSize_def)
  with q assms(1,3) show ?thesis by (auto simp: PageSize_def)
qed

lemma page_mem_at:
  assumes "r < PageSize" "B r = Some b"
  shows "page_mem B k {..<PageSize} mem (k * PageSize + r) = b"
  using assms by (simp add: page_mem_def PageSize_def)

lemma ExceptionHandler_PageFault: "ExceptionHandler opn rd wr cls os fresh PageFaultException = PageFault opn rd wr cls"
  by (rule ext) (simp add: ExceptionHandler_def ReadRegister_def fault_handler_def)

context program_files
begin

text \<open>
  A reference to a page of the program that is not in memory: the page is read from the file
  of the program, and the reference gets its bytes.
\<close>

lemma faulting_read_gets_file:
  assumes "inv (machine.more m)" "paging (\<lambda>d n. okname n \<and> contents d n \<noteq> None) m" "frames_full m" "regs_wf m" "Machine.linear m es" "sz \<in> {1, 2, 4}"
    "check_ref m es va sz False = PageFaultException" "contents (machine.more m) (DiskFile (es ! page_no va)) = Some bs"
    "\<forall>t e. tables m t = Some e \<longrightarrow> (\<forall>i<NumPhysPages. \<not> dirty (e ! i))"
  shows "\<exists>m' p. ReadMem (ExceptionHandler opn rd wr cls os fresh) m va sz = Inr (m', Some (read_value (mainMemory m') p sz))
    \<and> (\<forall>i < sz. \<forall>b. fault_byte (FileAddr m) bs (unat va + i) = Some b \<longrightarrow> mainMemory m' (p + i) = b)"
proof -
  let ?h = "ExceptionHandler opn rd wr cls os fresh"
  obtain m' es' k t v fbs where r: "access_address (fault_handler opn rd wr cls) m va sz False
        = Inr (touched m' es' va False, Some (phys es' va))"
    "phys es' va = k * PageSize + unat va mod PageSize" "k < NumPhysPages" "owner m k = Some (t, v)"
    "contents (machine.more m') (DiskFile (es ! page_no va)) = Some fbs"
    "mainMemory m' = page_mem (\<lambda>i. fault_byte (FileAddr m) fbs (page_no va * PageSize + i)) k {..<PageSize} (mainMemory m)"
    "\<forall>e. tables m t = Some e \<longrightarrow> \<not> dirty (e ! v) \<longrightarrow> contents (machine.more m') = contents (machine.more m)"
    by (rule access_served [OF assms(1-7)]) (rule that; assumption)
  have "RefPageTable (GlobalPageTable m k) = Some t" "v = unat (VirNum (GlobalPageTable m k))" using r(4) by (auto simp: owner_def)
  then obtain e where e: "tables m t = Some e" "v < NumPhysPages" using assms(2) r(3) unfolding paging_def by blast
  then have fbs: "fbs = bs" using r(5,7) assms(8,9) by auto
  have "access_address ?h m va sz False = access_address (fault_handler opn rd wr cls) m va sz False"
    using Translate_linear [OF assms(5,6), of va False] assms(7)
    by (simp add: access_address_def RaiseException_def ExceptionHandler_PageFault fault_handler_def)
  then have acc: "access_address ?h m va sz False = Inr (touched m' es' va False, Some (k * PageSize + unat va mod PageSize))"
    using r(1,2) by simp
  have mem: "mainMemory (touched m' es' va False) = mainMemory m'" by (simp add: touched_def touch_frame_def table_set_def)
  have al: "unat va mod sz = 0" using assms(7) by (auto simp: check_ref_def split: if_splits)
  have "mainMemory m' (k * PageSize + unat va mod PageSize + i) = b"
    if "i < sz" "fault_byte (FileAddr m) bs (unat va + i) = Some b" for i b
  proof -
    have "page_no va * PageSize + (unat va mod PageSize + i) = unat va + i" by (simp add: div_mult_mod_eq flip: add.assoc)
    then have "fault_byte (FileAddr m) fbs (page_no va * PageSize + (unat va mod PageSize + i)) = Some b" using that(2) fbs by simp
    then show ?thesis unfolding r(6) add.assoc by (rule page_mem_at [OF aligned_in_page [OF assms(6) al that(1)]])
  qed
  moreover have "ReadMem ?h m va sz = Inr (touched m' es' va False, Some (read_value (mainMemory (touched m' es' va False)) (k * PageSize + unat va mod PageSize) sz))"
    using acc assms(6) by (auto simp: ReadMem_def read_value_def ShortToHost_def WordToHost_def)
  ultimately show ?thesis
    by (intro exI [of _ "touched m' es' va False"] exI [of _ "k * PageSize + unat va mod PageSize"]) (simp add: mem)
qed

end

end
