(* ===== verification/Coff.thy ===== *)
theory Coff
  imports AddrSpace
begin

text \<open>
  The object file converter (\<^verbatim>\<open>coff2noff/coff2noff.c\<close>, \<^verbatim>\<open>coff.h\<close>, \<^verbatim>\<open>noff.h\<close>): it reads the headers
  of a COFF file, copies the sections that have contents behind the place of the NOFF header
  and writes that header, which \<open>AddrSpace::Load\<close> reads. The converter runs on the host: its
  files are sequences of bytes, and the header that it fills is a local variable whose
  unassigned fields have the values that the stack had there, an argument of the model. \<open>long\<close>
  is 32 bits wide (the Makefile compiles with \<^verbatim>\<open>-m32\<close>) and additions on it wrap.
\<close>

section \<open>COFF headers\<close>

definition MIPSELMAGIC :: "16 word" where "MIPSELMAGIC = 0x0162"

text \<open>Octal 0407.\<close>

definition OMAGIC :: "16 word" where "OMAGIC = 263"

record filehdr =
  f_magic :: "16 word"
  f_nscns :: "16 word"
  f_timdat :: int32
  f_symptr :: int32
  f_nsyms :: int32
  f_opthdr :: "16 word"
  f_flags :: "16 word"

record aouthdr =
  sys_magic :: "16 word"
  vstamp :: "16 word"
  tsize :: int32
  dsize :: int32
  bsize :: int32
  entry_point :: int32
  text_start :: int32
  data_start :: int32
  bss_start :: int32
  gprmask :: int32
  cprmask :: "int32 list"
  gp_value :: int32

record scnhdr =
  s_name :: "byte list"
  s_paddr :: int32
  s_vaddr :: int32
  s_size :: int32
  s_scnptr :: int32
  s_relptr :: int32
  s_lnnoptr :: int32
  s_nreloc :: "16 word"
  s_nlnno :: "16 word"
  s_flags :: int32

definition half_at :: "byte list \<Rightarrow> nat \<Rightarrow> 16 word" where
  "half_at bs i = get16 (\<lambda>k. bs ! k) i"

definition word_at :: "byte list \<Rightarrow> nat \<Rightarrow> 32 word" where
  "word_at bs i = get32 (\<lambda>k. bs ! k) i"

definition filehdr_of :: "byte list \<Rightarrow> filehdr" where
  "filehdr_of bs = \<lparr>f_magic = half_at bs 0, f_nscns = half_at bs 2, f_timdat = word_at bs 4, f_symptr = word_at bs 8,
     f_nsyms = word_at bs 12, f_opthdr = half_at bs 16, f_flags = half_at bs 18\<rparr>"

definition aouthdr_of :: "byte list \<Rightarrow> aouthdr" where
  "aouthdr_of bs = \<lparr>sys_magic = half_at bs 0, vstamp = half_at bs 2, tsize = word_at bs 4, dsize = word_at bs 8,
     bsize = word_at bs 12, entry_point = word_at bs 16, text_start = word_at bs 20, data_start = word_at bs 24,
     bss_start = word_at bs 28, gprmask = word_at bs 32, cprmask = map (word_at bs) [36, 40, 44, 48], gp_value = word_at bs 52\<rparr>"

definition scnhdr_of :: "byte list \<Rightarrow> scnhdr" where
  "scnhdr_of bs = \<lparr>s_name = take 8 bs, s_paddr = word_at bs 8, s_vaddr = word_at bs 12, s_size = word_at bs 16,
     s_scnptr = word_at bs 20, s_relptr = word_at bs 24, s_lnnoptr = word_at bs 28, s_nreloc = half_at bs 32,
     s_nlnno = half_at bs 34, s_flags = word_at bs 36\<rparr>"

definition sizeof_filehdr :: nat where "sizeof_filehdr = 20"
definition sizeof_aouthdr :: nat where "sizeof_aouthdr = 56"
definition sizeof_scnhdr :: nat where "sizeof_scnhdr = 40"

text \<open>
  The name of a section as \<open>strcmp\<close> sees it. The literals that it is compared with are
  shorter than the eight bytes of the field, so the comparison ends inside the field.
\<close>

definition section_name :: "scnhdr \<Rightarrow> byte list" where
  "section_name s = takeWhile (\<lambda>b. b \<noteq> 0) (s_name s)"

definition named :: "scnhdr \<Rightarrow> string \<Rightarrow> bool" where
  "named s lit \<longleftrightarrow> section_name s = map of_char lit"

section \<open>Files of the host\<close>

text \<open>
  The reasons why the converter stops: those that it reports, and \<open>Unspecified\<close> where it asks
  \<open>read\<close> for more bytes than a signed size can hold, whose outcome POSIX leaves open. An
  output file that could not be opened has the descriptor \<open>None\<close>; otherwise \<open>Some lim\<close> is the
  size that the file can grow to.
\<close>

datatype coff_error = Usage | NoInput | TooShort | CantWrite | NotMipsel | NotOmagic | BssSbss
  | UnknownSegment "byte list" | Unspecified

record conv =
  fpIn :: nat
  outFile :: "byte list"
  fpOut :: nat
  noffH :: noff_header
  inNoffFile :: int32

definition coff_Read :: "byte list \<Rightarrow> int32 \<Rightarrow> conv \<Rightarrow> coff_error + byte list \<times> conv" where
  "coff_Read coff nBytes c =
     (if sint nBytes < 0 then Inl Unspecified
      else let buf = take (nat (sint nBytes)) (drop (fpIn c) coff) in
        if int (length buf) \<noteq> sint nBytes then Inl TooShort
        else Inr (buf, c\<lparr>fpIn := fpIn c + length buf\<rparr>))"

text \<open>A write behind the end of a file fills the gap with zeros.\<close>

definition unix_write :: "byte list \<Rightarrow> nat \<Rightarrow> byte list \<Rightarrow> byte list" where
  "unix_write f pos bs = take pos f @ replicate (pos - length f) 0 @ bs @ drop (pos + length bs) f"

definition coff_Write :: "nat option \<Rightarrow> byte list \<Rightarrow> conv \<Rightarrow> coff_error + conv" where
  "coff_Write fdOut buf c =
     (case fdOut of None \<Rightarrow> Inl CantWrite
      | Some lim \<Rightarrow>
          if fpOut c + length buf \<le> lim
          then Inr (c\<lparr>outFile := unix_write (outFile c) (fpOut c) buf, fpOut := fpOut c + length buf\<rparr>)
          else Inl CantWrite)"

text \<open>\<open>lseek\<close> to a negative offset fails and keeps the position; the result is not tested.\<close>

definition lseek_in :: "int32 \<Rightarrow> conv \<Rightarrow> conv" where
  "lseek_in off c = (if sint off < 0 then c else c\<lparr>fpIn := nat (sint off)\<rparr>)"

section \<open>The converter\<close>

definition bindE :: "'e + 'a \<Rightarrow> ('a \<Rightarrow> 'e + 'b) \<Rightarrow> 'e + 'b" where
  "bindE m k = (case m of Inl e \<Rightarrow> Inl e | Inr x \<Rightarrow> k x)"

lemma bindE_simps [simp]: "bindE (Inl e) k = Inl e" "bindE (Inr x) k = k x"
  by (simp_all add: bindE_def)

definition copy_section :: "byte list \<Rightarrow> nat option \<Rightarrow> scnhdr \<Rightarrow> conv \<Rightarrow> coff_error + conv" where
  "copy_section coff fdOut s c =
     bindE (coff_Read coff (s_size s) (lseek_in (s_scnptr s) c)) (\<lambda>(buffer, c).
     bindE (coff_Write fdOut buffer c) (\<lambda>c.
     Inr (c\<lparr>inNoffFile := inNoffFile c + s_size s\<rparr>)))"

definition segment_at :: "scnhdr \<Rightarrow> conv \<Rightarrow> segment" where
  "segment_at s c = \<lparr>virtualAddr = s_paddr s, inFileAddr = inNoffFile c, segSize = s_size s\<rparr>"

definition convert_section :: "byte list \<Rightarrow> nat option \<Rightarrow> scnhdr \<Rightarrow> conv \<Rightarrow> coff_error + conv" where
  "convert_section coff fdOut s c =
     (if s_size s = 0 then Inr c
      else if named s ''.text'' then
        copy_section coff fdOut s (c\<lparr>noffH := (noffH c)\<lparr>codeSeg := segment_at s c\<rparr>\<rparr>)
      else if named s ''.data'' then
        copy_section coff fdOut s (c\<lparr>noffH := (noffH c)\<lparr>initData := segment_at s c\<rparr>\<rparr>)
      else if named s ''.rdata'' then
        copy_section coff fdOut s (c\<lparr>noffH := (noffH c)\<lparr>readonlyData := segment_at s c\<rparr>\<rparr>)
      else if named s ''.bss'' then
        let u = uninitData (noffH c) in
        if segSize u \<noteq> 0 then
          if s_paddr s = virtualAddr u + segSize u then Inl BssSbss
          else Inr (c\<lparr>noffH := (noffH c)\<lparr>uninitData := u\<lparr>segSize := segSize u + s_size s\<rparr>\<rparr>\<rparr>)
        else Inr (c\<lparr>noffH := (noffH c)\<lparr>uninitData := u\<lparr>virtualAddr := s_paddr s, segSize := s_size s\<rparr>\<rparr>\<rparr>)
      else Inl (UnknownSegment (section_name s)))"

primrec convert_sections :: "byte list \<Rightarrow> nat option \<Rightarrow> scnhdr list \<Rightarrow> conv \<Rightarrow> coff_error + conv" where
  "convert_sections coff fdOut [] c = Inr c"
| "convert_sections coff fdOut (s # ss) c =
     bindE (convert_section coff fdOut s c) (\<lambda>c. convert_sections coff fdOut ss c)"

text \<open>The header in the byte order of the file.\<close>

definition segment_words :: "segment \<Rightarrow> int32 list" where
  "segment_words s = [virtualAddr s, inFileAddr s, segSize s]"

definition noff_bytes :: "noff_header \<Rightarrow> byte list" where
  "noff_bytes h = words_bytes (noffMagic h # segment_words (codeSeg h) @ segment_words (initData h)
     @ segment_words (readonlyData h) @ segment_words (uninitData h))"

definition scnhdrs_of :: "nat \<Rightarrow> byte list \<Rightarrow> scnhdr list" where
  "scnhdrs_of n bs = map (\<lambda>i. let s = scnhdr_of (take sizeof_scnhdr (drop (i * sizeof_scnhdr) bs)) in
     s\<lparr>s_paddr := WordToHost (s_paddr s), s_size := WordToHost (s_size s), s_scnptr := WordToHost (s_scnptr s)\<rparr>) [0..<n]"

definition noff_start :: "noff_header \<Rightarrow> noff_header" where
  "noff_start h = h\<lparr>noffMagic := NOFFMAGIC, codeSeg := (codeSeg h)\<lparr>segSize := 0\<rparr>, initData := (initData h)\<lparr>segSize := 0\<rparr>,
     uninitData := (uninitData h)\<lparr>segSize := 0\<rparr>, readonlyData := (readonlyData h)\<lparr>segSize := 0\<rparr>\<rparr>"

text \<open>
  From the opened files to the output file; \<open>h\<close> is what the stack held at the place of the
  header.
\<close>

definition coff_convert :: "noff_header \<Rightarrow> byte list \<Rightarrow> nat option \<Rightarrow> coff_error + byte list" where
  "coff_convert h coff fdOut =
     bindE (coff_Read coff (of_nat sizeof_filehdr) \<lparr>fpIn = 0, outFile = [], fpOut = 0, noffH = h, inNoffFile = 0\<rparr>) (\<lambda>(bs, c).
     let fileh = filehdr_of bs in
     if ShortToHost (f_magic fileh) \<noteq> MIPSELMAGIC then Inl NotMipsel else
     bindE (coff_Read coff (of_nat sizeof_aouthdr) c) (\<lambda>(bs, c).
     if ShortToHost (sys_magic (aouthdr_of bs)) \<noteq> OMAGIC then Inl NotOmagic else
     let numsections = unat (ShortToHost (f_nscns fileh)) in
     bindE (coff_Read coff (of_nat (numsections * sizeof_scnhdr)) c) (\<lambda>(bs, c).
     let c = c\<lparr>noffH := noff_start h, inNoffFile := word_of_int sizeof_NoffHeader, fpOut := nat sizeof_NoffHeader\<rparr> in
     bindE (convert_sections coff fdOut (scnhdrs_of numsections bs) c) (\<lambda>c.
     bindE (coff_Write fdOut (noff_bytes (SwapHeader (noffH c))) (c\<lparr>fpOut := 0\<rparr>)) (\<lambda>c.
     Inr (outFile c))))))"

text \<open>
  The program: \<open>creat\<close> tells which files the host lets it open for writing. A missing second
  argument is a null pointer, which \<open>open\<close> and \<open>unlink\<close> refuse; any other \<open>unlink\<close> removes the
  file. The test behind the second \<open>open\<close> is on the wrong descriptor and never holds.
\<close>

definition coff2noff_main ::
    "noff_header \<Rightarrow> (string \<Rightarrow> nat option) \<Rightarrow> string list \<Rightarrow> (string \<Rightarrow> byte list option)
     \<Rightarrow> (string \<Rightarrow> byte list option) \<times> coff_error option" where
  "coff2noff_main h creat argv fs =
     (if length argv < 2 then (fs, Some Usage)
      else if fs (argv ! 1) = None then (fs, Some NoInput)
      else let outName = (if length argv < 3 then None else Some (argv ! 2));
               fdOut = (case outName of None \<Rightarrow> None | Some n \<Rightarrow> creat n);
               fs = (case (outName, fdOut) of (Some n, Some lim) \<Rightarrow> fs(n \<mapsto> []) | _ \<Rightarrow> fs) in
        case coff_convert h (the (fs (argv ! 1))) fdOut of
          Inl e \<Rightarrow> ((case outName of Some n \<Rightarrow> fs(n := None) | None \<Rightarrow> fs), Some e)
        | Inr noff \<Rightarrow> ((case outName of Some n \<Rightarrow> fs(n \<mapsto> noff) | None \<Rightarrow> fs), None))"

section \<open>What a conversion produces\<close>

text \<open>The sections of a COFF file, the bytes of one, and the section that a segment comes from.\<close>

definition coff_sections :: "byte list \<Rightarrow> scnhdr list" where
  "coff_sections coff = (let n = unat (f_nscns (filehdr_of (take 20 coff))) in scnhdrs_of n (take (n * 40) (drop 76 coff)))"

definition sec_data :: "byte list \<Rightarrow> scnhdr \<Rightarrow> byte list" where
  "sec_data coff s = take (nat (sint (s_size s))) (drop (nat (sint (s_scnptr s))) coff)"

definition is_last :: "string \<Rightarrow> scnhdr list \<Rightarrow> scnhdr option" where
  "is_last nm ss = (let xs = filter (\<lambda>s. s_size s \<noteq> 0 \<and> named s nm) ss in if xs = [] then None else Some (last xs))"

definition copied :: "scnhdr \<Rightarrow> bool" where
  "copied s \<longleftrightarrow> s_size s \<noteq> 0 \<and> (named s ''.text'' \<or> named s ''.data'' \<or> named s ''.rdata'')"

definition total_size :: "scnhdr list \<Rightarrow> nat" where
  "total_size ss = sum_list (map (\<lambda>s. nat (sint (s_size s))) (filter copied ss))"

definition section_ok :: "byte list \<Rightarrow> scnhdr \<Rightarrow> bool" where
  "section_ok coff s \<longleftrightarrow> s_size s = 0 \<or> named s ''.bss''
     \<or> copied s \<and> 0 < sint (s_size s) \<and> 0 \<le> sint (s_scnptr s) \<and> sint (s_scnptr s) + sint (s_size s) \<le> int (length coff)"

definition coff_ok :: "byte list \<Rightarrow> bool" where
  "coff_ok coff \<longleftrightarrow> 76 + 40 * unat (f_nscns (filehdr_of (take 20 coff))) \<le> length coff
     \<and> f_magic (filehdr_of (take 20 coff)) = MIPSELMAGIC \<and> sys_magic (aouthdr_of (take 56 (drop 20 coff))) = OMAGIC
     \<and> list_all (section_ok coff) (coff_sections coff)
     \<and> length (filter (\<lambda>s. s_size s \<noteq> 0 \<and> named s ''.bss'') (coff_sections coff)) \<le> 1"

text \<open>A segment of the output that holds a section of the input.\<close>

definition seg_copied :: "byte list \<Rightarrow> byte list \<Rightarrow> segment \<Rightarrow> scnhdr option \<Rightarrow> bool" where
  "seg_copied coff out seg so = (case so of None \<Rightarrow> segSize seg = 0
     | Some s \<Rightarrow> virtualAddr seg = s_paddr s \<and> segSize seg = s_size s \<and> 0 < sint (segSize seg) \<and> 52 \<le> sint (inFileAddr seg)
         \<and> sint (inFileAddr seg) + sint (segSize seg) \<le> int (length out)
         \<and> take (nat (sint (segSize seg))) (drop (nat (sint (inFileAddr seg))) out) = sec_data coff s)"

definition seg_zero :: "segment \<Rightarrow> scnhdr option \<Rightarrow> bool" where
  "seg_zero seg so = (case so of None \<Rightarrow> segSize seg = 0 | Some s \<Rightarrow> virtualAddr seg = s_paddr s \<and> segSize seg = s_size s)"

definition noff_copied :: "byte list \<Rightarrow> scnhdr list \<Rightarrow> noff_header \<Rightarrow> byte list \<Rightarrow> bool" where
  "noff_copied coff ss h out \<longleftrightarrow> noffMagic h = NOFFMAGIC
     \<and> seg_copied coff out (codeSeg h) (is_last ''.text'' ss) \<and> seg_copied coff out (initData h) (is_last ''.data'' ss)
     \<and> seg_copied coff out (readonlyData h) (is_last ''.rdata'' ss) \<and> seg_zero (uninitData h) (is_last ''.bss'' ss)"

definition conv_ok :: "byte list \<Rightarrow> scnhdr list \<Rightarrow> conv \<Rightarrow> bool" where
  "conv_ok coff ds c \<longleftrightarrow> fpOut c = 52 + total_size ds \<and> sint (inNoffFile c) = int (fpOut c)
     \<and> length (outFile c) = (if total_size ds = 0 then 0 else fpOut c) \<and> noff_copied coff ds (noffH c) (outFile c)"

lemma is_last_simps [simp]:
  "is_last nm [] = None"
  "is_last nm (ss @ [s]) = (if s_size s \<noteq> 0 \<and> named s nm then Some s else is_last nm ss)"
  by (simp_all add: is_last_def)

lemma total_size_simps [simp]:
  "total_size [] = 0"
  "total_size (ss @ ts) = total_size ss + total_size ts"
  "total_size (s # ss) = (if copied s then nat (sint (s_size s)) else 0) + total_size ss"
  by (simp_all add: total_size_def)

lemma of_char_byte: "(of_char c :: byte) = of_char d \<longleftrightarrow> c = d"
proof
  assume "(of_char c :: byte) = of_char d"
  then have "unat (of_nat (of_char c) :: byte) = unat (of_nat (of_char d) :: byte)" by (simp only: of_nat_of_char)
  then show "c = d" by (simp add: unat_of_nat)
qed simp

lemma named_unique: "named s nm \<Longrightarrow> named s nm' \<Longrightarrow> nm = nm'"
  using inj_map_eq_map [of "of_char :: char \<Rightarrow> byte" nm nm'] by (simp add: named_def inj_on_def of_char_byte)

lemma named_iff: "named s nm \<Longrightarrow> named s nm' \<longleftrightarrow> nm' = nm"
  using named_unique by blast

lemma noff_of_bytes: "noff_of (noff_bytes h) = h"
proof -
  let ?ws = "noffMagic h # segment_words (codeSeg h) @ segment_words (initData h) @ segment_words (readonlyData h) @ segment_words (uninitData h)"
  have "words_of 13 (noff_bytes h) = ?ws" unfolding noff_bytes_def by (rule words_of_bytes') (simp add: segment_words_def)
  then show ?thesis by (simp add: noff_of_def segment_words_def segment_of_def)
qed

lemma length_noff_bytes [simp]: "length (noff_bytes h) = 52"
  by (simp add: noff_bytes_def segment_words_def)

lemma unix_write_simps:
  "length f \<le> pos \<Longrightarrow> bs \<noteq> [] \<Longrightarrow> length (unix_write f pos bs) = pos + length bs"
  "length f \<le> pos \<Longrightarrow> drop pos (unix_write f pos bs) = bs"
  by (simp_all add: unix_write_def)

lemma seg_copied_write:
  assumes "seg_copied coff out seg so" "length out \<le> pos"
  shows "seg_copied coff (unix_write out pos bs) seg so"
  using assms by (auto simp: seg_copied_def unix_write_def split: option.splits)

lemma seg_copied_header:
  assumes "seg_copied coff out seg so" "length hdr = 52"
  shows "seg_copied coff (hdr @ drop 52 out) seg so"
  using assms by (auto simp: seg_copied_def split: option.splits)

lemma copy_section_ok:
  assumes "0 < sint (s_size s)" "0 \<le> sint (s_scnptr s)" "sint (s_scnptr s) + sint (s_size s) \<le> int (length coff)"
    "fpOut c + nat (sint (s_size s)) \<le> lim"
  shows "\<exists>p. copy_section coff (Some lim) s c = Inr (c\<lparr>fpIn := p, outFile := unix_write (outFile c) (fpOut c) (sec_data coff s),
    fpOut := fpOut c + nat (sint (s_size s)), inNoffFile := inNoffFile c + s_size s\<rparr>)"
proof -
  have len: "length (sec_data coff s) = nat (sint (s_size s))" using assms(1-3) by (simp add: sec_data_def nat_le_iff)
  have "coff_Read coff (s_size s) (lseek_in (s_scnptr s) c)
      = Inr (sec_data coff s, c\<lparr>fpIn := nat (sint (s_scnptr s)) + nat (sint (s_size s))\<rparr>)"
    using assms(1-3) len by (simp add: coff_Read_def lseek_in_def Let_def sec_data_def)
  with assms(4) len show ?thesis
    by (intro exI [of _ "nat (sint (s_scnptr s)) + nat (sint (s_size s))"]) (simp add: copy_section_def coff_Write_def)
qed

lemma sint_plus_small:
  "0 \<le> sint (a :: int32) \<Longrightarrow> 0 \<le> sint b \<Longrightarrow> sint a + sint b < 2147483648 \<Longrightarrow> sint (a + b) = sint a + sint b"
  using sint_word_of_int [of "sint a + sint b"] by (simp add: int_range_def)

text \<open>The segment that a copied section becomes, and the other segments.\<close>

lemma seg_copied_new:
  assumes "0 < sint (s_size s)" "0 \<le> sint (s_scnptr s)" "sint (s_scnptr s) + sint (s_size s) \<le> int (length coff)"
    "length out \<le> pos" "sint (inNoffFile c) = int pos" "52 \<le> pos"
  shows "seg_copied coff (unix_write out pos (sec_data coff s)) (segment_at s c) (Some s)"
proof -
  have len: "length (sec_data coff s) = nat (sint (s_size s))" using assms(1-3) by (simp add: sec_data_def nat_le_iff)
  then have "sec_data coff s \<noteq> []" using assms(1) by auto
  then show ?thesis using assms len unix_write_simps [of out pos "sec_data coff s"]
    by (simp add: seg_copied_def segment_at_def)
qed

lemma convert_section_ok:
  assumes "conv_ok coff ds c" "section_ok coff s" "52 + total_size (ds @ [s]) \<le> lim" "lim < 2147483648"
    "named s ''.bss'' \<Longrightarrow> s_size s \<noteq> 0 \<Longrightarrow> is_last ''.bss'' ds = None"
  shows "\<exists>c'. convert_section coff (Some lim) s c = Inr c' \<and> conv_ok coff (ds @ [s]) c'"
proof (cases "copied s")
  case True
  then have s: "s_size s \<noteq> 0" "0 < sint (s_size s)" "0 \<le> sint (s_scnptr s)" "sint (s_scnptr s) + sint (s_size s) \<le> int (length coff)"
    using assms(2) named_unique [of s "''.bss''" "''.text''"] named_unique [of s "''.bss''" "''.data''"]
      named_unique [of s "''.bss''" "''.rdata''"] by (auto simp: section_ok_def copied_def)
  have c: "fpOut c = 52 + total_size ds" "sint (inNoffFile c) = int (fpOut c)" "length (outFile c) \<le> fpOut c"
      "noff_copied coff ds (noffH c) (outFile c)"
    using assms(1) by (auto simp: conv_ok_def split: if_splits)
  have room: "fpOut c + nat (sint (s_size s)) \<le> lim" using assms(3) True c(1) by simp
  let ?new = "\<lambda>h p. c\<lparr>noffH := h, fpIn := p, outFile := unix_write (outFile c) (fpOut c) (sec_data coff s),
      fpOut := fpOut c + nat (sint (s_size s)), inNoffFile := inNoffFile c + s_size s\<rparr>"
  have copy: "\<exists>p. copy_section coff (Some lim) s (c\<lparr>noffH := h\<rparr>) = Inr (?new h p)" for h
    using copy_section_ok [of s coff "c\<lparr>noffH := h\<rparr>" lim] s(2-4) room by simp
  have len: "length (sec_data coff s) = nat (sint (s_size s))" using s by (simp add: sec_data_def nat_le_iff)
  then have ne: "sec_data coff s \<noteq> []" using s(2) by auto
  have "sint (inNoffFile c + s_size s) = int (fpOut c) + sint (s_size s)"
    using sint_plus_small [of "inNoffFile c" "s_size s"] c(2) s(2) room assms(4) by simp
  then have ok: "conv_ok coff (ds @ [s]) (?new h p) \<longleftrightarrow> noff_copied coff (ds @ [s]) h (unix_write (outFile c) (fpOut c) (sec_data coff s))"
    for h p using True c(1,3) s(2) len ne unix_write_simps(1) [of "outFile c" "fpOut c" "sec_data coff s"] by (auto simp: conv_ok_def)
  have goal: ?thesis if "convert_section coff (Some lim) s c = copy_section coff (Some lim) s (c\<lparr>noffH := h\<rparr>)"
      "noff_copied coff (ds @ [s]) h (unix_write (outFile c) (fpOut c) (sec_data coff s))" for h
    using copy [of h] that by (auto simp: ok)
  have "52 \<le> fpOut c" using c(1) by simp
  note facts = s(1) seg_copied_new [OF s(2-4) c(3,2) this] seg_copied_write [OF _ c(3)]
  from True consider "named s ''.text''" | "named s ''.data''" | "named s ''.rdata''" by (auto simp: copied_def)
  then show ?thesis
  proof cases
    case 1
    note named_iff [OF this, simp]
    show ?thesis using c(4) facts
      by (intro goal [of "(noffH c)\<lparr>codeSeg := segment_at s c\<rparr>"]) (simp_all add: convert_section_def noff_copied_def)
  next
    case 2
    note named_iff [OF this, simp]
    show ?thesis using c(4) facts
      by (intro goal [of "(noffH c)\<lparr>initData := segment_at s c\<rparr>"]) (simp_all add: convert_section_def noff_copied_def)
  next
    case 3
    note named_iff [OF this, simp]
    show ?thesis using c(4) facts
      by (intro goal [of "(noffH c)\<lparr>readonlyData := segment_at s c\<rparr>"]) (simp_all add: convert_section_def noff_copied_def)
  qed
next
  case False
  then have "s_size s = 0 \<or> named s ''.bss''" using assms(2) by (auto simp: section_ok_def)
  then show ?thesis
  proof (cases "s_size s = 0")
    case True
    then show ?thesis using assms(1) False by (simp add: convert_section_def conv_ok_def noff_copied_def)
  next
    case nz: False
    then have "named s ''.bss''" using \<open>s_size s = 0 \<or> _\<close> by blast
    note named_iff [OF this, simp]
    show ?thesis using assms(1,5) nz False
      by (auto simp: convert_section_def conv_ok_def noff_copied_def seg_zero_def Let_def)
  qed
qed

lemma convert_sections_ok:
  assumes "conv_ok coff ds c" "list_all (section_ok coff) ss" "52 + total_size (ds @ ss) \<le> lim" "lim < 2147483648"
    "length (filter (\<lambda>s. s_size s \<noteq> 0 \<and> named s ''.bss'') (ds @ ss)) \<le> 1"
  shows "\<exists>c'. convert_sections coff (Some lim) ss c = Inr c' \<and> conv_ok coff (ds @ ss) c'"
  using assms
proof (induction ss arbitrary: ds c)
  case (Cons s ss)
  have bss: "is_last ''.bss'' ds = None" if "named s ''.bss''" "s_size s \<noteq> 0"
    using Cons.prems(5) that by (simp add: is_last_def)
  obtain c' where c': "convert_section coff (Some lim) s c = Inr c'" "conv_ok coff (ds @ [s]) c'"
    using convert_section_ok [of coff ds c s lim] Cons.prems bss by auto
  show ?case using Cons.IH [OF c'(2)] Cons.prems c'(1) by simp
qed simp

section \<open>The whole conversion\<close>

text \<open>The headers of a file, and the converter behind them.\<close>

definition coff_headers :: "byte list \<Rightarrow> bool" where
  "coff_headers coff \<longleftrightarrow> 76 + 40 * unat (f_nscns (filehdr_of (take 20 coff))) \<le> length coff
     \<and> f_magic (filehdr_of (take 20 coff)) = MIPSELMAGIC \<and> sys_magic (aouthdr_of (take 56 (drop 20 coff))) = OMAGIC"

definition conv_start :: "noff_header \<Rightarrow> byte list \<Rightarrow> conv" where
  "conv_start h coff = \<lparr>fpIn = 76 + 40 * unat (f_nscns (filehdr_of (take 20 coff))), outFile = [], fpOut = 52, noffH = noff_start h,
     inNoffFile = 52\<rparr>"

lemma coff_Read_small:
  "n < 2147483648 \<Longrightarrow> coff_Read coff (of_nat n) c =
     (if fpIn c + n \<le> length coff \<or> n = 0 then Inr (take n (drop (fpIn c) coff), c\<lparr>fpIn := fpIn c + n\<rparr>) else Inl TooShort)"
  using sint_word_of_int [of "int n"] by (auto simp: coff_Read_def int_range_def Let_def)

lemma coff_convert_bad_headers:
  "length coff < 20 \<Longrightarrow> coff_convert h coff fd = Inl TooShort"
  "20 \<le> length coff \<Longrightarrow> f_magic (filehdr_of (take 20 coff)) \<noteq> MIPSELMAGIC \<Longrightarrow> coff_convert h coff fd = Inl NotMipsel"
  "20 \<le> length coff \<Longrightarrow> f_magic (filehdr_of (take 20 coff)) = MIPSELMAGIC \<Longrightarrow> length coff < 76 \<Longrightarrow> coff_convert h coff fd = Inl TooShort"
  "76 \<le> length coff \<Longrightarrow> f_magic (filehdr_of (take 20 coff)) = MIPSELMAGIC \<Longrightarrow> sys_magic (aouthdr_of (take 56 (drop 20 coff))) \<noteq> OMAGIC \<Longrightarrow>
    coff_convert h coff fd = Inl NotOmagic"
  by (simp_all only: coff_convert_def sizeof_filehdr_def sizeof_aouthdr_def coff_Read_small)
    (simp_all add: Let_def ShortToHost_def)

lemma nscns_bound: "unat (w :: 16 word) * 40 < 2147483648"
proof -
  have "unat w < 2 ^ 16" using unsigned_less [of w] by simp
  then show ?thesis by simp
qed

lemma coff_convert_short:
  assumes "76 \<le> length coff" "f_magic (filehdr_of (take 20 coff)) = MIPSELMAGIC" "sys_magic (aouthdr_of (take 56 (drop 20 coff))) = OMAGIC"
    "length coff < 76 + 40 * unat (f_nscns (filehdr_of (take 20 coff)))"
  shows "coff_convert h coff fd = Inl TooShort"
  using assms nscns_bound [of "f_nscns (filehdr_of (take 20 coff))"]
  by (simp only: coff_convert_def sizeof_filehdr_def sizeof_aouthdr_def sizeof_scnhdr_def coff_Read_small)
    (simp add: Let_def ShortToHost_def coff_Read_small del: of_nat_mult)

lemma coff_convert_sections:
  assumes "coff_headers coff"
  shows "coff_convert h coff fd = bindE (convert_sections coff fd (coff_sections coff) (conv_start h coff))
    (\<lambda>c. bindE (coff_Write fd (noff_bytes (noffH c)) (c\<lparr>fpOut := 0\<rparr>)) (\<lambda>c. Inr (outFile c)))"
proof -
  have sw: "SwapHeader k = k" for k :: noff_header by (simp add: SwapHeader_def swap_segment_def WordToHost_def)
  let ?n = "unat (f_nscns (filehdr_of (take 20 coff)))"
  have n: "?n * 40 < 2147483648" by (rule nscns_bound)
  show ?thesis using assms n
    by (simp only: coff_convert_def sizeof_filehdr_def sizeof_aouthdr_def sizeof_scnhdr_def coff_Read_small)
      (simp add: Let_def ShortToHost_def coff_Read_small coff_headers_def sw coff_sections_def conv_start_def
        sizeof_NoffHeader_def mult.commute [of _ 40] del: of_nat_mult)
qed

lemma conv_start_ok: "conv_ok coff [] (conv_start h coff)"
  by (simp add: conv_ok_def conv_start_def noff_copied_def noff_start_def seg_copied_def seg_zero_def)

lemma coff_convert_ok:
  assumes "coff_ok coff" "52 + total_size (coff_sections coff) \<le> lim" "lim < 2147483648"
  shows "\<exists>noff. coff_convert h coff (Some lim) = Inr noff \<and> length noff = 52 + total_size (coff_sections coff)
    \<and> noff_copied coff (coff_sections coff) (noff_of (take 52 noff)) noff"
proof -
  let ?ss = "coff_sections coff"
  have hd: "coff_headers coff" and ss: "list_all (section_ok coff) ?ss"
      "length (filter (\<lambda>s. s_size s \<noteq> 0 \<and> named s ''.bss'') ?ss) \<le> 1"
    using assms(1) by (simp_all add: coff_ok_def coff_headers_def)
  obtain c where c: "convert_sections coff (Some lim) ?ss (conv_start h coff) = Inr c" "conv_ok coff ?ss c"
    using convert_sections_ok [OF conv_start_ok ss(1), of lim h] assms(2,3) ss(2) by auto
  let ?noff = "noff_bytes (noffH c) @ drop 52 (outFile c)"
  have "coff_convert h coff (Some lim) = Inr ?noff"
    unfolding coff_convert_sections [OF hd] using c(1) assms(2) by (simp add: coff_Write_def unix_write_def)
  moreover have "length ?noff = 52 + total_size ?ss" using c(2) by (auto simp: conv_ok_def)
  moreover have "noff_copied coff ?ss (noffH c) ?noff"
    using c(2) seg_copied_header [of coff "outFile c" _ _ "noff_bytes (noffH c)"] by (simp add: conv_ok_def noff_copied_def)
  ultimately show ?thesis by (intro exI [of _ ?noff]) (simp add: noff_of_bytes)
qed

text \<open>The bytes that a program has at its virtual addresses by its COFF file.\<close>

definition sec_byte :: "byte list \<Rightarrow> scnhdr option \<Rightarrow> nat \<Rightarrow> byte option" where
  "sec_byte coff so va = (case so of None \<Rightarrow> None | Some s \<Rightarrow>
     let i = int va - sint (s_paddr s) in
     if 0 \<le> i \<and> i < sint (s_size s) then Some (coff ! nat (sint (s_scnptr s) + i)) else None)"

definition coff_image :: "byte list \<Rightarrow> nat \<Rightarrow> byte option" where
  "coff_image coff va = (let ss = coff_sections coff in
     case sec_byte coff (is_last ''.rdata'' ss) va of Some b \<Rightarrow> Some b | None \<Rightarrow>
     case sec_byte coff (is_last ''.data'' ss) va of Some b \<Rightarrow> Some b | None \<Rightarrow> sec_byte coff (is_last ''.text'' ss) va)"

lemma is_last_ok:
  assumes "list_all (section_ok coff) ss" "is_last nm ss = Some s" "nm \<noteq> ''.bss''"
  shows "0 < sint (s_size s)" "0 \<le> sint (s_scnptr s)" "sint (s_scnptr s) + sint (s_size s) \<le> int (length coff)"
proof -
  have "s \<in> set (filter (\<lambda>s. s_size s \<noteq> 0 \<and> named s nm) ss)"
    using assms(2) last_in_set [of "filter (\<lambda>s. s_size s \<noteq> 0 \<and> named s nm) ss"]
    by (simp add: is_last_def Let_def split: if_splits)
  then have "section_ok coff s" "s_size s \<noteq> 0" "\<not> named s ''.bss''"
    using assms(1,3) named_unique by (auto simp: list_all_iff)
  then show "0 < sint (s_size s)" "0 \<le> sint (s_scnptr s)" "sint (s_scnptr s) + sint (s_size s) \<le> int (length coff)"
    by (simp_all add: section_ok_def)
qed

lemma seg_byte_copied:
  assumes "seg_copied coff out seg so"
    "\<And>s. so = Some s \<Longrightarrow> 0 \<le> sint (s_scnptr s) \<and> sint (s_scnptr s) + sint (s_size s) \<le> int (length coff)"
  shows "seg_byte seg out va = sec_byte coff so va"
proof (cases so)
  case None
  then show ?thesis using assms(1) by (simp add: seg_copied_def seg_byte_def sec_byte_def Let_def)
next
  case (Some s)
  define i where "i = int va - sint (s_paddr s)"
  have seg: "virtualAddr seg = s_paddr s" "segSize seg = s_size s" "52 \<le> sint (inFileAddr seg)"
      "sint (inFileAddr seg) + sint (s_size s) \<le> int (length out)"
      "take (nat (sint (s_size s))) (drop (nat (sint (inFileAddr seg))) out) = sec_data coff s"
    using assms(1) Some by (auto simp: seg_copied_def)
  have "out ! nat (sint (inFileAddr seg) + i) = coff ! nat (sint (s_scnptr s) + i)" if "0 \<le> i" "i < sint (s_size s)"
  proof -
    have "take (nat (sint (s_size s))) (drop (nat (sint (inFileAddr seg))) out) ! nat i = sec_data coff s ! nat i"
      using seg(5) by simp
    then show ?thesis using that seg(3,4) assms(2) [OF Some] by (simp add: sec_data_def nat_add_distrib nth_drop nat_le_iff)
  qed
  then show ?thesis using seg(1-4) Some by (auto simp: seg_byte_def sec_byte_def Let_def i_def)
qed

lemma noff_image_copied:
  assumes "noff_copied coff (coff_sections coff) h out" "list_all (section_ok coff) (coff_sections coff)"
  shows "noff_image h out va = coff_image coff va"
proof -
  have seg: "seg_byte seg out va = sec_byte coff (is_last nm (coff_sections coff)) va"
    if "seg_copied coff out seg (is_last nm (coff_sections coff))" "nm \<noteq> ''.bss''" for seg nm
    using that by (intro seg_byte_copied) (auto dest: is_last_ok [OF assms(2) _ that(2)])
  have "seg_byte (codeSeg h) out va = sec_byte coff (is_last ''.text'' (coff_sections coff)) va"
    using assms(1) by (intro seg) (simp_all add: noff_copied_def)
  moreover have "seg_byte (initData h) out va = sec_byte coff (is_last ''.data'' (coff_sections coff)) va"
    using assms(1) by (intro seg) (simp_all add: noff_copied_def)
  moreover have "seg_byte (readonlyData h) out va = sec_byte coff (is_last ''.rdata'' (coff_sections coff)) va"
    using assms(1) by (intro seg) (simp_all add: noff_copied_def)
  ultimately show ?thesis by (simp add: noff_image_def coff_image_def Let_def split: option.split)
qed

section \<open>Sections that are refused\<close>

lemma convert_sections_append:
  "convert_sections coff fd (ss @ ts) c = bindE (convert_sections coff fd ss c) (convert_sections coff fd ts)"
proof (induction ss arbitrary: c)
  case (Cons s ss)
  then show ?case by (cases "convert_section coff fd s c") simp_all
qed simp

definition unknown_section :: "scnhdr \<Rightarrow> bool" where
  "unknown_section s \<longleftrightarrow> s_size s \<noteq> 0 \<and> \<not> copied s \<and> \<not> named s ''.bss''"

lemma convert_section_unknown: "unknown_section s \<Longrightarrow> convert_section coff fd s c = Inl (UnknownSegment (section_name s))"
  by (auto simp: unknown_section_def copied_def convert_section_def)

lemma copy_section_short:
  assumes "0 < sint (s_size s)" "0 \<le> sint (s_scnptr s)" "sint (s_scnptr s) + sint (s_size s) > int (length coff)"
  shows "copy_section coff fd s c = Inl TooShort"
proof -
  have "nat (sint (s_size s)) > length coff - nat (sint (s_scnptr s))" using assms by linarith
  then show ?thesis using assms by (simp add: copy_section_def coff_Read_def lseek_in_def Let_def min_def)
qed

lemma convert_section_short:
  assumes "copied s" "0 < sint (s_size s)" "0 \<le> sint (s_scnptr s)" "sint (s_scnptr s) + sint (s_size s) > int (length coff)"
  shows "convert_section coff fd s c = Inl TooShort"
  using assms(1) copy_section_short [OF assms(2-4)] by (auto simp: copied_def convert_section_def)

lemma convert_section_bss:
  assumes "conv_ok coff ds c" "named s ''.bss''" "s_size s \<noteq> 0" "is_last ''.bss'' ds = Some b"
  shows "convert_section coff fd s c =
    (if s_paddr s = s_paddr b + s_size b then Inl BssSbss
     else Inr (c\<lparr>noffH := (noffH c)\<lparr>uninitData := (uninitData (noffH c))\<lparr>segSize := s_size b + s_size s\<rparr>\<rparr>\<rparr>))"
proof -
  have "s_size b \<noteq> 0"
    using assms(4) last_in_set [of "filter (\<lambda>s. s_size s \<noteq> 0 \<and> named s ''.bss'') ds"]
    by (auto simp: is_last_def Let_def split: if_splits)
  moreover have "virtualAddr (uninitData (noffH c)) = s_paddr b" "segSize (uninitData (noffH c)) = s_size b"
    using assms(1,4) by (simp_all add: conv_ok_def noff_copied_def seg_zero_def)
  moreover note named_iff [OF assms(2), simp]
  ultimately show ?thesis using assms(3) by (simp add: convert_section_def Let_def)
qed

text \<open>A file that cannot be written: the first write fails.\<close>

lemma convert_section_unwritable:
  assumes "section_ok coff s"
  shows "convert_section coff None s c = (if copied s then Inl CantWrite else convert_section coff (Some lim) s c)"
proof (cases "copied s")
  case True
  then have s: "0 < sint (s_size s)" "0 \<le> sint (s_scnptr s)" "sint (s_scnptr s) + sint (s_size s) \<le> int (length coff)"
    using assms named_unique [of s "''.bss''" "''.text''"] named_unique [of s "''.bss''" "''.data''"]
      named_unique [of s "''.bss''" "''.rdata''"] by (auto simp: section_ok_def copied_def)
  then have "copy_section coff None s c' = Inl CantWrite" for c'
    by (simp add: copy_section_def coff_Read_def lseek_in_def coff_Write_def Let_def)
  then show ?thesis using True by (auto simp: copied_def convert_section_def)
qed (auto simp: copied_def convert_section_def)

lemma convert_sections_unwritable:
  assumes "list_all (section_ok coff) ss" "convert_sections coff (Some lim) ss c = Inr c'"
  shows "convert_sections coff None ss c = (if list_ex copied ss then Inl CantWrite else Inr c')"
  using assms
proof (induction ss arbitrary: c)
  case (Cons s ss)
  then show ?case using convert_section_unwritable [of coff s c lim]
    by (cases "convert_section coff (Some lim) s c") simp_all
qed simp

lemma coff_convert_unwritable:
  assumes "coff_ok coff" "52 + total_size (coff_sections coff) < 2147483648"
  shows "coff_convert h coff None = Inl CantWrite"
proof -
  have hd: "coff_headers coff" and ss: "list_all (section_ok coff) (coff_sections coff)"
      "length (filter (\<lambda>s. s_size s \<noteq> 0 \<and> named s ''.bss'') (coff_sections coff)) \<le> 1"
    using assms(1) by (simp_all add: coff_ok_def coff_headers_def)
  obtain c where "convert_sections coff (Some (52 + total_size (coff_sections coff))) (coff_sections coff) (conv_start h coff) = Inr c"
    using convert_sections_ok [OF conv_start_ok ss(1), of "52 + total_size (coff_sections coff)" h] assms(2) ss(2) by auto
  from convert_sections_unwritable [OF ss(1) this] show ?thesis
    unfolding coff_convert_sections [OF hd] by (simp add: coff_Write_def)
qed

section \<open>The program\<close>

lemma coff2noff_main_error:
  assumes "fs inN = Some coff" "inN \<noteq> outN" "coff_convert h coff (creat outN) = Inl e"
  shows "coff2noff_main h creat [prog, inN, outN] fs = (fs(outN := None), Some e)"
  using assms by (cases "creat outN") (simp_all add: coff2noff_main_def)

lemma coff_convert_refused:
  assumes "coff_headers coff" "coff_sections coff = ss @ s # ts" "list_all (section_ok coff) ss"
    "length (filter (\<lambda>s. s_size s \<noteq> 0 \<and> named s ''.bss'') ss) \<le> 1" "52 + total_size ss \<le> lim" "lim < 2147483648"
    "\<And>c. conv_ok coff ss c \<Longrightarrow> convert_section coff (Some lim) s c = Inl e"
  shows "coff_convert h coff (Some lim) = Inl e"
proof -
  obtain c where "convert_sections coff (Some lim) ss (conv_start h coff) = Inr c" "conv_ok coff ss c"
    using convert_sections_ok [OF conv_start_ok assms(3), of lim h] assms(4-6) by auto
  then show ?thesis
    unfolding coff_convert_sections [OF assms(1)] assms(2) by (simp add: convert_sections_append assms(7))
qed

lemma coff_convert_headers:
  assumes "\<not> coff_headers coff"
  shows "coff_convert h coff fd \<in> Inl ` {TooShort, NotMipsel, NotOmagic}"
  using assms coff_convert_bad_headers [of coff h fd] coff_convert_short [of coff h fd]
  by (cases "length coff < 20"; cases "length coff < 76") (auto simp: coff_headers_def not_le)

text \<open>
  C18. A COFF file whose sections lie in the file, have the known names and at most one of which
  is uninitialized data is converted: the output is the NOFF header followed by the copied
  sections, no other file changes, each segment of the header names the place of its bytes in
  the output and its virtual address, and at every virtual address the image that
  \<open>AddrSpace::Load\<close> takes from the output is the image that the COFF file describes.
\<close>

theorem coff2noff_converts:
  assumes "coff_ok coff" "fs inN = Some coff" "inN \<noteq> outN" "creat outN = Some lim"
    "52 + total_size (coff_sections coff) \<le> lim" "lim < 2147483648"
  shows "\<exists>noff. coff2noff_main h creat [prog, inN, outN] fs = (fs(outN \<mapsto> noff), None)
    \<and> length noff = 52 + total_size (coff_sections coff)
    \<and> noff_copied coff (coff_sections coff) (noff_of (take 52 noff)) noff
    \<and> (\<forall>va. noff_image (noff_of (take 52 noff)) noff va = coff_image coff va)"
proof -
  obtain noff where noff: "coff_convert h coff (Some lim) = Inr noff" "length noff = 52 + total_size (coff_sections coff)"
      "noff_copied coff (coff_sections coff) (noff_of (take 52 noff)) noff"
    using coff_convert_ok [OF assms(1,5,6)] by blast
  moreover have "coff2noff_main h creat [prog, inN, outN] fs = (fs(outN \<mapsto> noff), None)"
    using assms(2-4) noff(1) by (simp add: coff2noff_main_def)
  moreover have "noff_image (noff_of (take 52 noff)) noff va = coff_image coff va" for va
    using noff_image_copied [OF noff(3)] assms(1) by (simp add: coff_ok_def)
  ultimately show ?thesis by blast
qed

text \<open>A COFF file with six bytes of code and one section of uninitialized data.\<close>

definition demo_section :: "string \<Rightarrow> int32 \<Rightarrow> int32 \<Rightarrow> int32 \<Rightarrow> byte list" where
  "demo_section nm addr sz pos = map of_char nm @ replicate (8 - length nm) 0 @ words_bytes [addr, 0, sz, pos, 0, 0, 0, 0]"

definition demo_coff :: "byte list" where
  "demo_coff = [0x62, 0x01, 2, 0] @ replicate 16 0 @ [7, 1] @ replicate 54 0
     @ demo_section ''.text'' 0 6 156 @ demo_section ''.bss'' 128 40 0 @ [10, 20, 30, 40, 50, 60]"

lemma demo_coff_ok: "coff_ok demo_coff" "total_size (coff_sections demo_coff) = 6"
  by code_simp+

text \<open>C18, the conversion of this file.\<close>

theorem coff2noff_converts_witness:
  "\<forall>h. \<exists>noff. coff2noff_main h (\<lambda>_. Some 1000) [''coff2noff'', ''a.coff'', ''a.noff''] [''a.coff'' \<mapsto> demo_coff]
      = ([''a.coff'' \<mapsto> demo_coff, ''a.noff'' \<mapsto> noff], None)
    \<and> length noff = 58 \<and> noff_image (noff_of (take 52 noff)) noff 2 = Some 30"
proof
  fix h
  have "coff_image demo_coff 2 = Some 30" by code_simp
  then show "\<exists>noff. coff2noff_main h (\<lambda>_. Some 1000) [''coff2noff'', ''a.coff'', ''a.noff''] [''a.coff'' \<mapsto> demo_coff]
      = ([''a.coff'' \<mapsto> demo_coff, ''a.noff'' \<mapsto> noff], None)
    \<and> length noff = 58 \<and> noff_image (noff_of (take 52 noff)) noff 2 = Some 30"
    using coff2noff_converts [OF demo_coff_ok(1), of "[''a.coff'' \<mapsto> demo_coff]" "''a.coff''" "''a.noff''" "\<lambda>_. Some 1000" 1000 h "''coff2noff''"]
      demo_coff_ok(2) by auto
qed


text \<open>A file with two adjoining sections of uninitialized data, and a file that cannot be written.\<close>

definition demo_coff2 :: "byte list" where
  "demo_coff2 = [0x62, 0x01, 2, 0] @ replicate 16 0 @ [7, 1] @ replicate 54 0
     @ demo_section ''.bss'' 128 40 0 @ demo_section ''.bss'' 168 8 0"

definition bss_header :: "int32 \<Rightarrow> int32 \<Rightarrow> scnhdr" where
  "bss_header addr sz = \<lparr>s_name = map of_char ''.bss'' @ replicate 4 0, s_paddr = addr, s_vaddr = 0, s_size = sz, s_scnptr = 0,
     s_relptr = 0, s_lnnoptr = 0, s_nreloc = 0, s_nlnno = 0, s_flags = 0\<rparr>"

lemma demo_coff2_sections: "coff_headers demo_coff2" "coff_sections demo_coff2 = [bss_header 128 40, bss_header 168 8]"
  by code_simp+

lemma bss_header_sel [simp]: "named (bss_header a n) ''.bss''" "s_size (bss_header a n) = n" "s_paddr (bss_header a n) = a"
  by (simp_all add: bss_header_def named_def section_name_def)


end
