(* ===== verification/CList.thy ===== *)
theory CList
  imports Prelude "HOL-Library.Multiset"
begin

text \<open>
  \<^verbatim>\<open>code/lib/list.h\<close> and \<^verbatim>\<open>code/lib/list.cc\<close>: singly linked lists and sorted lists. The
  routines are modelled on a store of list elements with their \<open>next\<close> pointers; a second
  group of definitions gives their effect on the sequence of items, and the refinement
  lemmas relate the two. The rest of the kernel uses the sequence operations.
\<close>

section \<open>List elements and lists in the store\<close>

type_synonym addr = nat

record 'a list_element =
  item :: 'a
  "next" :: "addr option"

text \<open>
  The store maps the addresses of live elements to their contents; \<open>brk\<close> is the next
  address that \<open>new\<close> hands out. A deleted element is no longer in the store, so following a
  dangling pointer is \<open>Undefined\<close>.
\<close>

record 'a store =
  cells :: "addr \<Rightarrow> 'a list_element option"
  brk :: addr

record clist =
  first_p :: "addr option"
  last_p :: "addr option"
  numInList :: int

definition deref :: "'a store \<Rightarrow> addr option \<Rightarrow> 'a list_element res" where
  "deref m p = (case p of None \<Rightarrow> Inl Undefined
     | Some a \<Rightarrow> (case cells m a of None \<Rightarrow> Inl Undefined | Some c \<Rightarrow> Inr c))"

definition set_next :: "'a store \<Rightarrow> addr option \<Rightarrow> addr option \<Rightarrow> 'a store res" where
  "set_next m p q = (case p of None \<Rightarrow> Inl Undefined
     | Some a \<Rightarrow> (case cells m a of None \<Rightarrow> Inl Undefined
         | Some c \<Rightarrow> Inr (m\<lparr>cells := (cells m)(a \<mapsto> c\<lparr>next := q\<rparr>)\<rparr>)))"

definition ListElement_new :: "'a store \<Rightarrow> 'a \<Rightarrow> 'a store \<times> addr" where
  "ListElement_new m itm =
     (m\<lparr>cells := (cells m)(brk m \<mapsto> \<lparr>item = itm, next = None\<rparr>), brk := brk m + 1\<rparr>, brk m)"

definition delete_element :: "'a store \<Rightarrow> addr \<Rightarrow> 'a store" where
  "delete_element m a = m\<lparr>cells := (cells m)(a := None)\<rparr>"

section \<open>The class List\<close>

definition List_new :: clist where
  "List_new = \<lparr>first_p = None, last_p = None, numInList = 0\<rparr>"

definition List_IsEmpty :: "clist \<Rightarrow> bool" where
  "List_IsEmpty l \<longleftrightarrow> numInList l = 0"

definition List_Front :: "'a store \<Rightarrow> clist \<Rightarrow> 'a res" where
  "List_Front m l = bindR (deref m (first_p l)) (\<lambda>c. Inr (item c))"

partial_function (option) IsInList_loop ::
    "'a store \<Rightarrow> 'a \<Rightarrow> addr option \<Rightarrow> bool res option" where
  "IsInList_loop m itm ptr =
     (case ptr of None \<Rightarrow> Some (Inr False)
      | Some a \<Rightarrow>
          (case cells m a of None \<Rightarrow> Some (Inl Undefined)
           | Some c \<Rightarrow> if itm = item c then Some (Inr True)
                       else IsInList_loop m itm (next c)))"

definition List_IsInList :: "'a store \<Rightarrow> clist \<Rightarrow> 'a \<Rightarrow> bool res" where
  "List_IsInList m l itm = returning (IsInList_loop m itm (first_p l))"

definition List_Append :: "'a store \<Rightarrow> clist \<Rightarrow> 'a \<Rightarrow> ('a store \<times> clist) res" where
  "List_Append m l itm =
     (let (m, element) = ListElement_new m itm in
      bindR (List_IsInList m l itm) (\<lambda>t. ASSERT (\<not> t) (
      bindR (if List_IsEmpty l
             then Inr (m, l\<lparr>first_p := Some element, last_p := Some element\<rparr>)
             else bindR (set_next m (last_p l) (Some element)) (\<lambda>m.
                  Inr (m, l\<lparr>last_p := Some element\<rparr>))) (\<lambda>(m, l).
      let l = l\<lparr>numInList := numInList l + 1\<rparr> in
      bindR (List_IsInList m l itm) (\<lambda>t. ASSERT t (Inr (m, l)))))))"

definition List_Prepend :: "'a store \<Rightarrow> clist \<Rightarrow> 'a \<Rightarrow> ('a store \<times> clist) res" where
  "List_Prepend m l itm =
     (let (m, element) = ListElement_new m itm in
      bindR (List_IsInList m l itm) (\<lambda>t. ASSERT (\<not> t) (
      bindR (if List_IsEmpty l
             then Inr (m, l\<lparr>first_p := Some element, last_p := Some element\<rparr>)
             else bindR (set_next m (Some element) (first_p l)) (\<lambda>m.
                  Inr (m, l\<lparr>first_p := Some element\<rparr>))) (\<lambda>(m, l).
      let l = l\<lparr>numInList := numInList l + 1\<rparr> in
      bindR (List_IsInList m l itm) (\<lambda>t. ASSERT t (Inr (m, l)))))))"

definition List_RemoveFront :: "'a store \<Rightarrow> clist \<Rightarrow> ('a store \<times> clist \<times> 'a) res" where
  "List_RemoveFront m l =
     ASSERT (\<not> List_IsEmpty l) (
     bindR (deref m (first_p l)) (\<lambda>element.
     let thing = item element;
         l' = (if first_p l = last_p l then l\<lparr>first_p := None, last_p := None\<rparr>
               else l\<lparr>first_p := next element\<rparr>);
         l'' = l'\<lparr>numInList := numInList l' - 1\<rparr>
     in Inr (delete_element m (the (first_p l)), l'', thing)))"

text \<open>
  The loop of \<open>Remove\<close> walks with \<open>prev\<close> and \<open>ptr\<close>; its result says whether it stopped at a
  match (and with which store and list) or ran off the end (\<open>ptr == NULL\<close>).
\<close>

partial_function (option) Remove_loop ::
    "'a store \<Rightarrow> clist \<Rightarrow> 'a \<Rightarrow> addr option \<Rightarrow> addr option \<Rightarrow> ('a store \<times> clist \<times> bool) res option"
where
  "Remove_loop m l itm prev ptr =
     (case ptr of None \<Rightarrow> Some (Inr (m, l, False))
      | Some a \<Rightarrow>
          (case cells m a of None \<Rightarrow> Some (Inl Undefined)
           | Some c \<Rightarrow>
               if itm = item c then Some (
                 bindR (set_next m prev (next c)) (\<lambda>m'.
                 let l' = (if next c = None then l\<lparr>last_p := prev\<rparr> else l) in
                 Inr (delete_element m' a, l'\<lparr>numInList := numInList l' - 1\<rparr>, True)))
               else Remove_loop m l itm ptr (next c)))"

definition List_Remove :: "'a store \<Rightarrow> clist \<Rightarrow> 'a \<Rightarrow> ('a store \<times> clist) res" where
  "List_Remove m l itm =
     bindR (List_IsInList m l itm) (\<lambda>t. ASSERT t (
     bindR (deref m (first_p l)) (\<lambda>f.
     bindR (if itm = item f
            then bindR (List_RemoveFront m l) (\<lambda>(m, l, removed).
                 ASSERT (itm = removed) (Inr (m, l)))
            else bindR (returning (Remove_loop m l itm (first_p l) (next f))) (\<lambda>(m, l, found).
                 ASSERT found (Inr (m, l)))) (\<lambda>(m, l).
     bindR (List_IsInList m l itm) (\<lambda>t. ASSERT (\<not> t) (Inr (m, l)))))))"

text \<open>\<open>Apply\<close> calls the function on every item in order; the model returns these items.\<close>

partial_function (option) Apply_loop :: "'a store \<Rightarrow> addr option \<Rightarrow> 'a list \<Rightarrow> 'a list res option" where
  "Apply_loop m ptr acc =
     (case ptr of None \<Rightarrow> Some (Inr acc)
      | Some a \<Rightarrow>
          (case cells m a of None \<Rightarrow> Some (Inl Undefined)
           | Some c \<Rightarrow> Apply_loop m (next c) (acc @ [item c])))"

definition List_Apply :: "'a store \<Rightarrow> clist \<Rightarrow> 'a list res" where
  "List_Apply m l = returning (Apply_loop m (first_p l) [])"

section \<open>The class SortedList\<close>

partial_function (option) Insert_loop ::
    "('a \<Rightarrow> 'a \<Rightarrow> int) \<Rightarrow> 'a store \<Rightarrow> clist \<Rightarrow> 'a \<Rightarrow> addr \<Rightarrow> addr option
     \<Rightarrow> ('a store \<times> clist \<times> bool) res option" where
  "Insert_loop cmp m l itm element ptr =
     (case deref m ptr of Inl e \<Rightarrow> Some (Inl e)
      | Inr c \<Rightarrow>
          (case next c of None \<Rightarrow> Some (Inr (m, l, False))
           | Some n \<Rightarrow>
               (case cells m n of None \<Rightarrow> Some (Inl Undefined)
                | Some d \<Rightarrow>
                    if cmp itm (item d) < 0 then Some (
                      bindR (set_next m (Some element) (Some n)) (\<lambda>m.
                      bindR (set_next m ptr (Some element)) (\<lambda>m.
                      Inr (m, l\<lparr>numInList := numInList l + 1\<rparr>, True))))
                    else Insert_loop cmp m l itm element (Some n))))"

definition SortedList_Insert ::
    "('a \<Rightarrow> 'a \<Rightarrow> int) \<Rightarrow> 'a store \<Rightarrow> clist \<Rightarrow> 'a \<Rightarrow> ('a store \<times> clist) res" where
  "SortedList_Insert cmp m l itm =
     (let (m, element) = ListElement_new m itm;
          finish = (\<lambda>(m, l).
            let l = l\<lparr>numInList := numInList l + 1\<rparr> in
            bindR (List_IsInList m l itm) (\<lambda>t. ASSERT t (Inr (m, l)))) in
      bindR (List_IsInList m l itm) (\<lambda>t. ASSERT (\<not> t) (
      if List_IsEmpty l
      then finish (m, l\<lparr>first_p := Some element, last_p := Some element\<rparr>)
      else bindR (deref m (first_p l)) (\<lambda>f.
        if cmp itm (item f) < 0
        then bindR (set_next m (Some element) (first_p l)) (\<lambda>m.
             finish (m, l\<lparr>first_p := Some element\<rparr>))
        else bindR (returning (Insert_loop cmp m l itm element (first_p l))) (\<lambda>(m, l, placed).
             if placed then Inr (m, l)
             else bindR (set_next m (last_p l) (Some element)) (\<lambda>m.
                  finish (m, l\<lparr>last_p := Some element\<rparr>)))))))"

section \<open>Sanity checks\<close>

partial_function (option) SanityCheck_loop ::
    "'a store \<Rightarrow> clist \<Rightarrow> int \<Rightarrow> addr option \<Rightarrow> int res option" where
  "SanityCheck_loop m l numFound ptr =
     (if ptr = last_p l then Some (Inr numFound)
      else if numFound + 1 \<le> numInList l
      then (case deref m ptr of Inl e \<Rightarrow> Some (Inl e)
            | Inr c \<Rightarrow> SanityCheck_loop m l (numFound + 1) (next c))
      else Some (Inl AssertFailed))"

definition List_SanityCheck :: "'a store \<Rightarrow> clist \<Rightarrow> unit res" where
  "List_SanityCheck m l =
     (if first_p l = None then ASSERT (numInList l = 0 \<and> last_p l = None) (Inr ())
      else if first_p l = last_p l then
        bindR (deref m (last_p l)) (\<lambda>c. ASSERT (numInList l = 1 \<and> next c = None) (Inr ()))
      else bindR (returning (SanityCheck_loop m l 1 (first_p l))) (\<lambda>numFound.
        ASSERT (numFound = numInList l) (
        bindR (deref m (last_p l)) (\<lambda>c. ASSERT (next c = None) (Inr ())))))"

partial_function (option) SortedCheck_loop ::
    "('a \<Rightarrow> 'a \<Rightarrow> int) \<Rightarrow> 'a store \<Rightarrow> addr option \<Rightarrow> addr option \<Rightarrow> unit res option" where
  "SortedCheck_loop cmp m prev ptr =
     (case ptr of None \<Rightarrow> Some (Inr ())
      | Some a \<Rightarrow>
          (case deref m prev of Inl e \<Rightarrow> Some (Inl e)
           | Inr p \<Rightarrow>
               (case cells m a of None \<Rightarrow> Some (Inl Undefined)
                | Some c \<Rightarrow> if cmp (item p) (item c) \<le> 0
                            then SortedCheck_loop cmp m ptr (next c)
                            else Some (Inl AssertFailed))))"

definition SortedList_SanityCheck :: "('a \<Rightarrow> 'a \<Rightarrow> int) \<Rightarrow> 'a store \<Rightarrow> clist \<Rightarrow> unit res" where
  "SortedList_SanityCheck cmp m l =
     bindR (List_SanityCheck m l) (\<lambda>_.
     if first_p l \<noteq> last_p l
     then bindR (deref m (first_p l)) (\<lambda>f.
          returning (SortedCheck_loop cmp m (first_p l) (next f)))
     else Inr ())"

section \<open>Sequences of items\<close>

text \<open>The effect of each routine on the sequence of the items of a list.\<close>

definition seq_Append :: "'a list \<Rightarrow> 'a \<Rightarrow> 'a list res" where
  "seq_Append xs x = ASSERT (x \<notin> set xs) (Inr (xs @ [x]))"

definition seq_Prepend :: "'a list \<Rightarrow> 'a \<Rightarrow> 'a list res" where
  "seq_Prepend xs x = ASSERT (x \<notin> set xs) (Inr (x # xs))"

definition seq_RemoveFront :: "'a list \<Rightarrow> ('a list \<times> 'a) res" where
  "seq_RemoveFront xs = ASSERT (xs \<noteq> []) (Inr (tl xs, hd xs))"

definition seq_Remove :: "'a list \<Rightarrow> 'a \<Rightarrow> 'a list res" where
  "seq_Remove xs x = ASSERT (x \<in> set xs \<and> x \<notin> set (remove1 x xs)) (Inr (remove1 x xs))"

fun insert_sorted :: "('a \<Rightarrow> 'a \<Rightarrow> int) \<Rightarrow> 'a \<Rightarrow> 'a list \<Rightarrow> 'a list" where
  "insert_sorted cmp x [] = [x]"
| "insert_sorted cmp x (y # ys) = (if cmp x y < 0 then x # y # ys else y # insert_sorted cmp x ys)"

definition seq_Insert :: "('a \<Rightarrow> 'a \<Rightarrow> int) \<Rightarrow> 'a list \<Rightarrow> 'a \<Rightarrow> 'a list res" where
  "seq_Insert cmp xs x = ASSERT (x \<notin> set xs) (Inr (insert_sorted cmp x xs))"

section \<open>Representation of a sequence in the store\<close>

primrec path :: "'a store \<Rightarrow> addr option \<Rightarrow> addr list \<Rightarrow> addr option \<Rightarrow> bool" where
  "path m p [] q \<longleftrightarrow> p = q"
| "path m p (a # as) q \<longleftrightarrow> p = Some a \<and> (\<exists>c. cells m a = Some c \<and> path m (next c) as q)"

definition items :: "'a store \<Rightarrow> addr list \<Rightarrow> 'a list" where
  "items m as = map (\<lambda>a. item (the (cells m a))) as"

definition rep :: "'a store \<Rightarrow> clist \<Rightarrow> addr list \<Rightarrow> bool" where
  "rep m l as \<longleftrightarrow> path m (first_p l) as None \<and> distinct as
     \<and> last_p l = (if as = [] then None else Some (last as))
     \<and> numInList l = int (length as) \<and> (\<forall>a \<ge> brk m. cells m a = None)"

definition list_rep :: "'a store \<times> clist \<Rightarrow> 'a list \<Rightarrow> bool" where
  "list_rep s xs \<longleftrightarrow> (\<exists>as. rep (fst s) (snd s) as \<and> xs = items (fst s) as)"

lemma items_simps [simp]:
  "items m [] = []"
  "items m (a # as) = item (the (cells m a)) # items m as"
  "items m (as @ bs) = items m as @ items m bs"
  "length (items m as) = length as"
  "(items m as = []) = (as = [])"
  "([] = items m as) = (as = [])"
  by (auto simp: items_def)

lemma path_append [simp]:
  "path m p (as @ bs) q \<longleftrightarrow> (\<exists>r. path m p as r \<and> path m r bs q)"
  by (induction as arbitrary: p) auto

lemma path_frame:
  "(\<And>a. a \<in> set as \<Longrightarrow> cells m' a = cells m a) \<Longrightarrow> path m' p as q = path m p as q"
  by (induction as arbitrary: p) auto

lemma items_frame:
  "(\<And>a. a \<in> set as \<Longrightarrow> cells m' a = cells m a) \<Longrightarrow> items m' as = items m as"
  by (simp add: items_def)

lemma path_upd [simp]:
  "u \<notin> set as \<Longrightarrow> path (m\<lparr>cells := (cells m)(u := v)\<rparr>) p as q = path m p as q"
  by (rule path_frame) auto

lemma items_upd [simp]:
  "u \<notin> set as \<Longrightarrow> items (m\<lparr>cells := (cells m)(u := v)\<rparr>) as = items m as"
  by (rule items_frame) auto

lemma path_live: "path m p as q \<Longrightarrow> a \<in> set as \<Longrightarrow> \<exists>c. cells m a = Some c"
  by (induction as arbitrary: p) auto

lemma rep_live: "rep m l as \<Longrightarrow> a \<in> set as \<Longrightarrow> a < brk m"
  unfolding rep_def by (metis not_less option.distinct(1) path_live)

lemma rep_fresh: "rep m l as \<Longrightarrow> brk m \<notin> set as"
  using rep_live by blast

lemma rep_empty_iff: "rep m l as \<Longrightarrow> List_IsEmpty l \<longleftrightarrow> as = []"
  by (simp add: rep_def List_IsEmpty_def)

lemma rep_path: "rep m l as \<Longrightarrow> path m (first_p l) as None"
  by (simp add: rep_def)

subsection \<open>The walks along the pointers end\<close>

lemma IsInList_loop_path:
  "path m p as None \<Longrightarrow> IsInList_loop m x p = Some (Inr (x \<in> set (items m as)))"
proof (induction as arbitrary: p)
  case Nil
  then show ?case by (subst IsInList_loop.simps) simp
next
  case (Cons a as)
  then show ?case by (subst IsInList_loop.simps) auto
qed

lemma List_IsInList_path:
  "path m (first_p l) as None \<Longrightarrow> List_IsInList m l x = Inr (x \<in> set (items m as))"
  by (simp add: List_IsInList_def IsInList_loop_path)

lemma Apply_loop_path:
  "path m p as None \<Longrightarrow> Apply_loop m p acc = Some (Inr (acc @ items m as))"
proof (induction as arbitrary: p acc)
  case Nil
  then show ?case by (subst Apply_loop.simps) simp
next
  case (Cons a as)
  then show ?case by (subst Apply_loop.simps) auto
qed

lemma SanityCheck_loop_path:
  assumes "path m p (as @ [z]) q" "last_p l = Some z" "z \<notin> set as"
    and "n + int (length as) \<le> numInList l"
  shows "SanityCheck_loop m l n p = Some (Inr (n + int (length as)))"
  using assms
proof (induction as arbitrary: p n)
  case Nil
  then show ?case by (subst SanityCheck_loop.simps) auto
next
  case (Cons a as)
  then show ?case by (subst SanityCheck_loop.simps) (auto simp: deref_def)
qed

lemma SortedCheck_loop_path:
  assumes "path m (Some a) (a # as) None" "sorted_wrt (\<lambda>x y. cmp x y \<le> 0) (items m (a # as))"
  shows "SortedCheck_loop cmp m (Some a) (next (the (cells m a))) = Some (Inr ())"
  using assms
proof (induction as arbitrary: a)
  case Nil
  then show ?case by (subst SortedCheck_loop.simps) auto
next
  case (Cons b as)
  then have "SortedCheck_loop cmp m (Some b) (next (the (cells m b))) = Some (Inr ())"
    by (intro Cons.IH) auto
  with Cons.prems show ?case by (subst SortedCheck_loop.simps) (auto simp: deref_def)
qed

subsection \<open>Each routine implements its sequence operation\<close>

lemma new_frame:
  assumes "ListElement_new m x = (m1, e)"
  shows "e = brk m" "cells m1 = (cells m)(e \<mapsto> \<lparr>item = x, next = None\<rparr>)" "brk m1 = brk m + 1"
  using assms by (auto simp: ListElement_new_def)

lemma new_rep:
  assumes rep: "rep m l as" and new: "ListElement_new m x = (m1, e)"
  shows "rep m1 l as" "items m1 as = items m as" "e \<notin> set as"
    "cells m1 e = Some \<lparr>item = x, next = None\<rparr>"
proof -
  note nf = new_frame [OF new]
  show e: "e \<notin> set as" using rep_fresh [OF rep] nf by simp
  have same: "cells m1 a = cells m a" if "a \<in> set as" for a using that e nf by auto
  show "items m1 as = items m as" by (rule items_frame) (rule same)
  show "rep m1 l as"
    using rep nf path_frame [of as m1 m, OF same] by (auto simp: rep_def)
  show "cells m1 e = Some \<lparr>item = x, next = None\<rparr>" using nf by simp
qed

lemma List_IsInList_rep: "rep m l as \<Longrightarrow> List_IsInList m l x = Inr (x \<in> set (items m as))"
  by (simp add: List_IsInList_path rep_def)

lemma set_next_live:
  "cells m a = Some c \<Longrightarrow>
     set_next m (Some a) q = Inr (m\<lparr>cells := (cells m)(a \<mapsto> c\<lparr>next := q\<rparr>)\<rparr>)"
  by (simp add: set_next_def)

text \<open>Linking an element that ends in \<open>q\<close> behind the last element of a path.\<close>

lemma path_link:
  assumes "path m p (bs @ [z]) r" "distinct (bs @ [z])" "cells m z = Some c"
  shows "path (m\<lparr>cells := (cells m)(z \<mapsto> c\<lparr>next := q\<rparr>)\<rparr>) p (bs @ [z]) q"
proof -
  let ?m' = "m\<lparr>cells := (cells m)(z \<mapsto> c\<lparr>next := q\<rparr>)\<rparr>"
  have "path ?m' p bs (Some z) = path m p bs (Some z)"
    using assms(2) by (intro path_frame) auto
  with assms show ?thesis by auto
qed

lemma items_set_next:
  "cells m z = Some c \<Longrightarrow> items (m\<lparr>cells := (cells m)(z \<mapsto> c\<lparr>next := q\<rparr>)\<rparr>) as = items m as"
  by (auto simp: items_def)

text \<open>
  The three ways to link a fresh element \<open>e\<close> into a list: as its only element or at its
  front, behind its last element, and between two elements.
\<close>

definition linked :: "'a store \<Rightarrow> addr \<Rightarrow> 'a \<Rightarrow> addr list \<Rightarrow> bool" where
  "linked m e x as \<longleftrightarrow> e \<notin> set as \<and> cells m e = Some \<lparr>item = x, next = None\<rparr>"

lemma link_front:
  assumes rep: "rep m l as" and e: "linked m e x as"
  defines "m' \<equiv> m\<lparr>cells := (cells m)(e \<mapsto> \<lparr>item = x, next = first_p l\<rparr>)\<rparr>"
  shows "rep m' (l\<lparr>first_p := Some e, last_p := (if as = [] then Some e else last_p l),
           numInList := numInList l + 1\<rparr>) (e # as)"
    and "items m' (e # as) = x # items m as"
    and "as = [] \<Longrightarrow> m' = m"
  using rep e by (auto simp: rep_def linked_def m'_def intro!: store.equality)

lemma link_back:
  assumes rep: "rep m l (bs @ [z])" and e: "linked m e x (bs @ [z])" and c: "cells m z = Some c"
  defines "m' \<equiv> m\<lparr>cells := (cells m)(z \<mapsto> c\<lparr>next := Some e\<rparr>)\<rparr>"
  shows "rep m' (l\<lparr>last_p := Some e, numInList := numInList l + 1\<rparr>) (bs @ [z, e])"
    and "items m' (bs @ [z, e]) = items m (bs @ [z]) @ [x]"
proof -
  have "path m' (first_p l) (bs @ [z]) (Some e)"
    unfolding m'_def using rep c by (intro path_link) (auto simp: rep_def)
  then have "path m' (first_p l) (bs @ [z, e]) None"
    using e by (auto simp: linked_def m'_def)
  then show "rep m' (l\<lparr>last_p := Some e, numInList := numInList l + 1\<rparr>) (bs @ [z, e])"
    using rep e c by (auto simp: rep_def linked_def m'_def)
  show "items m' (bs @ [z, e]) = items m (bs @ [z]) @ [x]"
    using c e unfolding m'_def by (subst items_set_next) (auto simp: linked_def)
qed

lemma link_middle:
  assumes rep: "rep m l (bs @ z # d # ds)" and e: "linked m e x (bs @ z # d # ds)"
    and c: "cells m z = Some c"
  defines "m' \<equiv> m\<lparr>cells := (cells m)(e \<mapsto> \<lparr>item = x, next = Some d\<rparr>, z \<mapsto> c\<lparr>next := Some e\<rparr>)\<rparr>"
  shows "rep m' (l\<lparr>numInList := numInList l + 1\<rparr>) (bs @ z # e # d # ds)"
    and "items m' (bs @ z # e # d # ds) = items m (bs @ [z]) @ x # items m (d # ds)"
proof -
  have dist: "distinct (bs @ z # d # ds)" using rep by (simp add: rep_def)
  have same: "cells m' b = cells m b" if "b \<noteq> e" "b \<noteq> z" for b using that by (simp add: m'_def)
  have p: "path m (first_p l) bs (Some z)" "path m (Some d) (d # ds) None"
    using rep c by (auto simp: rep_def)
  have "path m' (first_p l) bs (Some z)"
    by (rule path_frame [THEN iffD2, OF _ p(1)]) (rule same, use dist e in \<open>auto simp: linked_def\<close>)
  moreover have "path m' (Some d) (d # ds) None"
    by (rule path_frame [THEN iffD2, OF _ p(2)]) (rule same, use dist e in \<open>auto simp: linked_def\<close>)
  ultimately show "rep m' (l\<lparr>numInList := numInList l + 1\<rparr>) (bs @ z # e # d # ds)"
    using rep e c by (auto simp: rep_def linked_def m'_def)
  show "items m' (bs @ z # e # d # ds) = items m (bs @ [z]) @ x # items m (d # ds)"
    using dist e c by (auto simp: items_def m'_def linked_def)
qed

lemma new_linked:
  "rep m l as \<Longrightarrow> ListElement_new m x = (m1, e) \<Longrightarrow> linked m1 e x as"
  using new_rep(3,4) [of m l as x m1 e] by (simp add: linked_def)

lemma List_Append_rep:
  assumes rep: "rep m l as" and notin: "x \<notin> set (items m as)"
  shows "\<exists>m' l'. List_Append m l x = Inr (m', l') \<and> rep m' l' (as @ [brk m])
    \<and> items m' (as @ [brk m]) = items m as @ [x]
    \<and> (\<forall>a. a \<notin> set as \<longrightarrow> a \<noteq> brk m \<longrightarrow> cells m' a = cells m a)"
proof -
  obtain m1 e where new: "ListElement_new m x = (m1, e)" by fastforce
  note nf = new_frame [OF new] and nr = new_rep [OF rep new]
  have t1: "List_IsInList m1 l x = Inr False"
    using List_IsInList_rep [OF nr(1)] notin nr by simp
  show ?thesis
  proof (cases as rule: rev_cases)
    case Nil
    let ?l' = "l\<lparr>first_p := Some e, last_p := Some e, numInList := numInList l + 1\<rparr>"
    have rep': "rep m1 ?l' [e]" using Nil nr by (auto simp: rep_def)
    moreover have "List_IsInList m1 ?l' x = Inr True"
      using List_IsInList_rep [OF rep', of x] nr by simp
    ultimately show ?thesis
      using Nil new nf t1 rep_empty_iff [OF rep] by (auto simp: List_Append_def)
  next
    case (snoc bs z)
    obtain c where c: "cells m1 z = Some c"
      using path_live [OF rep_path [OF nr(1)]] snoc by auto
    let ?m2 = "m1\<lparr>cells := (cells m1)(z \<mapsto> c\<lparr>next := Some e\<rparr>)\<rparr>"
    let ?l' = "l\<lparr>last_p := Some e, numInList := numInList l + 1\<rparr>"
    have rep': "rep ?m2 ?l' (as @ [e])" and items: "items ?m2 (as @ [e]) = items m as @ [x]"
      using link_back [of m1 l bs z e x c] nr c snoc new_linked [OF rep new] by auto
    have "List_IsInList ?m2 ?l' x = Inr True"
      using List_IsInList_rep [OF rep', of x] items by simp
    then have "List_Append m l x = Inr (?m2, ?l')"
      using snoc new t1 rep_empty_iff [OF rep] nr(1) c
      by (simp add: List_Append_def rep_def set_next_live)
    with rep' items snoc nf show ?thesis by auto
  qed
qed

lemma List_Prepend_rep:
  assumes rep: "rep m l as" and notin: "x \<notin> set (items m as)"
  shows "\<exists>m' l'. List_Prepend m l x = Inr (m', l') \<and> rep m' l' (brk m # as)
    \<and> items m' (brk m # as) = x # items m as
    \<and> (\<forall>a. a \<notin> set as \<longrightarrow> a \<noteq> brk m \<longrightarrow> cells m' a = cells m a)"
proof -
  obtain m1 e where new: "ListElement_new m x = (m1, e)" by fastforce
  note nf = new_frame [OF new] and nr = new_rep [OF rep new]
  have t1: "List_IsInList m1 l x = Inr False"
    using List_IsInList_rep [OF nr(1)] notin nr by simp
  let ?m2 = "m1\<lparr>cells := (cells m1)(e \<mapsto> \<lparr>item = x, next = first_p l\<rparr>)\<rparr>"
  let ?l' = "l\<lparr>first_p := Some e, last_p := (if as = [] then Some e else last_p l),
               numInList := numInList l + 1\<rparr>"
  note lf = link_front [OF nr(1) new_linked [OF rep new]]
  have rep': "rep ?m2 ?l' (e # as)" and items: "items ?m2 (e # as) = x # items m as"
    using lf nr by auto
  have t2: "List_IsInList ?m2 ?l' x = Inr True"
    using List_IsInList_rep [OF rep', of x] items by simp
  have "List_Prepend m l x = Inr (?m2, ?l')"
  proof (cases "as = []")
    case True
    then have "?m2 = m1" by (rule lf(3))
    with True t1 t2 new rep_empty_iff [OF rep] show ?thesis by (simp add: List_Prepend_def)
  next
    case False
    then show ?thesis using t1 t2 new nr rep_empty_iff [OF rep]
      by (simp add: List_Prepend_def set_next_live)
  qed
  with rep' items nf show ?thesis by auto
qed

lemma List_RemoveFront_rep:
  assumes rep: "rep m l (a # as)"
  shows "\<exists>m' l'. List_RemoveFront m l = Inr (m', l', item (the (cells m a))) \<and> rep m' l' as
    \<and> items m' as = items m as \<and> (\<forall>b. b \<noteq> a \<longrightarrow> cells m' b = cells m b)"
proof -
  obtain c where c: "cells m a = Some c" "path m (next c) as None" "first_p l = Some a"
    using rep by (auto simp: rep_def)
  let ?m' = "delete_element m a"
  have same: "cells ?m' b = cells m b" if "b \<in> set as" for b
    using that rep by (auto simp: rep_def delete_element_def)
  have eq: "first_p l = last_p l \<longleftrightarrow> as = []"
    using rep c by (auto simp: rep_def last_in_set)
  have "path ?m' (next c) as None" using c path_frame [of as ?m' m, OF same] by simp
  moreover have "items ?m' as = items m as" by (rule items_frame) (rule same)
  ultimately show ?thesis
    using rep c eq rep_empty_iff [OF rep]
    by (auto simp: List_RemoveFront_def deref_def rep_def delete_element_def Let_def)
qed

lemma Remove_loop_rep:
  assumes "path m (Some b) (b # cs @ a # ds) None" "cells m a = Some c"
    "x \<notin> set (items m cs)" "x = item c"
  shows "Remove_loop m l x (Some b) (next (the (cells m b))) = Some (
     bindR (set_next m (Some (last (b # cs))) (next c)) (\<lambda>m'.
       Inr (delete_element m' a,
         (if next c = None then l\<lparr>last_p := Some (last (b # cs))\<rparr> else l)
           \<lparr>numInList := numInList l - 1\<rparr>, True)))"
  using assms
proof (induction cs arbitrary: b)
  case Nil
  then show ?case by (subst Remove_loop.simps) (auto simp: Let_def)
next
  case (Cons d cs)
  then have "Remove_loop m l x (Some d) (next (the (cells m d))) = Some (
     bindR (set_next m (Some (last (d # cs))) (next c)) (\<lambda>m'.
       Inr (delete_element m' a,
         (if next c = None then l\<lparr>last_p := Some (last (d # cs))\<rparr> else l)
           \<lparr>numInList := numInList l - 1\<rparr>, True)))"
    by (intro Cons.IH) auto
  with Cons.prems show ?case by (subst Remove_loop.simps) auto
qed

lemma unlink_rep:
  assumes rep: "rep m l (bs @ z # a # ds)" and a: "cells m a = Some c" and z: "cells m z = Some d"
  defines "m' \<equiv> delete_element (m\<lparr>cells := (cells m)(z \<mapsto> d\<lparr>next := next c\<rparr>)\<rparr>) a"
  shows "rep m' ((if next c = None then l\<lparr>last_p := Some z\<rparr> else l)\<lparr>numInList := numInList l - 1\<rparr>)
      (bs @ z # ds)"
    and "items m' (bs @ z # ds) = items m (bs @ z # ds)"
proof -
  have dist: "distinct (bs @ z # a # ds)" using rep by (simp add: rep_def)
  have m': "m' = m\<lparr>cells := (cells (m\<lparr>cells := (cells m)(z \<mapsto> d\<lparr>next := next c\<rparr>)\<rparr>))(a := None)\<rparr>"
    by (simp add: m'_def delete_element_def)
  have p: "path m (first_p l) bs (Some z)" "path m (next c) ds None" "next d = Some a"
    using rep a z by (auto simp: rep_def)
  have same: "cells m' b = cells m b" if "b \<noteq> a" "b \<noteq> z" for b using that by (simp add: m')
  have ds: "next c = None \<longleftrightarrow> ds = []" using p by (cases ds) auto
  have "path m' (first_p l) bs (Some z)"
    by (rule path_frame [THEN iffD2, OF _ p(1)]) (rule same, use dist in auto)
  moreover have "path m' (next c) ds None"
    by (rule path_frame [THEN iffD2, OF _ p(2)]) (rule same, use dist in auto)
  ultimately show "rep m' ((if next c = None then l\<lparr>last_p := Some z\<rparr> else l)\<lparr>numInList := numInList l - 1\<rparr>)
      (bs @ z # ds)"
    using rep ds dist z by (auto simp: rep_def m' split: if_splits)
  show "items m' (bs @ z # ds) = items m (bs @ z # ds)"
    using dist z by (auto simp: items_def m')
qed

lemma List_Remove_rep:
  assumes rep: "rep m l as" and mem: "x \<in> set (items m as)"
  shows "\<exists>m' l' as'. items m' as' = remove1 x (items m as) \<and> rep m' l' as'
    \<and> List_Remove m l x = ASSERT (x \<notin> set (remove1 x (items m as))) (Inr (m', l'))
    \<and> set as' \<subseteq> set as \<and> (\<forall>a. a \<notin> set as \<longrightarrow> cells m' a = cells m a)"
proof -
  have t: "List_IsInList m l x = Inr True" using List_IsInList_rep [OF rep] mem by simp
  obtain b bs where as: "as = b # bs" using mem by (cases as) auto
  then obtain f where f: "cells m b = Some f" "first_p l = Some b" using rep by (auto simp: rep_def)
  show ?thesis
  proof (cases "x = item f")
    case True
    with List_RemoveFront_rep [of m l b bs] rep as f obtain m' l' where
      r: "List_RemoveFront m l = Inr (m', l', x)" "rep m' l' bs" "items m' bs = items m bs"
        "\<forall>a. a \<noteq> b \<longrightarrow> cells m' a = cells m a" by auto
    have "remove1 x (items m as) = items m' bs" using as True f r by simp
    moreover have "List_Remove m l x = ASSERT (x \<notin> set (items m' bs)) (Inr (m', l'))"
      using t f True r List_IsInList_rep [OF r(2), of x]
      by (simp add: List_Remove_def deref_def)
    ultimately show ?thesis using r as by (intro exI [of _ m'] exI [of _ l'] exI [of _ bs]) auto
  next
    case False
    then have "\<exists>a \<in> set bs. x = item (the (cells m a))"
      using mem as f by (auto simp: items_def)
    then obtain cs a ds where split: "bs = cs @ a # ds" "x = item (the (cells m a))"
        "\<forall>y \<in> set cs. x \<noteq> item (the (cells m y))"
      using split_list_first_prop [of bs "\<lambda>a. x = item (the (cells m a))"] by blast
    then obtain c where c: "cells m a = Some c"
      using path_live [OF rep_path [OF rep], of a] as by auto
    define z zs where "z = last (b # cs)" and "zs = butlast (b # cs)"
    have az: "as = zs @ z # a # ds" using as split by (simp add: z_def zs_def)
    obtain d where d: "cells m z = Some d" using path_live [OF rep_path [OF rep], of z] az by auto
    let ?m' = "delete_element (m\<lparr>cells := (cells m)(z \<mapsto> d\<lparr>next := next c\<rparr>)\<rparr>) a"
    let ?l' = "(if next c = None then l\<lparr>last_p := Some z\<rparr> else l)\<lparr>numInList := numInList l - 1\<rparr>"
    note un = unlink_rep [OF rep [unfolded az] c d]
    have notin: "x \<notin> set (items m cs)" using split by (auto simp: items_def)
    have loop: "Remove_loop m l x (Some b) (next (the (cells m b))) = Some (Inr (?m', ?l', True))"
      using Remove_loop_rep [of m b cs a ds c x l] rep as split c notin d
      by (auto simp: rep_def set_next_live z_def)
    have "items m as = items m (b # cs) @ x # items m ds" using as split c by simp
    moreover have "items m (zs @ z # ds) = items m (b # cs) @ items m ds"
      by (metis append_butlast_last_id items_simps(3) append.assoc append_Cons append_Nil
          list.distinct(1) z_def zs_def)
    ultimately have rm: "remove1 x (items m as) = items m (zs @ z # ds)"
      using notin False f by (simp add: remove1_append)
    have "List_Remove m l x = ASSERT (x \<notin> set (items m (zs @ z # ds))) (Inr (?m', ?l'))"
      using t f False loop List_IsInList_rep [OF un(1), of x] un(2)
      by (simp add: List_Remove_def deref_def)
    with rm un az show ?thesis
      by (intro exI [of _ ?m'] exI [of _ ?l'] exI [of _ "zs @ z # ds"])
         (auto simp: delete_element_def)
  qed
qed

lemma Insert_loop_end:
  assumes "path m (Some b) (b # cs) None" "\<forall>y \<in> set (items m cs). \<not> cmp x y < 0"
  shows "Insert_loop cmp m l x e (Some b) = Some (Inr (m, l, False))"
  using assms
proof (induction cs arbitrary: b)
  case Nil
  then show ?case by (subst Insert_loop.simps) (auto simp: deref_def)
next
  case (Cons d cs)
  then have "Insert_loop cmp m l x e (Some d) = Some (Inr (m, l, False))"
    by (intro Cons.IH) auto
  with Cons.prems show ?case by (subst Insert_loop.simps) (auto simp: deref_def)
qed

lemma Insert_loop_place:
  assumes "path m (Some b) (b # cs @ d # ds) None" "\<forall>y \<in> set (items m cs). \<not> cmp x y < 0"
    "cmp x (item (the (cells m d))) < 0"
  shows "Insert_loop cmp m l x e (Some b) = Some (
     bindR (set_next m (Some e) (Some d)) (\<lambda>m.
     bindR (set_next m (Some (last (b # cs))) (Some e)) (\<lambda>m.
     Inr (m, l\<lparr>numInList := numInList l + 1\<rparr>, True))))"
  using assms
proof (induction cs arbitrary: b)
  case Nil
  then show ?case by (subst Insert_loop.simps) (auto simp: deref_def)
next
  case (Cons f cs)
  then have "Insert_loop cmp m l x e (Some f) = Some (
     bindR (set_next m (Some e) (Some d)) (\<lambda>m.
     bindR (set_next m (Some (last (f # cs))) (Some e)) (\<lambda>m.
     Inr (m, l\<lparr>numInList := numInList l + 1\<rparr>, True))))"
    by (intro Cons.IH) auto
  with Cons.prems show ?case by (subst Insert_loop.simps) (auto simp: deref_def)
qed

lemma insert_sorted_split:
  "\<forall>y \<in> set ys. \<not> cmp x y < 0 \<Longrightarrow>
     insert_sorted cmp x (ys @ zs) =
       ys @ (if zs = [] then [x] else if cmp x (hd zs) < 0 then x # zs
             else hd zs # insert_sorted cmp x (tl zs))"
  by (induction ys) (cases zs; auto)+

text \<open>
  What an insertion achieves: the operation returns, the result represents the sequence with
  the item inserted, and no element outside of the list has changed.  It is proved for each
  place the loop may link the new element: in front, between two elements, at the end.
\<close>

definition inserts :: "('a \<Rightarrow> 'a \<Rightarrow> int) \<Rightarrow> 'a store \<Rightarrow> clist \<Rightarrow> 'a \<Rightarrow> nat list \<Rightarrow> bool" where
  "inserts cmp m l x as \<longleftrightarrow> (\<exists>m' l' as'. SortedList_Insert cmp m l x = Inr (m', l') \<and> rep m' l' as'
    \<and> items m' as' = insert_sorted cmp x (items m as) \<and> set as' = insert (brk m) (set as)
    \<and> (\<forall>a. a \<notin> set as \<longrightarrow> a \<noteq> brk m \<longrightarrow> cells m' a = cells m a))"

abbreviation one_more :: "clist \<Rightarrow> clist" where
  "one_more l \<equiv> l\<lparr>numInList := numInList l + 1\<rparr>"

lemma Insert_front:
  assumes rep: "rep m l as" and notin: "x \<notin> set (items m as)"
    and first: "as = [] \<or> cmp x (hd (items m as)) < 0"
  shows "inserts cmp m l x as"
proof -
  obtain m1 e where new: "ListElement_new m x = (m1, e)" by fastforce
  note nf = new_frame [OF new] and nr = new_rep [OF rep new] and nl = new_linked [OF rep new]
  have t1: "List_IsInList m1 l x = Inr False"
    using List_IsInList_rep [OF nr(1)] notin nr by simp
  let ?m = "m1\<lparr>cells := (cells m1)(e \<mapsto> \<lparr>item = x, next = first_p l\<rparr>)\<rparr>"
  let ?l = "l\<lparr>first_p := Some e, last_p := (if as = [] then Some e else last_p l)\<rparr>"
  have front: "rep ?m (one_more ?l) (e # as)" "items ?m (e # as) = x # items m as"
    using link_front [OF nr(1) nl] nr by auto
  have tf: "List_IsInList ?m (one_more ?l) x = Inr True"
    using List_IsInList_rep [OF front(1), of x] front(2) by simp
  have "SortedList_Insert cmp m l x = Inr (?m, one_more ?l)"
  proof (cases as)
    case Nil
    then have "?m = m1" using link_front(3) [OF nr(1) nl] by simp
    with Nil tf new t1 rep_empty_iff [OF rep] show ?thesis by (simp add: SortedList_Insert_def)
  next
    case (Cons b bs)
    obtain f where f: "cells m1 b = Some f" "first_p l = Some b"
      using nr Cons by (auto simp: rep_def)
    with nr Cons first have "cmp x (item f) < 0" by (auto simp: items_def)
    with Cons f tf new t1 rep_empty_iff [OF rep] nr show ?thesis
      by (simp add: SortedList_Insert_def deref_def set_next_live)
  qed
  moreover have "insert_sorted cmp x (items m as) = x # items m as"
    using first by (cases as) auto
  ultimately show ?thesis
    using front nf unfolding inserts_def
    by (intro exI [of _ ?m] exI [of _ "one_more ?l"] exI [of _ "e # as"]) auto
qed

lemma Insert_place:
  assumes rep: "rep m l (b # cs @ d # ds)" and notin: "x \<notin> set (items m (b # cs @ d # ds))"
    and before: "\<forall>y \<in> set (items m (b # cs)). \<not> cmp x y < 0"
    and after: "cmp x (item (the (cells m d))) < 0"
  shows "inserts cmp m l x (b # cs @ d # ds)"
proof -
  obtain m1 e where new: "ListElement_new m x = (m1, e)" by fastforce
  note nf = new_frame [OF new] and nr = new_rep [OF rep new] and nl = new_linked [OF rep new]
  have t1: "List_IsInList m1 l x = Inr False"
    using List_IsInList_rep [OF nr(1)] notin nr by simp
  obtain f where f: "cells m1 b = Some f" "first_p l = Some b" "path m1 (Some b) (b # cs @ d # ds) None"
    using nr by (auto simp: rep_def)
  have its: "items m1 (b # cs) = items m (b # cs)" "item (the (cells m1 d)) = item (the (cells m d))"
      "items m1 (d # ds) = items m (d # ds)"
    using nr(2) by (auto simp: items_def)
  define z zs where "z = last (b # cs)" and "zs = butlast (b # cs)"
  have az: "b # cs = zs @ [z]" by (simp add: z_def zs_def)
  then have as: "b # cs @ d # ds = zs @ z # d # ds" by simp
  obtain c where c: "cells m1 z = Some c"
    using path_live [OF rep_path [OF nr(1)], of z] as by auto
  let ?m = "m1\<lparr>cells := (cells m1)(e \<mapsto> \<lparr>item = x, next = Some d\<rparr>, z \<mapsto> c\<lparr>next := Some e\<rparr>)\<rparr>"
  have m': "rep ?m (one_more l) (zs @ z # e # d # ds)"
      "items ?m (zs @ z # e # d # ds) = items m1 (zs @ [z]) @ x # items m1 (d # ds)"
    using link_middle [of m1 l zs z d ds e x c] nr(1) nl c as by auto
  have "items ?m (zs @ z # e # d # ds) = insert_sorted cmp x (items m (b # cs @ d # ds))"
  proof -
    have "items m (b # cs @ d # ds) = items m (b # cs) @ items m (d # ds)" by (simp add: items_def)
    moreover have "insert_sorted cmp x (items m (b # cs) @ items m (d # ds))
        = items m (b # cs) @ x # items m (d # ds)"
      using insert_sorted_split [of "items m (b # cs)" cmp x "items m (d # ds)"] before after
      by (simp add: items_def)
    ultimately show ?thesis using m'(2) its az by metis
  qed
  moreover have ez: "e \<noteq> z" using nr as by auto
  have "SortedList_Insert cmp m l x = Inr (?m, one_more l)"
    using before after its new t1 rep_empty_iff [OF rep] f nr c ez
      Insert_loop_place [of m1 b cs d ds cmp x l e]
    by (simp add: SortedList_Insert_def deref_def set_next_live z_def items_def)
  moreover have "set (zs @ z # e # d # ds) = insert (brk m) (set (b # cs @ d # ds))"
    unfolding as using nf by auto
  moreover have "cells ?m a = cells m a" if "a \<notin> set (b # cs @ d # ds)" "a \<noteq> brk m" for a
    using that unfolding as using nf by auto
  ultimately show ?thesis
    using m'(1) unfolding inserts_def by blast
qed

lemma Insert_behind:
  assumes rep: "rep m l (b # bs)" and notin: "x \<notin> set (items m (b # bs))"
    and before: "\<forall>y \<in> set (items m (b # bs)). \<not> cmp x y < 0"
  shows "inserts cmp m l x (b # bs)"
proof -
  obtain m1 e where new: "ListElement_new m x = (m1, e)" by fastforce
  note nf = new_frame [OF new] and nr = new_rep [OF rep new] and nl = new_linked [OF rep new]
  have t1: "List_IsInList m1 l x = Inr False"
    using List_IsInList_rep [OF nr(1)] notin nr by simp
  obtain f where f: "cells m1 b = Some f" "first_p l = Some b" "path m1 (Some b) (b # bs) None"
    using nr by (auto simp: rep_def)
  have its: "items m1 bs = items m bs" "item f = item (the (cells m b))"
    using nr(2) f(1) by (auto simp: items_def)
  define z zs where "z = last (b # bs)" and "zs = butlast (b # bs)"
  have az: "b # bs = zs @ [z]" by (simp add: z_def zs_def)
  obtain c where c: "cells m1 z = Some c"
    using path_live [OF rep_path [OF nr(1)], of z] az by auto
  let ?m = "m1\<lparr>cells := (cells m1)(z \<mapsto> c\<lparr>next := Some e\<rparr>)\<rparr>"
  let ?l = "l\<lparr>last_p := Some e\<rparr>"
  have m': "rep ?m (one_more ?l) (zs @ [z, e])" "items ?m (zs @ [z, e]) = items m (b # bs) @ [x]"
    using link_back [of m1 l zs z e x c] nr nl c az by auto
  have lp: "last_p l = Some z" using rep by (simp add: rep_def z_def)
  have tb: "List_IsInList ?m (one_more ?l) x = Inr True"
    using List_IsInList_rep [OF m'(1), of x] m'(2) by simp
  have "insert_sorted cmp x (items m (b # bs)) = items m (b # bs) @ [x]"
    using insert_sorted_split [of "items m (b # bs)" cmp x "[]"] before by simp
  moreover have "SortedList_Insert cmp m l x = Inr (?m, one_more ?l)"
    using before its new t1 tb rep_empty_iff [OF rep] f c lp
      Insert_loop_end [of m1 b bs cmp x l e]
    by (simp add: SortedList_Insert_def deref_def set_next_live items_def)
  moreover have "set (zs @ [z, e]) = insert (brk m) (set (b # bs))" unfolding az using nf by auto
  moreover have "items ?m (zs @ [z, e]) = insert_sorted cmp x (items m (b # bs))"
    using m'(2) calculation(1) by simp
  moreover have "cells ?m a = cells m a" if "a \<notin> set (b # bs)" "a \<noteq> brk m" for a
    using that unfolding az using nf by auto
  ultimately show ?thesis
    using m'(1) unfolding inserts_def by blast
qed

lemma SortedList_Insert_rep:
  assumes rep: "rep m l as" and notin: "x \<notin> set (items m as)"
  shows "\<exists>m' l' as'. SortedList_Insert cmp m l x = Inr (m', l') \<and> rep m' l' as'
    \<and> items m' as' = insert_sorted cmp x (items m as) \<and> set as' = insert (brk m) (set as)
    \<and> (\<forall>a. a \<notin> set as \<longrightarrow> a \<noteq> brk m \<longrightarrow> cells m' a = cells m a)"
proof -
  consider (front) "as = [] \<or> cmp x (hd (items m as)) < 0"
    | (behind) b bs where "as = b # bs" and "\<forall>y \<in> set (items m as). \<not> cmp x y < 0"
    | (place) b cs d ds where "as = b # cs @ d # ds"
        and "\<forall>y \<in> set (items m (b # cs)). \<not> cmp x y < 0" and "cmp x (item (the (cells m d))) < 0"
  proof (cases as)
    case (Cons b bs)
    then show thesis
      using that split_list_first_prop [of bs "\<lambda>a. cmp x (item (the (cells m a))) < 0"]
      by (fastforce simp: items_def)
  qed (use that in simp)
  then have "inserts cmp m l x as"
  proof cases
    case front
    then show ?thesis using Insert_front [OF rep notin] by blast
  next
    case (behind b bs)
    then show ?thesis using Insert_behind [of m l b bs x cmp] rep notin by simp
  next
    case (place b cs d ds)
    then show ?thesis using Insert_place [of m l b cs d ds x cmp] rep notin by simp
  qed
  then show ?thesis unfolding inserts_def .
qed

section \<open>Refinement and the interface of a list\<close>

text \<open>
  Every routine of the pointer implementation does to the represented sequence what its
  sequence operation says, including when it aborts.
\<close>

abbreviation sim :: "('s \<Rightarrow> 't \<Rightarrow> bool) \<Rightarrow> 's res \<Rightarrow> 't res \<Rightarrow> bool" where
  "sim R \<equiv> rel_sum (=) R"

lemma list_rep_empty: "rep m List_new []" if "\<forall>a \<ge> brk m. cells m a = None"
  using that by (simp add: rep_def List_new_def)

lemma List_Append_dup:
  assumes rep: "rep m l as" and "x \<in> set (items m as)"
  shows "List_Append m l x = Inl AssertFailed" "List_Prepend m l x = Inl AssertFailed"
    "SortedList_Insert cmp m l x = Inl AssertFailed"
proof -
  obtain m1 e where new: "ListElement_new m x = (m1, e)" by fastforce
  note nr = new_rep [OF rep new]
  have "List_IsInList m1 l x = Inr True" using List_IsInList_rep [OF nr(1)] nr assms by simp
  then show "List_Append m l x = Inl AssertFailed" "List_Prepend m l x = Inl AssertFailed"
    "SortedList_Insert cmp m l x = Inl AssertFailed"
    by (simp_all add: List_Append_def List_Prepend_def SortedList_Insert_def new)
qed

lemma List_Append_sim:
  "list_rep (m, l) xs \<Longrightarrow> sim list_rep (List_Append m l x) (seq_Append xs x)"
  by (cases "x \<in> set xs")
     (fastforce simp: list_rep_def seq_Append_def List_Append_dup dest: List_Append_rep)+

lemma List_Prepend_sim:
  "list_rep (m, l) xs \<Longrightarrow> sim list_rep (List_Prepend m l x) (seq_Prepend xs x)"
  by (cases "x \<in> set xs")
     (fastforce simp: list_rep_def seq_Prepend_def List_Append_dup dest: List_Prepend_rep)+

lemma SortedList_Insert_sim:
  "list_rep (m, l) xs \<Longrightarrow> sim list_rep (SortedList_Insert cmp m l x) (seq_Insert cmp xs x)"
  by (cases "x \<in> set xs")
     (fastforce simp: list_rep_def seq_Insert_def List_Append_dup
        dest: SortedList_Insert_rep [where cmp = cmp])+

lemma List_IsEmpty_sim: "list_rep (m, l) xs \<Longrightarrow> List_IsEmpty l \<longleftrightarrow> xs = []"
  by (auto simp: list_rep_def rep_empty_iff)

lemma List_RemoveFront_sim:
  assumes "list_rep (m, l) xs"
  shows "sim (\<lambda>(m, l, x) (ys, y). list_rep (m, l) ys \<and> x = y) (List_RemoveFront m l) (seq_RemoveFront xs)"
proof (cases xs)
  case Nil
  with List_IsEmpty_sim [OF assms] show ?thesis
    by (simp add: List_RemoveFront_def seq_RemoveFront_def)
next
  case (Cons x ys)
  then obtain a as where "rep m l (a # as)" "x = item (the (cells m a))" "ys = items m as"
    using assms by (auto simp: list_rep_def items_def)
  with List_RemoveFront_rep [of m l a as] Cons show ?thesis
    by (fastforce simp: list_rep_def seq_RemoveFront_def)
qed

lemma List_Remove_sim:
  assumes "list_rep (m, l) xs"
  shows "sim list_rep (List_Remove m l x) (seq_Remove xs x)"
proof -
  obtain as where as: "rep m l as" "xs = items m as" using assms by (auto simp: list_rep_def)
  show ?thesis
  proof (cases "x \<in> set xs")
    case True
    then obtain m' l' as' where "items m' as' = remove1 x xs" "rep m' l' as'"
      "List_Remove m l x = ASSERT (x \<notin> set (remove1 x xs)) (Inr (m', l'))"
      using List_Remove_rep [of m l as x] as by blast
    then show ?thesis using True by (auto simp: seq_Remove_def ASSERT_def list_rep_def)
  next
    case False
    then show ?thesis
      using List_IsInList_rep [OF as(1), of x] as by (simp add: seq_Remove_def List_Remove_def)
  qed
qed

lemma List_IsInList_sim: "list_rep (m, l) xs \<Longrightarrow> List_IsInList m l x = Inr (x \<in> set xs)"
  by (auto simp: list_rep_def List_IsInList_rep)

lemma List_Apply_sim: "list_rep (m, l) xs \<Longrightarrow> List_Apply m l = Inr xs"
  by (auto simp: list_rep_def List_Apply_def rep_def Apply_loop_path)

lemma List_SanityCheck_sim:
  assumes "list_rep (m, l) xs"
  shows "List_SanityCheck m l = Inr ()"
proof -
  obtain as where as: "rep m l as" "xs = items m as" using assms by (auto simp: list_rep_def)
  show ?thesis
  proof (cases as rule: rev_cases)
    case Nil
    with as show ?thesis by (simp add: List_SanityCheck_def rep_def)
  next
    case (snoc bs z)
    then obtain c where c: "cells m z = Some c" "next c = None" using as by (auto simp: rep_def)
    show ?thesis
    proof (cases bs)
      case Nil
      with as snoc c show ?thesis
        by (auto simp: List_SanityCheck_def rep_def deref_def)
    next
      case (Cons b ds)
      have "SanityCheck_loop m l 1 (first_p l) = Some (Inr (1 + int (length bs)))"
        using as snoc by (intro SanityCheck_loop_path [where z = z and q = None]) (auto simp: rep_def)
      with as snoc Cons c show ?thesis
        by (auto simp: List_SanityCheck_def rep_def deref_def)
    qed
  qed
qed

subsection \<open>Comparison functions\<close>

text \<open>
  A sorted list needs a comparison function. The header of the class asks for a negative,
  zero or positive result; what the list relies on is that swapping the arguments flips the
  sign and that "not positive" is transitive.
\<close>

locale compare_fn =
  fixes cmp :: "'a \<Rightarrow> 'a \<Rightarrow> int"
  assumes cmp_flip: "cmp x y < 0 \<longleftrightarrow> 0 < cmp y x"
    and cmp_trans: "cmp x y \<le> 0 \<Longrightarrow> cmp y z \<le> 0 \<Longrightarrow> cmp x z \<le> 0"
begin

lemma cmp_total: "\<not> cmp x y < 0 \<Longrightarrow> cmp y x \<le> 0"
  using cmp_flip [of x y] by linarith

lemma cmp_less_trans: "cmp x y < 0 \<Longrightarrow> cmp y z \<le> 0 \<Longrightarrow> cmp x z < 0"
  using cmp_flip [of x y] cmp_trans [of y z x] cmp_total [of x z] by linarith

abbreviation in_order :: "'a list \<Rightarrow> bool" where
  "in_order xs \<equiv> sorted_wrt (\<lambda>x y. cmp x y \<le> 0) xs"

lemma set_insert_sorted [simp]: "set (insert_sorted cmp x xs) = insert x (set xs)"
  by (induction xs) auto

lemma in_order_insert: "in_order xs \<Longrightarrow> in_order (insert_sorted cmp x xs)"
proof (induction xs)
  case (Cons y ys)
  then show ?case
    by (auto intro: cmp_total cmp_trans less_imp_le)
qed simp

text \<open>An item goes behind those that compare as equal: insertion is first come, first served.\<close>

lemma insert_sorted_filter:
  assumes "in_order xs"
  shows "insert_sorted cmp x xs =
    filter (\<lambda>y. cmp y x \<le> 0 \<and> \<not> cmp x y < 0) xs @ x # filter (\<lambda>y. cmp x y < 0) xs"
  using assms
proof (induction xs)
  case (Cons y ys)
  show ?case
  proof (cases "cmp x y < 0")
    case True
    then have "cmp x z < 0" if "z \<in> set ys" for z
      using Cons.prems that True by (auto intro: cmp_less_trans)
    then have "filter (\<lambda>y. cmp x y < 0) ys = ys" "filter (\<lambda>y. cmp y x \<le> 0 \<and> \<not> cmp x y < 0) ys = []"
      by (auto simp: filter_id_conv filter_empty_conv)
    with True show ?thesis by simp
  next
    case False
    with Cons cmp_total show ?thesis by auto
  qed
qed simp

end

section \<open>Self tests\<close>

text \<open>
  \<open>List::SelfTest\<close> calls the virtual members \<open>Append\<close> and \<open>SanityCheck\<close>; in a sorted list
  these are \<open>Insert\<close> and the check that the items are in order. The model takes them as
  arguments.
\<close>

primrec SelfTest_append_loop ::
    "('a store \<Rightarrow> clist \<Rightarrow> 'a \<Rightarrow> ('a store \<times> clist) res) \<Rightarrow> 'a list
     \<Rightarrow> 'a store \<Rightarrow> clist \<Rightarrow> ('a store \<times> clist) res" where
  "SelfTest_append_loop app [] m l = Inr (m, l)"
| "SelfTest_append_loop app (p # ps) m l =
     bindR (app m l p) (\<lambda>(m, l).
     bindR (List_IsInList m l p) (\<lambda>t. ASSERT t (
     ASSERT (\<not> List_IsEmpty l) (SelfTest_append_loop app ps m l))))"

primrec SelfTest_remove_loop :: "'a list \<Rightarrow> 'a store \<Rightarrow> clist \<Rightarrow> ('a store \<times> clist) res" where
  "SelfTest_remove_loop [] m l = Inr (m, l)"
| "SelfTest_remove_loop (p # ps) m l =
     bindR (List_Remove m l p) (\<lambda>(m, l).
     bindR (List_IsInList m l p) (\<lambda>t. ASSERT (\<not> t) (SelfTest_remove_loop ps m l)))"

definition List_SelfTest ::
    "('a store \<Rightarrow> clist \<Rightarrow> 'a \<Rightarrow> ('a store \<times> clist) res) \<Rightarrow> ('a store \<Rightarrow> clist \<Rightarrow> unit res)
     \<Rightarrow> 'a store \<Rightarrow> clist \<Rightarrow> 'a list \<Rightarrow> ('a store \<times> clist) res" where
  "List_SelfTest app check m l p =
     bindR (check m l) (\<lambda>_.
     ASSERT (List_IsEmpty l \<and> first_p l = None) (
     bindR (SelfTest_append_loop app p m l) (\<lambda>(m, l).
     bindR (check m l) (\<lambda>_.
     bindR (SelfTest_remove_loop p m l) (\<lambda>(m, l).
     ASSERT (List_IsEmpty l) (
     bindR (check m l) (\<lambda>_. Inr (m, l))))))))"

primrec SelfTest_insert_loop ::
    "('a \<Rightarrow> 'a \<Rightarrow> int) \<Rightarrow> 'a list \<Rightarrow> 'a store \<Rightarrow> clist \<Rightarrow> ('a store \<times> clist) res" where
  "SelfTest_insert_loop cmp [] m l = Inr (m, l)"
| "SelfTest_insert_loop cmp (p # ps) m l =
     bindR (SortedList_Insert cmp m l p) (\<lambda>(m, l).
     bindR (List_IsInList m l p) (\<lambda>t. ASSERT t (SelfTest_insert_loop cmp ps m l)))"

primrec SelfTest_drain_loop ::
    "nat \<Rightarrow> 'a store \<Rightarrow> clist \<Rightarrow> 'a list \<Rightarrow> ('a store \<times> clist \<times> 'a list) res" where
  "SelfTest_drain_loop 0 m l q = Inr (m, l, q)"
| "SelfTest_drain_loop (Suc n) m l q =
     bindR (List_RemoveFront m l) (\<lambda>(m, l, x).
     bindR (List_IsInList m l x) (\<lambda>t. ASSERT (\<not> t) (SelfTest_drain_loop n m l (q @ [x]))))"

fun SelfTest_order_check :: "('a \<Rightarrow> 'a \<Rightarrow> int) \<Rightarrow> 'a list \<Rightarrow> unit res" where
  "SelfTest_order_check cmp (x # y # q) =
     ASSERT (cmp x y \<le> 0) (SelfTest_order_check cmp (y # q))"
| "SelfTest_order_check cmp q = Inr ()"

definition SortedList_SelfTest ::
    "('a \<Rightarrow> 'a \<Rightarrow> int) \<Rightarrow> 'a store \<Rightarrow> clist \<Rightarrow> 'a list \<Rightarrow> ('a store \<times> clist \<times> 'a list) res" where
  "SortedList_SelfTest cmp m l p =
     bindR (List_SelfTest (SortedList_Insert cmp) (SortedList_SanityCheck cmp) m l p) (\<lambda>(m, l).
     bindR (SelfTest_insert_loop cmp p m l) (\<lambda>(m, l).
     bindR (SortedList_SanityCheck cmp m l) (\<lambda>_.
     bindR (SelfTest_drain_loop (length p) m l []) (\<lambda>(m, l, q).
     ASSERT (List_IsEmpty l) (
     bindR (SelfTest_order_check cmp q) (\<lambda>_.
     bindR (SortedList_SanityCheck cmp m l) (\<lambda>_. Inr (m, l, q))))))))"

text \<open>
  The self test passes for every way of adding items that keeps a representation of the
  items: the contract of the virtual members.
\<close>

locale list_members =
  fixes app :: "'a store \<Rightarrow> clist \<Rightarrow> 'a \<Rightarrow> ('a store \<times> clist) res"
    and check :: "'a store \<Rightarrow> clist \<Rightarrow> unit res"
    and ok :: "'a list \<Rightarrow> bool"
  assumes app_ok: "list_rep (m, l) xs \<Longrightarrow> ok xs \<Longrightarrow> x \<notin> set xs \<Longrightarrow>
      \<exists>m' l' xs'. app m l x = Inr (m', l') \<and> list_rep (m', l') xs' \<and> ok xs'
        \<and> set xs' = insert x (set xs)"
    and check_ok: "list_rep (m, l) xs \<Longrightarrow> ok xs \<Longrightarrow> check m l = Inr ()"
    and ok_remove: "ok xs \<Longrightarrow> ok (remove1 x xs)"
    and ok_distinct: "ok xs \<Longrightarrow> distinct xs"
    and ok_Nil: "ok []"
begin

lemma append_loop_ok:
  "list_rep (m, l) xs \<Longrightarrow> ok xs \<Longrightarrow> distinct ps \<Longrightarrow> set ps \<inter> set xs = {} \<Longrightarrow>
   \<exists>m' l' xs'. SelfTest_append_loop app ps m l = Inr (m', l') \<and> list_rep (m', l') xs' \<and> ok xs'
     \<and> set xs' = set xs \<union> set ps"
proof (induction ps arbitrary: m l xs)
  case Nil
  then show ?case by auto
next
  case (Cons p ps)
  then obtain m1 l1 ys where s: "app m l p = Inr (m1, l1)" "list_rep (m1, l1) ys" "ok ys"
      "set ys = insert p (set xs)"
    using app_ok [of m l xs p] by auto
  moreover have "\<not> List_IsEmpty l1" using List_IsEmpty_sim [OF s(2)] s(4) by auto
  moreover have "set ps \<inter> set ys = {}" "distinct ps" using Cons.prems s(4) by auto
  ultimately show ?case
    using Cons.IH [of m1 l1 ys] List_IsInList_sim [OF s(2), of p] by auto
qed

lemma remove_loop_ok:
  "list_rep (m, l) xs \<Longrightarrow> ok xs \<Longrightarrow> set ps = set xs \<Longrightarrow> distinct ps \<Longrightarrow>
   \<exists>m' l'. SelfTest_remove_loop ps m l = Inr (m', l') \<and> list_rep (m', l') []"
proof (induction ps arbitrary: m l xs)
  case Nil
  then show ?case by auto
next
  case (Cons p ps)
  have dist: "distinct xs" using Cons.prems ok_distinct by blast
  then have set: "set (remove1 p xs) = set xs - {p}" by simp
  have "p \<in> set xs" using Cons.prems(3) by auto
  then have "sim list_rep (List_Remove m l p) (Inr (remove1 p xs))"
    using List_Remove_sim [OF Cons.prems(1), of p] dist by (simp add: seq_Remove_def)
  then obtain m1 l1 where s: "List_Remove m l p = Inr (m1, l1)" "list_rep (m1, l1) (remove1 p xs)"
    by (auto elim!: rel_sum.cases)
  moreover have "set ps = set (remove1 p xs)" using Cons.prems set by auto
  ultimately show ?case
    using Cons.IH [of m1 l1 "remove1 p xs"] List_IsInList_sim [OF s(2), of p] set Cons.prems ok_remove
    by auto
qed

lemma SelfTest_ok:
  assumes "list_rep (m, l) []" "distinct p"
  shows "\<exists>m' l'. List_SelfTest app check m l p = Inr (m', l') \<and> list_rep (m', l') []"
proof -
  obtain m1 l1 xs where s1: "SelfTest_append_loop app p m l = Inr (m1, l1)"
      "list_rep (m1, l1) xs" "ok xs" "set xs = set p"
    using append_loop_ok [OF assms(1) ok_Nil, of p] assms by auto
  obtain m2 l2 where s2: "SelfTest_remove_loop p m1 l1 = Inr (m2, l2)" "list_rep (m2, l2) []"
    using remove_loop_ok [OF s1(2,3), of p] s1 assms by auto
  have "first_p l = None" using assms(1) by (auto simp: list_rep_def rep_def)
  then have "List_SelfTest app check m l p = Inr (m2, l2)"
    using s1 s2 check_ok [OF s1(2,3)] check_ok [OF s2(2) ok_Nil] check_ok [OF assms(1) ok_Nil]
      List_IsEmpty_sim [OF assms(1)] List_IsEmpty_sim [OF s2(2)]
    by (simp add: List_SelfTest_def)
  with s2 show ?thesis by blast
qed

end

interpretation plain: list_members List_Append List_SanityCheck distinct
proof unfold_locales
  fix m l xs and x :: 'a
  assume r: "list_rep (m, l) xs" "distinct xs" "x \<notin> set xs"
  then have "sim list_rep (List_Append m l x) (Inr (xs @ [x]))"
    using List_Append_sim [OF r(1), of x] by (simp add: seq_Append_def)
  with r show "\<exists>m' l' xs'. List_Append m l x = Inr (m', l') \<and> list_rep (m', l') xs' \<and> distinct xs'
      \<and> set xs' = insert x (set xs)"
    by (force elim!: rel_sum.cases)
qed (auto simp: List_SanityCheck_sim)

context compare_fn
begin

lemma SortedList_SanityCheck_sim:
  assumes "list_rep (m, l) xs" "in_order xs"
  shows "SortedList_SanityCheck cmp m l = Inr ()"
proof -
  obtain as where as: "rep m l as" "xs = items m as" using assms by (auto simp: list_rep_def)
  show ?thesis
  proof (cases as)
    case Nil
    with as List_SanityCheck_sim [OF assms(1)] show ?thesis
      by (auto simp: SortedList_SanityCheck_def rep_def)
  next
    case (Cons a bs)
    then obtain c where "cells m a = Some c" "first_p l = Some a" using as by (auto simp: rep_def)
    then show ?thesis
      using SortedCheck_loop_path [of m a bs cmp] as Cons assms List_SanityCheck_sim [OF assms(1)]
      by (auto simp: SortedList_SanityCheck_def rep_def deref_def)
  qed
qed

lemma Insert_in_order:
  assumes "list_rep (m, l) xs" "in_order xs" "distinct xs" "x \<notin> set xs"
  shows "\<exists>m' l'. SortedList_Insert cmp m l x = Inr (m', l')
    \<and> list_rep (m', l') (insert_sorted cmp x xs) \<and> in_order (insert_sorted cmp x xs)
    \<and> distinct (insert_sorted cmp x xs)"
proof -
  have "sim list_rep (SortedList_Insert cmp m l x) (Inr (insert_sorted cmp x xs))"
    using SortedList_Insert_sim [OF assms(1), of cmp x] assms by (simp add: seq_Insert_def)
  moreover have "distinct (insert_sorted cmp x xs)"
    using assms(3,4) by (induction xs) auto
  ultimately show ?thesis
    using in_order_insert [OF assms(2)] by (auto elim!: rel_sum.cases)
qed

end

sublocale compare_fn \<subseteq> sorted: list_members "SortedList_Insert cmp" "SortedList_SanityCheck cmp"
  "\<lambda>xs. in_order xs \<and> distinct xs"
proof unfold_locales
  fix m l xs and x :: 'a
  assume r: "list_rep (m, l) xs" "in_order xs \<and> distinct xs" "x \<notin> set xs"
  with Insert_in_order [of m l xs x] obtain m' l' where
    "SortedList_Insert cmp m l x = Inr (m', l')" "list_rep (m', l') (insert_sorted cmp x xs)"
    "in_order (insert_sorted cmp x xs)" "distinct (insert_sorted cmp x xs)" by blast
  then show "\<exists>m' l' xs'. SortedList_Insert cmp m l x = Inr (m', l') \<and> list_rep (m', l') xs'
      \<and> (in_order xs' \<and> distinct xs') \<and> set xs' = insert x (set xs)"
    by (intro exI [of _ m'] exI [of _ l'] exI [of _ "insert_sorted cmp x xs"]) simp
next
  fix xs and x :: 'a
  assume "in_order xs \<and> distinct xs"
  then show "in_order (remove1 x xs) \<and> distinct (remove1 x xs)"
    by (induction xs) (auto dest: notin_set_remove1 in_set_remove1 [THEN iffD1] set_remove1_subset [THEN subsetD])
qed (auto simp: SortedList_SanityCheck_sim)

context compare_fn
begin

lemma insert_loop_ok:
  "list_rep (m, l) xs \<Longrightarrow> in_order xs \<Longrightarrow> distinct xs \<Longrightarrow> distinct ps \<Longrightarrow> set ps \<inter> set xs = {} \<Longrightarrow>
   \<exists>m' l' xs'. SelfTest_insert_loop cmp ps m l = Inr (m', l') \<and> list_rep (m', l') xs'
     \<and> in_order xs' \<and> distinct xs' \<and> set xs' = set xs \<union> set ps"
proof (induction ps arbitrary: m l xs)
  case Nil
  then show ?case by auto
next
  case (Cons p ps)
  then obtain m1 l1 where s: "SortedList_Insert cmp m l p = Inr (m1, l1)"
      "list_rep (m1, l1) (insert_sorted cmp p xs)" "in_order (insert_sorted cmp p xs)"
      "distinct (insert_sorted cmp p xs)"
    using Insert_in_order [of m l xs p] by auto
  moreover have "set ps \<inter> set (insert_sorted cmp p xs) = {}" using Cons.prems by auto
  ultimately show ?case
    using Cons.IH [of m1 l1 "insert_sorted cmp p xs"] Cons.prems List_IsInList_sim [OF s(2), of p]
    by auto
qed

lemma drain_loop_ok:
  "list_rep (m, l) xs \<Longrightarrow> distinct xs \<Longrightarrow>
   \<exists>m' l'. SelfTest_drain_loop (length xs) m l q = Inr (m', l', q @ xs) \<and> list_rep (m', l') []"
proof (induction xs arbitrary: m l q)
  case Nil
  then show ?case by auto
next
  case (Cons x xs)
  obtain m1 l1 where s: "List_RemoveFront m l = Inr (m1, l1, x)" "list_rep (m1, l1) xs"
    using List_RemoveFront_sim [OF Cons.prems(1)]
    by (auto simp: seq_RemoveFront_def elim!: rel_sum.cases)
  then show ?case
    using Cons.IH [of m1 l1 "q @ [x]"] Cons.prems List_IsInList_sim [OF s(2), of x] by auto
qed

lemma order_check_ok: "in_order q \<Longrightarrow> SelfTest_order_check cmp q = Inr ()"
  by (induction cmp q rule: SelfTest_order_check.induct) auto

lemma SortedList_SelfTest_ok:
  assumes "list_rep (m, l) []" "distinct p"
  shows "\<exists>m' l' q. SortedList_SelfTest cmp m l p = Inr (m', l', q) \<and> list_rep (m', l') []
    \<and> in_order q \<and> set q = set p \<and> length q = length p"
proof -
  obtain m1 l1 where s1: "List_SelfTest (SortedList_Insert cmp) (SortedList_SanityCheck cmp) m l p
      = Inr (m1, l1)" "list_rep (m1, l1) []"
    using sorted.SelfTest_ok [OF assms] by blast
  obtain m2 l2 q where s2: "SelfTest_insert_loop cmp p m1 l1 = Inr (m2, l2)" "list_rep (m2, l2) q"
      "in_order q" "distinct q" "set q = set p"
    using insert_loop_ok [OF s1(2), of p] assms by auto
  have len: "length q = length p" using s2 assms by (metis distinct_card)
  obtain m3 l3 where s3: "SelfTest_drain_loop (length p) m2 l2 [] = Inr (m3, l3, q)"
      "list_rep (m3, l3) []"
    using drain_loop_ok [OF s2(2,4), of "[]"] len by auto
  have "SortedList_SelfTest cmp m l p = Inr (m3, l3, q)"
    using s1 s2 s3 order_check_ok [OF s2(3)] SortedList_SanityCheck_sim [OF s2(2,3)]
      SortedList_SanityCheck_sim [OF s3(2)] List_IsEmpty_sim [OF s3(2)]
    by (simp add: SortedList_SelfTest_def)
  with s2 s3 len show ?thesis by blast
qed

end

text \<open>The comparison function of the self test (\<^verbatim>\<open>code/lib/libtest.cc\<close>).\<close>

definition IntCompare :: "int \<Rightarrow> int \<Rightarrow> int" where
  "IntCompare x y = (if x < y then -1 else if x = y then 0 else 1)"

interpretation int_cmp: compare_fn IntCompare
  by unfold_locales (auto simp: IntCompare_def split: if_splits)

definition listTestVector :: "int list" where
  "listTestVector = [9, 5, 7]"

section \<open>Properties\<close>

text \<open>A list of the two items 5 and 7 in a store, for the witnesses.\<close>

definition store57 :: "int store" where
  "store57 = \<lparr>cells = [0 \<mapsto> \<lparr>item = 5, next = Some 1\<rparr>, 1 \<mapsto> \<lparr>item = 7, next = None\<rparr>], brk = 2\<rparr>"

definition list57 :: clist where
  "list57 = \<lparr>first_p = Some 0, last_p = Some 1, numInList = 2\<rparr>"

lemma rep57: "rep store57 list57 [0, 1]"
  by (auto simp: rep_def store57_def list57_def)

lemma list_rep57: "list_rep (store57, list57) [5, 7]"
  using rep57 unfolding list_rep_def by (intro exI [of _ "[0, 1]"]) (simp add: store57_def)

text \<open>
  C20. The linked list implements a sequence: whatever the items, \<open>Append\<close>, \<open>Prepend\<close>,
  \<open>Insert\<close>, \<open>RemoveFront\<close> and \<open>Remove\<close> return normally exactly when the operation on the
  sequence does, abort with it otherwise, and their result represents the new sequence; no
  walk along the pointers runs for ever or leaves the store.
\<close>

theorem List_refines_sequence:
  assumes "list_rep (m, l) xs"
  shows "rel_sum (=) list_rep (List_Append m l x) (seq_Append xs x)
    \<and> rel_sum (=) list_rep (List_Prepend m l x) (seq_Prepend xs x)
    \<and> rel_sum (=) list_rep (SortedList_Insert cmp m l x) (seq_Insert cmp xs x)
    \<and> rel_sum (=) list_rep (List_Remove m l x) (seq_Remove xs x)
    \<and> rel_sum (=) (\<lambda>(m, l, x) (ys, y). list_rep (m, l) ys \<and> x = y)
         (List_RemoveFront m l) (seq_RemoveFront xs)
    \<and> List_IsInList m l x = Inr (x \<in> set xs)
    \<and> List_Apply m l = Inr xs
    \<and> List_SanityCheck m l = Inr ()"
  by (intro conjI List_Append_sim List_Prepend_sim SortedList_Insert_sim List_Remove_sim
      List_RemoveFront_sim List_IsInList_sim List_Apply_sim List_SanityCheck_sim [OF assms] assms)

text \<open>C20, removing and inserting in the list of 5 and 7.\<close>

theorem List_refines_sequence_witness:
  "list_rep (store57, list57) [5, 7]
   \<and> rel_sum (=) list_rep (List_Remove store57 list57 7) (Inr [5])
   \<and> rel_sum (=) list_rep (SortedList_Insert IntCompare store57 list57 6) (Inr [5, 6, 7])
   \<and> rel_sum (=) list_rep (List_Append store57 list57 7) (Inl AssertFailed)"
  using List_refines_sequence [OF list_rep57, of 7 IntCompare]
    List_refines_sequence [OF list_rep57, of 6 IntCompare] list_rep57
  by (simp add: seq_Append_def seq_Remove_def seq_Insert_def IntCompare_def)

text \<open>
  Lists do not interfere: an operation on one list leaves every list that shares no
  element with it as it was, pointers and items.
\<close>

theorem List_operations_frame:
  assumes "rep m l as" "rep m k bs" "set as \<inter> set bs = {}"
  shows "(x \<notin> set (items m as) \<longrightarrow>
      (\<exists>m' l'. List_Append m l x = Inr (m', l') \<and> path m' (first_p k) bs None \<and> items m' bs = items m bs))
    \<and> (x \<notin> set (items m as) \<longrightarrow>
      (\<exists>m' l'. SortedList_Insert cmp m l x = Inr (m', l') \<and> path m' (first_p k) bs None
        \<and> items m' bs = items m bs))
    \<and> (distinct (items m as) \<and> x \<in> set (items m as) \<longrightarrow>
      (\<exists>m' l'. List_Remove m l x = Inr (m', l') \<and> path m' (first_p k) bs None \<and> items m' bs = items m bs))"
proof (intro conjI impI)
  have keep: "path m' (first_p k) bs None \<and> items m' bs = items m bs"
    if "\<And>a. a \<notin> set as \<Longrightarrow> a \<noteq> brk m \<Longrightarrow> cells m' a = cells m a" for m'
  proof -
    have same: "cells m' a = cells m a" if "a \<in> set bs" for a
      using that assms \<open>\<And>a. a \<notin> set as \<Longrightarrow> a \<noteq> brk m \<Longrightarrow> cells m' a = cells m a\<close>
        rep_fresh [OF assms(2)] by blast
    then show ?thesis
      using path_frame [of bs m' m "first_p k" None] items_frame [of bs m' m] rep_path [OF assms(2)]
      by metis
  qed
  show "\<exists>m' l'. List_Append m l x = Inr (m', l') \<and> path m' (first_p k) bs None \<and> items m' bs = items m bs"
    if "x \<notin> set (items m as)"
    using List_Append_rep [OF assms(1) that] keep by metis
  show "\<exists>m' l'. SortedList_Insert cmp m l x = Inr (m', l') \<and> path m' (first_p k) bs None
      \<and> items m' bs = items m bs" if "x \<notin> set (items m as)"
    using SortedList_Insert_rep [OF assms(1) that, of cmp] keep by metis
  show "\<exists>m' l'. List_Remove m l x = Inr (m', l') \<and> path m' (first_p k) bs None \<and> items m' bs = items m bs"
    if d: "distinct (items m as) \<and> x \<in> set (items m as)"
  proof -
    have "x \<notin> set (remove1 x (items m as))" using d by simp
    then obtain m' l' where "List_Remove m l x = Inr (m', l')"
      "\<forall>a. a \<notin> set as \<longrightarrow> cells m' a = cells m a"
      using List_Remove_rep [OF assms(1)] d by force
    then show ?thesis using keep [of m'] by blast
  qed
qed

text \<open>With an empty list beside the list of 5 and 7.\<close>

theorem List_operations_frame_witness:
  "rep store57 list57 [0, 1] \<and> rep store57 List_new []
   \<and> (\<exists>m' l'. List_Append store57 list57 9 = Inr (m', l') \<and> path m' None [] None)"
proof -
  have e: "rep store57 List_new []" by (rule list_rep_empty) (simp add: store57_def)
  show ?thesis
    using List_operations_frame [OF rep57 e, of 9] rep57 e
    by (simp add: store57_def List_new_def)
qed

text \<open>
  The self test of the sorted list, as \<open>LibSelfTest\<close> runs it, passes for any vector of
  distinct integers: no assertion fails, and the items come out in increasing order.
\<close>

theorem SortedList_SelfTest_passes:
  assumes "list_rep (m, l) []" "distinct p"
  shows "\<exists>m' l' q. SortedList_SelfTest IntCompare m l p = Inr (m', l', q)
    \<and> list_rep (m', l') [] \<and> sorted q \<and> mset q = mset p"
proof -
  obtain m' l' q where s: "SortedList_SelfTest IntCompare m l p = Inr (m', l', q)"
    "list_rep (m', l') []" "int_cmp.in_order q" "set q = set p" "length q = length p"
    using int_cmp.SortedList_SelfTest_ok [OF assms] by blast
  have "IntCompare x y \<le> 0 \<longleftrightarrow> x \<le> y" for x y by (auto simp: IntCompare_def)
  then have "sorted q" using s(3) by (simp)
  moreover have "distinct q" using s assms(2) by (metis card_distinct distinct_card)
  then have "mset q = mset p" using s assms(2) by (simp add: set_eq_iff_mset_eq_distinct)
  ultimately show ?thesis using s by blast
qed

text \<open>On the vector of \<open>LibSelfTest\<close>.\<close>

theorem SortedList_SelfTest_passes_witness:
  "\<exists>m' l' q. SortedList_SelfTest IntCompare \<lparr>cells = Map.empty, brk = 0\<rparr> List_new listTestVector
     = Inr (m', l', q) \<and> sorted q"
proof -
  have "list_rep (\<lparr>cells = Map.empty, brk = 0\<rparr> :: int store, List_new) []"
    using list_rep_empty [of "\<lparr>cells = Map.empty, brk = 0\<rparr> :: int store"]
    by (force simp: list_rep_def)
  from SortedList_SelfTest_passes [OF this, of listTestVector] show ?thesis
    by (auto simp: listTestVector_def)
qed

end
