(* ===== verification/HashTab.thy ===== *)
theory HashTab
  imports CList Bitmap "HOL-Library.Multiset"
begin

text \<open>
  The self-expanding hash table (\<^verbatim>\<open>code/lib/hash.h\<close>, \<^verbatim>\<open>hash.cc\<close>) and the self test of the
  library (\<^verbatim>\<open>code/lib/libtest.cc\<close>). A bucket is the sequence that its linked list represents.
  The signed counters of the code are integers, with their overflow as a fault.
\<close>

section \<open>The table\<close>

definition InitialBuckets :: int where "InitialBuckets = 4"

definition ResizeRatio :: int where "ResizeRatio = 3"

definition IncreaseSizeBy :: int where "IncreaseSizeBy = 4"

record ('k, 'v) hash_table =
  buckets :: "'v list list"
  numBuckets :: int
  numItems :: int
  getKey :: "'v \<Rightarrow> 'k"
  hash :: "'k \<Rightarrow> 32 word"

definition InitBuckets :: "int \<Rightarrow> ('k, 'v) hash_table \<Rightarrow> ('k, 'v) hash_table" where
  "InitBuckets sz t = t\<lparr>numBuckets := sz, buckets := replicate (nat sz) []\<rparr>"

definition HashTable_new :: "('v \<Rightarrow> 'k) \<Rightarrow> ('k \<Rightarrow> 32 word) \<Rightarrow> ('k, 'v) hash_table" where
  "HashTable_new get hFunc =
     InitBuckets InitialBuckets \<lparr>buckets = [], numBuckets = 0, numItems = 0, getKey = get, hash = hFunc\<rparr>"

definition HashTable_IsEmpty :: "('k, 'v) hash_table \<Rightarrow> bool" where
  "HashTable_IsEmpty t \<longleftrightarrow> numItems t = 0"

definition HashTable_delete :: "('k, 'v) hash_table \<Rightarrow> unit res" where
  "HashTable_delete t = ASSERT (HashTable_IsEmpty t) (Inr ())"

text \<open>The hash is unsigned, so \<open>numBuckets\<close> is converted for the operator \<open>%\<close>.\<close>

definition HashValue :: "('k, 'v) hash_table \<Rightarrow> 'k \<Rightarrow> int res" where
  "HashValue t k =
     (if numBuckets t = 0 then Inl Undefined
      else let result = sint (hash t k mod word_of_int (numBuckets t)) in
        ASSERT (0 \<le> result \<and> result < numBuckets t) (Inr result))"

primrec FindInBucket_loop :: "('v \<Rightarrow> 'k) \<Rightarrow> 'k \<Rightarrow> 'v list \<Rightarrow> 'v option" where
  "FindInBucket_loop get k [] = None"
| "FindInBucket_loop get k (x # xs) = (if k = get x then Some x else FindInBucket_loop get k xs)"

definition FindInBucket :: "('k, 'v) hash_table \<Rightarrow> int \<Rightarrow> 'k \<Rightarrow> 'v option res" where
  "FindInBucket t bucket k = bindR (arr_get (buckets t) bucket) (\<lambda>l. Inr (FindInBucket_loop (getKey t) k l))"

definition HashTable_Find :: "('k, 'v) hash_table \<Rightarrow> 'k \<Rightarrow> 'v option res" where
  "HashTable_Find t k = bindR (HashValue t k) (\<lambda>bucket. FindInBucket t bucket k)"

definition IsInTable :: "('k, 'v) hash_table \<Rightarrow> 'k \<Rightarrow> bool res" where
  "IsInTable t k = bindR (HashTable_Find t k) (\<lambda>r. Inr (r \<noteq> None))"

text \<open>Routines that go through a list of items.\<close>

primrec foldR :: "('a \<Rightarrow> 's \<Rightarrow> 's res) \<Rightarrow> 'a list \<Rightarrow> 's \<Rightarrow> 's res" where
  "foldR f [] s = Inr s"
| "foldR f (x # xs) s = bindR (f x s) (foldR f xs)"

definition bucket_Append :: "'v \<Rightarrow> ('k, 'v) hash_table \<Rightarrow> ('k, 'v) hash_table res" where
  "bucket_Append x t =
     bindR (HashValue t (getKey t x)) (\<lambda>bucket.
     bindR (arr_get (buckets t) bucket) (\<lambda>l.
     bindR (seq_Append l x) (\<lambda>l.
     bindR (arr_set (buckets t) bucket l) (\<lambda>bs. Inr (t\<lparr>buckets := bs\<rparr>)))))"

text \<open>The buckets are lists that represent sequences, so their own checks pass.\<close>

definition check_item :: "('k, 'v) hash_table \<Rightarrow> int \<Rightarrow> 'v \<Rightarrow> unit \<Rightarrow> unit res" where
  "check_item t i x u = bindR (HashValue t (getKey t x)) (\<lambda>h. ASSERT (i = h) (Inr u))"

primrec check_buckets :: "('k, 'v) hash_table \<Rightarrow> int list \<Rightarrow> int \<Rightarrow> int res" where
  "check_buckets t [] numFound = Inr numFound"
| "check_buckets t (i # is) numFound =
     bindR (arr_get (buckets t) i) (\<lambda>l.
     bindR (foldR (check_item t i) l ()) (\<lambda>_. check_buckets t is (numFound + int (length l))))"

definition bucket_numbers :: "('k, 'v) hash_table \<Rightarrow> int list" where
  "bucket_numbers t = map int [0..<nat (numBuckets t)]"

definition HashTable_SanityCheck :: "('k, 'v) hash_table \<Rightarrow> unit res" where
  "HashTable_SanityCheck t =
     bindR (check_buckets t (bucket_numbers t) 0) (\<lambda>numFound. ASSERT (numItems t = numFound) (Inr ()))"

definition ReHash :: "('k, 'v) hash_table \<Rightarrow> ('k, 'v) hash_table res" where
  "ReHash t =
     bindR (HashTable_SanityCheck t) (\<lambda>_.
     if numBuckets t * IncreaseSizeBy \<ge> 2147483648 then Inl Undefined
     else bindR (foldR (foldR bucket_Append) (buckets t) (InitBuckets (numBuckets t * IncreaseSizeBy) t)) (\<lambda>t.
       bindR (HashTable_SanityCheck t) (\<lambda>_. Inr t)))"

definition HashTable_Insert :: "'v \<Rightarrow> ('k, 'v) hash_table \<Rightarrow> ('k, 'v) hash_table res" where
  "HashTable_Insert x t =
     (let key = getKey t x in
      bindR (IsInTable t key) (\<lambda>f. ASSERT (\<not> f) (
      bindR (if numItems t sdiv numBuckets t \<ge> ResizeRatio then ReHash t else Inr t) (\<lambda>t.
      bindR (bucket_Append x t) (\<lambda>t.
      if numItems t + 1 \<ge> 2147483648 then Inl Undefined
      else let t = t\<lparr>numItems := numItems t + 1\<rparr> in
        bindR (IsInTable t key) (\<lambda>f. ASSERT f (Inr t)))))))"

definition HashTable_Remove :: "'k \<Rightarrow> ('k, 'v) hash_table \<Rightarrow> (('k, 'v) hash_table \<times> 'v) res" where
  "HashTable_Remove key t =
     bindR (HashValue t key) (\<lambda>bucket.
     bindR (FindInBucket t bucket key) (\<lambda>found.
     case found of None \<Rightarrow> Inl AssertFailed
     | Some x \<Rightarrow>
         bindR (arr_get (buckets t) bucket) (\<lambda>l.
         bindR (seq_Remove l x) (\<lambda>l.
         bindR (arr_set (buckets t) bucket l) (\<lambda>bs.
         let t = t\<lparr>buckets := bs, numItems := numItems t - 1\<rparr> in
         bindR (IsInTable t key) (\<lambda>f. ASSERT (\<not> f) (Inr (t, x))))))))"

definition HashTable_Apply :: "('v \<Rightarrow> 's \<Rightarrow> 's res) \<Rightarrow> ('k, 'v) hash_table \<Rightarrow> 's \<Rightarrow> 's res" where
  "HashTable_Apply f t = foldR (\<lambda>bucket s. bindR (arr_get (buckets t) bucket) (\<lambda>l. foldR f l s)) (bucket_numbers t)"

section \<open>Iterators\<close>

function FindNextFullBucket :: "('k, 'v) hash_table \<Rightarrow> int \<Rightarrow> int res" where
  "FindNextFullBucket t bucket =
     (if bucket < numBuckets t then
        bindR (arr_get (buckets t) bucket) (\<lambda>l. if l \<noteq> [] then Inr bucket else FindNextFullBucket t (bucket + 1))
      else Inr bucket)"
  by pat_completeness auto
termination by (relation "measure (\<lambda>(t, bucket). nat (numBuckets t - bucket))") auto

declare FindNextFullBucket.simps [simp del]

record 'v hash_iterator =
  iterBucket :: int
  bucketIter :: "'v list option"

definition iter_at :: "('k, 'v) hash_table \<Rightarrow> int \<Rightarrow> 'v hash_iterator res" where
  "iter_at t start =
     bindR (FindNextFullBucket t start) (\<lambda>bucket.
     if bucket < numBuckets t
     then bindR (arr_get (buckets t) bucket) (\<lambda>l. Inr \<lparr>iterBucket = bucket, bucketIter = Some l\<rparr>)
     else Inr \<lparr>iterBucket = bucket, bucketIter = None\<rparr>)"

definition HashIterator_new :: "('k, 'v) hash_table \<Rightarrow> 'v hash_iterator res" where
  "HashIterator_new t = iter_at t 0"

definition HashIterator_IsDone :: "('k, 'v) hash_table \<Rightarrow> 'v hash_iterator \<Rightarrow> bool" where
  "HashIterator_IsDone t it \<longleftrightarrow> iterBucket it = numBuckets t"

definition HashIterator_Item :: "('k, 'v) hash_table \<Rightarrow> 'v hash_iterator \<Rightarrow> 'v res" where
  "HashIterator_Item t it =
     ASSERT (\<not> HashIterator_IsDone t it) (case bucketIter it of Some (x # l) \<Rightarrow> Inr x | _ \<Rightarrow> Inl Undefined)"

definition HashIterator_Next :: "('k, 'v) hash_table \<Rightarrow> 'v hash_iterator \<Rightarrow> 'v hash_iterator res" where
  "HashIterator_Next t it =
     (case bucketIter it of Some (x # l) \<Rightarrow>
        if l = [] then iter_at t (iterBucket it + 1) else Inr (it\<lparr>bucketIter := Some l\<rparr>)
      | _ \<Rightarrow> Inl Undefined)"

text \<open>The loop over an iterator that its interface is meant for, with at most \<open>n\<close> rounds.\<close>

primrec iterate :: "nat \<Rightarrow> ('k, 'v) hash_table \<Rightarrow> 'v hash_iterator \<Rightarrow> 'v list res" where
  "iterate 0 t it = (if HashIterator_IsDone t it then Inr [] else Inl Diverges)"
| "iterate (Suc n) t it =
     (if HashIterator_IsDone t it then Inr []
      else bindR (HashIterator_Item t it) (\<lambda>x.
        bindR (HashIterator_Next t it) (\<lambda>it. bindR (iterate n t it) (\<lambda>xs. Inr (x # xs)))))"

section \<open>The self test\<close>

definition test_insert :: "'v \<Rightarrow> ('k, 'v) hash_table \<Rightarrow> ('k, 'v) hash_table res" where
  "test_insert p t =
     bindR (HashTable_Insert p t) (\<lambda>t.
     bindR (IsInTable t (getKey t p)) (\<lambda>f. ASSERT f (ASSERT (\<not> HashTable_IsEmpty t) (Inr t))))"

definition test_remove :: "'v \<Rightarrow> ('k, 'v) hash_table \<Rightarrow> ('k, 'v) hash_table res" where
  "test_remove p t = bindR (HashTable_Remove (getKey t p) t) (\<lambda>(t, x). ASSERT (x = p) (Inr t))"

definition HashTable_SelfTest :: "'v list \<Rightarrow> ('k, 'v) hash_table \<Rightarrow> ('k, 'v) hash_table res" where
  "HashTable_SelfTest p t =
     bindR (HashIterator_new t) (\<lambda>it.
     bindR (HashTable_SanityCheck t) (\<lambda>_.
     ASSERT (HashTable_IsEmpty t) (
     ASSERT (HashIterator_IsDone t it) (
     bindR (foldR test_insert p t) (\<lambda>t.
     bindR (foldR test_remove p t) (\<lambda>t.
     ASSERT (HashTable_IsEmpty t) (
     bindR (HashTable_SanityCheck t) (\<lambda>_. Inr t))))))))"

section \<open>Well-formed tables\<close>

text \<open>The bucket of a key, and the size, which starts with 4 and is multiplied by 4.\<close>

definition slot :: "('k, 'v) hash_table \<Rightarrow> 'k \<Rightarrow> nat" where
  "slot t k = nat (uint (hash t k) mod numBuckets t)"

definition size_ok :: "('k, 'v) hash_table \<Rightarrow> bool" where
  "size_ok t \<longleftrightarrow> (\<exists>j < 15. numBuckets t = 4 ^ Suc j) \<and> length (buckets t) = nat (numBuckets t)"

definition entries :: "('k, 'v) hash_table \<Rightarrow> 'v list" where
  "entries t = concat (buckets t)"

definition slots_ok :: "('k, 'v) hash_table \<Rightarrow> bool" where
  "slots_ok t \<longleftrightarrow> size_ok t \<and> (\<forall>i < length (buckets t). \<forall>x \<in> set (buckets t ! i). slot t (getKey t x) = i)
     \<and> distinct (map (getKey t) (entries t))"

definition ht_wf :: "('k, 'v) hash_table \<Rightarrow> bool" where
  "ht_wf t \<longleftrightarrow> slots_ok t \<and> numItems t = int (length (entries t)) \<and> numItems t < 2147483648"

definition ht_map :: "('k, 'v) hash_table \<Rightarrow> 'k \<rightharpoonup> 'v" where
  "ht_map t k = FindInBucket_loop (getKey t) k (entries t)"

lemma size_okD:
  assumes "size_ok t"
  shows "0 < numBuckets t" "numBuckets t \<le> 1073741824" "int (length (buckets t)) = numBuckets t"
    "slot t k < length (buckets t)" "int (slot t k) = uint (hash t k) mod numBuckets t"
proof -
  obtain j where j: "j < 15" "numBuckets t = 4 ^ Suc j" and l: "length (buckets t) = nat (numBuckets t)" using assms by (auto simp: size_ok_def)
  show pos: "0 < numBuckets t" using j(2) by simp
  have "(4::int) ^ Suc j \<le> 4 ^ 15" using j(1) by (intro power_increasing) auto
  then show "numBuckets t \<le> 1073741824" using j(2) by simp
  show "int (length (buckets t)) = numBuckets t" using l pos by simp
  show s: "int (slot t k) = uint (hash t k) mod numBuckets t" using pos by (simp add: slot_def)
  have "int (slot t k) < numBuckets t" unfolding s using pos by simp
  then show "slot t k < length (buckets t)" using l by simp
qed

lemma HashValue_ok:
  assumes "size_ok t"
  shows "HashValue t k = Inr (int (slot t k))"
proof -
  note d = size_okD [OF assms]
  have w: "uint (word_of_int (numBuckets t) :: 32 word) = numBuckets t"
    using d(1,2) by (simp add: uint_word_of_int)
  have u: "uint (hash t k mod word_of_int (numBuckets t)) = int (slot t k)"
    by (simp add: uint_mod_distrib w d(5) [of k])
  have "int (slot t k) < numBuckets t" using d(3) d(4) [of k] by simp
  then have "sint (hash t k mod word_of_int (numBuckets t)) = int (slot t k)"
    using d(2) by (simp add: sint32 u)
  then show ?thesis using d(1) \<open>int (slot t k) < numBuckets t\<close> by (simp add: HashValue_def)
qed

lemma FindInBucket_loop_Some:
  assumes "distinct (map get xs)"
  shows "FindInBucket_loop get k xs = Some x \<longleftrightarrow> x \<in> set xs \<and> get x = k"
  using assms by (induction xs) (auto simp: image_iff)

lemma FindInBucket_loop_None: "FindInBucket_loop get k xs = None \<longleftrightarrow> k \<notin> get ` set xs"
  by (induction xs) auto

lemma slots_okD: "slots_ok t \<Longrightarrow> i < length (buckets t) \<Longrightarrow> x \<in> set (buckets t ! i) \<Longrightarrow> slot t (getKey t x) = i"
  unfolding slots_ok_def by blast

lemma slots_okI:
  "size_ok t \<Longrightarrow> (\<And>i x. i < length (buckets t) \<Longrightarrow> x \<in> set (buckets t ! i) \<Longrightarrow> slot t (getKey t x) = i) \<Longrightarrow>
     distinct (map (getKey t) (entries t)) \<Longrightarrow> slots_ok t"
  unfolding slots_ok_def by blast

lemma slots_ok_parts: "slots_ok t \<Longrightarrow> size_ok t" "slots_ok t \<Longrightarrow> distinct (map (getKey t) (entries t))"
  by (simp_all add: slots_ok_def)

lemma ht_map_Some: "slots_ok t \<Longrightarrow> ht_map t k = Some x \<longleftrightarrow> x \<in> set (entries t) \<and> getKey t x = k"
  by (simp add: ht_map_def slots_ok_def FindInBucket_loop_Some)

lemma set_entries: "x \<in> set (entries t) \<longleftrightarrow> (\<exists>i < length (buckets t). x \<in> set (buckets t ! i))"
  unfolding entries_def set_concat by (metis (no_types, lifting) UN_iff in_set_conv_nth)

lemma distinct_nth_concat: "distinct (map f (concat xss)) \<Longrightarrow> i < length xss \<Longrightarrow> distinct (map f (xss ! i))"
proof (induction xss arbitrary: i)
  case (Cons xs xss)
  then show ?case by (cases i) auto
qed simp

lemma bucket_distinct: "slots_ok t \<Longrightarrow> i < length (buckets t) \<Longrightarrow> distinct (map (getKey t) (buckets t ! i))"
  unfolding slots_ok_def entries_def by (blast intro: distinct_nth_concat)

text \<open>A key is found in its own bucket or nowhere.\<close>

lemma bucket_find:
  assumes "slots_ok t"
  shows "FindInBucket_loop (getKey t) k (buckets t ! slot t k) = ht_map t k"
proof -
  have sl: "slot t k < length (buckets t)" using assms size_okD(4) by (auto simp: slots_ok_def)
  have "FindInBucket_loop (getKey t) k (buckets t ! slot t k) = Some x \<longleftrightarrow> ht_map t k = Some x" for x
    using assms sl unfolding ht_map_Some [OF assms] set_entries FindInBucket_loop_Some [OF bucket_distinct [OF assms sl]]
    by (auto simp: slots_ok_def)
  then show ?thesis by (cases "ht_map t k") (metis option.exhaust option.distinct(1))+
qed

lemma HashTable_Find_ok: "slots_ok t \<Longrightarrow> HashTable_Find t k = Inr (ht_map t k)"
  using HashValue_ok [of t k] size_okD(3) [of t] size_okD(4) [of t k] bucket_find [of t k]
  by (simp add: HashTable_Find_def FindInBucket_def slots_ok_def)

lemma IsInTable_ok: "slots_ok t \<Longrightarrow> IsInTable t k = Inr (ht_map t k \<noteq> None)"
  by (simp add: IsInTable_def HashTable_Find_ok)

text \<open>Appending an item with a new key to its bucket.\<close>

lemma mset_concat_update:
  "i < length xss \<Longrightarrow> mset (concat (xss[i := xs])) + mset (xss ! i) = mset (concat xss) + mset xs"
proof (induction xss arbitrary: i)
  case (Cons ys xss)
  then show ?case by (cases i) (auto simp: ac_simps)
qed simp

lemma bucket_Append_ok:
  assumes "slots_ok t" "ht_map t (getKey t x) = None"
  obtains t' where "bucket_Append x t = Inr t'" "slots_ok t'" "mset (entries t') = add_mset x (mset (entries t))"
    "getKey t' = getKey t" "hash t' = hash t" "numBuckets t' = numBuckets t" "numItems t' = numItems t"
proof -
  let ?i = "slot t (getKey t x)"
  let ?t = "t\<lparr>buckets := (buckets t)[?i := buckets t ! ?i @ [x]]\<rparr>"
  have sz: "size_ok t" using assms(1) by (simp add: slots_ok_def)
  note d = size_okD [OF sz]
  have nx: "getKey t x \<notin> getKey t ` set (entries t)" using assms(2) by (simp add: ht_map_def FindInBucket_loop_None)
  have "x \<notin> set (buckets t ! ?i)" using nx d(4) set_entries [of x t] by auto
  then have "bucket_Append x t = Inr ?t"
    using HashValue_ok [OF sz] d(4) by (simp add: bucket_Append_def seq_Append_def)
  moreover have m: "mset (entries ?t) = add_mset x (mset (entries t))"
    using mset_concat_update [OF d(4) [of "getKey t x"], of "buckets t ! ?i @ [x]"] by (simp add: entries_def)
  moreover have "slots_ok ?t"
  proof -
    have sl: "slot ?t = slot t" by (simp add: slot_def fun_eq_iff)
    have "mset (map (getKey t) (entries ?t)) = mset (getKey t x # map (getKey t) (entries t))" using m by simp
    then have dis: "distinct (map (getKey t) (entries ?t)) = distinct (getKey t x # map (getKey t) (entries t))" by (rule mset_eq_imp_distinct_iff)
    have p: "slot t (getKey t y) = i" if "i < length (buckets t)" "y \<in> set ((buckets t)[?i := buckets t ! ?i @ [x]] ! i)" for i y
    proof (cases "?i = i")
      case True
      then have "y \<in> set (buckets t ! i) \<or> y = x" using that by auto
      then show ?thesis using slots_okD [OF assms(1) that(1)] True by blast
    next
      case False
      then show ?thesis using slots_okD [OF assms(1) that(1)] that(2) by simp
    qed
    have pos: "slot ?t (getKey ?t y) = i" if "i < length (buckets ?t)" "y \<in> set (buckets ?t ! i)" for i y
      using p [of i y] that unfolding sl by simp
    show ?thesis
      by (rule slots_okI [OF _ pos]) (use sz slots_ok_parts(2) [OF assms(1)] nx dis in \<open>simp_all add: size_ok_def\<close>)
  qed
  ultimately show ?thesis using that [of ?t] by simp
qed

lemma foldR_append: "foldR f (xs @ ys) s = bindR (foldR f xs s) (foldR f ys)"
proof (induction xs arbitrary: s)
  case (Cons x xs)
  show ?case by (cases "f x s") (simp_all add: Cons.IH)
qed simp

lemma foldR_concat: "foldR (foldR f) xss s = foldR f (concat xss) s"
proof (induction xss arbitrary: s)
  case (Cons xs xss)
  show ?case by (cases "foldR f xs s") (simp_all add: foldR_append Cons.IH)
qed simp

lemma rehash_ok:
  assumes "slots_ok t" "distinct (map (getKey t) xs)" "\<forall>x \<in> set xs. ht_map t (getKey t x) = None"
  obtains t' where "foldR bucket_Append xs t = Inr t'" "slots_ok t'" "mset (entries t') = mset xs + mset (entries t)"
    "getKey t' = getKey t" "hash t' = hash t" "numBuckets t' = numBuckets t" "numItems t' = numItems t"
  using assms
proof (induction xs arbitrary: t thesis)
  case (Cons x xs)
  obtain t1 where t1: "bucket_Append x t = Inr t1" "slots_ok t1" "mset (entries t1) = add_mset x (mset (entries t))"
    "getKey t1 = getKey t" "hash t1 = hash t" "numBuckets t1 = numBuckets t" "numItems t1 = numItems t"
    by (rule bucket_Append_ok [OF Cons.prems(2)]) (use Cons.prems(4) in \<open>auto\<close>)
  have set1: "set (entries t1) = insert x (set (entries t))" using t1(3) by (metis set_mset_add_mset_insert set_mset_mset)
  have new: "\<forall>y \<in> set xs. ht_map t1 (getKey t1 y) = None"
  proof
    fix y assume y: "y \<in> set xs"
    then have "ht_map t (getKey t y) = None" "getKey t y \<noteq> getKey t x" using Cons.prems(3,4) by (auto simp: image_iff)
    then show "ht_map t1 (getKey t1 y) = None" by (auto simp: ht_map_def FindInBucket_loop_None set1 t1(4))
  qed
  have "distinct (map (getKey t1) xs)" using Cons.prems(3) t1(4) by simp
  then obtain t2 where "foldR bucket_Append xs t1 = Inr t2" "slots_ok t2" "mset (entries t2) = mset xs + mset (entries t1)"
    "getKey t2 = getKey t1" "hash t2 = hash t1" "numBuckets t2 = numBuckets t1" "numItems t2 = numItems t1"
    using Cons.IH [OF _ t1(2) _ new] by blast
  then show ?case using Cons.prems(1) [of t2] t1 by simp
qed simp

section \<open>The operations\<close>

lemma check_items_ok:
  "size_ok t \<Longrightarrow> \<forall>x \<in> set l. slot t (getKey t x) = i \<Longrightarrow> foldR (check_item t (int i)) l () = Inr ()"
  by (induction l) (simp_all add: check_item_def HashValue_ok)

lemma check_buckets_ok:
  "slots_ok t \<Longrightarrow> \<forall>i \<in> set is. i < length (buckets t) \<Longrightarrow>
     check_buckets t (map int is) n = Inr (n + int (sum_list (map (\<lambda>i. length (buckets t ! i)) is)))"
proof (induction "is" arbitrary: n)
  case (Cons i js)
  have "foldR (check_item t (int i)) (buckets t ! i) () = Inr ()"
  proof (rule check_items_ok [OF slots_ok_parts(1) [OF Cons.prems(1)]])
    have "i < length (buckets t)" using Cons.prems(2) by simp
    then show "\<forall>x \<in> set (buckets t ! i). slot t (getKey t x) = i" using slots_okD [OF Cons.prems(1)] by blast
  qed
  then show ?case using Cons.IH [OF Cons.prems(1)] Cons.prems(2) by simp
qed simp

lemma SanityCheck_ok: "ht_wf t \<Longrightarrow> HashTable_SanityCheck t = Inr ()"
proof -
  assume wf: "ht_wf t"
  then have ok: "slots_ok t" "size_ok t" by (simp_all add: ht_wf_def slots_ok_def)
  have l: "nat (numBuckets t) = length (buckets t)" using size_okD(3) [OF ok(2)] by linarith
  have "map (\<lambda>i. length (buckets t ! i)) [0..<length (buckets t)] = map length (buckets t)" by (rule nth_equalityI) simp_all
  then have "length (entries t) = sum_list (map (\<lambda>i. length (buckets t ! i)) [0..<length (buckets t)])"
    by (simp add: entries_def length_concat)
  then show ?thesis using check_buckets_ok [OF ok(1), of "[0..<length (buckets t)]" 0] wf
    by (simp add: HashTable_SanityCheck_def bucket_numbers_def l ht_wf_def)
qed

lemma InitBuckets_ok:
  assumes "size_ok t" "numBuckets t \<le> 268435456"
  shows "slots_ok (InitBuckets (numBuckets t * IncreaseSizeBy) t)" "entries (InitBuckets (numBuckets t * IncreaseSizeBy) t) = []"
proof -
  obtain j where j: "j < 15" "numBuckets t = 4 ^ Suc j" using assms(1) by (auto simp: size_ok_def)
  have "(4::int) ^ Suc j \<le> 4 ^ 14" using assms(2) j(2) by simp
  then have "Suc j \<le> 14" by (rule power_le_imp_le_exp [rotated]) simp
  moreover have "numBuckets t * IncreaseSizeBy = 4 ^ Suc (Suc j)" using j(2) by (simp add: IncreaseSizeBy_def)
  ultimately have "size_ok (InitBuckets (numBuckets t * IncreaseSizeBy) t)"
    unfolding size_ok_def by (intro conjI exI [of _ "Suc j"]) (simp_all add: InitBuckets_def)
  moreover show e: "entries (InitBuckets (numBuckets t * IncreaseSizeBy) t) = []" by (simp add: entries_def InitBuckets_def)
  ultimately show "slots_ok (InitBuckets (numBuckets t * IncreaseSizeBy) t)"
    by (auto simp: slots_ok_def InitBuckets_def)
qed

text \<open>A table that is full enough to be resized is small enough for the size to stay in range.\<close>

lemma ReHash_ok:
  assumes "ht_wf t" "numItems t sdiv numBuckets t \<ge> ResizeRatio"
  obtains t' where "ReHash t = Inr t'" "ht_wf t'" "ht_map t' = ht_map t" "numItems t' = numItems t"
    "getKey t' = getKey t" "hash t' = hash t" "numBuckets t' = 4 * numBuckets t"
proof -
  have ok: "slots_ok t" "size_ok t" using assms(1) by (simp_all add: ht_wf_def slots_ok_def)
  note d = size_okD [OF ok(2)]
  have n0: "0 \<le> numItems t" "numItems t < 2147483648" using assms(1) by (simp_all add: ht_wf_def)
  have "3 \<le> numItems t div numBuckets t" using assms(2) n0 d(1) by (simp add: ResizeRatio_def)
  then have "3 * numBuckets t \<le> numItems t div numBuckets t * numBuckets t" using d(1) by (intro mult_right_mono) auto
  also have "\<dots> \<le> numItems t" using d(1) by (simp add: minus_mod_eq_div_mult [symmetric])
  finally have "numBuckets t < 1073741824" using n0 by linarith
  moreover obtain j where j: "j < 15" "numBuckets t = 4 ^ Suc j" using ok(2) by (auto simp: size_ok_def)
  ultimately have "(4::int) ^ Suc j < 4 ^ 15" by simp
  then have "Suc j < 15" by (rule power_less_imp_less_exp [rotated]) simp
  then have "(4::int) ^ Suc j \<le> 4 ^ 14" by (intro power_increasing) auto
  then have nb: "numBuckets t \<le> 268435456" using j(2) by simp
  let ?t = "InitBuckets (numBuckets t * IncreaseSizeBy) t"
  note i = InitBuckets_ok [OF ok(2) nb]
  have sel: "getKey ?t = getKey t" "hash ?t = hash t" "numItems ?t = numItems t" "numBuckets ?t = numBuckets t * IncreaseSizeBy"
    by (simp_all add: InitBuckets_def)
  obtain t' where t': "foldR bucket_Append (entries t) ?t = Inr t'" "slots_ok t'" "mset (entries t') = mset (entries t) + mset (entries ?t)"
    "getKey t' = getKey ?t" "hash t' = hash ?t" "numBuckets t' = numBuckets ?t" "numItems t' = numItems ?t"
    by (rule rehash_ok [OF i(1), of "entries t"]) (use ok(1) i(2) in \<open>auto simp: slots_ok_def sel ht_map_def\<close>)
  have m: "mset (entries t') = mset (entries t)" using t'(3) i(2) by simp
  have wf': "ht_wf t'" using t'(2,7) assms(1) mset_eq_length [OF m] by (simp add: ht_wf_def sel)
  have "ht_map t' k = Some x \<longleftrightarrow> ht_map t k = Some x" for k x
    unfolding ht_map_Some [OF t'(2)] ht_map_Some [OF ok(1)] using mset_eq_setD [OF m] t'(4) sel by simp
  then have "ht_map t' k = ht_map t k" for k by (cases "ht_map t k") (metis option.exhaust option.distinct(1))+
  moreover have "ReHash t = Inr t'"
    using t'(1) nb SanityCheck_ok [OF assms(1)] SanityCheck_ok [OF wf']
    by (simp add: ReHash_def foldR_concat entries_def [symmetric] IncreaseSizeBy_def)
  ultimately show ?thesis using that [of t'] wf' t'(4-7) sel by (simp add: fun_eq_iff IncreaseSizeBy_def)
qed

lemma HashTable_Insert_ok:
  assumes "ht_wf t" "ht_map t (getKey t x) = None" "numItems t < 2147483647"
  obtains t' where "HashTable_Insert x t = Inr t'" "ht_wf t'" "ht_map t' = (ht_map t)(getKey t x \<mapsto> x)" "numItems t' = numItems t + 1"
    "getKey t' = getKey t" "hash t' = hash t"
proof -
  have ok: "slots_ok t" using assms(1) by (simp add: ht_wf_def)
  obtain t1 where t1: "(if numItems t sdiv numBuckets t \<ge> ResizeRatio then ReHash t else Inr t) = Inr t1" "ht_wf t1" "ht_map t1 = ht_map t"
    "numItems t1 = numItems t" "getKey t1 = getKey t" "hash t1 = hash t"
  proof (cases "numItems t sdiv numBuckets t \<ge> ResizeRatio")
    case True
    obtain t' where "ReHash t = Inr t'" "ht_wf t'" "ht_map t' = ht_map t" "numItems t' = numItems t" "getKey t' = getKey t" "hash t' = hash t"
      by (rule ReHash_ok [OF assms(1) True]) (rule that; assumption)
    then show ?thesis using that [of t'] True by simp
  next
    case False
    then show ?thesis using that [of t] assms(1) by simp
  qed
  have ok1: "slots_ok t1" using t1(2) by (simp add: ht_wf_def)
  have n1: "ht_map t1 (getKey t1 x) = None" using t1(3,5) assms(2) by simp
  obtain t2 where t2: "bucket_Append x t1 = Inr t2" "slots_ok t2" "mset (entries t2) = add_mset x (mset (entries t1))"
    "getKey t2 = getKey t1" "hash t2 = hash t1" "numBuckets t2 = numBuckets t1" "numItems t2 = numItems t1"
    by (rule bucket_Append_ok [OF ok1 n1]) (rule that; assumption)
  let ?t = "t2\<lparr>numItems := numItems t2 + 1\<rparr>"
  have same: "slots_ok ?t" "entries ?t = entries t2" using t2(2) by (simp_all add: slots_ok_def size_ok_def entries_def slot_def)
  have "length (entries t2) = length (entries t1) + 1" using t2(3) by (metis size_add_mset size_mset Suc_eq_plus1)
  then have wf: "ht_wf ?t" using same t2(7) t1(2,4) assms(3) by (simp add: ht_wf_def)
  have set2: "set (entries t2) = insert x (set (entries t1))" using t2(3) by (metis set_mset_add_mset_insert set_mset_mset)
  have k: "getKey ?t = getKey t1" using t2(4) by simp
  have nx: "getKey t1 y \<noteq> getKey t1 x" if "y \<in> set (entries t1)" for y
    using n1 that unfolding ht_map_def FindInBucket_loop_None by (metis imageI)
  have "ht_map ?t k = Some y \<longleftrightarrow> ((ht_map t1)(getKey t1 x \<mapsto> x)) k = Some y" for k y
    using nx unfolding ht_map_Some [OF same(1)] same(2) set2 k by (auto simp: ht_map_Some [OF ok1])
  then have map: "ht_map ?t = (ht_map t1)(getKey t1 x \<mapsto> x)" by (intro ext) (metis option.exhaust option.distinct(1))
  have "HashTable_Insert x t = Inr ?t"
    using t1(1,4,5) t2(1,4,7) assms(2,3) IsInTable_ok [OF ok] IsInTable_ok [OF same(1)] map
    by (simp add: HashTable_Insert_def Let_def)
  then show ?thesis using that [of ?t] wf map t1 t2 by simp
qed

lemma HashTable_Insert_dup: "ht_wf t \<Longrightarrow> ht_map t (getKey t x) \<noteq> None \<Longrightarrow> HashTable_Insert x t = Inl AssertFailed"
  using IsInTable_ok [of t "getKey t x"] by (auto simp: HashTable_Insert_def Let_def ht_wf_def)

lemma HashTable_Remove_ok:
  assumes "ht_wf t" "ht_map t k = Some x"
  obtains t' where "HashTable_Remove k t = Inr (t', x)" "ht_wf t'" "ht_map t' = (ht_map t)(k := None)" "numItems t' = numItems t - 1"
    "getKey t' = getKey t" "hash t' = hash t"
proof -
  have ok: "slots_ok t" "size_ok t" using assms(1) by (simp_all add: ht_wf_def slots_ok_def)
  note d = size_okD [OF ok(2)]
  let ?i = "slot t k"
  let ?l = "buckets t ! ?i"
  let ?t = "t\<lparr>buckets := (buckets t)[?i := remove1 x ?l], numItems := numItems t - 1\<rparr>"
  have dl: "distinct (map (getKey t) ?l)" by (rule bucket_distinct [OF ok(1) d(4)])
  have x: "x \<in> set ?l" "getKey t x = k"
    using assms(2) FindInBucket_loop_Some [OF dl, of k x] unfolding bucket_find [OF ok(1)] by simp_all
  have "distinct ?l" using dl by (simp add: distinct_map)
  then have nx: "x \<notin> set (remove1 x ?l)" by simp
  have m: "add_mset x (mset (entries ?t)) = mset (entries t)"
  proof -
    have "mset ?l = add_mset x (mset (remove1 x ?l))" using x(1) by simp
    then have "add_mset x (mset (entries ?t)) + mset (remove1 x ?l) = mset (entries t) + mset (remove1 x ?l)"
      using mset_concat_update [OF d(4) [of k], of "remove1 x ?l"] by (simp add: entries_def del: mset_remove1)
    then show ?thesis by (rule add_right_imp_eq)
  qed
  have sl: "slot ?t = slot t" by (simp add: slot_def fun_eq_iff)
  have sub: "y \<in> set (buckets t ! i)" if "i < length (buckets t)" "y \<in> set ((buckets t)[?i := remove1 x ?l] ! i)" for i y
    using that notin_set_remove1 [of y ?l x] by (cases "?i = i") auto
  have "mset (getKey t x # map (getKey t) (entries ?t)) = mset (map (getKey t) (entries t))" using arg_cong [OF m, of "image_mset (getKey t)"] by simp
  then have dis: "distinct (getKey t x # map (getKey t) (entries ?t)) = distinct (map (getKey t) (entries t))" by (rule mset_eq_imp_distinct_iff)
  have pos: "slot ?t (getKey ?t y) = i" if "i < length (buckets ?t)" "y \<in> set (buckets ?t ! i)" for i y
    using slots_okD [OF ok(1), of i y] sub [of i y] that unfolding sl by simp
  have dis': "distinct (getKey t x # map (getKey t) (entries ?t))" using dis slots_ok_parts(2) [OF ok(1)] by simp
  have ok': "slots_ok ?t"
    by (rule slots_okI [OF _ pos]) (use ok dis' in \<open>simp_all add: size_ok_def\<close>)
  have "length (entries t) = length (entries ?t) + 1" using m by (metis size_add_mset size_mset Suc_eq_plus1)
  then have wf: "ht_wf ?t" using ok' assms(1) by (simp add: ht_wf_def)
  have set': "set (entries t) = insert x (set (entries ?t))" using m by (metis set_mset_add_mset_insert set_mset_mset)
  have other: "getKey t y \<noteq> k" if "y \<in> set (entries ?t)" for y using dis' that x(2) by (metis distinct.simps(2) image_set imageI)
  have "ht_map ?t k' = Some y \<longleftrightarrow> ((ht_map t)(k := None)) k' = Some y" for k' y
    unfolding ht_map_Some [OF ok'] fun_upd_apply using ht_map_Some [OF ok(1), of k' y] set' other [of y] x(2) by auto
  then have map: "ht_map ?t = (ht_map t)(k := None)" by (intro ext) (metis option.exhaust option.distinct(1))
  have "HashTable_Remove k t = Inr (?t, x)"
    using HashValue_ok [OF ok(2)] d(4) bucket_find [OF ok(1), of k] assms(2) x(1) nx IsInTable_ok [OF ok', of k] map
    by (simp add: HashTable_Remove_def FindInBucket_def seq_Remove_def Let_def)
  then show ?thesis using that [of ?t] wf map by simp
qed

lemma HashTable_Remove_none:
  assumes "ht_wf t" "ht_map t k = None"
  shows "HashTable_Remove k t = Inl AssertFailed"
proof -
  have ok: "slots_ok t" "size_ok t" using assms(1) by (simp_all add: ht_wf_def slots_ok_def)
  show ?thesis using HashValue_ok [OF ok(2)] size_okD(4) [OF ok(2)] bucket_find [OF ok(1), of k] assms(2)
    by (simp add: HashTable_Remove_def FindInBucket_def)
qed

lemma HashTable_new_ok: "ht_wf (HashTable_new get hFunc)" "ht_map (HashTable_new get hFunc) k = None"
proof -
  have e: "entries (HashTable_new get hFunc) = []" by (simp add: entries_def HashTable_new_def InitBuckets_def)
  have "size_ok (HashTable_new get hFunc)"
    unfolding size_ok_def by (intro conjI exI [of _ 0]) (simp_all add: HashTable_new_def InitBuckets_def InitialBuckets_def)
  then show "ht_wf (HashTable_new get hFunc)"
    using e by (auto simp: ht_wf_def HashTable_new_def InitBuckets_def InitialBuckets_def intro!: slots_okI)
  show "ht_map (HashTable_new get hFunc) k = None" using e by (simp add: ht_map_def)
qed

section \<open>The interface of a table\<close>

text \<open>What users of the table rely on: the laws of a map of bounded size, for keys computed from the items.\<close>

locale keyed_table =
  fixes inv :: "'t \<Rightarrow> bool" and mp :: "'t \<Rightarrow> 'k \<rightharpoonup> 'v" and num :: "'t \<Rightarrow> int" and capacity :: int and key :: "'v \<Rightarrow> 'k"
    and ins :: "'v \<Rightarrow> 't \<Rightarrow> 't res" and del :: "'k \<Rightarrow> 't \<Rightarrow> ('t \<times> 'v) res" and look :: "'t \<Rightarrow> 'k \<Rightarrow> 'v option res"
  assumes look: "inv t \<Longrightarrow> look t k = Inr (mp t k)"
    and ins: "inv t \<Longrightarrow> mp t (key x) = None \<Longrightarrow> num t < capacity \<Longrightarrow>
      \<exists>t'. ins x t = Inr t' \<and> inv t' \<and> mp t' = (mp t)(key x \<mapsto> x) \<and> num t' = num t + 1"
    and ins_dup: "inv t \<Longrightarrow> mp t (key x) \<noteq> None \<Longrightarrow> ins x t = Inl AssertFailed"
    and del: "inv t \<Longrightarrow> mp t k = Some x \<Longrightarrow> \<exists>t'. del k t = Inr (t', x) \<and> inv t' \<and> mp t' = (mp t)(k := None) \<and> num t' = num t - 1"
    and del_none: "inv t \<Longrightarrow> mp t k = None \<Longrightarrow> del k t = Inl AssertFailed"
    and num: "inv t \<Longrightarrow> 0 \<le> num t" "inv t \<Longrightarrow> mp t \<noteq> Map.empty \<Longrightarrow> num t \<noteq> 0"
begin

text \<open>Items with different keys go in one after the other, and come out again.\<close>

lemma insert_all:
  assumes step: "\<And>x t t'. inv t \<Longrightarrow> ins x t = Inr t' \<Longrightarrow> inv t' \<Longrightarrow> mp t' (key x) = Some x \<Longrightarrow> num t' \<noteq> 0 \<Longrightarrow> f x t = Inr t'"
  shows "inv t \<Longrightarrow> distinct (map key xs) \<Longrightarrow> \<forall>x \<in> set xs. mp t (key x) = None \<Longrightarrow> num t + int (length xs) \<le> capacity \<Longrightarrow>
    \<exists>t'. foldR f xs t = Inr t' \<and> inv t' \<and> num t' = num t + int (length xs) \<and> (\<forall>x \<in> set xs. mp t' (key x) = Some x)
      \<and> (\<forall>k. k \<notin> key ` set xs \<longrightarrow> mp t' k = mp t k)"
proof (induction xs arbitrary: t)
  case (Cons x xs)
  obtain t1 where t1: "ins x t = Inr t1" "inv t1" "mp t1 = (mp t)(key x \<mapsto> x)" "num t1 = num t + 1"
    using ins [of t x] Cons.prems by auto
  have rest: "distinct (map key xs)" "\<forall>y \<in> set xs. mp t1 (key y) = None" "num t1 + int (length xs) \<le> capacity"
    using Cons.prems(2-4) t1(3,4) by (auto simp: image_iff)
  have "f x t = Inr t1" using step [OF Cons.prems(1) t1(1,2)] t1(3,4) num(1) [OF Cons.prems(1)] by simp
  moreover obtain t2 where "foldR f xs t1 = Inr t2" "inv t2" "num t2 = num t1 + int (length xs)"
    "\<forall>x \<in> set xs. mp t2 (key x) = Some x" "\<forall>k. k \<notin> key ` set xs \<longrightarrow> mp t2 k = mp t1 k"
    using Cons.IH [OF t1(2) rest] by blast
  ultimately show ?case using t1(3,4) Cons.prems(2) by (intro exI [of _ t2]) auto
qed auto

lemma remove_all:
  assumes step: "\<And>x t t'. inv t \<Longrightarrow> del (key x) t = Inr (t', x) \<Longrightarrow> f x t = Inr t'"
  shows "inv t \<Longrightarrow> distinct (map key xs) \<Longrightarrow> \<forall>x \<in> set xs. mp t (key x) = Some x \<Longrightarrow>
    \<exists>t'. foldR f xs t = Inr t' \<and> inv t' \<and> num t' = num t - int (length xs)"
proof (induction xs arbitrary: t)
  case (Cons x xs)
  obtain t1 where t1: "del (key x) t = Inr (t1, x)" "inv t1" "mp t1 = (mp t)(key x := None)" "num t1 = num t - 1"
    using del [of t "key x" x] Cons.prems by auto
  have rest: "distinct (map key xs)" "\<forall>y \<in> set xs. mp t1 (key y) = Some y"
    using Cons.prems(2,3) t1(3) by (auto simp: image_iff)
  have "f x t = Inr t1" by (rule step [OF Cons.prems(1) t1(1)])
  moreover obtain t2 where "foldR f xs t1 = Inr t2" "inv t2" "num t2 = num t1 - int (length xs)"
    using Cons.IH [OF t1(2) rest] by blast
  ultimately show ?case using t1(4) by (intro exI [of _ t2]) auto
qed auto

end

interpretation ht: keyed_table "\<lambda>t. ht_wf t \<and> getKey t = get \<and> hash t = hFunc" ht_map numItems 2147483647 get
  HashTable_Insert HashTable_Remove HashTable_Find for get hFunc
proof
  fix t x k assume t: "ht_wf t \<and> getKey t = get \<and> hash t = hFunc"
  then have wf: "ht_wf t" "slots_ok t" by (simp_all add: ht_wf_def)
  show "HashTable_Find t k = Inr (ht_map t k)" by (rule HashTable_Find_ok [OF wf(2)])
  show "ht_map t (get x) \<noteq> None \<Longrightarrow> HashTable_Insert x t = Inl AssertFailed" using HashTable_Insert_dup [OF wf(1), of x] t by simp
  show "ht_map t k = None \<Longrightarrow> HashTable_Remove k t = Inl AssertFailed" by (rule HashTable_Remove_none [OF wf(1)])
  show "0 \<le> numItems t" using wf(1) by (simp add: ht_wf_def)
  show "ht_map t \<noteq> Map.empty \<Longrightarrow> numItems t \<noteq> 0" using wf(1) by (auto simp: ht_wf_def ht_map_def)
  show "\<exists>t'. HashTable_Insert x t = Inr t' \<and> (ht_wf t' \<and> getKey t' = get \<and> hash t' = hFunc) \<and> ht_map t' = (ht_map t)(get x \<mapsto> x) \<and> numItems t' = numItems t + 1"
    if "ht_map t (get x) = None" "numItems t < 2147483647"
    using HashTable_Insert_ok [OF wf(1), of x] that t by metis
  show "\<exists>t'. HashTable_Remove k t = Inr (t', x) \<and> (ht_wf t' \<and> getKey t' = get \<and> hash t' = hFunc) \<and> ht_map t' = (ht_map t)(k := None) \<and> numItems t' = numItems t - 1"
    if "ht_map t k = Some x"
    using HashTable_Remove_ok [OF wf(1) that] t by metis
qed

section \<open>Going through a table\<close>

definition remaining :: "('k, 'v) hash_table \<Rightarrow> 'v hash_iterator \<Rightarrow> 'v list" where
  "remaining t it = (case bucketIter it of None \<Rightarrow> [] | Some l \<Rightarrow> l @ concat (drop (nat (iterBucket it + 1)) (buckets t)))"

definition iter_wf :: "('k, 'v) hash_table \<Rightarrow> 'v hash_iterator \<Rightarrow> bool" where
  "iter_wf t it \<longleftrightarrow> (if iterBucket it = numBuckets t then bucketIter it = None
     else 0 \<le> iterBucket it \<and> iterBucket it < numBuckets t \<and> bucketIter it \<noteq> None \<and> bucketIter it \<noteq> Some [])"

lemma drop_nth: "i < length xs \<Longrightarrow> drop i xs = xs ! i # drop (Suc i) xs"
  by (rule Cons_nth_drop_Suc [symmetric])

lemma iter_at_ok:
  "size_ok t \<Longrightarrow> i \<le> length (buckets t) \<Longrightarrow>
     \<exists>it. iter_at t (int i) = Inr it \<and> iter_wf t it \<and> remaining t it = concat (drop i (buckets t))"
proof (induction "length (buckets t) - i" arbitrary: i)
  case 0
  then have "int i = numBuckets t" using size_okD(3) [OF 0(2)] by simp
  then show ?case using 0 by (simp add: iter_at_def FindNextFullBucket.simps [of t "numBuckets t"] iter_wf_def remaining_def)
next
  case (Suc n)
  then have i: "i < length (buckets t)" "int i < numBuckets t" using size_okD(3) [OF Suc(3)] by simp_all
  show ?case
  proof (cases "buckets t ! i = []")
    case True
    have "iter_at t (int i) = iter_at t (int (Suc i))"
      using i True FindNextFullBucket.simps [of t "int i"] by (simp add: iter_at_def add.commute)
    then show ?thesis using Suc(1) [of "Suc i"] Suc(2,3) i True drop_nth [OF i(1)] by simp
  next
    case False
    then have "FindNextFullBucket t (int i) = Inr (int i)" using i FindNextFullBucket.simps [of t "int i"] by simp
    then have "iter_at t (int i) = Inr \<lparr>iterBucket = int i, bucketIter = Some (buckets t ! i)\<rparr>"
      using i by (simp add: iter_at_def)
    moreover have "nat (int i + 1) = Suc i" by simp
    ultimately show ?thesis using i False drop_nth [OF i(1)] by (simp add: iter_wf_def remaining_def)
  qed
qed

lemma iterate_ok:
  "size_ok t \<Longrightarrow> iter_wf t it \<Longrightarrow> length (remaining t it) \<le> n \<Longrightarrow> iterate n t it = Inr (remaining t it)"
proof (induction n arbitrary: it)
  case 0
  then have "remaining t it = []" by simp
  moreover from this have "iterBucket it = numBuckets t"
    using 0(2) by (auto simp: iter_wf_def remaining_def split: if_splits option.splits)
  ultimately show ?case by (simp add: HashIterator_IsDone_def)
next
  case (Suc n)
  show ?case
  proof (cases "iterBucket it = numBuckets t")
    case True
    then show ?thesis using Suc.prems(2) by (simp add: HashIterator_IsDone_def iter_wf_def remaining_def)
  next
    case False
    then obtain x l where l: "bucketIter it = Some (x # l)" "0 \<le> iterBucket it" "iterBucket it < numBuckets t"
      using Suc.prems(2) by (auto simp: iter_wf_def neq_Nil_conv)
    have "\<exists>it'. HashIterator_Next t it = Inr it' \<and> iter_wf t it' \<and> remaining t it = x # remaining t it'"
    proof (cases l)
      case Nil
      have "nat (iterBucket it + 1) \<le> length (buckets t)" using l(3) size_okD(3) [OF Suc.prems(1)] by simp
      then obtain it' where "iter_at t (int (nat (iterBucket it + 1))) = Inr it'" "iter_wf t it'"
        "remaining t it' = concat (drop (nat (iterBucket it + 1)) (buckets t))"
        using iter_at_ok [OF Suc.prems(1)] by blast
      moreover from this(3) have "remaining t it = x # remaining t it'" using l Nil by (simp add: remaining_def [of t it])
      ultimately show ?thesis using l Nil by (simp add: HashIterator_Next_def)
    next
      case (Cons y l')
      then show ?thesis using l False by (simp add: HashIterator_Next_def remaining_def iter_wf_def)
    qed
    then obtain it' where "HashIterator_Next t it = Inr it'" "iter_wf t it'" "remaining t it = x # remaining t it'" by blast
    then show ?thesis using Suc.IH [OF Suc.prems(1), of it'] Suc.prems(3) l(1) False
      by (simp add: HashIterator_IsDone_def HashIterator_Item_def)
  qed
qed

lemma iterator_ok:
  assumes "size_ok t"
  obtains it where "HashIterator_new t = Inr it" "iterate (length (entries t)) t it = Inr (entries t)"
    "HashIterator_IsDone t it \<longleftrightarrow> entries t = []"
proof -
  obtain it where it: "iter_at t (int 0) = Inr it" "iter_wf t it" "remaining t it = entries t"
    using iter_at_ok [OF assms, of 0] by (auto simp: entries_def)
  have "HashIterator_IsDone t it \<longleftrightarrow> entries t = []"
    using it(2) unfolding it(3) [symmetric] by (auto simp: iter_wf_def remaining_def HashIterator_IsDone_def split: option.splits if_splits)
  then show ?thesis using that [of it] it iterate_ok [OF assms it(2)] by (simp add: HashIterator_new_def)
qed

lemma Apply_ok:
  assumes "size_ok t"
  shows "HashTable_Apply f t s = foldR f (entries t) s"
proof -
  have "foldR (\<lambda>bucket s. bindR (arr_get (buckets t) bucket) (\<lambda>l. foldR f l s)) (map int js) s = foldR f (concat (map (\<lambda>i. buckets t ! i) js)) s"
    if "\<forall>i \<in> set js. i < length (buckets t)" for js s
    using that
  proof (induction js arbitrary: s)
    case (Cons j js)
    show ?case using Cons.prems by (cases "foldR f (buckets t ! j) s") (simp_all add: foldR_append Cons.IH)
  qed simp
  from this [of "[0..<length (buckets t)]" s] show ?thesis
    using size_okD(3) [OF assms, symmetric] by (simp add: HashTable_Apply_def bucket_numbers_def entries_def map_nth)
qed

section \<open>The self tests\<close>

lemma HashTable_SelfTest_ok:
  assumes wf: "ht_wf t" "numItems t = 0" and p: "distinct (map (getKey t) p)" "int (length p) \<le> 2147483647"
  shows "\<exists>t'. HashTable_SelfTest p t = Inr t' \<and> ht_wf t' \<and> HashTable_IsEmpty t'"
proof -
  let ?inv = "\<lambda>u. ht_wf u \<and> getKey u = getKey t \<and> hash u = hash t"
  have e: "entries t = []" using wf by (simp add: ht_wf_def)
  have "size_ok t" using wf(1) by (simp add: ht_wf_def slots_ok_def)
  then obtain it where it: "HashIterator_new t = Inr it" "HashIterator_IsDone t it"
    using iterator_ok e by metis
  have "test_insert x u = Inr u'" if "?inv u" "HashTable_Insert x u = Inr u'" "?inv u'" "ht_map u' (getKey t x) = Some x" "numItems u' \<noteq> 0" for x u u'
    using that IsInTable_ok [of u' "getKey t x"] by (simp add: test_insert_def ht_wf_def HashTable_IsEmpty_def)
  then obtain t1 where t1: "foldR test_insert p t = Inr t1" "?inv t1" "numItems t1 = numItems t + int (length p)"
      "\<forall>x \<in> set p. ht_map t1 (getKey t x) = Some x"
    using ht.insert_all [where f = test_insert and t = t and xs = p and get = "getKey t" and hFunc = "hash t"] wf p e by (auto simp: ht_map_def)
  have "test_remove x u = Inr u'" if "?inv u" "HashTable_Remove (getKey t x) u = Inr (u', x)" for x u u'
    using that by (simp add: test_remove_def)
  then obtain t2 where t2: "foldR test_remove p t1 = Inr t2" "?inv t2" "numItems t2 = numItems t1 - int (length p)"
    using ht.remove_all [where f = test_remove and t = t1 and xs = p and get = "getKey t" and hFunc = "hash t"] t1(2,4) p(1) by auto
  have "HashTable_SelfTest p t = Inr t2"
    using it t1(1,3) t2 wf SanityCheck_ok [OF wf(1)] SanityCheck_ok [of t2]
    by (simp add: HashTable_SelfTest_def HashTable_IsEmpty_def)
  then show ?thesis using t1(3) t2 wf(2) by (simp add: HashTable_IsEmpty_def)
qed

text \<open>\<open>atoi\<close> of the C library, on values in range.\<close>

fun digits_value :: "int \<Rightarrow> string \<Rightarrow> int" where
  "digits_value n [] = n"
| "digits_value n (c # cs) =
     (if 48 \<le> (of_char c :: int) \<and> (of_char c :: int) \<le> 57 then digits_value (10 * n + (of_char c - 48)) cs else n)"

definition atoi :: "string \<Rightarrow> int" where
  "atoi str =
     (case dropWhile (\<lambda>c. c = CHR '' '' \<or> 9 \<le> (of_char c :: int) \<and> (of_char c :: int) \<le> 13) str of
        [] \<Rightarrow> 0
      | c # cs \<Rightarrow> if c = CHR ''-'' then - digits_value 0 cs else if c = CHR ''+'' then digits_value 0 cs
          else digits_value 0 (c # cs))"

definition HashInt :: "int \<Rightarrow> 32 word" where
  "HashInt key = word_of_int key"

definition HashKey :: "string \<Rightarrow> int" where
  "HashKey str = atoi str"

definition hashTestVector :: "string list" where
  "hashTestVector = [''0'', ''1'', ''2'', ''3'', ''4'', ''5'', ''6'', ''7'', ''8'', ''9'', ''10'', ''11'', ''12'', ''13'', ''14'']"

text \<open>\<open>m\<close> is the heap. The string literals are different objects, with different contents.\<close>

definition LibSelfTest :: "int store \<Rightarrow> unit res" where
  "LibSelfTest m =
     bindR (Bitmap_new 200) (\<lambda>map.
     let list = List_new; sortList = List_new; hashTable = HashTable_new HashKey HashInt in
     bindR (Bitmap_SelfTest map) (\<lambda>map.
     bindR (List_SelfTest List_Append List_SanityCheck m list listTestVector) (\<lambda>(m, list).
     bindR (SortedList_SelfTest IntCompare m sortList listTestVector) (\<lambda>(m, sortList, q).
     bindR (HashTable_SelfTest hashTestVector hashTable) (\<lambda>hashTable.
     HashTable_delete hashTable)))))"

lemma hashTestVector_keys: "map HashKey hashTestVector = [0, 1, 2, 3, 4, 5, 6, 7, 8, 9, 10, 11, 12, 13, 14]"
  by (simp add: hashTestVector_def HashKey_def atoi_def of_char_Char)

section \<open>Properties\<close>

text \<open>
  C19. The hash table implements a map from keys to items: in a well-formed table \<open>Find\<close> returns
  the item of a key, \<open>Insert\<close> adds an item, expanding the table when it is time, and aborts
  exactly if the key is in use, \<open>Remove\<close> takes the item of a key out and aborts exactly if
  there is none; each leaves a well-formed table, and its check passes. An iterator and
  \<open>Apply\<close> visit the same items, each item of the map exactly once.
\<close>

theorem HashTable_refines_map:
  assumes "ht_wf t"
  shows "HashTable_Find t k = Inr (ht_map t k) \<and> HashTable_SanityCheck t = Inr ()
    \<and> (if ht_map t (getKey t x) = None
       then numItems t < 2147483647 \<longrightarrow> (\<exists>t'. HashTable_Insert x t = Inr t' \<and> ht_wf t' \<and> ht_map t' = (ht_map t)(getKey t x \<mapsto> x)
         \<and> numItems t' = numItems t + 1)
       else HashTable_Insert x t = Inl AssertFailed)
    \<and> (case ht_map t k of
         None \<Rightarrow> HashTable_Remove k t = Inl AssertFailed
       | Some y \<Rightarrow> \<exists>t'. HashTable_Remove k t = Inr (t', y) \<and> ht_wf t' \<and> ht_map t' = (ht_map t)(k := None) \<and> numItems t' = numItems t - 1)
    \<and> (\<exists>it xs. HashIterator_new t = Inr it \<and> iterate (nat (numItems t)) t it = Inr xs \<and> (\<forall>f s. HashTable_Apply f t s = foldR f xs s)
         \<and> distinct xs \<and> set xs = ran (ht_map t))"
proof (intro conjI)
  have ok: "slots_ok t" "size_ok t" "numItems t = int (length (entries t))" using assms by (simp_all add: ht_wf_def slots_ok_def)
  note law = ht.look [of t "getKey t" "hash t"] ht.ins [of t "getKey t" "hash t" x] ht.ins_dup [of t "getKey t" "hash t" x]
    ht.del [of t "getKey t" "hash t" k] ht.del_none [of t "getKey t" "hash t" k]
  show "HashTable_Find t k = Inr (ht_map t k)" using law(1) assms by simp
  show "HashTable_SanityCheck t = Inr ()" by (rule SanityCheck_ok [OF assms])
  show "if ht_map t (getKey t x) = None
       then numItems t < 2147483647 \<longrightarrow> (\<exists>t'. HashTable_Insert x t = Inr t' \<and> ht_wf t' \<and> ht_map t' = (ht_map t)(getKey t x \<mapsto> x)
         \<and> numItems t' = numItems t + 1)
       else HashTable_Insert x t = Inl AssertFailed"
    using law(2,3) assms by auto
  show "case ht_map t k of
         None \<Rightarrow> HashTable_Remove k t = Inl AssertFailed
       | Some y \<Rightarrow> \<exists>t'. HashTable_Remove k t = Inr (t', y) \<and> ht_wf t' \<and> ht_map t' = (ht_map t)(k := None) \<and> numItems t' = numItems t - 1"
    using law(4,5) assms by (cases "ht_map t k") auto
  obtain it where it: "HashIterator_new t = Inr it" "iterate (length (entries t)) t it = Inr (entries t)" using iterator_ok [OF ok(2)] .
  have "distinct (entries t)" using slots_ok_parts(2) [OF ok(1)] by (simp add: distinct_map)
  moreover have "set (entries t) = ran (ht_map t)" by (auto simp: ran_def ht_map_Some [OF ok(1)])
  ultimately show "\<exists>it xs. HashIterator_new t = Inr it \<and> iterate (nat (numItems t)) t it = Inr xs \<and> (\<forall>f s. HashTable_Apply f t s = foldR f xs s)
         \<and> distinct xs \<and> set xs = ran (ht_map t)"
    using it ok(3) by (intro exI [of _ it] exI [of _ "entries t"]) (simp add: Apply_ok [OF ok(2)])
qed

text \<open>C19, for a new table, of words with themselves as keys.\<close>

theorem HashTable_refines_map_witness:
  "\<exists>t. HashTable_Insert 7 (HashTable_new (\<lambda>w. w) (\<lambda>w. w) :: (32 word, 32 word) hash_table) = Inr t \<and> ht_map t 7 = Some 7"
proof -
  let ?t = "HashTable_new (\<lambda>w. w) (\<lambda>w. w) :: (32 word, 32 word) hash_table"
  have "ht_map ?t k = None" "numItems ?t = 0" "getKey ?t = (\<lambda>w. w)" for k
    by (simp_all add: HashTable_new_ok) (simp_all add: HashTable_new_def InitBuckets_def)
  then show ?thesis using HashTable_refines_map [OF HashTable_new_ok(1), of "\<lambda>w. w" "\<lambda>w. w" 7 7] by auto
qed

text \<open>
  C36. \<open>LibSelfTest\<close> passes: on every heap, the self tests of bitmaps, lists, sorted lists and
  hash tables run to their ends, no assertion fails, and the hash table, expanded on the way,
  is empty when it is deleted.
\<close>

theorem LibSelfTest_passes:
  assumes "\<forall>a \<ge> brk m. cells m a = None"
  shows "LibSelfTest m = Inr ()"
proof -
  obtain b b' where b: "Bitmap_new 200 = Inr b" "Bitmap_SelfTest b = Inr b'" using Bitmap_SelfTest_passes [of 200] by auto
  have "rep m List_new []" by (rule list_rep_empty) (use assms in simp)
  then have r: "list_rep (m, List_new) []" by (auto simp: list_rep_def)
  have d: "distinct listTestVector" by (simp add: listTestVector_def)
  obtain m1 l1 where s1: "List_SelfTest List_Append List_SanityCheck m List_new listTestVector = Inr (m1, l1)" "list_rep (m1, l1) []"
    using plain.SelfTest_ok [OF r d] by blast
  have "\<forall>a \<ge> brk m1. cells m1 a = None" using s1(2) by (auto simp: list_rep_def rep_def)
  then have r1: "list_rep (m1, List_new) []" using list_rep_empty [of m1] by (force simp: list_rep_def)
  obtain m2 l2 q where s2: "SortedList_SelfTest IntCompare m1 List_new listTestVector = Inr (m2, l2, q)"
    using int_cmp.SortedList_SelfTest_ok [OF r1 d] by blast
  let ?t = "HashTable_new HashKey HashInt"
  have t: "numItems ?t = 0" "getKey ?t = HashKey" by (simp_all add: HashTable_new_def InitBuckets_def)
  have "distinct (map (getKey ?t) hashTestVector)" by (simp add: t(2) hashTestVector_keys)
  moreover have "int (length hashTestVector) \<le> 2147483647" by (simp add: hashTestVector_def)
  ultimately obtain t' where s3: "HashTable_SelfTest hashTestVector ?t = Inr t'" "HashTable_IsEmpty t'"
    using HashTable_SelfTest_ok [OF HashTable_new_ok(1) t(1)] by blast
  show ?thesis using b s1(1) s2 s3 by (simp add: LibSelfTest_def HashTable_delete_def Let_def)
qed

text \<open>C36, on the empty heap.\<close>

theorem LibSelfTest_passes_witness: "LibSelfTest \<lparr>cells = Map.empty, brk = 0\<rparr> = Inr ()"
  by (rule LibSelfTest_passes) simp

end
