(* ===== verification/Network.thy ===== *)
theory Network
  imports Bytes Complex_Main
begin

text \<open>
  The network device (\<^verbatim>\<open>code/machine/network.h\<close>, \<^verbatim>\<open>network.cc\<close>) and the post office
  (\<^verbatim>\<open>code/network/post.h\<close>, \<^verbatim>\<open>post.cc\<close>): packets and mail as byte images, unreliable sending,
  polling, the postal worker, mailboxes.

  Several machines are connected by UNIX sockets, which are not part of the program: the
  record \<open>sockets\<close> stands for them, and the theorems rely on their documented order
  (\<open>fifo\<close>). Each routine is one step: \<open>Send\<close> holds \<open>sendLock\<close> until the interrupt of the device
  has come; the postal worker and \<open>Receive\<close> wait (\<open>None\<close>) while their semaphore or list is
  empty. A mailbox is the sequence of its messages, which are all different objects.
\<close>

section \<open>Packets and mail\<close>

record packet_header =
  pktTo :: int32
  pktFrom :: int32
  pktLength :: int32

record mail_header =
  mailTo :: int32
  mailFrom :: int32
  mailLength :: int32

definition pkt_bytes :: "packet_header \<Rightarrow> byte list" where
  "pkt_bytes h = words_bytes [pktTo h, pktFrom h, pktLength h]"

definition pkt_of :: "byte list \<Rightarrow> packet_header" where
  "pkt_of bs = (let ws = words_of 3 bs in \<lparr>pktTo = ws ! 0, pktFrom = ws ! 1, pktLength = ws ! 2\<rparr>)"

definition mail_bytes :: "mail_header \<Rightarrow> byte list" where
  "mail_bytes h = words_bytes [mailTo h, mailFrom h, mailLength h]"

definition mail_of :: "byte list \<Rightarrow> mail_header" where
  "mail_of bs = (let ws = words_of 3 bs in \<lparr>mailTo = ws ! 0, mailFrom = ws ! 1, mailLength = ws ! 2\<rparr>)"

definition sizeof_PacketHeader :: int where "sizeof_PacketHeader = 12"

definition sizeof_MailHeader :: int where "sizeof_MailHeader = 12"

definition MaxWireSize :: int where "MaxWireSize = 64"

definition MaxPacketSize :: int where "MaxPacketSize = MaxWireSize - sizeof_PacketHeader"

definition MaxMailSize :: int where "MaxMailSize = MaxPacketSize - sizeof_MailHeader"

text \<open>\<open>mailData\<close> is the part of the array \<open>data\<close> that is assigned.\<close>

record mail =
  mailPkt :: packet_header
  mailHdr :: mail_header
  mailData :: "byte list"

definition Mail_new :: "packet_header \<Rightarrow> mail_header \<Rightarrow> byte list \<Rightarrow> mail res" where
  "Mail_new pktH mailH msgData =
     ASSERT (uint (mailLength mailH) \<le> MaxMailSize) (
     bindR (buf_get msgData 0 (uint (mailLength mailH))) (\<lambda>d.
     Inr \<lparr>mailPkt = pktH, mailHdr = mailH, mailData = d\<rparr>))"

section \<open>The network device\<close>

text \<open>The sockets: send to the socket of a machine, poll and read one's own.\<close>

record 'n sockets =
  SendToSocket :: "int32 \<Rightarrow> byte list \<Rightarrow> 'n \<Rightarrow> 'n"
  PollSocket :: "int32 \<Rightarrow> 'n \<Rightarrow> bool"
  ReadFromSocket :: "int32 \<Rightarrow> 'n \<Rightarrow> byte list \<times> 'n"

text \<open>One machine: its device, its post office with the semaphore \<open>messageAvailable\<close>, its statistics.\<close>

record station =
  hostName :: int32
  inHdr :: packet_header
  inbox :: "byte list"
  chanceToWork :: real
  sendBusy :: bool
  numBoxes :: int
  boxes :: "mail list list"
  messageAvailable :: nat
  numPacketsSent :: int
  numPacketsRecvd :: int

definition chance_of :: "real \<Rightarrow> real" where
  "chance_of reliability = (if reliability < 0 then 0 else if reliability > 1 then 1 else reliability)"

text \<open>A machine after \<open>NetworkInput\<close>, \<open>NetworkOutput\<close> and \<open>PostOfficeInput\<close> are constructed; \<open>hdr\<close> and \<open>buf\<close> are what memory holds.\<close>

definition station_new :: "int32 \<Rightarrow> packet_header \<Rightarrow> byte list \<Rightarrow> int \<Rightarrow> real \<Rightarrow> station" where
  "station_new name hdr buf nBoxes reliability =
     \<lparr>hostName = name, inHdr = hdr\<lparr>pktLength := 0\<rparr>, inbox = buf, chanceToWork = chance_of reliability, sendBusy = False,
      numBoxes = nBoxes, boxes = replicate (nat nBoxes) [], messageAvailable = 0, numPacketsSent = 0, numPacketsRecvd = 0\<rparr>"

definition PostOfficeInput_CallBack :: "station \<Rightarrow> station" where
  "PostOfficeInput_CallBack h = h\<lparr>messageAvailable := messageAvailable h + 1\<rparr>"

definition NetworkInput_CallBack :: "'n sockets \<Rightarrow> station \<Rightarrow> 'n \<Rightarrow> (station \<times> 'n) res" where
  "NetworkInput_CallBack S h n =
     (if pktLength (inHdr h) \<noteq> 0 then Inr (h, n)
      else if \<not> PollSocket S (hostName h) n then Inr (h, n)
      else let (buffer, n) = ReadFromSocket S (hostName h) n; hdr = pkt_of buffer; h = h\<lparr>inHdr := hdr\<rparr> in
        ASSERT (pktTo hdr = hostName h \<and> uint (pktLength hdr) \<le> MaxPacketSize) (
        bindR (buf_get buffer sizeof_PacketHeader (uint (pktLength hdr))) (\<lambda>d.
        bindR (buf_put (inbox h) 0 d) (\<lambda>b.
        Inr (PostOfficeInput_CallBack (h\<lparr>inbox := b, numPacketsRecvd := numPacketsRecvd h + 1\<rparr>), n)))))"

definition NetworkInput_Receive :: "byte list \<Rightarrow> station \<Rightarrow> (station \<times> packet_header \<times> byte list) res" where
  "NetworkInput_Receive dat h =
     (let hdr = inHdr h; h = h\<lparr>inHdr := hdr\<lparr>pktLength := 0\<rparr>\<rparr> in
      if pktLength hdr \<noteq> 0
      then bindR (buf_get (inbox h) 0 (uint (pktLength hdr))) (\<lambda>d. bindR (buf_put dat 0 d) (\<lambda>dat. Inr (h, hdr, dat)))
      else Inr (h, hdr, dat))"

text \<open>\<open>r\<close> is what \<open>RandomNumber()\<close> returns, \<open>junk\<close> is what the new buffer holds.\<close>

definition packet_lost :: "int \<Rightarrow> real \<Rightarrow> bool" where
  "packet_lost r chance \<longleftrightarrow> real_of_int (r smod 100) \<ge> chance * 100"

definition NetworkOutput_Send :: "'n sockets \<Rightarrow> int \<Rightarrow> byte list \<Rightarrow> packet_header \<Rightarrow> byte list \<Rightarrow> station \<Rightarrow> 'n \<Rightarrow> 'n res" where
  "NetworkOutput_Send S r junk hdr dat h n =
     ASSERT (\<not> sendBusy h \<and> pktLength hdr \<noteq> 0 \<and> uint (pktLength hdr) \<le> MaxPacketSize \<and> pktFrom hdr = hostName h) (
     if packet_lost r (chanceToWork h) then Inr n
     else bindR (buf_put junk 0 (pkt_bytes hdr)) (\<lambda>buffer.
       bindR (buf_get dat 0 (uint (pktLength hdr))) (\<lambda>d.
       bindR (buf_put buffer sizeof_PacketHeader d) (\<lambda>buffer.
       Inr (SendToSocket S (pktTo hdr) buffer n)))))"

definition NetworkOutput_CallBack :: "station \<Rightarrow> station" where
  "NetworkOutput_CallBack h = h\<lparr>sendBusy := False, numPacketsSent := numPacketsSent h + 1\<rparr>"

section \<open>The post office\<close>

definition MailBox_Put :: "int \<Rightarrow> packet_header \<Rightarrow> mail_header \<Rightarrow> byte list \<Rightarrow> station \<Rightarrow> station res" where
  "MailBox_Put box pktHd mailHd dat h =
     bindR (Mail_new pktHd mailHd dat) (\<lambda>mail.
     bindR (arr_get (boxes h) box) (\<lambda>l.
     bindR (arr_set (boxes h) box (l @ [mail])) (\<lambda>bs. Inr (h\<lparr>boxes := bs\<rparr>))))"

definition MailBox_Get :: "int \<Rightarrow> station \<Rightarrow> (station \<times> mail) res option" where
  "MailBox_Get box h =
     (case arr_get (boxes h) box of Inl e \<Rightarrow> Some (Inl e)
      | Inr [] \<Rightarrow> None
      | Inr (mail # l) \<Rightarrow> Some (bindR (arr_set (boxes h) box l) (\<lambda>bs. Inr (h\<lparr>boxes := bs\<rparr>, mail))))"

text \<open>One round of the postal worker's loop; \<open>buffer\<close> is its buffer.\<close>

definition PostalDelivery :: "byte list \<Rightarrow> station \<Rightarrow> (station \<times> byte list) res option" where
  "PostalDelivery buffer h =
     (if messageAvailable h = 0 then None
      else Some (
        let h = h\<lparr>messageAvailable := messageAvailable h - 1\<rparr> in
        bindR (NetworkInput_Receive buffer h) (\<lambda>(h, pktHd, buffer).
        let mailHd = mail_of buffer in
        ASSERT (0 \<le> sint (mailTo mailHd) \<and> sint (mailTo mailHd) < numBoxes h) (
        ASSERT (uint (mailLength mailHd) \<le> MaxMailSize) (
        bindR (MailBox_Put (sint (mailTo mailHd)) pktHd mailHd (drop (nat sizeof_MailHeader) buffer) h) (\<lambda>h.
        Inr (h, buffer)))))))"

definition PostOfficeInput_Receive :: "int \<Rightarrow> station \<Rightarrow> (station \<times> mail) res option" where
  "PostOfficeInput_Receive box h =
     (if 0 \<le> box \<and> box < numBoxes h then
        map_option (\<lambda>r. bindR r (\<lambda>(h, mail). ASSERT (uint (mailLength (mailHdr mail)) \<le> MaxMailSize) (Inr (h, mail)))) (MailBox_Get box h)
      else Some (Inl AssertFailed))"

text \<open>\<open>Send\<close>, up to the interrupt that its \<open>P\<close> waits for.\<close>

definition PostOfficeOutput_Send ::
    "'n sockets \<Rightarrow> int \<Rightarrow> byte list \<Rightarrow> byte list \<Rightarrow> packet_header \<Rightarrow> mail_header \<Rightarrow> byte list \<Rightarrow> station \<Rightarrow> 'n \<Rightarrow> (station \<times> 'n) res" where
  "PostOfficeOutput_Send S r junk buffer pktHd mailHd dat h n =
     ASSERT (uint (mailLength mailHd) \<le> MaxMailSize) (ASSERT (0 \<le> sint (mailTo mailHd)) (
     let pktHd = pktHd\<lparr>pktFrom := hostName h, pktLength := mailLength mailHd + word_of_int sizeof_MailHeader\<rparr> in
     bindR (buf_put buffer 0 (mail_bytes mailHd)) (\<lambda>buffer.
     bindR (buf_get dat 0 (uint (mailLength mailHd))) (\<lambda>d.
     bindR (buf_put buffer sizeof_MailHeader d) (\<lambda>buffer.
     bindR (NetworkOutput_Send S r junk pktHd buffer h n) (\<lambda>n.
     Inr (NetworkOutput_CallBack h, n)))))))"

section \<open>The machines on a network\<close>

record 'n net =
  stations :: "int32 \<Rightarrow> station"
  wire :: 'n

definition net_poll :: "'n sockets \<Rightarrow> int32 \<Rightarrow> 'n net \<Rightarrow> 'n net res" where
  "net_poll S B s =
     bindR (NetworkInput_CallBack S (stations s B) (wire s)) (\<lambda>(h, n). Inr (s\<lparr>stations := (stations s)(B := h), wire := n\<rparr>))"

definition net_deliver :: "byte list \<Rightarrow> int32 \<Rightarrow> 'n net \<Rightarrow> 'n net res option" where
  "net_deliver buffer B s =
     map_option (\<lambda>r. bindR r (\<lambda>(h, buffer). Inr (s\<lparr>stations := (stations s)(B := h)\<rparr>))) (PostalDelivery buffer (stations s B))"

definition net_send ::
    "'n sockets \<Rightarrow> int \<Rightarrow> byte list \<Rightarrow> byte list \<Rightarrow> packet_header \<Rightarrow> mail_header \<Rightarrow> byte list \<Rightarrow> int32 \<Rightarrow> 'n net \<Rightarrow> 'n net res" where
  "net_send S r junk buffer pktHd mailHd dat A s =
     bindR (PostOfficeOutput_Send S r junk buffer pktHd mailHd dat (stations s A) (wire s)) (\<lambda>(h, n).
     Inr (s\<lparr>stations := (stations s)(A := h), wire := n\<rparr>))"

definition net_receive :: "int32 \<Rightarrow> int \<Rightarrow> 'n net \<Rightarrow> ('n net \<times> mail) res option" where
  "net_receive B box s =
     map_option (\<lambda>r. bindR r (\<lambda>(h, mail). Inr (s\<lparr>stations := (stations s)(B := h)\<rparr>, mail))) (PostOfficeInput_Receive box (stations s B))"

section \<open>What the sockets promise\<close>

text \<open>Each socket is a queue of packets, \<open>q n a\<close>: the documented order of UNIX domain datagrams.\<close>

definition fifo :: "'n sockets \<Rightarrow> ('n \<Rightarrow> int32 \<Rightarrow> byte list list) \<Rightarrow> bool" where
  "fifo S q \<longleftrightarrow> (\<forall>a p n. q (SendToSocket S a p n) = (q n)(a := q n a @ [p])) \<and> (\<forall>a n. PollSocket S a n \<longleftrightarrow> q n a \<noteq> [])
     \<and> (\<forall>a n p ps. q n a = p # ps \<longrightarrow> (\<exists>n'. ReadFromSocket S a n = (p, n') \<and> q n' = (q n)(a := ps)))"

section \<open>Images of packets\<close>

lemma words_of_take: "4 * n \<le> k \<Longrightarrow> words_of n (take k bs) = words_of n bs"
proof (induction n arbitrary: k bs)
  case (Suc n)
  have "take (k - 4) (drop 4 bs) = drop 4 (take k bs)" by (simp add: drop_take)
  moreover have "take 4 (take k bs) = take 4 bs" using Suc.prems by (simp add: min_def)
  ultimately show ?case using Suc.IH [of "k - 4" "drop 4 bs"] Suc.prems by simp
qed simp

lemma pkt_of_bytes [simp]: "pkt_of (pkt_bytes h @ bs) = h"
  using words_of_bytes [of "[pktTo h, pktFrom h, pktLength h]" bs] by (simp add: pkt_of_def pkt_bytes_def numeral_3_eq_3)

lemma mail_of_bytes [simp]: "mail_of (mail_bytes h @ bs) = h"
  using words_of_bytes [of "[mailTo h, mailFrom h, mailLength h]" bs] by (simp add: mail_of_def mail_bytes_def numeral_3_eq_3)

lemma length_headers [simp]: "length (pkt_bytes h) = 12" "length (mail_bytes mh) = 12"
  by (simp_all add: pkt_bytes_def mail_bytes_def)

lemma mail_of_take: "12 \<le> k \<Longrightarrow> mail_of (take k bs) = mail_of bs"
  by (simp add: mail_of_def words_of_take)

lemma mail_of_cong: "take k b = take k b' \<Longrightarrow> 12 \<le> k \<Longrightarrow> mail_of b = mail_of b'"
  using mail_of_take [of k b] mail_of_take [of k b'] by simp

text \<open>The message in the body of a packet, and in a packet.\<close>

definition body_mail :: "packet_header \<Rightarrow> byte list \<Rightarrow> mail" where
  "body_mail h b = \<lparr>mailPkt = h, mailHdr = mail_of b, mailData = take (unat (mailLength (mail_of b))) (drop 12 b)\<rparr>"

definition packet_mail :: "byte list \<Rightarrow> mail" where
  "packet_mail p = body_mail (pkt_of p) (drop 12 p)"

lemma body_mail_cong:
  assumes "take k b = take k b'" "12 + unat (mailLength (mail_of b')) \<le> k"
  shows "body_mail h b = body_mail h b'"
proof -
  have m: "mail_of b = mail_of b'" by (rule mail_of_cong [OF assms(1)]) (use assms(2) in simp)
  have "take n (drop 12 b) = take n (drop 12 b')" if "12 + n \<le> k" for n
  proof -
    have e: "take n (drop 12 x) = drop 12 (take (12 + n) (take k x))" for x :: "byte list" using that by (simp add: min_def take_drop add.commute)
    show ?thesis by (simp only: e assms(1))
  qed
  then show ?thesis using m assms(2) by (simp add: body_mail_def)
qed

text \<open>A packet as \<open>Send\<close> makes them, for machine \<open>B\<close> with \<open>nb\<close> mailboxes.\<close>

definition legal :: "int \<Rightarrow> int32 \<Rightarrow> packet_header \<Rightarrow> byte list \<Rightarrow> bool" where
  "legal nb B h b \<longleftrightarrow> length b = 52 \<and> pktTo h = B \<and> unat (pktLength h) = unat (mailLength (mail_of b)) + 12
     \<and> unat (mailLength (mail_of b)) \<le> 40 \<and> 0 \<le> sint (mailTo (mail_of b)) \<and> sint (mailTo (mail_of b)) < nb"

text \<open>Everything on the network is in order, and the semaphore counts the buffered packet.\<close>

definition station_wf :: "byte list list \<Rightarrow> int32 \<Rightarrow> station \<Rightarrow> bool" where
  "station_wf ps B h \<longleftrightarrow> hostName h = B \<and> \<not> sendBusy h \<and> numBoxes h = int (length (boxes h)) \<and> length (inbox h) = 52
     \<and> (\<forall>p \<in> set ps. length p = 64 \<and> legal (numBoxes h) B (pkt_of p) (drop 12 p))
     \<and> (if pktLength (inHdr h) = 0 then messageAvailable h = 0 else messageAvailable h = 1 \<and> legal (numBoxes h) B (inHdr h) (inbox h))
     \<and> (\<forall>l \<in> set (boxes h). \<forall>m \<in> set l. unat (mailLength (mailHdr m)) \<le> 40)"

text \<open>The messages on their way to a machine, and those that mailbox \<open>box\<close> will deliver, in order.\<close>

definition transit :: "byte list list \<Rightarrow> station \<Rightarrow> mail list" where
  "transit ps h = (if pktLength (inHdr h) = 0 then [] else [body_mail (inHdr h) (inbox h)]) @ map packet_mail ps"

definition box_queue :: "byte list list \<Rightarrow> station \<Rightarrow> int \<Rightarrow> mail list" where
  "box_queue ps h box = boxes h ! nat box @ filter (\<lambda>m. sint (mailTo (mailHdr m)) = box) (transit ps h)"

section \<open>The routines\<close>

lemmas net_sizes = MaxWireSize_def MaxPacketSize_def MaxMailSize_def sizeof_PacketHeader_def sizeof_MailHeader_def

lemma uint_le_unat: "uint (w :: 32 word) \<le> numeral k \<longleftrightarrow> unat w \<le> numeral k"
proof -
  have "uint w = int (unat w)" by simp
  then show ?thesis by (simp only: of_nat_le_numeral_iff)
qed

lemma buf_get_unat:
  assumes "i + unat w \<le> length buf"
  shows "buf_get buf (int i) (uint (w :: 32 word)) = Inr (take (unat w) (drop i buf))"
proof -
  have e: "uint w = int (unat w)" by simp
  show ?thesis unfolding buf_get_def e
    using assms by (simp only: nat_int of_nat_0_le_iff of_nat_add [symmetric] of_nat_le_iff simp_thms if_True)
qed

lemma overlay_front: "overlay xs 0 ys = ys @ drop (length ys) xs"
  by (simp add: overlay_def)

lemma poll_ok:
  assumes S: "fifo S q" and wf: "station_wf (q n B) B h"
  obtains h' n' where "NetworkInput_CallBack S h n = Inr (h', n')" "\<forall>C. C \<noteq> B \<longrightarrow> q n' C = q n C" "station_wf (q n' B) B h'"
    "numBoxes h' = numBoxes h" "\<forall>box. box_queue (q n' B) h' box = box_queue (q n B) h box"
proof (cases "pktLength (inHdr h) \<noteq> 0 \<or> q n B = []")
  case True
  then have "NetworkInput_CallBack S h n = Inr (h, n)" using S wf by (auto simp: NetworkInput_CallBack_def fifo_def station_wf_def)
  then show ?thesis using that [of h n] wf by simp
next
  case False
  then obtain p ps where p: "q n B = p # ps" and h0: "pktLength (inHdr h) = 0" by (cases "q n B") auto
  obtain n' where n': "ReadFromSocket S B n = (p, n')" "q n' = (q n)(B := ps)" using S p unfolding fifo_def by blast
  have name: "hostName h = B" "length (inbox h) = 52" using wf by (simp_all add: station_wf_def)
  have lp: "length p = 64" and leg: "legal (numBoxes h) B (pkt_of p) (drop 12 p)" using wf p by (auto simp: station_wf_def)
  let ?len = "unat (pktLength (pkt_of p))"
  have len: "?len \<le> 52" "12 \<le> ?len" "pktTo (pkt_of p) = B" "pktLength (pkt_of p) \<noteq> 0"
    using leg by (auto simp: legal_def)
  let ?d = "take ?len (drop 12 p)"
  let ?b = "?d @ drop ?len (inbox h)"
  let ?h = "h\<lparr>inHdr := pkt_of p, inbox := ?b, numPacketsRecvd := numPacketsRecvd h + 1, messageAvailable := messageAvailable h + 1\<rparr>"
  have get: "buf_get p 12 (uint (pktLength (pkt_of p))) = Inr ?d" using buf_get_unat [of 12 "pktLength (pkt_of p)" p] len(1) lp by simp
  have put: "buf_put (inbox h) 0 ?d = Inr ?b" using len(1) lp name(2) by (simp add: buf_put_def overlay_front min_def uint_le_unat)
  have "PollSocket S B n" using S p by (simp add: fifo_def)
  then have "NetworkInput_CallBack S h n = Inr (?h, n')"
    using h0 n'(1) name(1) len(1,3) get put
    by (simp add: NetworkInput_CallBack_def PostOfficeInput_CallBack_def net_sizes uint_le_unat Let_def)
  moreover have agree: "take ?len ?b = take ?len (drop 12 p)" using len(1) lp by (simp add: min_def)
  have m: "mail_of ?b = mail_of (drop 12 p)" by (rule mail_of_cong [OF agree len(2)])
  then have "legal (numBoxes h) B (pkt_of p) ?b" using leg lp len(1) name(2) by (simp add: legal_def)
  then have "station_wf ps B ?h" using wf p h0 len(1,4) by (auto simp: station_wf_def min_def)
  moreover have "body_mail (pkt_of p) ?b = packet_mail p"
    unfolding packet_mail_def by (rule body_mail_cong [OF agree]) (use leg in \<open>simp add: legal_def\<close>)
  then have "transit ps ?h = transit (p # ps) h" using h0 len(4) by (simp add: transit_def)
  then have "\<forall>box. box_queue ps ?h box = box_queue (p # ps) h box" by (simp add: box_queue_def)
  ultimately show ?thesis using that [of ?h n'] n'(2) p by simp
qed

lemma deliver_ok:
  assumes wf: "station_wf ps B h" and av: "messageAvailable h \<noteq> 0" and buf: "length buffer = 52"
  obtains h' b' where "PostalDelivery buffer h = Some (Inr (h', b'))" "station_wf ps B h'" "length b' = 52" "numBoxes h' = numBoxes h"
    "\<forall>box. 0 \<le> box \<and> box < numBoxes h \<longrightarrow> box_queue ps h' box = box_queue ps h box"
proof -
  have in1: "pktLength (inHdr h) \<noteq> 0" "messageAvailable h = 1" and leg: "legal (numBoxes h) B (inHdr h) (inbox h)"
    using wf av by (auto simp: station_wf_def split: if_splits)
  have nb: "numBoxes h = int (length (boxes h))" using wf by (simp add: station_wf_def)
  let ?len = "unat (pktLength (inHdr h))" and ?mh = "mail_of (inbox h)"
  let ?m = "body_mail (inHdr h) (inbox h)"
  have len: "?len \<le> 52" "?len = unat (mailLength ?mh) + 12" "length (inbox h) = 52" "unat (mailLength ?mh) \<le> 40"
      "0 \<le> sint (mailTo ?mh)" "sint (mailTo ?mh) < numBoxes h" using leg by (simp_all add: legal_def)
  let ?d = "take ?len (inbox h)"
  let ?b = "?d @ drop ?len buffer"
  let ?to = "nat (sint (mailTo ?mh))"
  let ?h = "h\<lparr>messageAvailable := 0, inHdr := (inHdr h)\<lparr>pktLength := 0\<rparr>, boxes := (boxes h)[?to := boxes h ! ?to @ [?m]]\<rparr>"
  have agree: "take ?len ?b = take ?len (inbox h)" using len(1,3) by simp
  have body: "body_mail (inHdr h) ?b = ?m" by (rule body_mail_cong [OF agree]) (use len(2) in simp)
  then have mh: "mail_of ?b = ?mh" by (simp add: body_mail_def)
  have get: "buf_get (inbox h) 0 (uint (pktLength (inHdr h))) = Inr ?d" using buf_get_unat [of 0 "pktLength (inHdr h)" "inbox h"] len(1,3) by simp
  have put: "buf_put buffer 0 ?d = Inr ?b" using len(1,3) buf by (simp add: buf_put_def overlay_front uint_le_unat)
  have "Mail_new (inHdr h) ?mh (drop 12 ?b) = Inr ?m"
    using buf_get_unat [of 0 "mailLength ?mh" "drop 12 ?b"] len body buf
    by (simp add: Mail_new_def net_sizes uint_le_unat body_mail_def mh drop_take)
  moreover have to: "?to < length (boxes h)" using len(5,6) nb by simp
  ultimately have "PostalDelivery buffer h = Some (Inr (?h, ?b))"
    using in1 get put mh len by (simp add: PostalDelivery_def NetworkInput_Receive_def MailBox_Put_def net_sizes Let_def uint_le_unat)
  moreover have "station_wf ps B ?h"
    using wf len(4) nth_mem [OF to] by (auto simp: station_wf_def body_mail_def dest!: set_update_subset_insert [THEN subsetD])
  moreover have "box_queue ps ?h box = box_queue ps h box"
    if "0 \<le> box" for box
    using that in1(1) to len(5) by (auto simp: box_queue_def transit_def body_mail_def nth_list_update)
  ultimately show ?thesis using that [of ?h ?b] len buf by simp
qed

text \<open>A message for a mailbox that the machine does not have stops its kernel.\<close>

lemma deliver_unknown_box:
  assumes "messageAvailable h \<noteq> 0" "pktLength (inHdr h) \<noteq> 0" "legal nb B (inHdr h) (inbox h)" "length buffer = 52"
    "numBoxes h \<le> sint (mailTo (mail_of (inbox h)))"
  shows "PostalDelivery buffer h = Some (Inl AssertFailed)"
proof -
  let ?len = "unat (pktLength (inHdr h))"
  have len: "?len \<le> 52" "12 \<le> ?len" "length (inbox h) = 52" using assms(3) by (simp_all add: legal_def)
  let ?b = "take ?len (inbox h) @ drop ?len buffer"
  have get: "buf_get (inbox h) 0 (uint (pktLength (inHdr h))) = Inr (take ?len (inbox h))"
    using buf_get_unat [of 0 "pktLength (inHdr h)" "inbox h"] len by simp
  have put: "buf_put buffer 0 (take ?len (inbox h)) = Inr ?b" using len assms(4) by (simp add: buf_put_def overlay_front uint_le_unat)
  have "mail_of ?b = mail_of (inbox h)" by (rule mail_of_cong [OF _ len(2)]) (use len in simp)
  then show ?thesis using assms(1,2,5) get put by (simp add: PostalDelivery_def NetworkInput_Receive_def Let_def)
qed

lemma receive_ok:
  assumes wf: "station_wf ps B h" and box: "0 \<le> box" "box < numBoxes h" and l: "boxes h ! nat box = m # l"
  obtains h' where "PostOfficeInput_Receive box h = Some (Inr (h', m))" "station_wf ps B h'" "numBoxes h' = numBoxes h"
    "box_queue ps h box = m # box_queue ps h' box"
    "\<forall>b. 0 \<le> b \<and> b \<noteq> box \<longrightarrow> box_queue ps h' b = box_queue ps h b"
proof -
  have nb: "nat box < length (boxes h)" using wf box by (simp add: station_wf_def)
  have "\<forall>m \<in> set (boxes h ! nat box). unat (mailLength (mailHdr m)) \<le> 40" using wf nth_mem [OF nb] unfolding station_wf_def by blast
  then have m: "unat (mailLength (mailHdr m)) \<le> 40" "\<forall>m \<in> set l. unat (mailLength (mailHdr m)) \<le> 40" using l by simp_all
  let ?h = "h\<lparr>boxes := (boxes h)[nat box := l]\<rparr>"
  have "PostOfficeInput_Receive box h = Some (Inr (?h, m))"
    using box l nb m(1) by (simp add: PostOfficeInput_Receive_def MailBox_Get_def net_sizes uint_le_unat)
  moreover have "station_wf ps B ?h"
    using wf m(2) by (auto simp: station_wf_def dest!: set_update_subset_insert [THEN subsetD])
  moreover have "transit ps ?h = transit ps h" by (simp add: transit_def)
  ultimately show ?thesis using that [of ?h] l nb box by (simp add: box_queue_def nth_list_update eq_nat_nat_iff)
qed

text \<open>\<open>Send\<close> gives the packet to the socket of the destination, or loses it.\<close>

definition sent_packet :: "byte list \<Rightarrow> byte list \<Rightarrow> packet_header \<Rightarrow> mail_header \<Rightarrow> byte list \<Rightarrow> byte list" where
  "sent_packet junk buffer pktHd mailHd d =
     pkt_bytes pktHd @ mail_bytes mailHd @ d @ drop (24 + length d) junk"

lemma send_ok:
  assumes len: "unat (mailLength mailHd) \<le> 40" "unat (mailLength mailHd) \<le> length dat" and to: "0 \<le> sint (mailTo mailHd)" and busy: "\<not> sendBusy h"
    and bufs: "length junk = 64" "length buffer = 52"
    and hdr_def: "hdr = pktHd\<lparr>pktFrom := hostName h, pktLength := mailLength mailHd + 12\<rparr>"
  shows "PostOfficeOutput_Send S r junk buffer pktHd mailHd dat h n =
    Inr (NetworkOutput_CallBack h, if packet_lost r (chanceToWork h) then n
      else SendToSocket S (pktTo pktHd) (sent_packet junk buffer hdr mailHd (take (unat (mailLength mailHd)) dat)) n)"
    "unat (pktLength hdr) = unat (mailLength mailHd) + 12"
proof -
  let ?d = "take (unat (mailLength mailHd)) dat"
  have l: "unat (mailLength mailHd + 12) = unat (mailLength mailHd) + 12"
    using len(1) by (subst unat_add_lem [THEN iffD1]) simp_all
  then show "unat (pktLength hdr) = unat (mailLength mailHd) + 12" by (simp add: hdr_def)
  have pl: "unat (pktLength hdr) \<le> 52" "pktLength hdr \<noteq> 0" using l len(1) by (auto simp: hdr_def simp flip: unat_eq_zero)
  have ld: "length ?d = unat (mailLength mailHd)" using len(2) by simp
  let ?body = "mail_bytes mailHd @ ?d @ drop (12 + length ?d) buffer"
  have "buf_put buffer 0 (mail_bytes mailHd) = Inr (mail_bytes mailHd @ drop 12 buffer)" using bufs by (simp add: buf_put_def overlay_front)
  moreover have "buf_get dat 0 (uint (mailLength mailHd)) = Inr ?d" using buf_get_unat [of 0 "mailLength mailHd" dat] len(2) by simp
  moreover have "buf_put (mail_bytes mailHd @ drop 12 buffer) 12 ?d = Inr ?body"
    using bufs ld len(1) by (simp add: buf_put_def overlay_def add.commute uint_le_unat)
  moreover have "NetworkOutput_Send S r junk hdr ?body h n = Inr (if packet_lost r (chanceToWork h) then n
      else SendToSocket S (pktTo pktHd) (sent_packet junk buffer hdr mailHd ?d) n)"
  proof -
    have "buf_put junk 0 (pkt_bytes hdr) = Inr (pkt_bytes hdr @ drop 12 junk)" using bufs by (simp add: buf_put_def overlay_front)
    moreover have "buf_get ?body 0 (uint (pktLength hdr)) = Inr (mail_bytes mailHd @ ?d)"
      using buf_get_unat [of 0 "pktLength hdr" ?body] l ld bufs len(1) by (simp add: hdr_def)
    moreover have "buf_put (pkt_bytes hdr @ drop 12 junk) 12 (mail_bytes mailHd @ ?d) = Inr (sent_packet junk buffer hdr mailHd ?d)"
      using bufs ld len(1) by (simp add: buf_put_def overlay_def sent_packet_def add.commute uint_le_unat)
    ultimately show ?thesis using pl busy by (simp add: NetworkOutput_Send_def net_sizes uint_le_unat hdr_def)
  qed
  ultimately show "PostOfficeOutput_Send S r junk buffer pktHd mailHd dat h n =
    Inr (NetworkOutput_CallBack h, if packet_lost r (chanceToWork h) then n
      else SendToSocket S (pktTo pktHd) (sent_packet junk buffer hdr mailHd ?d) n)"
    using len(1) to by (simp add: PostOfficeOutput_Send_def net_sizes uint_le_unat hdr_def)
qed

lemma sent_packet_mail:
  assumes "length d = unat (mailLength mailHd)" "unat (mailLength mailHd) \<le> 40" "length junk = 64"
  shows "packet_mail (sent_packet junk buffer hdr mailHd d) = \<lparr>mailPkt = hdr, mailHdr = mailHd, mailData = d\<rparr>"
    "length (sent_packet junk buffer hdr mailHd d) = 64" "pkt_of (sent_packet junk buffer hdr mailHd d) = hdr"
    "mail_of (drop 12 (sent_packet junk buffer hdr mailHd d)) = mailHd"
  using assms by (simp_all add: packet_mail_def body_mail_def sent_packet_def)

section \<open>Properties\<close>

definition net_wf :: "('n \<Rightarrow> int32 \<Rightarrow> byte list list) \<Rightarrow> 'n net \<Rightarrow> bool" where
  "net_wf q s \<longleftrightarrow> (\<forall>B. station_wf (q (wire s) B) B (stations s B))"

text \<open>The messages that mailbox \<open>box\<close> of machine \<open>B\<close> holds or will get.\<close>

definition mail_queue :: "('n \<Rightarrow> int32 \<Rightarrow> byte list list) \<Rightarrow> 'n net \<Rightarrow> int32 \<Rightarrow> int \<Rightarrow> mail list" where
  "mail_queue q s B box = box_queue (q (wire s) B) (stations s B) box"

definition is_box :: "'n net \<Rightarrow> int32 \<Rightarrow> int \<Rightarrow> bool" where
  "is_box s B box \<longleftrightarrow> 0 \<le> box \<and> box < numBoxes (stations s B)"

lemma net_wf_upd:
  assumes "net_wf q s" "station_wf (q n B) B h" "\<forall>C. C \<noteq> B \<longrightarrow> q n C = q (wire s) C"
  shows "net_wf q (s\<lparr>stations := (stations s)(B := h), wire := n\<rparr>)"
  using assms by (auto simp: net_wf_def)

lemma net_poll_ok:
  assumes S: "fifo S q" and wf: "net_wf q s"
  shows "\<exists>s'. net_poll S B s = Inr s' \<and> net_wf q s' \<and> mail_queue q s' = mail_queue q s \<and> is_box s' = is_box s"
proof -
  have "station_wf (q (wire s) B) B (stations s B)" using wf by (simp add: net_wf_def)
  then obtain h n where h: "NetworkInput_CallBack S (stations s B) (wire s) = Inr (h, n)" "\<forall>C. C \<noteq> B \<longrightarrow> q n C = q (wire s) C"
    "station_wf (q n B) B h" "numBoxes h = numBoxes (stations s B)" "\<forall>box. box_queue (q n B) h box = box_queue (q (wire s) B) (stations s B) box"
    by (rule poll_ok [OF S]) (rule that; assumption)
  let ?s = "s\<lparr>stations := (stations s)(B := h), wire := n\<rparr>"
  have "mail_queue q ?s = mail_queue q s" "is_box ?s = is_box s"
    using h(2,4,5) by (auto simp: mail_queue_def is_box_def fun_eq_iff)
  then show ?thesis using h(1) net_wf_upd [OF wf h(3,2)] by (simp add: net_poll_def)
qed

lemma net_deliver_ok:
  assumes wf: "net_wf q s" and av: "messageAvailable (stations s B) \<noteq> 0" and buf: "length buffer = 52"
  shows "\<exists>s'. net_deliver buffer B s = Some (Inr s') \<and> net_wf q s' \<and> is_box s' = is_box s
    \<and> (\<forall>C box. is_box s C box \<longrightarrow> mail_queue q s' C box = mail_queue q s C box)"
proof -
  have "station_wf (q (wire s) B) B (stations s B)" using wf by (simp add: net_wf_def)
  then obtain h b where h: "PostalDelivery buffer (stations s B) = Some (Inr (h, b))" "station_wf (q (wire s) B) B h" "length b = 52"
    "numBoxes h = numBoxes (stations s B)"
    "\<forall>box. 0 \<le> box \<and> box < numBoxes (stations s B) \<longrightarrow> box_queue (q (wire s) B) h box = box_queue (q (wire s) B) (stations s B) box"
    using av buf by (rule deliver_ok) (rule that; assumption)
  let ?s = "s\<lparr>stations := (stations s)(B := h)\<rparr>"
  have "net_wf q ?s" using net_wf_upd [OF wf h(2)] by (simp add: net_wf_def)
  moreover have "is_box ?s = is_box s" using h(4) by (auto simp: is_box_def fun_eq_iff)
  moreover have "mail_queue q ?s C box = mail_queue q s C box" if "is_box s C box" for C box
    using that h(5) by (auto simp: mail_queue_def is_box_def)
  ultimately show ?thesis using h(1) by (simp add: net_deliver_def)
qed

lemma net_receive_ok:
  assumes wf: "net_wf q s" and box: "is_box s B box" and l: "boxes (stations s B) ! nat box = m # l"
  shows "\<exists>s'. net_receive B box s = Some (Inr (s', m)) \<and> net_wf q s' \<and> is_box s' = is_box s \<and> mail_queue q s B box = m # mail_queue q s' B box
    \<and> (\<forall>C b. is_box s C b \<and> (C, b) \<noteq> (B, box) \<longrightarrow> mail_queue q s' C b = mail_queue q s C b)"
proof -
  have st: "station_wf (q (wire s) B) B (stations s B)" using wf by (simp add: net_wf_def)
  have b: "0 \<le> box" "box < numBoxes (stations s B)" using box by (simp_all add: is_box_def)
  obtain h where h: "PostOfficeInput_Receive box (stations s B) = Some (Inr (h, m))" "station_wf (q (wire s) B) B h" "numBoxes h = numBoxes (stations s B)"
    "box_queue (q (wire s) B) (stations s B) box = m # box_queue (q (wire s) B) h box"
    "\<forall>b. 0 \<le> b \<and> b \<noteq> box \<longrightarrow> box_queue (q (wire s) B) h b = box_queue (q (wire s) B) (stations s B) b"
    by (rule receive_ok [OF st b l]) (rule that; assumption)
  let ?s = "s\<lparr>stations := (stations s)(B := h)\<rparr>"
  have "net_wf q ?s" using net_wf_upd [OF wf h(2)] by (simp add: net_wf_def)
  moreover have "is_box ?s = is_box s" using h(3) by (auto simp: is_box_def fun_eq_iff)
  moreover have "mail_queue q ?s C b = mail_queue q s C b" if "is_box s C b" "(C, b) \<noteq> (B, box)" for C b
    using that h(5) by (auto simp: mail_queue_def is_box_def)
  ultimately show ?thesis using h(1,4) by (simp add: net_receive_def mail_queue_def)
qed

lemma net_send_ok:
  assumes S: "fifo S q" and wf: "net_wf q s" and len: "unat (mailLength mailHd) \<le> 40" "unat (mailLength mailHd) \<le> length dat"
    and box: "is_box s (pktTo pktHd) (sint (mailTo mailHd))" and bufs: "length junk = 64" "length buffer = 52"
    and m: "m = \<lparr>mailPkt = pktHd\<lparr>pktFrom := A, pktLength := mailLength mailHd + 12\<rparr>, mailHdr = mailHd, mailData = take (unat (mailLength mailHd)) dat\<rparr>"
  shows "\<exists>s'. net_send S r junk buffer pktHd mailHd dat A s = Inr s' \<and> net_wf q s' \<and> is_box s' = is_box s
    \<and> (\<forall>C b. mail_queue q s' C b = mail_queue q s C b @
        (if C = pktTo pktHd \<and> b = sint (mailTo mailHd) \<and> \<not> packet_lost r (chanceToWork (stations s A)) then [m] else []))"
proof -
  let ?h = "stations s A" and ?B = "pktTo pktHd"
  let ?hdr = "pktHd\<lparr>pktFrom := hostName ?h, pktLength := mailLength mailHd + 12\<rparr>"
  let ?d = "take (unat (mailLength mailHd)) dat"
  let ?p = "sent_packet junk buffer ?hdr mailHd ?d"
  let ?n = "if packet_lost r (chanceToWork ?h) then wire s else SendToSocket S ?B ?p (wire s)"
  have A: "hostName ?h = A" "\<not> sendBusy ?h" using wf by (simp_all add: net_wf_def station_wf_def)
  note sd = send_ok(1) [where S = S and r = r and n = "wire s" and pktHd = pktHd, OF len _ A(2) bufs refl]
    and sd2 = send_ok(2) [where pktHd = pktHd, OF len _ A(2) bufs refl]
  have to: "0 \<le> sint (mailTo mailHd)" using box by (simp add: is_box_def)
  note pm = sent_packet_mail [of ?d mailHd junk buffer ?hdr, OF _ len(1) bufs(1)]
  have ld: "length ?d = unat (mailLength mailHd)" using len(2) by simp
  let ?s = "s\<lparr>stations := (stations s)(A := NetworkOutput_CallBack ?h), wire := ?n\<rparr>"
  have run: "net_send S r junk buffer pktHd mailHd dat A s = Inr ?s" using sd [OF to] by (simp add: net_send_def)
  have q: "q ?n C = q (wire s) C @ (if C = ?B \<and> \<not> packet_lost r (chanceToWork ?h) then [?p] else [])" for C
    using S by (simp add: fifo_def)
  have leg: "legal (numBoxes (stations s ?B)) ?B (pkt_of ?p) (drop 12 ?p)"
    using pm(2-4) [OF ld] sd2 [OF to] len(1) box by (simp add: legal_def is_box_def)
  have st: "station_wf (q ?n C) C (stations ?s C)" for C
  proof -
    have "station_wf (q (wire s) C) C (stations s C)" using wf by (simp add: net_wf_def)
    then show ?thesis using leg pm(2) [OF ld] unfolding q by (auto simp: station_wf_def NetworkOutput_CallBack_def)
  qed
  have tr: "transit ps (stations ?s C) = transit ps (stations s C)" "boxes (stations ?s C) = boxes (stations s C)" "numBoxes (stations ?s C) = numBoxes (stations s C)" for ps C
    by (simp_all add: transit_def NetworkOutput_CallBack_def)
  have "transit (ps @ ps') h = transit ps h @ map packet_mail ps'" for ps ps' h by (simp add: transit_def)
  then have "mail_queue q ?s C b = mail_queue q s C b @ (if C = ?B \<and> b = sint (mailTo mailHd) \<and> \<not> packet_lost r (chanceToWork ?h) then [m] else [])" for C b
    using pm(1) [OF ld] tr A(1) by (auto simp: mail_queue_def box_queue_def q m)
  moreover have "net_wf q ?s" using st by (simp add: net_wf_def)
  moreover have "is_box ?s = is_box s" using tr(3) by (auto simp: is_box_def fun_eq_iff)
  ultimately show ?thesis using run by blast
qed

text \<open>
  C21. The post office implements a queue of messages per mailbox, over machines connected by
  sockets that keep packets in order. \<open>Send\<close> appends the message, with the sender filled in,
  to the queue of its mailbox, or drops it; the network interrupt and the postal worker move
  messages without changing any queue; \<open>Receive\<close> returns the oldest message as it was sent.
  No assertion of the device or the post office fails. A network with reliability 1 or more
  drops nothing, one with 0 or less drops everything.
\<close>

theorem post_office_refines_queues:
  assumes "fifo S q" "net_wf q s" "length junk = 64" "length buffer = 52"
  shows "(\<exists>s'. net_poll S B s = Inr s' \<and> net_wf q s' \<and> mail_queue q s' = mail_queue q s)
    \<and> (messageAvailable (stations s B) \<noteq> 0 \<longrightarrow> (\<exists>s'. net_deliver buffer B s = Some (Inr s') \<and> net_wf q s'
        \<and> (\<forall>C b. is_box s C b \<longrightarrow> mail_queue q s' C b = mail_queue q s C b)))
    \<and> (unat (mailLength mailHd) \<le> 40 \<and> unat (mailLength mailHd) \<le> length dat \<and> is_box s (pktTo pktHd) (sint (mailTo mailHd)) \<longrightarrow>
        (\<exists>s'. net_send S r junk buffer pktHd mailHd dat A s = Inr s' \<and> net_wf q s'
        \<and> (\<forall>C b. mail_queue q s' C b = mail_queue q s C b @
            (if C = pktTo pktHd \<and> b = sint (mailTo mailHd) \<and> \<not> packet_lost r (chanceToWork (stations s A))
             then [\<lparr>mailPkt = pktHd\<lparr>pktFrom := A, pktLength := mailLength mailHd + 12\<rparr>, mailHdr = mailHd,
                    mailData = take (unat (mailLength mailHd)) dat\<rparr>] else []))))
    \<and> (is_box s B box \<and> boxes (stations s B) ! nat box \<noteq> [] \<longrightarrow>
        (\<exists>s' m. net_receive B box s = Some (Inr (s', m)) \<and> net_wf q s' \<and> mail_queue q s B box = m # mail_queue q s' B box
        \<and> (\<forall>C b. is_box s C b \<and> (C, b) \<noteq> (B, box) \<longrightarrow> mail_queue q s' C b = mail_queue q s C b)))
    \<and> (reliability \<ge> 1 \<longrightarrow> \<not> packet_lost r (chance_of reliability)) \<and> (reliability \<le> 0 \<and> 0 \<le> r \<longrightarrow> packet_lost r (chance_of reliability))"
proof (intro conjI impI)
  show "\<exists>s'. net_poll S B s = Inr s' \<and> net_wf q s' \<and> mail_queue q s' = mail_queue q s" using net_poll_ok [OF assms(1,2)] by blast
  show "\<exists>s'. net_deliver buffer B s = Some (Inr s') \<and> net_wf q s' \<and> (\<forall>C b. is_box s C b \<longrightarrow> mail_queue q s' C b = mail_queue q s C b)"
    if "messageAvailable (stations s B) \<noteq> 0" using net_deliver_ok [OF assms(2) that assms(4)] by blast
  show "\<exists>s'. net_send S r junk buffer pktHd mailHd dat A s = Inr s' \<and> net_wf q s'
        \<and> (\<forall>C b. mail_queue q s' C b = mail_queue q s C b @
            (if C = pktTo pktHd \<and> b = sint (mailTo mailHd) \<and> \<not> packet_lost r (chanceToWork (stations s A))
             then [\<lparr>mailPkt = pktHd\<lparr>pktFrom := A, pktLength := mailLength mailHd + 12\<rparr>, mailHdr = mailHd,
                    mailData = take (unat (mailLength mailHd)) dat\<rparr>] else []))"
    if "unat (mailLength mailHd) \<le> 40 \<and> unat (mailLength mailHd) \<le> length dat \<and> is_box s (pktTo pktHd) (sint (mailTo mailHd))"
    using net_send_ok [OF assms(1,2) _ _ _ assms(3,4) refl, of mailHd dat pktHd r A] that by blast
  show "\<exists>s' m. net_receive B box s = Some (Inr (s', m)) \<and> net_wf q s' \<and> mail_queue q s B box = m # mail_queue q s' B box
        \<and> (\<forall>C b. is_box s C b \<and> (C, b) \<noteq> (B, box) \<longrightarrow> mail_queue q s' C b = mail_queue q s C b)"
    if b: "is_box s B box \<and> boxes (stations s B) ! nat box \<noteq> []"
  proof -
    obtain m l where "boxes (stations s B) ! nat box = m # l" using b by (cases "boxes (stations s B) ! nat box") auto
    then show ?thesis using net_receive_ok [OF assms(2)] b by blast
  qed
  have "- (- r mod 100) < 100" using pos_mod_sign [of 100 "- r"] by linarith
  then have "r smod 100 < 100" by (simp add: signed_modulo_int_def sgn_if)
  then show "\<not> packet_lost r (chance_of reliability)" if "1 \<le> reliability" using that by (simp add: packet_lost_def chance_of_def)
  have "0 \<le> real_of_int (r mod 100)" by simp
  then show "packet_lost r (chance_of reliability)" if "reliability \<le> 0 \<and> 0 \<le> r" using that by (auto simp: packet_lost_def chance_of_def)
qed

text \<open>C21, on machines with ten mailboxes each, whose sockets are queues.\<close>

definition queue_sockets :: "(int32 \<Rightarrow> byte list list) sockets" where
  "queue_sockets = \<lparr>SendToSocket = (\<lambda>a p n. n(a := n a @ [p])), PollSocket = (\<lambda>a n. n a \<noteq> []),
     ReadFromSocket = (\<lambda>a n. (hd (n a), n(a := tl (n a))))\<rparr>"

definition net10 :: "(int32 \<Rightarrow> byte list list) net" where
  "net10 = \<lparr>stations = (\<lambda>B. station_new B \<lparr>pktTo = 0, pktFrom = 0, pktLength = 0\<rparr> (replicate 52 0) 10 1), wire = (\<lambda>_. [])\<rparr>"

lemma net10_wf: "fifo queue_sockets (\<lambda>n. n)" "net_wf (\<lambda>n. n) net10"
proof -
  show "fifo queue_sockets (\<lambda>n. n)" by (simp add: fifo_def queue_sockets_def)
  show "net_wf (\<lambda>n. n) net10" by (simp add: net_wf_def net10_def station_new_def station_wf_def)
qed

theorem post_office_refines_queues_witness:
  "\<exists>s. net_send queue_sockets 0 (replicate 64 0) (replicate 52 0) \<lparr>pktTo = 2, pktFrom = 0, pktLength = 0\<rparr>
        \<lparr>mailTo = 3, mailFrom = 1, mailLength = 2\<rparr> [65, 66] 1 net10 = Inr s
     \<and> map mailData (mail_queue (\<lambda>n. n) s 2 3) = [[65, 66]]"
proof -
  let ?p = "\<lparr>pktTo = 2, pktFrom = 0, pktLength = 0\<rparr>" and ?m = "\<lparr>mailTo = 3, mailFrom = 1, mailLength = 2\<rparr>"
  have l: "length (replicate 64 (0 :: byte)) = 64" "length (replicate 52 (0 :: byte)) = 52" by simp_all
  have box: "is_box net10 2 3" by (simp add: is_box_def net10_def station_new_def)
  have e: "mail_queue (\<lambda>n. n) net10 2 3 = []" by (simp add: mail_queue_def box_queue_def transit_def net10_def station_new_def)
  have c: "\<not> packet_lost 0 (chanceToWork (stations net10 1))" by (simp add: packet_lost_def net10_def station_new_def chance_of_def)
  note post_office_refines_queues [OF net10_wf l, of _ ?m "[65, 66]" ?p 0 1, THEN conjunct2, THEN conjunct2, THEN conjunct1]
  then obtain s where s: "net_send queue_sockets 0 (replicate 64 0) (replicate 52 0) ?p ?m [65, 66] 1 net10 = Inr s"
    "mail_queue (\<lambda>n. n) s 2 3 = mail_queue (\<lambda>n. n) net10 2 3 @ [\<lparr>mailPkt = ?p\<lparr>pktFrom := 1, pktLength := 2 + 12\<rparr>, mailHdr = ?m, mailData = take 2 [65, 66]\<rparr>]"
    using box c by fastforce
  then show ?thesis using e by (intro exI [of _ s]) simp
qed

end
