(* ===== verification/Dump.thy ===== *)
theory Dump
  imports FileSys
begin

text \<open>
  The printing routines of the file system (\<open>Bitmap::Print\<close>, \<open>FileHeader::Print\<close>,
  \<open>Directory::Print\<close>, \<open>FileSystem::Print\<close>), with the text that they print: they read every file
  from the disk and must not change anything.
\<close>

section \<open>Text\<close>

definition ptext :: "string \<Rightarrow> byte list" where
  "ptext s = map of_char s"

text \<open>The conversions \<open>%d\<close> and \<open>%x\<close>.\<close>

function show_base :: "nat \<Rightarrow> nat \<Rightarrow> string" where
  "show_base b n = (if n < b \<or> b < 2 then [''0123456789abcdef'' ! n] else show_base b (n div b) @ [''0123456789abcdef'' ! (n mod b)])"
  by pat_completeness auto
termination by (relation "measure snd") auto

declare show_base.simps [simp del]

definition show_d :: "int \<Rightarrow> byte list" where
  "show_d i = ptext ((if i < 0 then ''-'' else []) @ show_base 10 (nat \<bar>i\<bar>))"

definition show_x :: "byte \<Rightarrow> byte list" where
  "show_x b = ptext (show_base 16 (unat b))"

section \<open>Bitmaps\<close>

primrec Bitmap_Print_loop :: "bitmap \<Rightarrow> int list \<Rightarrow> byte list res" where
  "Bitmap_Print_loop b [] = Inr []"
| "Bitmap_Print_loop b (i # is) =
     bindR (Bitmap_Test b i) (\<lambda>marked.
     bindR (Bitmap_Print_loop b is) (\<lambda>t. Inr ((if marked then show_d i @ ptext '', '' else []) @ t)))"

definition Bitmap_Print :: "bitmap \<Rightarrow> byte list res" where
  "Bitmap_Print b =
     bindR (Bitmap_Print_loop b (map int [0..<nat (numBits b)])) (\<lambda>t. Inr (ptext ''Bitmap set:\<newline>'' @ t @ ptext ''\<newline>''))"

section \<open>File headers\<close>

text \<open>\<open>char\<close> is signed: bytes from 128 on are negative and fail the first comparison.\<close>

definition char_text :: "byte \<Rightarrow> byte list" where
  "char_text b = (if 32 \<le> sint b \<and> sint b \<le> 126 then [b] else ptext [CHR 0x5C] @ show_x b)"

primrec Print_bytes :: "byte list \<Rightarrow> int \<Rightarrow> int \<Rightarrow> int \<times> byte list" where
  "Print_bytes [] k numBytes = (k, [])"
| "Print_bytes (b # bs) k numBytes =
     (if k < numBytes then let (k', t) = Print_bytes bs (k + 1) numBytes in (k', char_text b @ t) else (k, []))"

primrec Print_sectors :: "file_header \<Rightarrow> int list \<Rightarrow> int \<Rightarrow> disk \<Rightarrow> (disk \<times> byte list) res" where
  "Print_sectors h [] k d = Inr (d, [])"
| "Print_sectors h (i # is) k d =
     bindR (arr_get (dataSectors h) i) (\<lambda>s.
     bindR (ReadSector d s) (\<lambda>(d, data).
     let (k, t) = Print_bytes data k (hdrBytes h) in
     bindR (Print_sectors h is k d) (\<lambda>(d, ts). Inr (d, t @ ptext ''\<newline>'' @ ts))))"

primrec Print_numbers :: "file_header \<Rightarrow> int list \<Rightarrow> byte list res" where
  "Print_numbers h [] = Inr []"
| "Print_numbers h (i # is) =
     bindR (arr_get (dataSectors h) i) (\<lambda>s. bindR (Print_numbers h is) (\<lambda>t. Inr (show_d s @ ptext '' '' @ t)))"

definition FileHeader_Print :: "disk \<Rightarrow> file_header \<Rightarrow> (disk \<times> byte list) res" where
  "FileHeader_Print d h =
     (let is = map int [0..<nat (hdrSectors h)] in
      bindR (Print_numbers h is) (\<lambda>ns.
      bindR (Print_sectors h is 0 d) (\<lambda>(d, t).
      Inr (d, ptext ''FileHeader contents.  File size: '' @ show_d (hdrBytes h) @ ptext ''.  File blocks:\<newline>'' @ ns
        @ ptext ''\<newline>File contents:\<newline>'' @ t))))"

section \<open>The directory and the file system\<close>

primrec Directory_Print_loop :: "dir_entry list \<Rightarrow> int list \<Rightarrow> disk \<Rightarrow> (disk \<times> byte list) res" where
  "Directory_Print_loop t [] d = Inr (d, [])"
| "Directory_Print_loop t (i # is) d =
     bindR (arr_get t i) (\<lambda>e.
     if entryInUse e then
       bindR (print_string (entryName e)) (\<lambda>n.
       bindR (FileHeader_FetchFrom d (entrySector e)) (\<lambda>(d, h).
       bindR (FileHeader_Print d h) (\<lambda>(d, x).
       bindR (Directory_Print_loop t is d) (\<lambda>(d, y).
       Inr (d, ptext ''Name: '' @ n @ ptext '', Sector: '' @ show_d (entrySector e) @ ptext ''\<newline>'' @ x @ y)))))
     else Directory_Print_loop t is d)"

definition Directory_Print :: "directory \<Rightarrow> disk \<Rightarrow> (disk \<times> byte list) res" where
  "Directory_Print dir d =
     bindR (Directory_Print_loop (dirTable dir) (map int [0..<nat (tableSize dir)]) d) (\<lambda>(d, t).
     Inr (d, ptext ''Directory contents:\<newline>'' @ t @ ptext ''\<newline>''))"

definition FileSystem_Print :: "uninit \<Rightarrow> disk \<Rightarrow> file_system \<Rightarrow> (disk \<times> byte list) res" where
  "FileSystem_Print u d fs =
     bindR (PersistentBitmap_new d (hdr (freeMapFile fs)) NumSectors) (\<lambda>(d, freeMap).
     bindR (FileHeader_FetchFrom d FreeMapSector) (\<lambda>(d, bitHdr).
     bindR (FileHeader_Print d bitHdr) (\<lambda>(d, t1).
     bindR (FileHeader_FetchFrom d DirectorySector) (\<lambda>(d, dirHdr).
     bindR (FileHeader_Print d dirHdr) (\<lambda>(d, t2).
     bindR (Bitmap_Print freeMap) (\<lambda>t3.
     bindR (fetch_directory u d fs) (\<lambda>(d, directory).
     bindR (Directory_Print directory d) (\<lambda>(d, t4).
     Inr (d, ptext ''Bit map file header:\<newline>'' @ t1 @ ptext ''Directory file header:\<newline>'' @ t2 @ t3 @ t4)))))))))"

section \<open>What is printed\<close>

text \<open>The contents of a file, 128 bytes to the line.\<close>

definition file_lines :: "nat \<Rightarrow> byte list \<Rightarrow> byte list" where
  "file_lines n bs = concat (map (\<lambda>i. concat (map char_text (take SectorSize (drop (i * SectorSize) bs))) @ ptext ''\<newline>'') [0..<n])"

definition header_text :: "file_header \<Rightarrow> byte list \<Rightarrow> byte list" where
  "header_text h bs = ptext ''FileHeader contents.  File size: '' @ show_d (hdrBytes h) @ ptext ''.  File blocks:\<newline>''
     @ concat (map (\<lambda>s. show_d (int s) @ ptext '' '') (file_sectors h)) @ ptext ''\<newline>File contents:\<newline>''
     @ file_lines (length (file_sectors h)) bs"

lemma Print_bytes_eq: "Print_bytes bs k n = (k + int (length (take (nat (n - k)) bs)), concat (map char_text (take (nat (n - k)) bs)))"
proof (induction bs arbitrary: k)
  case (Cons b bs)
  show ?case
  proof (cases "k < n")
    case True
    then have "nat (n - k) = Suc (nat (n - (k + 1)))" by simp
    then show ?thesis using True by (simp add: Cons.IH)
  qed simp
qed simp

lemma nat_diff_int: "nat (x - int b) = nat x - b"
  by linarith

lemma sector_bytes:
  assumes "\<And>s. length (c s) = SectorSize" "i < length (file_sectors h)"
  shows "take SectorSize (drop (i * SectorSize) (file_data c h)) = take (nat (hdrBytes h - int (i * SectorSize))) (c (file_sectors h ! i))"
proof -
  let ?ss = "file_sectors h" and ?m = "nat (hdrBytes h) - i * SectorSize"
  have "drop (i * SectorSize) (file_data c h) = take ?m (concat (map c (drop i ?ss)))"
    using drop_blocks [of ?ss c SectorSize i] assms(1) by (simp add: file_data_def file_blocks_def drop_take)
  also have "drop i ?ss = ?ss ! i # drop (Suc i) ?ss" using assms(2) by (simp add: Cons_nth_drop_Suc)
  finally have "take SectorSize (drop (i * SectorSize) (file_data c h)) = take (min SectorSize ?m) (c (?ss ! i))"
    by (auto simp: assms(1) min_def)
  also have "\<dots> = take ?m (c (?ss ! i))" using assms(1) by (simp add: min_def)
  finally show ?thesis by (simp only: nat_diff_int)
qed

lemma arr_get_sectors:
  assumes "file_wf h" "i < length (file_sectors h)"
  shows "arr_get (dataSectors h) (int i) = Inr (int (file_sectors h ! i))"
    "0 \<le> int (file_sectors h ! i)" "int (file_sectors h ! i) < NumSectors"
proof -
  have l: "i < nat (hdrSectors h)" "i < length (dataSectors h)"
    using assms file_wf_sectors(1) [OF assms(1)] by (auto simp: file_sectors_def)
  then have "dataSectors h ! i \<in> set (take (nat (hdrSectors h)) (dataSectors h))"
    by (metis in_set_conv_nth length_take min_less_iff_conj nth_take)
  then have "0 \<le> dataSectors h ! i" using assms(1) by (auto simp: file_wf_def)
  then show "arr_get (dataSectors h) (int i) = Inr (int (file_sectors h ! i))"
    using l by (simp add: arr_get_def file_sectors_def)
  show "0 \<le> int (file_sectors h ! i)" "int (file_sectors h ! i) < NumSectors"
    using file_wf_sectors(3) [OF assms(1)] assms(2) by simp_all
qed

lemma hdrBytes_gt:
  assumes "file_wf h" "Suc i < length (file_sectors h)"
  shows "int (Suc i * SectorSize) < hdrBytes h"
proof -
  have n: "int (length (file_sectors h)) = divRoundUp (hdrBytes h) 128"
    using assms file_wf_sectors(1) [OF assms(1)] by (auto simp: file_wf_def SectorSize_def)
  have "0 \<le> hdrBytes h"
  proof (rule ccontr)
    assume "\<not> 0 \<le> hdrBytes h"
    then have "divRoundUp (hdrBytes h) 128 \<le> 0"
      by (auto simp: divRoundUp_def signed_divide_int_def signed_modulo_int_def sgn_if)
    with n assms(2) show False by linarith
  qed
  then have "divRoundUp (hdrBytes h) 128 * 128 < hdrBytes h + 128" by (rule divRoundUp_bounds) simp
  with n assms(2) show ?thesis by (simp add: SectorSize_def)
qed

lemma Print_sectors_ok:
  assumes "synch_wf d" "file_wf h" "i \<le> length (file_sectors h)"
  shows "\<exists>d'. Print_sectors h (map int [i..<length (file_sectors h)]) (int (i * SectorSize)) d
      = Inr (d', concat (map (\<lambda>j. concat (map char_text (take SectorSize (drop (j * SectorSize) (file_data (sectors d) h)))) @ ptext ''\<newline>'')
          [i..<length (file_sectors h)])) \<and> synch_wf d' \<and> sectors d' = sectors d"
  using assms
proof (induction "length (file_sectors h) - i" arbitrary: i d)
  case (Suc m)
  let ?n = "length (file_sectors h)" and ?c = "sectors d"
  have i: "i < ?n" using Suc.hyps(2) by simp
  note s = arr_get_sectors [OF Suc.prems(2) i]
  obtain d1 where d1: "ReadSector d (int (file_sectors h ! i)) = Inr (d1, ?c (file_sectors h ! i))" "synch_wf d1" "sectors d1 = ?c"
    using ReadSector_ok [OF Suc.prems(1) s(2,3)] by auto
  have len: "length (?c x) = SectorSize" for x by (rule synch.len [OF Suc.prems(1)])
  note b = sector_bytes [OF len i]
  let ?t = "\<lambda>j. concat (map char_text (take SectorSize (drop (j * SectorSize) (file_data ?c h)))) @ ptext ''\<newline>''"
  let ?k = "int (i * SectorSize) + int (length (take (nat (hdrBytes h - int (i * SectorSize))) (?c (file_sectors h ! i))))"
  have rest: "\<exists>d'. Print_sectors h (map int [Suc i..<?n]) ?k d1 = Inr (d', concat (map ?t [Suc i..<?n])) \<and> synch_wf d' \<and> sectors d' = ?c"
  proof (cases "Suc i < ?n")
    case True
    then have "int SectorSize \<le> hdrBytes h - int (i * SectorSize)" using hdrBytes_gt [OF Suc.prems(2) True] by simp
    then have "SectorSize \<le> nat (hdrBytes h - int (i * SectorSize))" by linarith
    then have "?k = int (Suc i * SectorSize)" by (simp only: length_take len min_absorb1) simp
    moreover have "\<exists>d'. Print_sectors h (map int [Suc i..<?n]) (int (Suc i * SectorSize)) d1 = Inr (d', concat (map ?t [Suc i..<?n]))
        \<and> synch_wf d' \<and> sectors d' = ?c"
      using Suc.hyps(1) [of "Suc i" d1] Suc.hyps(2) d1(2,3) Suc.prems(2) True by simp
    ultimately show ?thesis by (simp only:)
  next
    case False
    then have e: "[Suc i..<?n] = []" by simp
    show ?thesis unfolding e using d1 by simp
  qed
  then obtain d' where d': "Print_sectors h (map int [Suc i..<?n]) ?k d1 = Inr (d', concat (map ?t [Suc i..<?n]))" "synch_wf d'" "sectors d' = ?c"
    by blast
  have "[i..<?n] = i # [Suc i..<?n]" using i by (rule upt_conv_Cons)
  then show ?case using s(1) d1(1) d' by (simp add: Print_bytes_eq b)
qed simp

lemma Print_numbers_ok:
  assumes "file_wf h" "\<forall>i\<in>set is. i < length (file_sectors h)"
  shows "Print_numbers h (map int is) = Inr (concat (map (\<lambda>i. show_d (int (file_sectors h ! i)) @ ptext '' '') is))"
  using assms(2) by (induction "is") (simp_all add: arr_get_sectors [OF assms(1)])

lemma FileHeader_Print_ok:
  assumes "synch_wf d" "file_wf h"
  obtains d' where "FileHeader_Print d h = Inr (d', header_text h (file_data (sectors d) h))" "synch_wf d'" "sectors d' = sectors d"
proof -
  let ?n = "length (file_sectors h)"
  have n: "nat (hdrSectors h) = ?n" using file_wf_sectors(1) [OF assms(2)] by simp
  obtain d' where d': "Print_sectors h (map int [0..<?n]) 0 d = Inr (d', file_lines ?n (file_data (sectors d) h))" "synch_wf d'" "sectors d' = sectors d"
    using Print_sectors_ok [OF assms, of 0] by (auto simp: file_lines_def)
  have "concat (map (\<lambda>i. show_d (int (file_sectors h ! i)) @ ptext '' '') [0..<?n]) = concat (map (\<lambda>s. show_d (int s) @ ptext '' '') (file_sectors h))"
    using map_map [of "\<lambda>s. show_d (int s) @ ptext '' ''" "(!) (file_sectors h)" "[0..<?n]"] by (simp add: map_nth comp_def)
  then have "FileHeader_Print d h = Inr (d', header_text h (file_data (sectors d) h))"
    using d' Print_numbers_ok [OF assms(2), of "[0..<?n]"] by (simp add: FileHeader_Print_def n header_text_def Let_def)
  then show ?thesis using d'(2,3) by (rule that)
qed

text \<open>
  The whole dump of a consistent file system: the free map and the directory as files, the
  sectors in use, and name, header and contents of every file.
\<close>

definition bits_text :: "nat set \<Rightarrow> byte list" where
  "bits_text B = ptext ''Bitmap set:\<newline>'' @ concat (map (\<lambda>i. if i \<in> B then show_d (int i) @ ptext '', '' else []) [0..<nat NumSectors]) @ ptext ''\<newline>''"

definition entry_text :: "(nat \<Rightarrow> byte list) \<Rightarrow> dir_entry \<Rightarrow> byte list" where
  "entry_text c e = (let h = hdr_of (c (nat (entrySector e))) in
     ptext ''Name: '' @ takeWhile (\<lambda>b. b \<noteq> 0) (entryName e) @ ptext '', Sector: '' @ show_d (entrySector e) @ ptext ''\<newline>''
     @ header_text h (file_data c h))"

definition fs_text :: "file_system \<Rightarrow> disk \<Rightarrow> byte list" where
  "fs_text fs d =
     (let hM = hdr (freeMapFile fs); hD = hdr (directoryFile fs); c = sectors d in
      ptext ''Bit map file header:\<newline>'' @ header_text hM (file_data c hM) @ ptext ''Directory file header:\<newline>'' @ header_text hD (file_data c hD)
      @ bits_text (bits (fs_map fs d))
      @ ptext ''Directory contents:\<newline>'' @ concat (map (entry_text c) (filter entryInUse (dirTable (fs_dir fs d)))) @ ptext ''\<newline>'')"

lemma Bitmap_Print_loop_ok:
  assumes "bitmap_wf b" "\<forall>i\<in>set is. i < nbits b"
  shows "Bitmap_Print_loop b (map int is) = Inr (concat (map (\<lambda>i. if i \<in> bits b then show_d (int i) @ ptext '', '' else []) is))"
  using assms(2) by (induction "is") (simp_all add: Bitmap_Test_in [OF assms(1)])

lemma Bitmap_Print_ok:
  assumes "bitmap_wf b" "numBits b = NumSectors"
  shows "Bitmap_Print b = Inr (bits_text (bits b))"
  using Bitmap_Print_loop_ok [OF assms(1), of "[0..<nat (numBits b)]"] assms(2) by (simp add: Bitmap_Print_def bits_text_def)

lemma Directory_Print_loop_ok:
  assumes "\<forall>e\<in>set t. entryInUse e \<longrightarrow> 0 \<in> set (entryName e) \<and> 0 \<le> entrySector e \<and> entrySector e < NumSectors
      \<and> file_wf (hdr_of (sectors d (nat (entrySector e))))" "synch_wf d" "i \<le> length t"
  shows "\<exists>d'. Directory_Print_loop t (map int [i..<length t]) d
      = Inr (d', concat (map (entry_text (sectors d)) (filter entryInUse (drop i t)))) \<and> synch_wf d' \<and> sectors d' = sectors d"
  using assms
proof (induction "length t - i" arbitrary: i d)
  case (Suc m)
  let ?e = "t ! i"
  have i: "i < length t" using Suc.hyps(2) by simp
  then have upt: "[i..<length t] = i # [Suc i..<length t]" and drop: "drop i t = ?e # drop (Suc i) t"
    by (simp_all add: upt_conv_Cons Cons_nth_drop_Suc)
  have m: "m = length t - Suc i" using Suc.hyps(2) by simp
  have get: "arr_get t (int i) = Inr ?e" using i by (simp add: arr_get_def)
  show ?case
  proof (cases "entryInUse ?e")
    case True
    then have e: "0 \<in> set (entryName ?e)" "0 \<le> entrySector ?e" "entrySector ?e < NumSectors"
        "file_wf (hdr_of (sectors d (nat (entrySector ?e))))"
      using Suc.prems(1) i by auto
    obtain d1 where d1: "FileHeader_FetchFrom d (entrySector ?e) = Inr (d1, hdr_of (sectors d (nat (entrySector ?e))))" "synch_wf d1" "sectors d1 = sectors d"
      using FileHeader_FetchFrom_ok [OF Suc.prems(2) e(2,3)] by blast
    obtain d2 where d2: "FileHeader_Print d1 (hdr_of (sectors d (nat (entrySector ?e))))
        = Inr (d2, header_text (hdr_of (sectors d (nat (entrySector ?e)))) (file_data (sectors d) (hdr_of (sectors d (nat (entrySector ?e))))))"
        "synch_wf d2" "sectors d2 = sectors d"
      using FileHeader_Print_ok [OF d1(2) e(4)] d1(3) by metis
    obtain d' where "Directory_Print_loop t (map int [Suc i..<length t]) d2
        = Inr (d', concat (map (entry_text (sectors d)) (filter entryInUse (drop (Suc i) t))))" "synch_wf d'" "sectors d' = sectors d"
      using Suc.hyps(1) [OF m, of d2] Suc.prems d2(2,3) i by auto
    then show ?thesis using True get e(1) d1(1) d2(1) by (simp add: upt drop print_string_def entry_text_def Let_def)
  next
    case False
    then show ?thesis using Suc.hyps(1) [OF m, of d] Suc.prems i get by (simp add: upt drop)
  qed
qed simp

text \<open>
  \<open>FileSystem::Print\<close> on a consistent file system whose names end inside their arrays: it
  returns, changes no sector, and prints the free map and the directory, the numbers of the
  sectors in use, and for every file its name, its header and all its bytes.
\<close>

theorem FileSystem_Print_spec:
  assumes "fs_inv fs d" "uninit_wf u" "\<forall>e\<in>set (dirTable (fs_dir fs d)). entryInUse e \<longrightarrow> 0 \<in> set (entryName e)"
  shows "\<exists>d'. FileSystem_Print u d fs = Inr (d', fs_text fs d) \<and> sectors d' = sectors d \<and> fs_inv fs d' \<and> fs_files fs d' = fs_files fs d"
proof -
  note I = fs_invD [OF assms(1)]
  let ?hM = "hdr (freeMapFile fs)" and ?hD = "hdr (directoryFile fs)" and ?c = "sectors d" and ?t = "dirTable (fs_dir fs d)"
  have sec: "hdr_of (?c 0) = ?hM" "hdr_of (?c 1) = ?hD" using assms(1) I(2,4) by (simp_all add: fs_inv_def file_wf_def)
  obtain d1 where d1: "PersistentBitmap_new d ?hM NumSectors = Inr (d1, fs_map fs d)" "synch_wf d1" "sectors d1 = ?c"
    using fetch_map_ok [OF assms(1) I(1)] by blast
  obtain d2 where d2: "FileHeader_FetchFrom d1 0 = Inr (d2, ?hM)" "synch_wf d2" "sectors d2 = ?c"
    using FileHeader_FetchFrom_ok [OF d1(2), of 0] d1(3) sec(1) by (auto simp: disk_defs)
  obtain d3 where d3: "FileHeader_Print d2 ?hM = Inr (d3, header_text ?hM (file_data ?c ?hM))" "synch_wf d3" "sectors d3 = ?c"
    using FileHeader_Print_ok [OF d2(2) I(2)] d2(3) by metis
  obtain d4 where d4: "FileHeader_FetchFrom d3 1 = Inr (d4, ?hD)" "synch_wf d4" "sectors d4 = ?c"
    using FileHeader_FetchFrom_ok [OF d3(2), of 1] d3(3) sec(2) by (auto simp: disk_defs)
  obtain d5 where d5: "FileHeader_Print d4 ?hD = Inr (d5, header_text ?hD (file_data ?c ?hD))" "synch_wf d5" "sectors d5 = ?c"
    using FileHeader_Print_ok [OF d4(2) I(4)] d4(3) by metis
  have inv5: "fs_inv fs d5" using fs_inv_same(1) [OF d5(3,2) assms(1)] .
  have dir5: "fs_dir fs d5 = fs_dir fs d" by (simp add: fs_dir_def d5(3))
  obtain d6 where d6: "fetch_directory u d5 fs = Inr (d6, fs_dir fs d)" "synch_wf d6" "sectors d6 = ?c"
    using fetch_directory_ok [OF inv5 assms(2)] dir5 d5(3) by metis
  have "\<forall>e\<in>set ?t. entryInUse e \<longrightarrow> 0 \<in> set (entryName e) \<and> 0 \<le> entrySector e \<and> entrySector e < NumSectors
      \<and> file_wf (hdr_of (sectors d6 (nat (entrySector e))))"
    using assms(1,3) d6(3) I(6) by (auto simp: fs_inv_def dir_wf_def)
  then obtain d' where d': "Directory_Print_loop ?t (map int [0..<length ?t]) d6 = Inr (d', concat (map (entry_text ?c) (filter entryInUse ?t)))"
      "synch_wf d'" "sectors d' = ?c"
    using Directory_Print_loop_ok [of ?t d6 0] d6(2,3) by auto
  have "FileSystem_Print u d fs = Inr (d', fs_text fs d)"
    using d1(1) d2(1) d3(1) d4(1) d5(1) d6(1) d'(1) Bitmap_Print_ok [OF I(7,8)] I(9,10)
    by (simp add: FileSystem_Print_def FreeMapSector_def DirectorySector_def Directory_Print_def fs_text_def Let_def)
  then show ?thesis using d' fs_inv_same [OF d'(3,2) assms(1)] by blast
qed

text \<open>A freshly formatted disk: no file, and the sectors of the free map and the directory in use.\<close>

theorem FileSystem_Print_spec_witness:
  "\<exists>d fs d'. FileSystem_format blank_memory blank_disk = Inr (d, fs) \<and> FileSystem_Print blank_memory d fs = Inr (d', fs_text fs d)
    \<and> sectors d' = sectors d \<and> fs_files fs d' = Map.empty"
proof -
  obtain d fs where f: "FileSystem_format blank_memory blank_disk = Inr (d, fs)" "fs_inv fs d" "fs_files fs d = Map.empty"
    using format_ok [OF blank_wf] by blast
  have "\<not> entryInUse e" if e: "e \<in> set (dirTable (fs_dir fs d))" for e
  proof
    assume "entryInUse e"
    then have "dir_map (fs_dir fs d) (stored_name e) \<noteq> None"
      using e by (auto simp: dir_map_def map_of_eq_None_iff image_iff simp del: not_None_eq)
    then show False using f(3) fs_files_None [of fs d "stored_name e"] by simp
  qed
  then show ?thesis using FileSystem_Print_spec [OF f(2) blank_wf(2)] f(1,3) by auto
qed

end
