(* ===== verification/MainProg.thy ===== *)
theory MainProg
  imports RunProg Coff HashTab Network Dump
begin

text \<open>
  The main program (\<^verbatim>\<open>code/threads/main.cc\<close>), the command line of the kernel
  (\<^verbatim>\<open>Kernel::Kernel\<close> in \<^verbatim>\<open>code/threads/kernel.cc\<close>) and the debug flags (\<^verbatim>\<open>code/lib/debug.cc\<close>): both
  parsers of the arguments, copying a file of the host into the Nachos file system, printing
  a Nachos file, and the order in which \<open>main\<close> does what the arguments ask for, up to the
  start of the user program. The file system commands are those of a build without
  \<open>FILESYS_STUB\<close>.
\<close>

section \<open>Debug flags\<close>

text \<open>\<open>strchr\<close> also finds the terminating zero.\<close>

definition Debug_IsEnabled :: "string option \<Rightarrow> char \<Rightarrow> bool" where
  "Debug_IsEnabled enableFlags flag =
     (case enableFlags of None \<Rightarrow> False
      | Some fl \<Rightarrow> flag \<in> set (fl @ [CHR 0x00]) \<or> CHR ''+'' \<in> set fl)"

section \<open>The arguments of main\<close>

datatype main_out = CopyrightText | UsageText | CopyNoInput string | CopyNoOutput string | PrintNoFile string
  | FileText "byte list" | FileNames "byte list list" | DumpText "byte list"

record main_args =
  debugArg :: string
  userProgName :: "string option"
  threadTestFlag :: bool
  consoleTestFlag :: bool
  networkTestFlag :: bool
  copyUnixFileName :: "string option"
  copyNachosFileName :: "string option"
  printFileName :: "string option"
  removeFileName :: "string option"
  dirListFlag :: bool
  dumpFlag :: bool
  argsOut :: "main_out list"

definition main_defaults :: main_args where
  "main_defaults = \<lparr>debugArg = [], userProgName = None, threadTestFlag = False, consoleTestFlag = False, networkTestFlag = False,
     copyUnixFileName = None, copyNachosFileName = None, printFileName = None, removeFileName = None, dirListFlag = False,
     dumpFlag = False, argsOut = []\<rparr>"

text \<open>The loop over \<open>argv\<close>; \<open>as\<close> are the arguments from index \<open>i\<close> on.\<close>

fun main_options :: "string list \<Rightarrow> main_args \<Rightarrow> main_args res" where
  "main_options [] o' = Inr o'"
| "main_options (a # as) o' =
     (if a = ''-d'' then
        (case as of [] \<Rightarrow> Inl AssertFailed | x # as \<Rightarrow> main_options as (o'\<lparr>debugArg := x\<rparr>))
      else if a = ''-z'' then main_options as (o'\<lparr>argsOut := argsOut o' @ [CopyrightText]\<rparr>)
      else if a = ''-x'' then
        (case as of [] \<Rightarrow> Inl AssertFailed | x # as \<Rightarrow> main_options as (o'\<lparr>userProgName := Some x\<rparr>))
      else if a = ''-K'' then main_options as (o'\<lparr>threadTestFlag := True\<rparr>)
      else if a = ''-C'' then main_options as (o'\<lparr>consoleTestFlag := True\<rparr>)
      else if a = ''-N'' then main_options as (o'\<lparr>networkTestFlag := True\<rparr>)
      else if a = ''-cp'' then
        (case as of x # y # as \<Rightarrow> main_options as (o'\<lparr>copyUnixFileName := Some x, copyNachosFileName := Some y\<rparr>)
         | _ \<Rightarrow> Inl AssertFailed)
      else if a = ''-p'' then
        (case as of [] \<Rightarrow> Inl AssertFailed | x # as \<Rightarrow> main_options as (o'\<lparr>printFileName := Some x\<rparr>))
      else if a = ''-r'' then
        (case as of [] \<Rightarrow> Inl AssertFailed | x # as \<Rightarrow> main_options as (o'\<lparr>removeFileName := Some x\<rparr>))
      else if a = ''-l'' then main_options as (o'\<lparr>dirListFlag := True\<rparr>)
      else if a = ''-D'' then main_options as (o'\<lparr>dumpFlag := True\<rparr>)
      else if a = ''-u'' then main_options as (o'\<lparr>argsOut := argsOut o' @ [UsageText]\<rparr>)
      else main_options as o')"

section \<open>The arguments of the kernel\<close>

text \<open>\<open>atof\<close> of the C library on decimal notation, without the rounding to a \<open>double\<close>.\<close>

definition isdigit :: "char \<Rightarrow> bool" where
  "isdigit c \<longleftrightarrow> 48 \<le> (of_char c :: int) \<and> (of_char c :: int) \<le> 57"

definition isspace :: "char \<Rightarrow> bool" where
  "isspace c \<longleftrightarrow> c = CHR '' '' \<or> 9 \<le> (of_char c :: int) \<and> (of_char c :: int) \<le> 13"

definition signed_part :: "string \<Rightarrow> int \<times> string" where
  "signed_part s = (case s of [] \<Rightarrow> (1, s) | c # cs \<Rightarrow> if c = CHR ''-'' then (-1, cs) else if c = CHR ''+'' then (1, cs) else (1, s))"

definition exponent_part :: "string \<Rightarrow> int" where
  "exponent_part s = (case s of [] \<Rightarrow> 0 | c # cs \<Rightarrow>
     if c = CHR ''e'' \<or> c = CHR ''E'' then (let (sg, ds) = signed_part cs in sg * digits_value 0 ds) else 0)"

definition atof :: "string \<Rightarrow> real" where
  "atof str =
     (let (sg, s) = signed_part (dropWhile isspace str);
          whole = takeWhile isdigit s; rest = dropWhile isdigit s;
          point = rest \<noteq> [] \<and> hd rest = CHR ''.'';
          frac = (if point then takeWhile isdigit (tl rest) else []);
          rest = (if point then dropWhile isdigit (tl rest) else rest);
          e = (if whole = [] \<and> frac = [] then 0 else exponent_part rest)
      in of_int (sg * digits_value 0 (whole @ frac)) / 10 ^ length frac * 10 powi e)"

record kernel_args =
  randomSlice :: bool
  randomSeed :: "int option"
  debugUserProg :: bool
  consoleIn :: "string option"
  consoleOut :: "string option"
  formatFlag :: bool
  reliability :: real
  hostId :: int
  kernelOut :: "main_out list"

definition kernel_defaults :: kernel_args where
  "kernel_defaults = \<lparr>randomSlice = False, randomSeed = None, debugUserProg = False, consoleIn = None, consoleOut = None,
     formatFlag = False, reliability = 1, hostId = 0, kernelOut = []\<rparr>"

fun kernel_options :: "string list \<Rightarrow> kernel_args \<Rightarrow> kernel_args res" where
  "kernel_options [] k = Inr k"
| "kernel_options (a # as) k =
     (if a = ''-rs'' then
        (case as of [] \<Rightarrow> Inl AssertFailed
         | x # as \<Rightarrow> kernel_options as (k\<lparr>randomSeed := Some (atoi x), randomSlice := True\<rparr>))
      else if a = ''-s'' then kernel_options as (k\<lparr>debugUserProg := True\<rparr>)
      else if a = ''-ci'' then
        (case as of [] \<Rightarrow> Inl AssertFailed | x # as \<Rightarrow> kernel_options as (k\<lparr>consoleIn := Some x\<rparr>))
      else if a = ''-co'' then
        (case as of [] \<Rightarrow> Inl AssertFailed | x # as \<Rightarrow> kernel_options as (k\<lparr>consoleOut := Some x\<rparr>))
      else if a = ''-f'' then kernel_options as (k\<lparr>formatFlag := True\<rparr>)
      else if a = ''-n'' then
        (case as of [] \<Rightarrow> Inl AssertFailed | x # as \<Rightarrow> kernel_options as (k\<lparr>reliability := atof x\<rparr>))
      else if a = ''-m'' then
        (case as of [] \<Rightarrow> Inl AssertFailed | x # as \<Rightarrow> kernel_options as (k\<lparr>hostId := atoi x\<rparr>))
      else if a = ''-u'' then kernel_options as (k\<lparr>kernelOut := kernelOut k @ [UsageText]\<rparr>)
      else kernel_options as k)"

declare main_options.simps(2) [simp del] kernel_options.simps(2) [simp del]

section \<open>Copying and printing files\<close>

definition TransferSize :: nat where "TransferSize = 128"

text \<open>
  The files of the host are a map from names to bytes; \<open>ReadPartial\<close> returns the next bytes,
  as many as there are up to the number asked for. \<open>rest\<close> is what has not been read yet.
\<close>

function Copy_loop :: "(nat \<Rightarrow> byte) \<Rightarrow> byte list \<Rightarrow> disk \<Rightarrow> open_file \<Rightarrow> (disk \<times> open_file) res" where
  "Copy_loop junk rest d f =
     (let buffer = take TransferSize rest; amountRead = length buffer in
      if amountRead > 0 then
        bindR (OpenFile_Write junk d f buffer (int amountRead)) (\<lambda>(d, f, _).
        Copy_loop junk (drop TransferSize rest) d f)
      else Inr (d, f))"
  by pat_completeness auto
termination by (relation "measure (\<lambda>(_, rest, _, _). length rest)") (auto simp: TransferSize_def)

declare Copy_loop.simps [simp del]

definition Copy :: "uninit \<Rightarrow> (string \<Rightarrow> byte list option) \<Rightarrow> string \<Rightarrow> string \<Rightarrow> disk \<times> file_system
    \<Rightarrow> ((disk \<times> file_system) \<times> main_out list) res" where
  "Copy u unix fromName toName = (\<lambda>(d, fs).
     case unix fromName of None \<Rightarrow> Inr ((d, fs), [CopyNoInput fromName])
     | Some bytes \<Rightarrow>
         let fileLength = int (length bytes) in
         bindR (FileSystem_Create u d fs (cstr toName) fileLength) (\<lambda>(d, created).
         if \<not> created then Inr ((d, fs), [CopyNoOutput toName]) else
         bindR (FileSystem_Open u d fs (cstr toName)) (\<lambda>(d, openFile).
         case openFile of None \<Rightarrow> Inl AssertFailed
         | Some f \<Rightarrow> bindR (Copy_loop (freshBuf u) bytes d f) (\<lambda>(d, f). Inr ((d, fs), [])))))"

partial_function (option) Print_loop :: "disk \<Rightarrow> open_file \<Rightarrow> byte list \<Rightarrow> (disk \<times> open_file \<times> byte list) res option" where
  "Print_loop d f out =
     (case OpenFile_Read d f (int TransferSize) of Inl e \<Rightarrow> Some (Inl e)
      | Inr (d, f, buffer) \<Rightarrow> if length buffer > 0 then Print_loop d f (out @ buffer) else Some (Inr (d, f, out)))"

definition Print_file :: "uninit \<Rightarrow> string \<Rightarrow> disk \<times> file_system \<Rightarrow> ((disk \<times> file_system) \<times> main_out list) res" where
  "Print_file u name = (\<lambda>(d, fs).
     bindR (FileSystem_Open u d fs (cstr name)) (\<lambda>(d, openFile).
     case openFile of None \<Rightarrow> Inr ((d, fs), [PrintNoFile name])
     | Some f \<Rightarrow> bindR (returning (Print_loop d f [])) (\<lambda>(d, f, out). Inr ((d, fs), [FileText out]))))"

section \<open>What main does\<close>

text \<open>An action is done if its argument is there; what it prints follows what has been printed.\<close>

definition when_given :: "'a option \<Rightarrow> ('a \<Rightarrow> 's \<Rightarrow> ('s \<times> main_out list) res) \<Rightarrow> 's \<times> main_out list \<Rightarrow> ('s \<times> main_out list) res" where
  "when_given x act = (\<lambda>(s, out). case x of None \<Rightarrow> Inr (s, out) | Some a \<Rightarrow> bindR (act a s) (\<lambda>(s, new). Inr (s, out @ new)))"

definition flag :: "bool \<Rightarrow> unit option" where
  "flag b = (if b then Some () else None)"

definition main_Remove :: "uninit \<Rightarrow> string \<Rightarrow> disk \<times> file_system \<Rightarrow> ((disk \<times> file_system) \<times> main_out list) res" where
  "main_Remove u name = (\<lambda>(d, fs). bindR (FileSystem_Remove u d fs (cstr name)) (\<lambda>(d, _). Inr ((d, fs), [])))"

definition main_Dump :: "uninit \<Rightarrow> disk \<times> file_system \<Rightarrow> ((disk \<times> file_system) \<times> main_out list) res" where
  "main_Dump u = (\<lambda>(d, fs). bindR (FileSystem_Print u d fs) (\<lambda>(d, t). Inr ((d, fs), [DumpText t])))"

definition main_List :: "uninit \<Rightarrow> disk \<times> file_system \<Rightarrow> ((disk \<times> file_system) \<times> main_out list) res" where
  "main_List u = (\<lambda>(d, fs). bindR (FileSystem_List u d fs) (\<lambda>(d, names). Inr ((d, fs), [FileNames names])))"

definition main_files :: "uninit \<Rightarrow> (string \<Rightarrow> byte list option) \<Rightarrow> main_args \<Rightarrow> (disk \<times> file_system) \<times> main_out list
    \<Rightarrow> ((disk \<times> file_system) \<times> main_out list) res" where
  "main_files u unix a s =
     bindR (when_given (removeFileName a) (main_Remove u) s) (\<lambda>s.
     bindR (when_given (case (copyUnixFileName a, copyNachosFileName a) of (Some x, Some y) \<Rightarrow> Some (x, y) | _ \<Rightarrow> None)
       (\<lambda>(x, y). Copy u unix x y) s) (\<lambda>s.
     bindR (when_given (flag (dumpFlag a)) (\<lambda>_. main_Dump u) s) (\<lambda>s.
     bindR (when_given (flag (dirListFlag a)) (\<lambda>_. main_List u) s) (\<lambda>s.
     when_given (printFileName a) (Print_file u) s))))"

text \<open>
  The whole of \<open>main\<close>. The self tests of the kernel are arguments: each returns or stops the
  simulator. \<open>mach\<close> holds what the constructor of the machine leaves unassigned. Without a user
  program the machine halts, which is the result \<open>False\<close>.
\<close>

datatype kernel_test = ThreadSelfTest | ConsoleTest | NetworkTest

definition run_tests :: "(kernel_test \<Rightarrow> unit res) \<Rightarrow> main_args \<Rightarrow> unit res" where
  "run_tests test a =
     bindR (if threadTestFlag a then test ThreadSelfTest else Inr ()) (\<lambda>_.
     bindR (if consoleTestFlag a then test ConsoleTest else Inr ()) (\<lambda>_.
     if networkTestFlag a then test NetworkTest else Inr ()))"

definition nachos_main :: "uninit \<Rightarrow> (string \<Rightarrow> byte list option) \<Rightarrow> (kernel_test \<Rightarrow> unit res) \<Rightarrow> machine \<Rightarrow> table_ptr \<Rightarrow> table_ptr
    \<Rightarrow> addr_space \<Rightarrow> addr_space \<Rightarrow> string list \<Rightarrow> disk \<Rightarrow> ((disk \<times> file_system) machine_scheme \<times> main_out list \<times> bool) res" where
  "nachos_main u unix test mach tp1 tp2 space1 space2 argv d =
     bindR (main_options (tl argv) main_defaults) (\<lambda>a.
     bindR (kernel_options (tl argv) kernel_defaults) (\<lambda>k.
     bindR (FileSystem_new u d (formatFlag k)) (\<lambda>(d, fs).
     let m = Machine_new (debugUserProg k) (pageTableSize mach) (FileAddr mach) (runUntilTime mach) in
     bindR (run_tests test a) (\<lambda>_.
     bindR (main_files u unix a ((d, fs), argsOut a @ kernelOut k)) (\<lambda>(s, out).
     let m = machine.extend m s in
     case userProgName a of None \<Rightarrow> Inr (m, out, False)
     | Some prog \<Rightarrow> bindR (main_program (fs_open u) fs_read fs_close tp1 tp2 space1 space2 prog m) (\<lambda>(m, running). Inr (m, out, running)))))))"

section \<open>Copying and printing\<close>

lemma Copy_loop_ok:
  assumes "fs_ok (d, fs)" "fs_handle (d, fs) f n" "fs_contents (d, fs) n = Some (old @ xs)" "seekPosition f = int (length old)"
    "length xs = length rest" "int_range (int (length (old @ rest)))"
  shows "\<exists>d' f'. Copy_loop junk rest d f = Inr (d', f') \<and> fs_ok (d', fs) \<and> fs_files fs d' = (fs_files fs d)(key (cstr n) \<mapsto> old @ rest)"
  using assms
proof (induction "length rest" arbitrary: rest old xs d f rule: less_induct)
  case less
  show ?case
  proof (cases "rest = []")
    case True
    then have "fs_files fs d (key (cstr n)) = Some old" using less.prems(3,5) by (simp add: fs_contents_def)
    then have "fs_files fs d = (fs_files fs d)(key (cstr n) \<mapsto> old)" by (simp add: fun_upd_idem)
    then show ?thesis using True less.prems(1) by (subst Copy_loop.simps) (simp add: fun_eq_iff)
  next
    case False
    let ?b = "take TransferSize rest" and ?r = "drop TransferSize rest"
    have pos: "(0::int) \<le> int (length old)" "int_range (int (length old) + int (length ?b))"
      using less.prems(6) by (auto simp: int_range_def)
    obtain d1 where d1: "WriteAt junk d (hdr f) ?b (int (length ?b)) (int (length old)) = Inr (d1, int (min (length ?b) (length (old @ xs) - nat (int (length old)))))"
        "fs_ok (d1, fs)" "fs_handle (d1, fs) f n"
        "fs_files fs d1 = (fs_files fs d)(key (cstr n) \<mapsto> overlay (old @ xs) (nat (int (length old))) (take (length (old @ xs) - nat (int (length old))) ?b))"
      by (rule fs_WriteAt_ok [OF less.prems(1-3) pos, of junk]) (rule that; assumption)
    let ?f = "f\<lparr>seekPosition := int (length (old @ ?b))\<rparr>"
    have w: "OpenFile_Write junk d f ?b (int (length ?b)) = Inr (d1, ?f, int (length ?b))"
      using d1(1) less.prems(4,5) by (simp add: OpenFile_Write_def)
    have files: "fs_files fs d1 = (fs_files fs d)(key (cstr n) \<mapsto> (old @ ?b) @ drop (length ?b) xs)"
      using d1(4) less.prems(5) by (simp add: overlay_def) (metis min.commute take_all_iff min_def order_refl)
    have "length ?r < length rest" using False by (simp add: TransferSize_def)
    moreover have "fs_handle (d1, fs) ?f n" "fs_contents (d1, fs) n = Some ((old @ ?b) @ drop (length ?b) xs)"
      using d1(3) files by (simp_all add: fs_handle_def fs_contents_def)
    moreover have "length (drop (length ?b) xs) = length ?r" "int_range (int (length ((old @ ?b) @ ?r)))"
      using less.prems(5,6) by simp_all
    ultimately obtain d' f' where "Copy_loop junk ?r d1 ?f = Inr (d', f')" "fs_ok (d', fs)"
        "fs_files fs d' = (fs_files fs d1)(key (cstr n) \<mapsto> (old @ ?b) @ ?r)"
      using less.hyps [of ?r d1 ?f "old @ ?b" "drop (length ?b) xs"] d1(2) by auto
    moreover have "TransferSize > 0" by (simp add: TransferSize_def)
    ultimately show ?thesis using False w files by (subst Copy_loop.simps) (simp add: Let_def)
  qed
qed

lemma Print_loop_ok:
  assumes "synch_wf d" "file_wf (hdr f)" "0 \<le> seekPosition f" "int_range (int (length (file_data (sectors d) (hdr f))) + 128)"
    "seekPosition f \<le> int (length (file_data (sectors d) (hdr f)))"
  shows "\<exists>d' f'. Print_loop d f out = Some (Inr (d', f', out @ drop (nat (seekPosition f)) (file_data (sectors d) (hdr f))))
    \<and> synch_wf d' \<and> sectors d' = sectors d"
  using assms
proof (induction "length (file_data (sectors d) (hdr f)) - nat (seekPosition f)" arbitrary: d f out rule: less_induct)
  case less
  let ?bs = "file_data (sectors d) (hdr f)" and ?p = "nat (seekPosition f)"
  let ?b = "take TransferSize (drop ?p ?bs)"
  have rng: "int_range (seekPosition f + int TransferSize)"
    using less.prems(3,4,5) by (auto simp: int_range_def TransferSize_def)
  obtain d1 where d1: "ReadAt d (hdr f) (int TransferSize) (seekPosition f) = Inr (d1, ?b)" "synch_wf d1" "sectors d1 = sectors d"
    using ReadAt_ok [OF less.prems(1-3) rng] by auto
  let ?f = "f\<lparr>seekPosition := seekPosition f + int (length ?b)\<rparr>"
  have rd: "OpenFile_Read d f (int TransferSize) = Inr (d1, ?f, ?b)" using d1(1) by (simp add: OpenFile_Read_def)
  show ?case
  proof (cases "?b = []")
    case True
    then have "drop ?p ?bs = []" by (simp add: TransferSize_def)
    then show ?thesis using rd True d1(2,3) by (subst Print_loop.simps) simp
  next
    case False
    then have lt: "length (file_data (sectors d1) (hdr ?f)) - nat (seekPosition ?f) < length ?bs - ?p"
      using less.prems(3) d1(3) by (auto simp: nat_add_distrib)
    have drop: "?b @ drop (nat (seekPosition ?f)) ?bs = drop ?p ?bs"
    proof -
      have "nat (seekPosition ?f) = length ?b + ?p" using less.prems(3) by (simp add: nat_add_distrib)
      then have "drop (nat (seekPosition ?f)) ?bs = drop (length ?b) (drop ?p ?bs)" by simp
      also have "\<dots> = drop TransferSize (drop ?p ?bs)" by (simp add: min_def)
      finally show ?thesis by (simp only: append_take_drop_id)
    qed
    have "seekPosition ?f \<le> int (length ?bs)" using less.prems(3,5) by auto
    then obtain d' f' where "Print_loop d1 ?f (out @ ?b) = Some (Inr (d', f', (out @ ?b) @ drop (nat (seekPosition ?f)) ?bs))"
        "synch_wf d'" "sectors d' = sectors d"
      using less.hyps [OF lt, of "out @ ?b"] less.prems d1(2,3) by auto
    moreover have "Print_loop d f out = Print_loop d1 ?f (out @ ?b)" using rd False by (subst Print_loop.simps) simp
    ultimately show ?thesis using drop by (auto simp only: append.assoc)
  qed
qed

lemma sectors_needed_bound: "sectors_needed n \<le> NumDirect \<Longrightarrow> 0 \<le> n \<Longrightarrow> n \<le> 3840"
proof -
  assume a: "sectors_needed n \<le> NumDirect" "0 \<le> n"
  have "n \<le> divRoundUp n 128 * 128" using a(2) by (intro divRoundUp_bounds) simp_all
  moreover have "divRoundUp n 128 \<le> 30" using a(1) by (simp add: sectors_needed_def NumDirect_def SectorSize_def)
  ultimately show "n \<le> 3840" by simp
qed

lemma Copy_ok:
  assumes "fs_ok (d, fs)" "uninit_wf u" "fs_name n" "unix x = Some bytes"
    "fs_contents (d, fs) n = None" "\<not> dir_full (fs_dir fs d)" "sectors_needed (int (length bytes)) < fs_free fs d"
    "sectors_needed (int (length bytes)) \<le> NumDirect"
  obtains d' where "Copy u unix x n (d, fs) = Inr ((d', fs), [])" "fs_ok (d', fs)"
    "fs_files fs d' = (fs_files fs d)(key (cstr n) \<mapsto> bytes)"
proof -
  have inv: "fs_inv fs d" and name: "0 \<notin> set (cstr n)" and new: "fs_files fs d (key (cstr n)) = None"
    using assms(1,3,5) by (simp_all add: fs_ok_def fs_name_def fs_contents_def)
  have rng: "0 \<le> int (length bytes)" "int_range (int (length bytes))"
    using sectors_needed_bound [OF assms(8)] by (simp_all add: int_range_def)
  obtain d1 data where c: "FileSystem_Create u d fs (cstr n) (int (length bytes)) = Inr (d1, True)" "fs_inv fs d1"
      "fs_files fs d1 = (fs_files fs d)(key (cstr n) \<mapsto> data)" "length data = nat (int (length bytes))"
    by (rule Create_ok [OF inv assms(2) name rng new assms(6-8)]) (rule that; assumption)
  have ok1: "fs_ok (d1, fs)" "fs_contents (d1, fs) n = Some data" using c(2,3) by (simp_all add: fs_ok_def fs_contents_def)
  obtain d2 where d2: "synch_wf d2" "sectors d2 = sectors d1"
      "FileSystem_Open u d1 fs (cstr n) = Inr (d2, map_option (\<lambda>s. \<lparr>hdr = hdr_of (sectors d1 (nat s)), seekPosition = 0\<rparr>)
         (dir_map (fs_dir fs d1) (key (cstr n))))"
      "\<forall>s. dir_map (fs_dir fs d1) (key (cstr n)) = Some s \<longrightarrow> file_wf (hdr_of (sectors d1 (nat s)))"
    by (rule Open_ok [OF c(2) assms(2) name]) (rule that; assumption)
  obtain s where s: "dir_map (fs_dir fs d1) (key (cstr n)) = Some s" using c(3) by (auto simp: fs_files_def fun_eq_iff split: if_splits)
  let ?f = "\<lparr>hdr = hdr_of (sectors d1 (nat s)), seekPosition = 0\<rparr>"
  have "fs_ok (d2, fs)" using fs_inv_same(1) [OF d2(2,1) c(2)] by (simp add: fs_ok_def)
  moreover have "fs_contents (d2, fs) n = Some ([] @ data)" "fs_handle (d2, fs) ?f n"
    using fs_contents_cong [OF d2(2)] fs_handle_cong [OF d2(2)] ok1(2) s d2(4) by (simp_all add: fs_handle_def)
  ultimately obtain d' f' where l: "Copy_loop (freshBuf u) bytes d2 ?f = Inr (d', f')" "fs_ok (d', fs)"
      "fs_files fs d' = (fs_files fs d2)(key (cstr n) \<mapsto> bytes)"
    using Copy_loop_ok [of d2 fs ?f n "[]" data bytes "freshBuf u"] c(4) rng(2) by auto
  have "fs_files fs d2 = fs_files fs d1" using fs_inv_same(2) [OF d2(2,1) c(2)] .
  then show ?thesis using that [of d'] l c(1,3) d2(3) s assms(4) by (simp add: Copy_def)
qed

lemma Print_file_ok:
  assumes "fs_ok (d, fs)" "uninit_wf u" "fs_name n"
  shows "case fs_contents (d, fs) n of None \<Rightarrow> \<exists>d'. Print_file u n (d, fs) = Inr ((d', fs), [PrintNoFile n]) \<and> sectors d' = sectors d
    | Some bytes \<Rightarrow> int_range (int (length bytes) + 128) \<longrightarrow>
        (\<exists>d'. Print_file u n (d, fs) = Inr ((d', fs), [FileText bytes]) \<and> fs_ok (d', fs) \<and> sectors d' = sectors d)"
proof -
  have inv: "fs_inv fs d" and name: "0 \<notin> set (cstr n)" using assms(1,3) by (simp_all add: fs_ok_def fs_name_def)
  obtain d1 where d1: "synch_wf d1" "sectors d1 = sectors d"
      "FileSystem_Open u d fs (cstr n) = Inr (d1, map_option (\<lambda>s. \<lparr>hdr = hdr_of (sectors d (nat s)), seekPosition = 0\<rparr>)
         (dir_map (fs_dir fs d) (key (cstr n))))"
      "\<forall>s. dir_map (fs_dir fs d) (key (cstr n)) = Some s \<longrightarrow> file_wf (hdr_of (sectors d (nat s)))"
    by (rule Open_ok [OF inv assms(2) name]) (rule that; assumption)
  show ?thesis
  proof (cases "dir_map (fs_dir fs d) (key (cstr n))")
    case None
    then show ?thesis using d1 by (simp add: fs_contents_def fs_files_def Print_file_def)
  next
    case (Some s)
    let ?f = "\<lparr>hdr = hdr_of (sectors d (nat s)), seekPosition = 0\<rparr>"
    have bs: "fs_contents (d, fs) n = Some (file_data (sectors d1) (hdr ?f))"
      using Some d1(2) by (simp add: fs_contents_def fs_files_def)
    have "\<exists>d'. Print_file u n (d, fs) = Inr ((d', fs), [FileText (file_data (sectors d1) (hdr ?f))]) \<and> fs_ok (d', fs) \<and> sectors d' = sectors d"
      if rng: "int_range (int (length (file_data (sectors d1) (hdr ?f))) + 128)"
    proof -
      obtain d' f' where l: "Print_loop d1 ?f [] = Some (Inr (d', f', file_data (sectors d1) (hdr ?f)))" "synch_wf d'" "sectors d' = sectors d1"
        using Print_loop_ok [OF d1(1), of ?f "[]"] d1(4) Some rng by auto
      then show ?thesis using d1(2,3) Some fs_inv_same(1) [of d' d fs] inv by (auto simp: Print_file_def fs_ok_def)
    qed
    then show ?thesis unfolding bs by simp
  qed
qed

text \<open>
  C17. \<open>Copy\<close> followed by \<open>Print\<close>. Copying a file of the host under a name that is in use, into a
  full directory or onto a disk without the space is refused and changes nothing; a file that
  is too large for a header overruns it; otherwise the new Nachos file has the bytes of the
  host's file, no other file changes, and printing it prints these bytes and changes nothing.
\<close>

theorem copy_then_print:
  assumes "fs_ok (d, fs)" "uninit_wf u" "fs_name n" "unix x = Some bytes" "int_range (int (length bytes))"
  shows "if fs_contents (d, fs) n \<noteq> None \<or> dir_full (fs_dir fs d) \<or> fs_free fs d \<le> sectors_needed (int (length bytes))
    then \<exists>d'. Copy u unix x n (d, fs) = Inr ((d', fs), [CopyNoOutput n]) \<and> sectors d' = sectors d
    else if sectors_needed (int (length bytes)) \<le> NumDirect
    then \<exists>d1 d2. Copy u unix x n (d, fs) = Inr ((d1, fs), []) \<and> fs_ok (d1, fs)
      \<and> fs_files fs d1 = (fs_files fs d)(key (cstr n) \<mapsto> bytes)
      \<and> Print_file u n (d1, fs) = Inr ((d2, fs), [FileText bytes]) \<and> sectors d2 = sectors d1
    else Copy u unix x n (d, fs) = Inl Undefined"
proof -
  have inv: "fs_inv fs d" and name: "0 \<notin> set (cstr n)" using assms(1,3) by (simp_all add: fs_ok_def fs_name_def)
  have cont: "fs_contents (d, fs) n = fs_files fs d (key (cstr n))" by (simp add: fs_contents_def)
  consider (refused) "fs_contents (d, fs) n \<noteq> None \<or> dir_full (fs_dir fs d) \<or> fs_free fs d \<le> sectors_needed (int (length bytes))"
    | (long) "fs_contents (d, fs) n = None" "\<not> dir_full (fs_dir fs d)" "sectors_needed (int (length bytes)) < fs_free fs d"
        "\<not> sectors_needed (int (length bytes)) \<le> NumDirect"
    | (copied) "fs_contents (d, fs) n = None" "\<not> dir_full (fs_dir fs d)" "sectors_needed (int (length bytes)) < fs_free fs d"
        "sectors_needed (int (length bytes)) \<le> NumDirect"
    by linarith
  then show ?thesis
  proof cases
    case refused
    then obtain d' where "FileSystem_Create u d fs (cstr n) (int (length bytes)) = Inr (d', False)" "sectors d' = sectors d"
      using Create_refused [OF inv assms(2) name, of "int (length bytes)"] unfolding cont by auto
    then show ?thesis using refused assms(4) by (simp add: Copy_def)
  next
    case long
    then have "FileSystem_Create u d fs (cstr n) (int (length bytes)) = Inl Undefined"
      using Create_too_long [OF inv assms(2) name, of "int (length bytes)"] unfolding cont by simp
    then show ?thesis using long assms(4) by (simp add: Copy_def)
  next
    case copied
    obtain d1 where d1: "Copy u unix x n (d, fs) = Inr ((d1, fs), [])" "fs_ok (d1, fs)" "fs_files fs d1 = (fs_files fs d)(key (cstr n) \<mapsto> bytes)"
      by (rule Copy_ok [where unix = unix and x = x, OF assms(1-4) copied]) (rule that; assumption)
    have "int_range (int (length bytes) + 128)" using sectors_needed_bound [OF copied(4)] by (simp add: int_range_def)
    then obtain d2 where "Print_file u n (d1, fs) = Inr ((d2, fs), [FileText bytes])" "sectors d2 = sectors d1"
      using Print_file_ok [OF d1(2) assms(2,3)] d1(3) by (auto simp: fs_contents_def)
    then show ?thesis using copied d1 by auto
  qed
qed

text \<open>C17, three hundred bytes on a fresh disk.\<close>

theorem copy_then_print_witness:
  "\<exists>d fs d1 d2. Copy blank_memory [''host'' \<mapsto> replicate 300 7] ''host'' ''prog'' (d, fs) = Inr ((d1, fs), [])
     \<and> fs_contents (d1, fs) ''prog'' = Some (replicate 300 7)
     \<and> Print_file blank_memory ''prog'' (d1, fs) = Inr ((d2, fs), [FileText (replicate 300 7)])"
proof -
  obtain d fs where f: "fs_inv fs d" "fs_files fs d = Map.empty" "\<not> dir_full (fs_dir fs d)" "1000 < fs_free fs d"
    using format_ok [OF blank_wf] by blast
  have n: "sectors_needed 300 = 3" by (simp add: sectors_needed_def divRoundUp_def SectorSize_def)
  have "fs_ok (d, fs)" "fs_contents (d, fs) ''prog'' = None" using f by (simp_all add: fs_ok_def fs_contents_def)
  then obtain d1 d2 where "Copy blank_memory [''host'' \<mapsto> replicate 300 7] ''host'' ''prog'' (d, fs) = Inr ((d1, fs), [])"
      "fs_files fs d1 = (fs_files fs d)(key (cstr ''prog'') \<mapsto> replicate 300 7)"
      "Print_file blank_memory ''prog'' (d1, fs) = Inr ((d2, fs), [FileText (replicate 300 7)])"
    using copy_then_print [of d fs blank_memory "''prog''" "[''host'' \<mapsto> replicate 300 7]" "''host''" "replicate 300 7"]
      blank_wf(2) demo_name(1) f n by (auto simp: int_range_def NumDirect_def SectorSize_def)
  then show ?thesis
    by (intro exI [of _ d] exI [of _ fs] exI [of _ d1] exI [of _ d2]) (simp add: fs_contents_def)
qed

section \<open>The command line\<close>

text \<open>
  The arguments that ask for given settings. Both parsers read the whole command line, so the
  argument of an option of one of them must not look like an option to the other.
\<close>

definition plain :: "string \<Rightarrow> bool" where
  "plain x \<longleftrightarrow> take 1 x \<noteq> ''-''"

definition opt_arg :: "string \<Rightarrow> string option \<Rightarrow> string list" where
  "opt_arg name x = (case x of None \<Rightarrow> [] | Some v \<Rightarrow> [name, v])"

definition opt_flag :: "string \<Rightarrow> bool \<Rightarrow> string list" where
  "opt_flag name b = (if b then [name] else [])"

definition opt_copy :: "string option \<Rightarrow> string option \<Rightarrow> string list" where
  "opt_copy x y = (case (x, y) of (Some v, Some w) \<Rightarrow> [''-cp'', v, w] | _ \<Rightarrow> [])"

definition command_line :: "main_args \<Rightarrow> kernel_args \<Rightarrow> string list" where
  "command_line a k = [''-d'', debugArg a] @ opt_arg ''-x'' (userProgName a) @ opt_flag ''-K'' (threadTestFlag a)
     @ opt_flag ''-C'' (consoleTestFlag a) @ opt_flag ''-N'' (networkTestFlag a)
     @ opt_copy (copyUnixFileName a) (copyNachosFileName a)
     @ opt_arg ''-p'' (printFileName a) @ opt_arg ''-r'' (removeFileName a) @ opt_flag ''-l'' (dirListFlag a) @ opt_flag ''-D'' (dumpFlag a)
     @ opt_flag ''-s'' (debugUserProg k) @ opt_arg ''-ci'' (consoleIn k) @ opt_arg ''-co'' (consoleOut k) @ opt_flag ''-f'' (formatFlag k)"

text \<open>The effect of one option on each parser.\<close>

definition or_else :: "'a option \<Rightarrow> 'a option \<Rightarrow> 'a option" where
  "or_else x y = (case x of None \<Rightarrow> y | Some v \<Rightarrow> Some v)"

lemma or_else_simps [simp]: "or_else x None = x" "or_else None y = y" "or_else (Some v) y = Some v"
  by (simp_all add: or_else_def split: option.split)

lemma plain_skip:
  assumes "plain x"
  shows "main_options (x # as) a = main_options as a" "kernel_options (x # as) k = kernel_options as k"
proof -
  have "x \<noteq> CHR ''-'' # r" for r using assms by (auto simp: plain_def)
  then show "main_options (x # as) a = main_options as a" "kernel_options (x # as) k = kernel_options as k"
    by (simp_all add: main_options.simps(2) [of x] kernel_options.simps(2) [of x])
qed

lemma main_options_opt:
  "main_options (''-d'' # v # as) a = main_options as (a\<lparr>debugArg := v\<rparr>)"
  "main_options (opt_arg ''-x'' x @ as) a = main_options as (a\<lparr>userProgName := or_else x (userProgName a)\<rparr>)"
  "main_options (opt_arg ''-p'' x @ as) a = main_options as (a\<lparr>printFileName := or_else x (printFileName a)\<rparr>)"
  "main_options (opt_arg ''-r'' x @ as) a = main_options as (a\<lparr>removeFileName := or_else x (removeFileName a)\<rparr>)"
  "main_options (opt_flag ''-K'' b @ as) a = main_options as (a\<lparr>threadTestFlag := b \<or> threadTestFlag a\<rparr>)"
  "main_options (opt_flag ''-C'' b @ as) a = main_options as (a\<lparr>consoleTestFlag := b \<or> consoleTestFlag a\<rparr>)"
  "main_options (opt_flag ''-N'' b @ as) a = main_options as (a\<lparr>networkTestFlag := b \<or> networkTestFlag a\<rparr>)"
  "main_options (opt_flag ''-l'' b @ as) a = main_options as (a\<lparr>dirListFlag := b \<or> dirListFlag a\<rparr>)"
  "main_options (opt_flag ''-D'' b @ as) a = main_options as (a\<lparr>dumpFlag := b \<or> dumpFlag a\<rparr>)"
  "main_options (opt_flag ''-s'' b @ as) a = main_options as a"
  "main_options (opt_flag ''-f'' b) a = Inr a"
  "x = None \<longleftrightarrow> y = None \<Longrightarrow> main_options (opt_copy x y @ as) a =
     main_options as (a\<lparr>copyUnixFileName := or_else x (copyUnixFileName a), copyNachosFileName := or_else y (copyNachosFileName a)\<rparr>)"
  "pred_option plain x \<Longrightarrow> main_options (opt_arg ''-ci'' x @ as) a = main_options as a"
  "pred_option plain x \<Longrightarrow> main_options (opt_arg ''-co'' x @ as) a = main_options as a"
  by (cases x; cases y; cases b; cases a; simp add: opt_arg_def opt_flag_def opt_copy_def plain_skip main_options.simps(2) [of "CHR ''-'' # _"])+

lemma kernel_options_opt:
  "plain v \<Longrightarrow> kernel_options (''-d'' # v # as) k = kernel_options as k"
  "kernel_options (opt_arg ''-ci'' x @ as) k = kernel_options as (k\<lparr>consoleIn := or_else x (consoleIn k)\<rparr>)"
  "kernel_options (opt_arg ''-co'' x @ as) k = kernel_options as (k\<lparr>consoleOut := or_else x (consoleOut k)\<rparr>)"
  "kernel_options (opt_flag ''-s'' b @ as) k = kernel_options as (k\<lparr>debugUserProg := b \<or> debugUserProg k\<rparr>)"
  "kernel_options (opt_flag ''-f'' b) k = Inr (k\<lparr>formatFlag := b \<or> formatFlag k\<rparr>)"
  "kernel_options (opt_flag ''-K'' b @ as) k = kernel_options as k"
  "kernel_options (opt_flag ''-C'' b @ as) k = kernel_options as k"
  "kernel_options (opt_flag ''-N'' b @ as) k = kernel_options as k"
  "kernel_options (opt_flag ''-l'' b @ as) k = kernel_options as k"
  "kernel_options (opt_flag ''-D'' b @ as) k = kernel_options as k"
  "pred_option plain x \<Longrightarrow> kernel_options (opt_arg ''-x'' x @ as) k = kernel_options as k"
  "pred_option plain x \<Longrightarrow> kernel_options (opt_arg ''-p'' x @ as) k = kernel_options as k"
  "pred_option plain x \<Longrightarrow> kernel_options (opt_arg ''-r'' x @ as) k = kernel_options as k"
  "pred_option plain x \<Longrightarrow> pred_option plain y \<Longrightarrow> kernel_options (opt_copy x y @ as) k = kernel_options as k"
  by (cases x; cases y; cases b; cases k; simp add: opt_arg_def opt_flag_def opt_copy_def plain_skip kernel_options.simps(2) [of "CHR ''-'' # _"])+



end
