(* ===== verification/Boot.thy ===== *)
theory Boot
  imports MainProg
begin

text \<open>
  From an object file to its first instruction: the converter, the copy of the program onto
  the Nachos disk, the start of the program and the handler of page faults together give what
  a user program reads.
\<close>

section \<open>Programs that come from COFF files\<close>

text \<open>
  The size of the address space of a program, its sections and the stack, and the condition
  that the sections lie in the memory of the machine and the address space is not too large.
\<close>

definition sec_len :: "scnhdr option \<Rightarrow> int" where
  "sec_len so = (case so of None \<Rightarrow> 0 | Some s \<Rightarrow> sint (s_size s))"

definition placed :: "scnhdr option \<Rightarrow> bool" where
  "placed so = (case so of None \<Rightarrow> True | Some s \<Rightarrow> 0 \<le> sint (s_paddr s) \<and> sint (s_paddr s) + sint (s_size s) \<le> int MemorySize)"

definition coff_space :: "byte list \<Rightarrow> int" where
  "coff_space coff = (let ss = coff_sections coff in
     sec_len (is_last ''.text'' ss) + sec_len (is_last ''.rdata'' ss) + sec_len (is_last ''.data'' ss) + sec_len (is_last ''.bss'' ss) + 1024)"

definition coff_fits :: "byte list \<Rightarrow> bool" where
  "coff_fits coff = (let ss = coff_sections coff in
     placed (is_last ''.text'' ss) \<and> placed (is_last ''.data'' ss) \<and> placed (is_last ''.rdata'' ss)
     \<and> 0 \<le> sec_len (is_last ''.bss'' ss) \<and> coff_space coff \<le> int MemorySize)"

lemma seg_copied_size:
  assumes "seg_copied coff out seg so"
  shows "segSize seg = word_of_int (sec_len so)" "0 \<le> sec_len so"
  using assms by (cases so; auto simp: seg_copied_def sec_len_def)+

lemma seg_copied_ok:
  assumes "seg_copied coff out seg so" "placed so" "length out < 2147483648"
  shows "seg_ok seg" "0 < sint (segSize seg) \<Longrightarrow> 0 \<le> sint (inFileAddr seg)"
  using assms by (cases so; auto simp: seg_copied_def placed_def seg_ok_def int_range_def)+

lemma round_up_128: "(n::nat) div 128 + (if 0 < n mod 128 then 1 else 0) = (n + 127) div 128"
proof -
  define q r where "q = n div 128" and "r = n mod 128"
  have n: "n + 127 = (r + 127) + 128 * q" and r: "r < 128" by (simp_all add: q_def r_def)
  have "(r + 127) div 128 = (if 0 < r then 1 else 0)" using r by (auto intro!: div_nat_eqI)
  then show ?thesis unfolding n q_def [symmetric] r_def [symmetric] by simp
qed

lemma prog_pages_value:
  assumes "0 \<le> T" "T \<le> 16384"
    "segSize (codeSeg h) + segSize (readonlyData h) + segSize (initData h) + segSize (uninitData h) + UserStackSize = word_of_int T"
  shows "unat (prog_pages h) = (nat T + 127) div 128"
proof -
  define w :: int32 where "w = word_of_int T"
  have w: "unat w = nat T" using assms(1,2) by (simp add: w_def unat_eq_nat_uint uint_word_of_int)
  have q: "unat (w div 128) = nat T div 128" "unat (w mod 128) = nat T mod 128" by (simp_all add: unat_div unat_mod w)
  have "prog_pages h = w div 128 + (if w mod 128 > 0 then 1 else 0)"
    by (simp add: prog_pages_def assms(3) w_def PageSize_def Let_def)
  moreover have "w mod 128 > 0 \<longleftrightarrow> nat T mod 128 > 0" by (simp add: word_less_nat_alt q)
  moreover have "nat T div 128 \<le> 128" using assms(2) by simp
  ultimately have "unat (prog_pages h) = nat T div 128 + (if nat T mod 128 > 0 then 1 else 0)"
    using q(1) by (simp add: unat_plus_if')
  then show ?thesis by (simp only: round_up_128)
qed

lemma coff_prog_ok:
  assumes "noff_copied coff (coff_sections coff) h out" "coff_fits coff" "length out < 2147483648"
  shows "prog_ok h" "unat (prog_pages h) = (nat (coff_space coff) + 127) div 128"
proof -
  let ?ss = "coff_sections coff"
  have c: "noffMagic h = NOFFMAGIC" "seg_copied coff out (codeSeg h) (is_last ''.text'' ?ss)"
      "seg_copied coff out (initData h) (is_last ''.data'' ?ss)" "seg_copied coff out (readonlyData h) (is_last ''.rdata'' ?ss)"
      "seg_zero (uninitData h) (is_last ''.bss'' ?ss)"
    using assms(1) by (simp_all add: noff_copied_def)
  have f: "placed (is_last ''.text'' ?ss)" "placed (is_last ''.data'' ?ss)" "placed (is_last ''.rdata'' ?ss)"
      "0 \<le> sec_len (is_last ''.bss'' ?ss)" "coff_space coff \<le> 16384"
    using assms(2) by (simp_all add: coff_fits_def Let_def MemorySize_def NumPhysPages_def PageSize_def)
  note s = seg_copied_size [OF c(2)] seg_copied_size [OF c(3)] seg_copied_size [OF c(4)]
  have b: "segSize (uninitData h) = word_of_int (sec_len (is_last ''.bss'' ?ss))"
    using c(5) by (cases "is_last ''.bss'' ?ss") (simp_all add: seg_zero_def sec_len_def)
  have T: "0 \<le> coff_space coff" using s f(4) by (simp add: coff_space_def Let_def)
  show pages: "unat (prog_pages h) = (nat (coff_space coff) + 127) div 128"
    by (rule prog_pages_value [OF T f(5)]) (simp add: s(1,3,5) b coff_space_def Let_def UserStackSize_def)
  have "unat (prog_pages h) \<le> 128" unfolding pages using f(5) by simp
  then have "prog_pages h \<le> of_nat NumPhysPages" by (simp add: word_le_nat_alt NumPhysPages_def)
  then show "prog_ok h" using c(1) seg_copied_ok(1) [OF c(2) f(1) assms(3)] seg_copied_ok(1) [OF c(3) f(2) assms(3)]
      seg_copied_ok(1) [OF c(4) f(3) assms(3)] by (simp add: prog_ok_def)
qed

text \<open>The handler of page faults takes the bytes of the code from where the header says.\<close>

lemma fault_byte_code:
  assumes "seg_byte (codeSeg h) bs va = Some b" "0 \<le> sint (inFileAddr (codeSeg h))"
  shows "fault_byte (file_addr h) bs va = Some b"
proof -
  let ?s = "codeSeg h"
  have v: "sint (virtualAddr ?s) \<le> int va" "int va < sint (virtualAddr ?s) + sint (segSize ?s)"
      "sint (inFileAddr ?s) + (int va - sint (virtualAddr ?s)) < int (length bs)"
      "b = bs ! nat (sint (inFileAddr ?s) + (int va - sint (virtualAddr ?s)))"
    using assms(1) by (auto simp: seg_byte_def Let_def split: if_splits)
  then have "fault_pos (file_addr h) (int va) = Some (sint (inFileAddr ?s) + (int va - sint (virtualAddr ?s)))"
    by (simp add: fault_pos_def file_addr_def)
  then show ?thesis using v assms(2) by (simp add: fault_byte_def nat_less_iff)
qed

text \<open>Reads of addresses in the code, of any width, return the bytes that the COFF file has there.\<close>

definition reads_code :: "'d handler \<Rightarrow> byte list \<Rightarrow> 'd machine_scheme \<Rightarrow> bool" where
  "reads_code eh coff m \<longleftrightarrow> (\<forall>va sz. sz \<in> {1, 2, 4} \<and> aligned va sz \<and> int (unat va) < coff_space coff
      \<and> (\<forall>i < sz. sec_byte coff (is_last ''.text'' (coff_sections coff)) (unat va + i) \<noteq> None) \<longrightarrow>
    (\<exists>m' p. ReadMem eh m va sz = Inr (m', Some (read_value (mainMemory m') p sz))
      \<and> (\<forall>i < sz. Some (mainMemory m' (p + i)) = sec_byte coff (is_last ''.text'' (coff_sections coff)) (unat va + i))))"

context program_files
begin

text \<open>A program that has just been started, on any file service.\<close>

lemma code_reads:
  assumes coff: "coff_ok coff" "coff_fits coff" "noff_copied coff (coff_sections coff) h noff" "length noff < 2147483648"
    and m: "inv (machine.more m)" "contents (machine.more m) n = Some noff" "paging (\<lambda>d n. okname n \<and> contents d n \<noteq> None) m"
    "frames_full m" "regs_wf m" "Machine.linear m es" "pageTable m = Some tp" "pageTableSize m = prog_pages h" "FileAddr m = file_addr h"
    "\<forall>i<NumPhysPages. physicalPage (es ! i) = -1 \<and> DiskFile (es ! i) = n"
    "\<forall>t e. tables m t = Some e \<longrightarrow> (\<forall>i<NumPhysPages. \<not> dirty (e ! i))"
  shows "reads_code (ExceptionHandler opn rd wr cls os fresh) coff m"
  unfolding reads_code_def
proof (intro allI impI, elim conjE)
  fix va :: int32 and sz
  assume ref: "sz \<in> {1, 2, 4}" "aligned va sz" "int (unat va) < coff_space coff"
      "\<forall>i < sz. sec_byte coff (is_last ''.text'' (coff_sections coff)) (unat va + i) \<noteq> None"
  let ?ss = "coff_sections coff"
  have code: "seg_copied coff noff (codeSeg h) (is_last ''.text'' ?ss)" using coff(3) by (simp add: noff_copied_def)
  have secs: "list_all (section_ok coff) ?ss" using coff(1) by (simp add: coff_ok_def)
  have byte: "fault_byte (FileAddr m) noff a = Some b" if "sec_byte coff (is_last ''.text'' ?ss) a = Some b" for a b
  proof -
    have "seg_byte (codeSeg h) noff a = Some b"
      using seg_byte_copied [OF code, of a] that is_last_ok [OF secs, of "''.text''"] by auto
    moreover have "0 \<le> sint (inFileAddr (codeSeg h))"
      using code that by (cases "is_last ''.text'' ?ss") (auto simp: seg_copied_def sec_byte_def)
    ultimately show ?thesis unfolding m(9) by (rule fault_byte_code)
  qed
  have "unat va < nat (coff_space coff)" using ref(3) by (subst less_nat_iff_int)
  then have "(unat va + 128) div 128 \<le> (nat (coff_space coff) + 127) div 128" by (intro div_le_mono) linarith
  then have pg: "page_no va < unat (pageTableSize m)" by (simp add: m(8) coff_prog_ok(2) [OF coff(3,2,4)] PageSize_def)
  have "unat (pageTableSize m) \<le> NumPhysPages" using m(3,6,7) by (auto simp: Machine.linear_def paging_def)
  then have "page_no va < NumPhysPages" using pg by simp
  then have e: "physicalPage (es ! page_no va) = -1" "DiskFile (es ! page_no va) = n" using m(10) by auto
  have "check_ref m es va sz False = PageFaultException" using ref(2) pg e(1) by (auto simp: check_ref_def)
  then show "\<exists>m' p. ReadMem (ExceptionHandler opn rd wr cls os fresh) m va sz = Inr (m', Some (read_value (mainMemory m') p sz))
      \<and> (\<forall>i < sz. Some (mainMemory m' (p + i)) = sec_byte coff (is_last ''.text'' ?ss) (unat va + i))"
    using faulting_read_gets_file [OF m(1,3-6) ref(1), of va noff os fresh] m(2,11) e(2) ref(4) byte by (metis option.exhaust)
qed

end

lemma copy_and_run_options:
  assumes "plain x" "plain n"
  shows "main_options [''-f'', ''-cp'', x, n, ''-x'', n] main_defaults
      = Inr (main_defaults\<lparr>copyUnixFileName := Some x, copyNachosFileName := Some n, userProgName := Some n\<rparr>)"
    "kernel_options [''-f'', ''-cp'', x, n, ''-x'', n] kernel_defaults = Inr (kernel_defaults\<lparr>formatFlag := True\<rparr>)"
  using assms by (simp_all add: plain_skip main_options.simps(2) [of "CHR ''-'' # _"] kernel_options.simps(2) [of "CHR ''-'' # _"])

text \<open>\<open>nachos -f -cp x n -x n\<close>: the file is copied onto the formatted disk and started.\<close>

lemma copy_and_run:
  assumes u: "uninit_wf u" and d: "synch_wf d" and unix: "unix x = Some noff" and names: "plain x" "plain n" "fs_name n"
    and prog: "52 \<le> length noff" "prog_ok (noff_of (take 52 noff))" "length noff \<le> 3840" and tp: "tp1 \<noteq> tp2"
  defines "h \<equiv> noff_of (take 52 noff)"
  obtains m es where "nachos_main u unix test mach tp1 tp2 a1 a2 [prog, ''-f'', ''-cp'', x, n, ''-x'', n] d = Inr (m, [], True)"
    "fs_ok (machine.more m)" "fs_contents (machine.more m) n = Some noff" "nachos_paging m" "frames_full m" "regs_wf m"
    "Machine.linear m es" "pageTable m = Some tp2" "pageTableSize m = prog_pages h" "registers m = start_registers (prog_pages h)"
    "FileAddr m = file_addr h" "\<forall>i<NumPhysPages. physicalPage (es ! i) = -1 \<and> DiskFile (es ! i) = n"
    "\<forall>f<NumPhysPages. \<exists>i<NumPhysPages. owner m f = Some (tp1, i)"
    "\<forall>t e. tables m t = Some e \<longrightarrow> (\<forall>i<NumPhysPages. \<not> dirty (e ! i))"
proof -
  obtain d0 fs where f: "FileSystem_format u d = Inr (d0, fs)" "fs_inv fs d0" "fs_files fs d0 = Map.empty"
      "\<not> dir_full (fs_dir fs d0)" "1000 < fs_free fs d0"
    by (rule format_ok [OF d u]) (rule that; assumption)
  have len: "sectors_needed (int (length noff)) \<le> 30"
  proof -
    have "divRoundUp (int (length noff)) 128 * 128 < int (length noff) + 128" by (rule divRoundUp_bounds) simp_all
    then have "divRoundUp (int (length noff)) 128 \<le> 30" using prog(3) by linarith
    then show ?thesis by (simp add: sectors_needed_def SectorSize_def)
  qed
  have ok: "fs_ok (d0, fs)" "fs_contents (d0, fs) n = None" using f(2,3) by (simp_all add: fs_ok_def fs_contents_def)
  have space: "sectors_needed (int (length noff)) < fs_free fs d0" "sectors_needed (int (length noff)) \<le> NumDirect"
    using len f(5) by (simp_all add: NumDirect_def SectorSize_def)
  obtain d1 where d1: "Copy u unix x n (d0, fs) = Inr ((d1, fs), [])" "fs_ok (d1, fs)" "fs_files fs d1 = (fs_files fs d0)(key (cstr n) \<mapsto> noff)"
    by (rule Copy_ok [where unix = unix and x = x, OF ok(1) u names(3) unix ok(2) f(4) space]) (rule that; assumption)
  let ?m0 = "machine.extend (Machine_new False (pageTableSize mach) (FileAddr mach) (runUntilTime mach)) (d1, fs)"
  have m0: "machine.more ?m0 = (d1, fs)" "fresh_machine ?m0"
    by (simp_all add: machine.defs Machine_new_def fresh_machine_def GlobalEntry_new_def)
  have pre: "fs_ok (machine.more ?m0)" "fs_contents (machine.more ?m0) n = Some noff"
    using d1 m0(1) by (simp_all add: fs_contents_def)
  obtain m es where m: "main_program (fs_open u) fs_read fs_close tp1 tp2 a1 a2 n ?m0 = Inr (m, True)" "fs_ok (machine.more m)"
    "fs_contents (machine.more m) = fs_contents (machine.more ?m0)" "nachos_paging m" "frames_full m" "regs_wf m" "Machine.linear m es"
    "pageTable m = Some tp2" "pageTableSize m = prog_pages h" "registers m = start_registers (prog_pages h)" "FileAddr m = file_addr h"
    "\<forall>i<NumPhysPages. physicalPage (es ! i) = -1 \<and> DiskFile (es ! i) = n"
    "\<forall>f<NumPhysPages. \<exists>i<NumPhysPages. owner m f = Some (tp1, i)"
    "\<forall>t e. tables m t = Some e \<longrightarrow> (\<forall>i<NumPhysPages. \<not> dirty (e ! i))"
    by (rule readable_files.main_program_ok [where ?a1.0 = a1 and ?a2.0 = a2,
        OF fs_program_files [OF u, THEN program_files.axioms(1)] pre(1) names(3) pre(2) prog(1,2) m0(2) tp, folded h_def]) (rule that; assumption)
  have "nachos_main u unix test mach tp1 tp2 a1 a2 [prog, ''-f'', ''-cp'', x, n, ''-x'', n] d = Inr (m, [], True)"
    using f(1) d1(1) m(1) copy_and_run_options [OF names(1,2)]
    by (simp add: nachos_main_def FileSystem_new_def run_tests_def main_files_def when_given_def flag_def main_defaults_def kernel_defaults_def)
  then show ?thesis by (rule that [OF _ m(2) _ m(4-14)]) (use m(3) pre(2) in simp)
qed


lemma demo_coff_fits: "coff_fits demo_coff" "coff_space demo_coff = 1070"
  by code_simp+

lemma demo_coff_bytes: "sec_byte demo_coff (is_last ''.text'' (coff_sections demo_coff)) 0 = Some 10"
    "sec_byte demo_coff (is_last ''.text'' (coff_sections demo_coff)) 1 = Some 20"
  by code_simp+

lemma demo_coff_reads:
  assumes "reads_code eh demo_coff m"
  shows "\<exists>m' p. ReadMem eh m 0 2 = Inr (m', Some (read_value (mainMemory m') p 2)) \<and> mainMemory m' p = 10 \<and> mainMemory m' (p + 1) = 20"
proof -
  have two: "i = 0 \<or> i = 1" if "i < (2::nat)" for i using that by linarith
  have ref: "(2::nat) \<in> {1, 2, 4} \<and> aligned 0 2 \<and> int (unat (0 :: int32)) < coff_space demo_coff
      \<and> (\<forall>i < 2. sec_byte demo_coff (is_last ''.text'' (coff_sections demo_coff)) (unat (0 :: int32) + i) \<noteq> None)"
    using demo_coff_fits(2) demo_coff_bytes by (auto dest!: two)
  obtain m' p where r: "ReadMem eh m 0 2 = Inr (m', Some (read_value (mainMemory m') p 2))"
      "\<forall>i < 2. Some (mainMemory m' (p + i)) = sec_byte demo_coff (is_last ''.text'' (coff_sections demo_coff)) (unat (0 :: int32) + i)"
    using assms [unfolded reads_code_def, rule_format, OF ref] by blast
  have "mainMemory m' p = 10" "mainMemory m' (p + 1) = 20"
    using r(2) [rule_format, of 0] r(2) [rule_format, of 1] demo_coff_bytes by simp_all
  then show ?thesis using r(1) by blast
qed


end
