(* ===== verification/Host.thy ===== *)
theory Host
  imports RunProg Coff
begin

text \<open>
  The interface to the host system (\<^verbatim>\<open>code/lib/sysdep.cc\<close>) and the file system that a build
  with \<open>FILESYS_STUB\<close> uses (\<^verbatim>\<open>code/filesys/filesys.h\<close>, \<^verbatim>\<open>openfile.h\<close>), which turns every call into
  a call of UNIX. The system calls of UNIX are not part of the program: they are the record
  \<open>unix_calls\<close>, and locale \<open>unix_files\<close> states what POSIX promises of them. The stub then keeps
  the laws of \<open>program_files\<close>, so that loading and paging work on it as on the Nachos disk.
\<close>

section \<open>The calls of UNIX\<close>

text \<open>
  Each call takes and returns the state of the host. \<open>read\<close> and \<open>recvfrom\<close> return their result
  and the bytes that they have put into the buffer; \<open>select\<close> gets the number of descriptors to
  look at and the descriptor that is in the set of those to read from.
\<close>

datatype open_flags = RdWr | RdWrCreatTrunc

record 'u unix_calls =
  u_open :: "'u \<Rightarrow> string \<Rightarrow> open_flags \<Rightarrow> 'u \<times> int"
  u_read :: "'u \<Rightarrow> int \<Rightarrow> int \<Rightarrow> 'u \<times> int \<times> byte list"
  u_write :: "'u \<Rightarrow> int \<Rightarrow> byte list \<Rightarrow> 'u \<times> int"
  u_lseek :: "'u \<Rightarrow> int \<Rightarrow> int \<Rightarrow> int \<Rightarrow> 'u \<times> int"
  u_close :: "'u \<Rightarrow> int \<Rightarrow> 'u \<times> int"
  u_unlink :: "'u \<Rightarrow> string \<Rightarrow> 'u \<times> int"
  u_select :: "'u \<Rightarrow> int \<Rightarrow> int \<Rightarrow> 'u \<times> int"
  u_socket :: "'u \<Rightarrow> 'u \<times> int"
  u_bind :: "'u \<Rightarrow> int \<Rightarrow> string \<Rightarrow> 'u \<times> int"
  u_recvfrom :: "'u \<Rightarrow> int \<Rightarrow> int \<Rightarrow> 'u \<times> int \<times> byte list"
  u_sendto :: "'u \<Rightarrow> int \<Rightarrow> byte list \<Rightarrow> string \<Rightarrow> 'u \<times> int"
  u_sleep :: "'u \<Rightarrow> int \<Rightarrow> 'u"
  u_srand :: "'u \<Rightarrow> int32 \<Rightarrow> 'u"
  u_rand :: "'u \<Rightarrow> 'u \<times> int32"

section \<open>The wrappers\<close>

definition Delay :: "'u unix_calls \<Rightarrow> 'u \<Rightarrow> int \<Rightarrow> 'u" where
  "Delay os u seconds = u_sleep os u seconds"

definition RandomInit :: "'u unix_calls \<Rightarrow> 'u \<Rightarrow> int32 \<Rightarrow> 'u" where
  "RandomInit os u seed = u_srand os u seed"

definition RandomNumber :: "'u unix_calls \<Rightarrow> 'u \<Rightarrow> 'u \<times> int32" where
  "RandomNumber os u = u_rand os u"

definition PollFile :: "'u unix_calls \<Rightarrow> 'u \<Rightarrow> int \<Rightarrow> ('u \<times> bool) res" where
  "PollFile os u fd =
     (let (u, retVal) = u_select os u 32 fd in
      ASSERT (retVal = 0 \<or> retVal = 1) (if retVal = 0 then Inr (u, False) else Inr (u, True)))"

definition OpenForWrite :: "'u unix_calls \<Rightarrow> 'u \<Rightarrow> string \<Rightarrow> ('u \<times> int) res" where
  "OpenForWrite os u name = (let (u, fd) = u_open os u name RdWrCreatTrunc in ASSERT (fd \<ge> 0) (Inr (u, fd)))"

definition OpenForReadWrite :: "'u unix_calls \<Rightarrow> 'u \<Rightarrow> string \<Rightarrow> bool \<Rightarrow> ('u \<times> int) res" where
  "OpenForReadWrite os u name crashOnError =
     (let (u, fd) = u_open os u name RdWr in ASSERT (\<not> crashOnError \<or> fd \<ge> 0) (Inr (u, fd)))"

definition Host_Read :: "'u unix_calls \<Rightarrow> 'u \<Rightarrow> int \<Rightarrow> int \<Rightarrow> ('u \<times> byte list) res" where
  "Host_Read os u fd nBytes = (let (u, retVal, buffer) = u_read os u fd nBytes in ASSERT (retVal = nBytes) (Inr (u, buffer)))"

definition ReadPartial :: "'u unix_calls \<Rightarrow> 'u \<Rightarrow> int \<Rightarrow> int \<Rightarrow> 'u \<times> int \<times> byte list" where
  "ReadPartial os u fd nBytes = u_read os u fd nBytes"

definition WriteFile :: "'u unix_calls \<Rightarrow> 'u \<Rightarrow> int \<Rightarrow> byte list \<Rightarrow> 'u res" where
  "WriteFile os u fd buffer = (let (u, retVal) = u_write os u fd buffer in ASSERT (retVal = int (length buffer)) (Inr u))"

definition Lseek :: "'u unix_calls \<Rightarrow> 'u \<Rightarrow> int \<Rightarrow> int \<Rightarrow> int \<Rightarrow> 'u res" where
  "Lseek os u fd offset whence = (let (u, retVal) = u_lseek os u fd offset whence in ASSERT (retVal \<ge> 0) (Inr u))"

definition Tell :: "'u unix_calls \<Rightarrow> 'u \<Rightarrow> int \<Rightarrow> 'u \<times> int" where
  "Tell os u fd = u_lseek os u fd 0 1"

definition Close :: "'u unix_calls \<Rightarrow> 'u \<Rightarrow> int \<Rightarrow> ('u \<times> int) res" where
  "Close os u fd = (let (u, retVal) = u_close os u fd in ASSERT (retVal \<ge> 0) (Inr (u, retVal)))"

text \<open>The result of \<open>unlink\<close>, 0 for success, becomes a truth value.\<close>

definition Unlink :: "'u unix_calls \<Rightarrow> 'u \<Rightarrow> string \<Rightarrow> 'u \<times> bool" where
  "Unlink os u name = (let (u, r) = u_unlink os u name in (u, r \<noteq> 0))"

definition OpenSocket :: "'u unix_calls \<Rightarrow> 'u \<Rightarrow> ('u \<times> int) res" where
  "OpenSocket os u = (let (u, sockID) = u_socket os u in ASSERT (sockID \<ge> 0) (Inr (u, sockID)))"

definition CloseSocket :: "'u unix_calls \<Rightarrow> 'u \<Rightarrow> int \<Rightarrow> 'u" where
  "CloseSocket os u sockID = fst (u_close os u sockID)"

text \<open>The path of a socket address has 108 bytes; \<open>strcpy\<close> copies the terminating zero too.\<close>

definition InitSocketName :: "string \<Rightarrow> string res" where
  "InitSocketName name = (if length name < 108 then Inr name else Inl Undefined)"

definition AssignNameToSocket :: "'u unix_calls \<Rightarrow> 'u \<Rightarrow> string \<Rightarrow> int \<Rightarrow> 'u res" where
  "AssignNameToSocket os u socketName sockID =
     (let (u, _) = u_unlink os u socketName in
      bindR (InitSocketName socketName) (\<lambda>uName.
      let (u, retVal) = u_bind os u sockID uName in ASSERT (retVal \<ge> 0) (Inr u)))"

definition DeAssignNameToSocket :: "'u unix_calls \<Rightarrow> 'u \<Rightarrow> string \<Rightarrow> 'u" where
  "DeAssignNameToSocket os u socketName = fst (u_unlink os u socketName)"

definition Host_PollSocket :: "'u unix_calls \<Rightarrow> 'u \<Rightarrow> int \<Rightarrow> ('u \<times> bool) res" where
  "Host_PollSocket os u sockID = PollFile os u sockID"

definition Host_ReadFromSocket :: "'u unix_calls \<Rightarrow> 'u \<Rightarrow> int \<Rightarrow> int \<Rightarrow> ('u \<times> byte list) res" where
  "Host_ReadFromSocket os u sockID packetSize =
     (let (u, retVal, buffer) = u_recvfrom os u sockID packetSize in ASSERT (retVal = packetSize) (Inr (u, buffer)))"

text \<open>The loop over \<open>retryCount\<close>; \<open>n\<close> attempts are left.\<close>

primrec SendToSocket_loop :: "'u unix_calls \<Rightarrow> int \<Rightarrow> byte list \<Rightarrow> string \<Rightarrow> nat \<Rightarrow> 'u \<Rightarrow> 'u res" where
  "SendToSocket_loop os sockID buffer uName 0 u = Inr u"
| "SendToSocket_loop os sockID buffer uName (Suc n) u =
     (let (u, retVal) = u_sendto os u sockID buffer uName in
      if retVal = int (length buffer) then Inr u
      else ASSERT (retVal < 0) (SendToSocket_loop os sockID buffer uName n (Delay os u 1)))"

definition Host_SendToSocket :: "'u unix_calls \<Rightarrow> 'u \<Rightarrow> int \<Rightarrow> byte list \<Rightarrow> string \<Rightarrow> 'u res" where
  "Host_SendToSocket os u sockID buffer toName =
     bindR (InitSocketName toName) (\<lambda>uName. SendToSocket_loop os sockID buffer uName 10 u)"

section \<open>The file system on UNIX files\<close>

record stub_file =
  stubFd :: int
  currentOffset :: int

definition stub_new :: "int \<Rightarrow> stub_file" where
  "stub_new f = \<lparr>stubFd = f, currentOffset = 0\<rparr>"

definition stub_delete :: "'u unix_calls \<Rightarrow> 'u \<Rightarrow> stub_file \<Rightarrow> 'u res" where
  "stub_delete os u f = bindR (Close os u (stubFd f)) (\<lambda>(u, _). Inr u)"

definition stub_ReadAt :: "'u unix_calls \<Rightarrow> 'u \<Rightarrow> stub_file \<Rightarrow> int \<Rightarrow> int \<Rightarrow> ('u \<times> int \<times> byte list) res" where
  "stub_ReadAt os u f numBytes position =
     bindR (Lseek os u (stubFd f) position 0) (\<lambda>u. Inr (ReadPartial os u (stubFd f) numBytes))"

definition stub_WriteAt :: "'u unix_calls \<Rightarrow> 'u \<Rightarrow> stub_file \<Rightarrow> byte list \<Rightarrow> int \<Rightarrow> ('u \<times> int) res" where
  "stub_WriteAt os u f buffer position =
     bindR (Lseek os u (stubFd f) position 0) (\<lambda>u.
     bindR (WriteFile os u (stubFd f) buffer) (\<lambda>u. Inr (u, int (length buffer))))"

definition stub_Read :: "'u unix_calls \<Rightarrow> 'u \<Rightarrow> stub_file \<Rightarrow> int \<Rightarrow> ('u \<times> stub_file \<times> int \<times> byte list) res" where
  "stub_Read os u f numBytes =
     bindR (stub_ReadAt os u f numBytes (currentOffset f)) (\<lambda>(u, numRead, buffer).
     Inr (u, f\<lparr>currentOffset := currentOffset f + numRead\<rparr>, numRead, buffer))"

definition stub_Write :: "'u unix_calls \<Rightarrow> 'u \<Rightarrow> stub_file \<Rightarrow> byte list \<Rightarrow> ('u \<times> stub_file \<times> int) res" where
  "stub_Write os u f buffer =
     bindR (stub_WriteAt os u f buffer (currentOffset f)) (\<lambda>(u, numWritten).
     Inr (u, f\<lparr>currentOffset := currentOffset f + numWritten\<rparr>, numWritten))"

definition stub_Length :: "'u unix_calls \<Rightarrow> 'u \<Rightarrow> stub_file \<Rightarrow> ('u \<times> int) res" where
  "stub_Length os u f = bindR (Lseek os u (stubFd f) 0 2) (\<lambda>u. Inr (Tell os u (stubFd f)))"

definition stub_Create :: "'u unix_calls \<Rightarrow> 'u \<Rightarrow> string \<Rightarrow> ('u \<times> bool) res" where
  "stub_Create os u name =
     bindR (OpenForWrite os u name) (\<lambda>(u, fileDescriptor).
     if fileDescriptor = -1 then Inr (u, False)
     else bindR (Close os u fileDescriptor) (\<lambda>(u, _). Inr (u, True)))"

definition stub_Open :: "'u unix_calls \<Rightarrow> 'u \<Rightarrow> string \<Rightarrow> ('u \<times> stub_file option) res" where
  "stub_Open os u name =
     bindR (OpenForReadWrite os u name False) (\<lambda>(u, fileDescriptor).
     if fileDescriptor = -1 then Inr (u, None) else Inr (u, Some (stub_new fileDescriptor)))"

definition stub_Remove :: "'u unix_calls \<Rightarrow> 'u \<Rightarrow> string \<Rightarrow> 'u \<times> bool" where
  "stub_Remove os u name = (let (u, r) = Unlink os u name in (u, r = False))"

text \<open>What the loader and the handler of page faults use of a read and a write.\<close>

definition stub_read :: "'u unix_calls \<Rightarrow> 'u \<Rightarrow> stub_file \<Rightarrow> int \<Rightarrow> int \<Rightarrow> ('u \<times> byte list) res" where
  "stub_read os u f k pos = bindR (stub_ReadAt os u f k pos) (\<lambda>(u, _, bs). Inr (u, bs))"

definition stub_write :: "'u unix_calls \<Rightarrow> 'u \<Rightarrow> stub_file \<Rightarrow> byte list \<Rightarrow> int \<Rightarrow> 'u res" where
  "stub_write os u f bs pos = bindR (stub_WriteAt os u f bs pos) (\<lambda>(u, _). Inr u)"

section \<open>What UNIX promises\<close>

text \<open>
  \<open>files\<close> gives the bytes of the regular files that the process can read and write, \<open>desc\<close> the
  open descriptors with the name and the position of their files. The laws are those of POSIX
  for a process that has descriptors left, on a host with room for files of less than two
  gigabytes, and whose files nobody else changes.
\<close>

locale unix_files =
  fixes os :: "'u unix_calls" and ok :: "'u \<Rightarrow> bool" and okname :: "string \<Rightarrow> bool"
    and files :: "'u \<Rightarrow> string \<Rightarrow> byte list option" and desc :: "'u \<Rightarrow> int \<Rightarrow> (string \<times> nat) option"
  assumes desc_file: "ok u \<Longrightarrow> desc u fd = Some (n, p) \<Longrightarrow> okname n \<and> (\<exists>bs. files u n = Some bs)"
    and open_missing: "ok u \<Longrightarrow> okname n \<Longrightarrow> files u n = None \<Longrightarrow>
      \<exists>u'. u_open os u n RdWr = (u', -1) \<and> ok u' \<and> files u' = files u \<and> desc u' = desc u"
    and open_found: "ok u \<Longrightarrow> okname n \<Longrightarrow> files u n = Some bs \<Longrightarrow>
      \<exists>u' fd. u_open os u n RdWr = (u', fd) \<and> 0 \<le> fd \<and> desc u fd = None \<and> ok u' \<and> files u' = files u \<and> desc u' = (desc u)(fd \<mapsto> (n, 0))"
    and open_trunc: "ok u \<Longrightarrow> okname n \<Longrightarrow>
      \<exists>u' fd. u_open os u n RdWrCreatTrunc = (u', fd) \<and> 0 \<le> fd \<and> desc u fd = None \<and> ok u' \<and> files u' = (files u)(n \<mapsto> [])
        \<and> desc u' = (desc u)(fd \<mapsto> (n, 0))"
    and read_law: "ok u \<Longrightarrow> desc u fd = Some (n, p) \<Longrightarrow> files u n = Some bs \<Longrightarrow> 0 \<le> k \<Longrightarrow> int_range k \<Longrightarrow>
      \<exists>u'. u_read os u fd k = (u', int (length (take (nat k) (drop p bs))), take (nat k) (drop p bs)) \<and> ok u' \<and> files u' = files u
        \<and> desc u' = (desc u)(fd \<mapsto> (n, p + length (take (nat k) (drop p bs))))"
    and write_law: "ok u \<Longrightarrow> desc u fd = Some (n, p) \<Longrightarrow> files u n = Some bs \<Longrightarrow> int_range (int p + int (length ys)) \<Longrightarrow>
      \<exists>u'. u_write os u fd ys = (u', int (length ys)) \<and> ok u' \<and> files u' = (files u)(n \<mapsto> unix_write bs p ys)
        \<and> desc u' = (desc u)(fd \<mapsto> (n, p + length ys))"
    and seek_set: "ok u \<Longrightarrow> desc u fd = Some (n, p) \<Longrightarrow> 0 \<le> off \<Longrightarrow> int_range off \<Longrightarrow>
      \<exists>u'. u_lseek os u fd off 0 = (u', off) \<and> ok u' \<and> files u' = files u \<and> desc u' = (desc u)(fd \<mapsto> (n, nat off))"
    and seek_cur: "ok u \<Longrightarrow> desc u fd = Some (n, p) \<Longrightarrow> int_range (int p) \<Longrightarrow>
      \<exists>u'. u_lseek os u fd 0 1 = (u', int p) \<and> ok u' \<and> files u' = files u \<and> desc u' = desc u"
    and seek_end: "ok u \<Longrightarrow> desc u fd = Some (n, p) \<Longrightarrow> files u n = Some bs \<Longrightarrow> int_range (int (length bs)) \<Longrightarrow>
      \<exists>u'. u_lseek os u fd 0 2 = (u', int (length bs)) \<and> ok u' \<and> files u' = files u \<and> desc u' = (desc u)(fd \<mapsto> (n, length bs))"
    and close_law: "ok u \<Longrightarrow> desc u fd = Some (n, p) \<Longrightarrow>
      \<exists>u'. u_close os u fd = (u', 0) \<and> ok u' \<and> files u' = files u \<and> desc u' = (desc u)(fd := None)"
    and unlink_found: "ok u \<Longrightarrow> okname n \<Longrightarrow> files u n = Some bs \<Longrightarrow> \<forall>fd p. desc u fd \<noteq> Some (n, p) \<Longrightarrow>
      \<exists>u'. u_unlink os u n = (u', 0) \<and> ok u' \<and> files u' = (files u)(n := None) \<and> desc u' = desc u"
    and unlink_missing: "ok u \<Longrightarrow> okname n \<Longrightarrow> files u n = None \<Longrightarrow>
      \<exists>u'. u_unlink os u n = (u', -1) \<and> ok u' \<and> files u' = files u \<and> desc u' = desc u"

text \<open>A handle of the stub for the file \<open>n\<close>.\<close>

definition stub_handle :: "('u \<Rightarrow> int \<Rightarrow> (string \<times> nat) option) \<Rightarrow> 'u \<Rightarrow> stub_file \<Rightarrow> string \<Rightarrow> bool" where
  "stub_handle desc u f n \<longleftrightarrow> (\<exists>p. desc u (stubFd f) = Some (n, p))"

lemma stub_handle_iff: "stub_handle desc u f n \<longleftrightarrow> map_option fst (desc u (stubFd f)) = Some n"
  by (cases "desc u (stubFd f)") (auto simp: stub_handle_def)

context unix_files
begin

lemma ReadAt_law:
  assumes "ok u" "stub_handle desc u f n" "files u n = Some bs" "0 \<le> pos" "0 \<le> k" "int_range (pos + k)"
  shows "\<exists>u'. stub_ReadAt os u f k pos = Inr (u', int (length (take (nat k) (drop (nat pos) bs))), take (nat k) (drop (nat pos) bs))
    \<and> ok u' \<and> files u' = files u \<and> (\<forall>x. map_option fst (desc u' x) = map_option fst (desc u x))"
proof -
  obtain p where p: "desc u (stubFd f) = Some (n, p)" using assms(2) by (auto simp: stub_handle_def)
  have r: "int_range pos" "int_range k" using assms(4-6) by (auto simp: int_range_def)
  obtain u1 where u1: "u_lseek os u (stubFd f) pos 0 = (u1, pos)" "ok u1" "files u1 = files u" "desc u1 = (desc u)(stubFd f \<mapsto> (n, nat pos))"
    using seek_set [OF assms(1) p assms(4) r(1)] by blast
  have d1: "desc u1 (stubFd f) = Some (n, nat pos)" "files u1 n = Some bs" using u1 assms(3) by simp_all
  show ?thesis
    using read_law [OF u1(2) d1 assms(5) r(2)] u1 p assms(4) by (auto simp: stub_ReadAt_def Lseek_def ReadPartial_def)
qed

lemma WriteAt_law:
  assumes "ok u" "stub_handle desc u f n" "files u n = Some bs" "0 \<le> pos" "int_range (pos + int (length ys))"
  shows "\<exists>u'. stub_WriteAt os u f ys pos = Inr (u', int (length ys)) \<and> ok u' \<and> files u' = (files u)(n \<mapsto> unix_write bs (nat pos) ys)
    \<and> (\<forall>x. map_option fst (desc u' x) = map_option fst (desc u x))"
proof -
  obtain p where p: "desc u (stubFd f) = Some (n, p)" using assms(2) by (auto simp: stub_handle_def)
  have r: "int_range pos" "int_range (int (nat pos) + int (length ys))" using assms(4,5) by (auto simp: int_range_def)
  obtain u1 where u1: "u_lseek os u (stubFd f) pos 0 = (u1, pos)" "ok u1" "files u1 = files u" "desc u1 = (desc u)(stubFd f \<mapsto> (n, nat pos))"
    using seek_set [OF assms(1) p assms(4) r(1)] by blast
  have d1: "desc u1 (stubFd f) = Some (n, nat pos)" "files u1 n = Some bs" using u1 assms(3) by simp_all
  show ?thesis
    using write_law [OF u1(2) d1 r(2)] u1 p assms(4) by (auto simp: stub_WriteAt_def Lseek_def WriteFile_def)
qed

lemma handle_cong: "\<forall>x. map_option fst (desc u' x) = map_option fst (desc u x) \<Longrightarrow> stub_handle desc u' f n = stub_handle desc u f n"
  by (simp add: stub_handle_iff)

lemma Open_law:
  assumes "ok u" "okname n"
  shows "\<exists>u' r. stub_Open os u n = Inr (u', r) \<and> ok u' \<and> files u' = files u
    \<and> (case r of None \<Rightarrow> files u n = None \<and> desc u' = desc u
       | Some f \<Rightarrow> files u n \<noteq> None \<and> currentOffset f = 0 \<and> desc u (stubFd f) = None \<and> desc u' = (desc u)(stubFd f \<mapsto> (n, 0)))"
proof (cases "files u n")
  case None
  then show ?thesis using open_missing [OF assms None] by (auto simp: stub_Open_def OpenForReadWrite_def)
next
  case (Some bs)
  then show ?thesis using open_found [OF assms Some] by (auto simp: stub_Open_def OpenForReadWrite_def stub_new_def)
qed

lemma delete_law:
  assumes "ok u" "stub_handle desc u f n"
  shows "\<exists>u'. stub_delete os u f = Inr u' \<and> ok u' \<and> files u' = files u \<and> desc u' = (desc u)(stubFd f := None)"
  using assms close_law by (fastforce simp: stub_handle_def stub_delete_def Close_def)

end

text \<open>The stub is a file service for programs; files grow.\<close>

sublocale unix_files \<subseteq> stub: program_files "stub_Open os" "stub_read os" "stub_delete os" ok okname files "stub_handle desc" "stub_write os" unix_write
proof unfold_locales
  fix u n
  assume a: "ok u" "okname n" "files u n = None"
  then show "\<exists>u'. stub_Open os u n = Inr (u', None) \<and> ok u' \<and> files u' = files u"
    using Open_law [OF a(1,2)] by (auto split: option.splits)
next
  fix u n bs
  assume a: "ok u" "okname n" "files u n = Some bs"
  then show "\<exists>u' f. stub_Open os u n = Inr (u', Some f) \<and> ok u' \<and> files u' = files u \<and> stub_handle desc u' f n"
    using Open_law [OF a(1,2)] by (auto simp: stub_handle_def split: option.splits)
next
  fix u f n bs and pos k :: int
  assume a: "ok u" "stub_handle desc u f n" "files u n = Some bs" "0 \<le> pos" "0 \<le> k" "int_range (pos + k)"
  obtain u' where u': "stub_ReadAt os u f k pos = Inr (u', int (length (take (nat k) (drop (nat pos) bs))), take (nat k) (drop (nat pos) bs))"
      "ok u'" "files u' = files u" "\<forall>x. map_option fst (desc u' x) = map_option fst (desc u x)"
    using ReadAt_law [OF a] by blast
  then show "\<exists>u'. stub_read os u f k pos = Inr (u', take (nat k) (drop (nat pos) bs)) \<and> ok u' \<and> files u' = files u \<and> stub_handle desc u' f n"
    using handle_cong [OF u'(4)] a(2) by (simp add: stub_read_def)
next
  fix u f n
  assume a: "ok u" "stub_handle desc u f n"
  then show "\<exists>u'. stub_delete os u f = Inr u' \<and> ok u' \<and> files u' = files u" using delete_law [OF a] by blast
next
  fix u f n bs pos and ys :: "byte list"
  assume a: "ok u" "stub_handle desc u f n" "files u n = Some bs" "0 \<le> pos" "int_range (pos + int (length ys))"
  obtain u' where u': "stub_WriteAt os u f ys pos = Inr (u', int (length ys))" "ok u'" "files u' = (files u)(n \<mapsto> unix_write bs (nat pos) ys)"
      "\<forall>x. map_option fst (desc u' x) = map_option fst (desc u x)"
    using WriteAt_law [OF a] by blast
  show "\<exists>u'. stub_write os u f ys pos = Inr u' \<and> ok u' \<and> stub_handle desc u' f n \<and> (\<forall>x. (files u' x = None) = (files u x = None))
      \<and> files u' n = Some (unix_write bs (nat pos) ys)"
    using u' a(3) handle_cong [OF u'(4)] a(2) by (auto simp: stub_write_def)
qed

context unix_files
begin

lemmas stub_service = stub.program_files_axioms

lemma Create_law:
  assumes "ok u" "okname n"
  shows "\<exists>u'. stub_Create os u n = Inr (u', True) \<and> ok u' \<and> files u' = (files u)(n \<mapsto> []) \<and> desc u' = desc u"
proof -
  obtain u1 fd where u1: "u_open os u n RdWrCreatTrunc = (u1, fd)" "0 \<le> fd" "desc u fd = None" "ok u1" "files u1 = (files u)(n \<mapsto> [])"
      "desc u1 = (desc u)(fd \<mapsto> (n, 0))"
    using open_trunc [OF assms] by blast
  have "desc u1 fd = Some (n, 0)" "(desc u1)(fd := None) = desc u" using u1(3,6) by (simp_all add: fun_upd_idem)
  then show ?thesis using close_law [OF u1(4), of fd n 0] u1 by (auto simp: stub_Create_def OpenForWrite_def Close_def)
qed

lemma Read_law:
  assumes "ok u" "stub_handle desc u f n" "files u n = Some bs" "0 \<le> currentOffset f" "0 \<le> k" "int_range (currentOffset f + k)"
  defines "out \<equiv> take (nat k) (drop (nat (currentOffset f)) bs)"
  shows "\<exists>u'. stub_Read os u f k = Inr (u', f\<lparr>currentOffset := currentOffset f + int (length out)\<rparr>, int (length out), out)
    \<and> ok u' \<and> files u' = files u \<and> stub_handle desc u' f n"
proof -
  obtain u' where u': "stub_ReadAt os u f k (currentOffset f) = Inr (u', int (length out), out)"
      "ok u'" "files u' = files u" "\<forall>x. map_option fst (desc u' x) = map_option fst (desc u x)"
    using ReadAt_law [OF assms(1-6)] unfolding out_def by blast
  then show ?thesis using handle_cong [OF u'(4)] assms(2) by (simp add: stub_Read_def)
qed

lemma Write_law:
  assumes "ok u" "stub_handle desc u f n" "files u n = Some bs" "0 \<le> currentOffset f" "int_range (currentOffset f + int (length ys))"
  shows "\<exists>u'. stub_Write os u f ys = Inr (u', f\<lparr>currentOffset := currentOffset f + int (length ys)\<rparr>, int (length ys))
    \<and> ok u' \<and> files u' = (files u)(n \<mapsto> unix_write bs (nat (currentOffset f)) ys) \<and> stub_handle desc u' f n"
proof -
  obtain u' where u': "stub_WriteAt os u f ys (currentOffset f) = Inr (u', int (length ys))" "ok u'"
      "files u' = (files u)(n \<mapsto> unix_write bs (nat (currentOffset f)) ys)" "\<forall>x. map_option fst (desc u' x) = map_option fst (desc u x)"
    using WriteAt_law [OF assms] by blast
  then show ?thesis using handle_cong [OF u'(4)] assms(2) by (simp add: stub_Write_def)
qed

lemma Length_law:
  assumes "ok u" "stub_handle desc u f n" "files u n = Some bs" "int_range (int (length bs))"
  shows "\<exists>u'. stub_Length os u f = Inr (u', int (length bs)) \<and> ok u' \<and> files u' = files u \<and> stub_handle desc u' f n"
proof -
  obtain p where p: "desc u (stubFd f) = Some (n, p)" using assms(2) by (auto simp: stub_handle_def)
  obtain u1 where u1: "u_lseek os u (stubFd f) 0 2 = (u1, int (length bs))" "ok u1" "files u1 = files u"
      "desc u1 = (desc u)(stubFd f \<mapsto> (n, length bs))"
    using seek_end [OF assms(1) p assms(3,4)] by blast
  have "desc u1 (stubFd f) = Some (n, length bs)" using u1(4) by simp
  then obtain u2 where "u_lseek os u1 (stubFd f) 0 1 = (u2, int (length bs))" "ok u2" "files u2 = files u1" "desc u2 = desc u1"
    using seek_cur [OF u1(2) _ assms(4)] by blast
  then show ?thesis using u1 by (auto simp: stub_Length_def Lseek_def Tell_def stub_handle_def)
qed

lemma Remove_law:
  assumes "ok u" "okname n" "\<forall>fd p. desc u fd \<noteq> Some (n, p)"
  shows "\<exists>u'. stub_Remove os u n = (u', files u n \<noteq> None) \<and> ok u' \<and> files u' = (files u)(n := None) \<and> desc u' = desc u"
proof (cases "files u n")
  case None
  then have "(files u)(n := None) = files u" by (simp add: fun_upd_idem)
  then show ?thesis using unlink_missing [OF assms(1,2) None] None by (auto simp: stub_Remove_def Unlink_def)
next
  case (Some bs)
  then show ?thesis using unlink_found [OF assms(1,2) Some assms(3)] by (auto simp: stub_Remove_def Unlink_def)
qed

end

section \<open>The stub refines byte sequences\<close>

text \<open>
  C40. The file system of a build with \<open>FILESYS_STUB\<close>, on any host that keeps the promises of
  POSIX. \<open>Create\<close> empties or creates the file, leaves no descriptor open and never returns
  false; \<open>Open\<close> finds exactly the files that exist; \<open>Read\<close> and \<open>Write\<close> through a handle return
  and replace the bytes at its own position, advance it by their number and change no other file, and
  a file grows when it is written behind its end; \<open>Length\<close> is the number of bytes, closing
  gives the descriptor back, and \<open>Remove\<close> deletes exactly the file and tells whether there was one.
\<close>

theorem stub_file_system:
  assumes "unix_files os ok okname files desc" "ok u" "okname n"
  shows "(\<exists>u'. stub_Create os u n = Inr (u', True) \<and> ok u' \<and> files u' = (files u)(n \<mapsto> []) \<and> desc u' = desc u)
    \<and> (\<exists>u' r. stub_Open os u n = Inr (u', r) \<and> ok u' \<and> files u' = files u
        \<and> (case r of None \<Rightarrow> files u n = None \<and> desc u' = desc u
           | Some f \<Rightarrow> files u n \<noteq> None \<and> currentOffset f = 0 \<and> stub_handle desc u' f n \<and> desc u' = (desc u)(stubFd f \<mapsto> (n, 0))))
    \<and> (\<forall>f bs k. stub_handle desc u f n \<and> files u n = Some bs \<and> 0 \<le> currentOffset f \<and> 0 \<le> k \<and> int_range (currentOffset f + k) \<longrightarrow>
        (let out = take (nat k) (drop (nat (currentOffset f)) bs) in
         \<exists>u'. stub_Read os u f k = Inr (u', f\<lparr>currentOffset := currentOffset f + int (length out)\<rparr>, int (length out), out)
           \<and> ok u' \<and> files u' = files u \<and> stub_handle desc u' f n))
    \<and> (\<forall>f bs ys. stub_handle desc u f n \<and> files u n = Some bs \<and> 0 \<le> currentOffset f \<and> int_range (currentOffset f + int (length ys)) \<longrightarrow>
        (\<exists>u'. stub_Write os u f ys = Inr (u', f\<lparr>currentOffset := currentOffset f + int (length ys)\<rparr>, int (length ys))
           \<and> ok u' \<and> files u' = (files u)(n \<mapsto> unix_write bs (nat (currentOffset f)) ys) \<and> stub_handle desc u' f n))
    \<and> (\<forall>f bs. stub_handle desc u f n \<and> files u n = Some bs \<and> int_range (int (length bs)) \<longrightarrow>
        (\<exists>u'. stub_Length os u f = Inr (u', int (length bs)) \<and> ok u' \<and> files u' = files u \<and> stub_handle desc u' f n))
    \<and> (\<forall>f. stub_handle desc u f n \<longrightarrow>
        (\<exists>u'. stub_delete os u f = Inr u' \<and> ok u' \<and> files u' = files u \<and> desc u' = (desc u)(stubFd f := None)))
    \<and> ((\<forall>fd p. desc u fd \<noteq> Some (n, p)) \<longrightarrow>
        (\<exists>u'. stub_Remove os u n = (u', files u n \<noteq> None) \<and> ok u' \<and> files u' = (files u)(n := None) \<and> desc u' = desc u))"
  (is "?c \<and> ?o \<and> ?r \<and> ?w \<and> ?l \<and> ?d \<and> ?rm")
proof (intro conjI)
  note L = unix_files.Create_law [OF assms] unix_files.Open_law [OF assms] unix_files.Length_law [OF assms(1,2)]
    unix_files.delete_law [OF assms(1,2)] unix_files.Remove_law [OF assms]
  show ?c by (rule L(1))
  obtain u' r where o: "stub_Open os u n = Inr (u', r)" "ok u'" "files u' = files u"
      "case r of None \<Rightarrow> files u n = None \<and> desc u' = desc u
       | Some f \<Rightarrow> files u n \<noteq> None \<and> currentOffset f = 0 \<and> desc u (stubFd f) = None \<and> desc u' = (desc u)(stubFd f \<mapsto> (n, 0))"
    using L(2) by blast
  then show ?o by (intro exI [of _ u'] exI [of _ r]) (simp add: stub_handle_def split: option.splits)
  show ?l ?d ?rm using L(3-5) by blast+
  show ?r unfolding Let_def using unix_files.Read_law [OF assms(1,2)] by blast
  show ?w using unix_files.Write_law [OF assms(1,2)] by blast
qed

section \<open>A host that keeps the promises\<close>

text \<open>
  Files and descriptors in memory. The calls that the stub does not use fail, as on a host
  without a network.
\<close>

record unix_state =
  ufiles :: "string \<Rightarrow> byte list option"
  udesc :: "int \<Rightarrow> (string \<times> nat) option"
  unext :: int

definition new_desc :: "unix_state \<Rightarrow> string \<Rightarrow> unix_state \<times> int" where
  "new_desc u n = (u\<lparr>udesc := (udesc u)(unext u \<mapsto> (n, 0)), unext := unext u + 1\<rparr>, unext u)"

definition model_open :: "unix_state \<Rightarrow> string \<Rightarrow> open_flags \<Rightarrow> unix_state \<times> int" where
  "model_open u n fl = (case fl of
      RdWr \<Rightarrow> if ufiles u n = None then (u, -1) else new_desc u n
    | RdWrCreatTrunc \<Rightarrow> new_desc (u\<lparr>ufiles := (ufiles u)(n \<mapsto> [])\<rparr>) n)"

definition on_desc :: "unix_state \<Rightarrow> int \<Rightarrow> 'r \<Rightarrow> (string \<Rightarrow> nat \<Rightarrow> byte list \<Rightarrow> unix_state \<times> 'r) \<Rightarrow> unix_state \<times> 'r" where
  "on_desc u fd err act = (case udesc u fd of None \<Rightarrow> (u, err)
     | Some (n, p) \<Rightarrow> (case ufiles u n of None \<Rightarrow> (u, err) | Some bs \<Rightarrow> act n p bs))"

definition move_to :: "unix_state \<Rightarrow> int \<Rightarrow> string \<Rightarrow> nat \<Rightarrow> unix_state" where
  "move_to u fd n p = u\<lparr>udesc := (udesc u)(fd \<mapsto> (n, p))\<rparr>"

definition unix_model :: "unix_state unix_calls" where
  "unix_model = \<lparr>u_open = model_open,
     u_read = (\<lambda>u fd k. on_desc u fd (-1, []) (\<lambda>n p bs. let r = take (nat k) (drop p bs) in (move_to u fd n (p + length r), int (length r), r))),
     u_write = (\<lambda>u fd ys. on_desc u fd (-1) (\<lambda>n p bs.
       (move_to (u\<lparr>ufiles := (ufiles u)(n \<mapsto> unix_write bs p ys)\<rparr>) fd n (p + length ys), int (length ys)))),
     u_lseek = (\<lambda>u fd off wh. on_desc u fd (-1) (\<lambda>n p bs.
       let q = off + (if wh = 0 then 0 else if wh = 1 then int p else int (length bs)) in if q < 0 then (u, -1) else (move_to u fd n (nat q), q))),
     u_close = (\<lambda>u fd. if udesc u fd = None then (u, -1) else (u\<lparr>udesc := (udesc u)(fd := None)\<rparr>, 0)),
     u_unlink = (\<lambda>u n. if ufiles u n = None then (u, -1) else (u\<lparr>ufiles := (ufiles u)(n := None)\<rparr>, 0)),
     u_select = (\<lambda>u _ _. (u, 0)), u_socket = (\<lambda>u. (u, -1)), u_bind = (\<lambda>u _ _. (u, -1)), u_recvfrom = (\<lambda>u _ _. (u, -1, [])),
     u_sendto = (\<lambda>u _ _ _. (u, -1)), u_sleep = (\<lambda>u _. u), u_srand = (\<lambda>u _. u), u_rand = (\<lambda>u. (u, 0))\<rparr>"

definition model_ok :: "unix_state \<Rightarrow> bool" where
  "model_ok u \<longleftrightarrow> 0 \<le> unext u \<and> (\<forall>fd \<ge> unext u. udesc u fd = None) \<and> (\<forall>fd n p. udesc u fd = Some (n, p) \<longrightarrow> ufiles u n \<noteq> None)"

lemma new_desc_ok:
  assumes "model_ok u" "ufiles u n \<noteq> None"
  shows "\<exists>u' fd. new_desc u n = (u', fd) \<and> 0 \<le> fd \<and> udesc u fd = None \<and> model_ok u' \<and> ufiles u' = ufiles u \<and> udesc u' = (udesc u)(fd \<mapsto> (n, 0))"
  using assms by (auto simp: new_desc_def model_ok_def)

lemma move_to_ok:
  assumes "model_ok u" "ufiles u n \<noteq> None" "udesc u fd \<noteq> None"
  shows "model_ok (move_to u fd n p)" "ufiles (move_to u fd n p) = ufiles u" "udesc (move_to u fd n p) = (udesc u)(fd \<mapsto> (n, p))"
  using assms by (auto simp: model_ok_def move_to_def)

lemma on_desc_ok:
  assumes "model_ok u" "udesc u fd = Some (n, p)"
  shows "\<exists>bs. ufiles u n = Some bs \<and> on_desc u fd err act = act n p bs"
proof -
  obtain bs where "ufiles u n = Some bs" using assms unfolding model_ok_def by blast
  then show ?thesis using assms(2) by (simp add: on_desc_def)
qed

interpretation posix: unix_files unix_model model_ok "\<lambda>_. True" ufiles udesc
proof unfold_locales
  fix u fd n p
  assume a: "model_ok u" "udesc u fd = Some (n, p)"
  then show "True \<and> (\<exists>bs. ufiles u n = Some bs)" using on_desc_ok [OF a, of "()" "\<lambda>_ _ _. (u, ())"] by auto
  then have n: "ufiles u n \<noteq> None" "udesc u fd \<noteq> None" using a(2) by auto
  show "\<exists>u'. u_close unix_model u fd = (u', 0) \<and> model_ok u' \<and> ufiles u' = ufiles u \<and> udesc u' = (udesc u)(fd := None)"
    using a by (auto simp: unix_model_def model_ok_def)
  show "\<exists>u'. u_lseek unix_model u fd off 0 = (u', off) \<and> model_ok u' \<and> ufiles u' = ufiles u \<and> udesc u' = (udesc u)(fd \<mapsto> (n, nat off))"
    if "0 \<le> off" for off
    using that on_desc_ok [OF a] move_to_ok [OF a(1) n] by (fastforce simp: unix_model_def)
  show "\<exists>u'. u_lseek unix_model u fd 0 1 = (u', int p) \<and> model_ok u' \<and> ufiles u' = ufiles u \<and> udesc u' = udesc u"
    using on_desc_ok [OF a, of "-1 :: int"] move_to_ok [OF a(1) n, of p] a(2) by (fastforce simp: unix_model_def fun_upd_idem)
  show "\<exists>u'. u_lseek unix_model u fd 0 2 = (u', int (length bs)) \<and> model_ok u' \<and> ufiles u' = ufiles u \<and> udesc u' = (udesc u)(fd \<mapsto> (n, length bs))"
    if "ufiles u n = Some bs" for bs
    using that on_desc_ok [OF a] move_to_ok [OF a(1) n] by (fastforce simp: unix_model_def)
  show "\<exists>u'. u_read unix_model u fd k = (u', int (length (take (nat k) (drop p bs))), take (nat k) (drop p bs)) \<and> model_ok u' \<and> ufiles u' = ufiles u
        \<and> udesc u' = (udesc u)(fd \<mapsto> (n, p + length (take (nat k) (drop p bs))))" if "ufiles u n = Some bs" for bs k
    using that on_desc_ok [OF a] move_to_ok [OF a(1) n] by (fastforce simp: unix_model_def Let_def)
  show "\<exists>u'. u_write unix_model u fd ys = (u', int (length ys)) \<and> model_ok u' \<and> ufiles u' = (ufiles u)(n \<mapsto> unix_write bs p ys)
        \<and> udesc u' = (udesc u)(fd \<mapsto> (n, p + length ys))" if "ufiles u n = Some bs" for bs ys
  proof -
    let ?u = "u\<lparr>ufiles := (ufiles u)(n \<mapsto> unix_write bs p ys)\<rparr>"
    have "model_ok ?u" "ufiles ?u n \<noteq> None" "udesc ?u fd \<noteq> None" using a by (auto simp: model_ok_def)
    from move_to_ok [OF this, of "p + length ys"] show ?thesis using that on_desc_ok [OF a] by (fastforce simp: unix_model_def)
  qed
next
  fix u n
  assume a: "model_ok u"
  show "\<exists>u'. u_open unix_model u n RdWr = (u', -1) \<and> model_ok u' \<and> ufiles u' = ufiles u \<and> udesc u' = udesc u" if "ufiles u n = None"
    using that a by (simp add: unix_model_def model_open_def)
  show "\<exists>u' fd. u_open unix_model u n RdWr = (u', fd) \<and> 0 \<le> fd \<and> udesc u fd = None \<and> model_ok u' \<and> ufiles u' = ufiles u
      \<and> udesc u' = (udesc u)(fd \<mapsto> (n, 0))" if "ufiles u n = Some bs" for bs
    using that new_desc_ok [OF a, of n] by (simp add: unix_model_def model_open_def)
  let ?u = "u\<lparr>ufiles := (ufiles u)(n \<mapsto> [])\<rparr>"
  have "model_ok ?u" "ufiles ?u n \<noteq> None" using a by (auto simp: model_ok_def)
  from new_desc_ok [OF this] show "\<exists>u' fd. u_open unix_model u n RdWrCreatTrunc = (u', fd) \<and> 0 \<le> fd \<and> udesc u fd = None \<and> model_ok u'
      \<and> ufiles u' = (ufiles u)(n \<mapsto> []) \<and> udesc u' = (udesc u)(fd \<mapsto> (n, 0))"
    by (simp add: unix_model_def model_open_def)
  show "\<exists>u'. u_unlink unix_model u n = (u', 0) \<and> model_ok u' \<and> ufiles u' = (ufiles u)(n := None) \<and> udesc u' = udesc u"
    if "ufiles u n = Some bs" "\<forall>fd p. udesc u fd \<noteq> Some (n, p)" for bs
    using that a by (auto simp: unix_model_def model_ok_def)
  show "\<exists>u'. u_unlink unix_model u n = (u', -1) \<and> model_ok u' \<and> ufiles u' = ufiles u \<and> udesc u' = udesc u" if "ufiles u n = None"
    using that a by (simp add: unix_model_def)
qed

text \<open>C40, on the model of the host: reading from a file of three bytes.\<close>

definition unix3 :: unix_state where
  "unix3 = \<lparr>ufiles = [''prog'' \<mapsto> [1, 2, 3]], udesc = [3 \<mapsto> (''prog'', 0)], unext = 4\<rparr>"

theorem stub_file_system_witness:
  "(\<exists>u'. stub_Create unix_model unix3 ''prog'' = Inr (u', True) \<and> ufiles u' = [''prog'' \<mapsto> []])
   \<and> (\<exists>u'. stub_Read unix_model unix3 \<lparr>stubFd = 3, currentOffset = 1\<rparr> 5
        = Inr (u', \<lparr>stubFd = 3, currentOffset = 3\<rparr>, 2, [2, 3]) \<and> ufiles u' = ufiles unix3)"
proof -
  have ok: "model_ok unix3" "stub_handle udesc unix3 \<lparr>stubFd = 3, currentOffset = 1\<rparr> ''prog''"
    by (auto simp: model_ok_def unix3_def stub_handle_def split: if_splits)
  note T = stub_file_system [OF posix.unix_files_axioms ok(1) TrueI, of "''prog''"]
  have f: "ufiles unix3 ''prog'' = Some [1, 2, 3]" "(ufiles unix3)(''prog'' \<mapsto> []) = [''prog'' \<mapsto> []]" by (simp_all add: unix3_def)
  have "\<exists>u'. stub_Create unix_model unix3 ''prog'' = Inr (u', True) \<and> ufiles u' = [''prog'' \<mapsto> []]"
    using T [THEN conjunct1] f(2) by auto
  moreover have "\<exists>u'. stub_Read unix_model unix3 \<lparr>stubFd = 3, currentOffset = 1\<rparr> 5
        = Inr (u', \<lparr>stubFd = 3, currentOffset = 3\<rparr>, 2, [2, 3]) \<and> ufiles u' = ufiles unix3"
    using T [THEN conjunct2, THEN conjunct2, THEN conjunct1, rule_format, of "\<lparr>stubFd = 3, currentOffset = 1\<rparr>" "[1, 2, 3]" 5] ok(2) f(1)
    by (auto simp: int_range_def Let_def)
  ultimately show ?thesis ..
qed

section \<open>Packets\<close>

text \<open>
  The attempts to send a packet: the state before each of them, when all before it have failed.
  The first success ends the loop; after ten failures the packet is dropped; a count that is
  neither a failure nor the whole packet stops the simulator.
\<close>

primrec attempt :: "'u unix_calls \<Rightarrow> int \<Rightarrow> byte list \<Rightarrow> string \<Rightarrow> 'u \<Rightarrow> nat \<Rightarrow> 'u" where
  "attempt os s b n u 0 = u"
| "attempt os s b n u (Suc k) = Delay os (fst (u_sendto os (attempt os s b n u k) s b n)) 1"

lemma attempt_shift: "attempt os s b n (Delay os (fst (u_sendto os u s b n)) 1) k = attempt os s b n u (Suc k)"
  by (induction k) simp_all

lemma SendToSocket_loop_attempts:
  assumes "\<forall>k < i. snd (u_sendto os (attempt os s b n u k) s b n) < 0" "i \<le> N"
  shows "SendToSocket_loop os s b n N u = SendToSocket_loop os s b n (N - i) (attempt os s b n u i)"
  using assms
proof (induction i)
  case (Suc i)
  obtain u' r where r: "u_sendto os (attempt os s b n u i) s b n = (u', r)" by (cases "u_sendto os (attempt os s b n u i) s b n")
  obtain j where j: "N - i = Suc j" "N - Suc i = j" using Suc.prems(2) by (cases "N - i") auto
  have "r < 0" using Suc.prems(1) r by force
  then show ?case using Suc j r by simp
qed simp

lemma SendToSocket_spec:
  assumes "length toName < 108" "\<forall>k < i. snd (u_sendto os (attempt os s b toName u k) s b toName) < 0"
  shows "i = 10 \<Longrightarrow> Host_SendToSocket os u s b toName = Inr (attempt os s b toName u 10)"
    and "i < 10 \<Longrightarrow> u_sendto os (attempt os s b toName u i) s b toName = (u', r) \<Longrightarrow> 0 \<le> r \<Longrightarrow>
      Host_SendToSocket os u s b toName = (if r = int (length b) then Inr u' else Inl AssertFailed)"
proof -
  have L: "Host_SendToSocket os u s b toName = SendToSocket_loop os s b toName (10 - i) (attempt os s b toName u i)" if "i \<le> 10"
    using SendToSocket_loop_attempts [OF assms(2) that] assms(1) by (simp add: Host_SendToSocket_def InitSocketName_def)
  show "i = 10 \<Longrightarrow> Host_SendToSocket os u s b toName = Inr (attempt os s b toName u 10)" using L by simp
  assume i: "i < 10" "u_sendto os (attempt os s b toName u i) s b toName = (u', r)" "0 \<le> r"
  then obtain j where "10 - i = Suc j" by (cases "10 - i") auto
  with L i show "Host_SendToSocket os u s b toName = (if r = int (length b) then Inr u' else Inl AssertFailed)" by simp
qed

end
