(* ===== verification/StubBoot.thy ===== *)
theory StubBoot
  imports Boot Host
begin

text \<open>
  The kernel as the Makefile builds it, with \<open>FILESYS_STUB\<close>: programs are files of the host.
  A COFF file is converted in place, and \<open>main\<close> loads the result through the stub and runs it.
\<close>

definition stub_paging :: "(string \<Rightarrow> bool) \<Rightarrow> ('u \<Rightarrow> string \<Rightarrow> byte list option) \<Rightarrow> 'u machine_scheme \<Rightarrow> bool" where
  "stub_paging okname files = paging (\<lambda>d n. okname n \<and> files d n \<noteq> None)"

definition stub_handler :: "'u unix_calls \<Rightarrow> 'u host \<Rightarrow> byte list \<Rightarrow> 'u handler" where
  "stub_handler os = ExceptionHandler (stub_Open os) (stub_read os) (stub_write os) (stub_delete os)"



end
