(* ===== verification/Interrupt.thy ===== *)
theory Interrupt
  imports CList Machine
begin

text \<open>
  Simulated time and hardware interrupts (\<^verbatim>\<open>code/machine/interrupt.h\<close>, \<^verbatim>\<open>interrupt.cc\<close>,
  \<^verbatim>\<open>stats.h\<close>), the timer device and the alarm clock (\<^verbatim>\<open>timer.cc\<close>, \<^verbatim>\<open>threads/alarm.cc\<close>). The
  list of pending interrupts is the sequence that the sorted list represents; the objects that
  an interrupt calls back are values of a type of devices, and what they do is an argument of
  the routines. What the simulation relies on, that a handler only schedules interrupts for
  the future, is a locale; the timer is its instance.
\<close>

section \<open>Statistics\<close>

definition UserTick :: int where "UserTick = 1"
definition SystemTick :: int where "SystemTick = 10"
definition TimerTicks :: int where "TimerTicks = 100"

record statistics =
  totalTicks :: int
  idleTicks :: int
  systemTicks :: int
  userTicks :: int

definition Statistics_new :: statistics where
  "Statistics_new = \<lparr>totalTicks = 0, idleTicks = 0, systemTicks = 0, userTicks = 0\<rparr>"

section \<open>The interrupt simulation\<close>

datatype int_status = IntOff | IntOn

datatype int_type = TimerInt | DiskInt | ConsoleWriteInt | ConsoleReadInt | NetworkSendInt | NetworkRecvInt

record 'o pending_interrupt =
  callOnInterrupt :: 'o
  whenDue :: int
  intType :: int_type

definition PendingCompare :: "'o pending_interrupt \<Rightarrow> 'o pending_interrupt \<Rightarrow> int" where
  "PendingCompare x y = (if whenDue x < whenDue y then -1 else if whenDue x > whenDue y then 1 else 0)"

record 'o interrupt =
  level :: int_status
  pending :: "'o pending_interrupt list"
  inHandler :: bool
  yieldOnReturn :: bool
  intStatus :: machine_status
  stats :: statistics

definition Interrupt_new :: "'o interrupt" where
  "Interrupt_new = \<lparr>level = IntOff, pending = [], inHandler = False, yieldOnReturn = False,
     intStatus = SystemMode, stats = Statistics_new\<rparr>"

definition ChangeLevel :: "int_status \<Rightarrow> int_status \<Rightarrow> ('o, 'z) interrupt_scheme \<Rightarrow> ('o, 'z) interrupt_scheme" where
  "ChangeLevel old now s = s\<lparr>level := now\<rparr>"

definition YieldOnReturn :: "('o, 'z) interrupt_scheme \<Rightarrow> ('o, 'z) interrupt_scheme res" where
  "YieldOnReturn s = ASSERT (inHandler s) (Inr (s\<lparr>yieldOnReturn := True\<rparr>))"

text \<open>The new interrupt is a new object, so that it is not in the list yet.\<close>

definition Schedule :: "'o \<Rightarrow> int \<Rightarrow> int_type \<Rightarrow> ('o, 'z) interrupt_scheme \<Rightarrow> ('o, 'z) interrupt_scheme res" where
  "Schedule toCall fromNow type s =
     (let toOccur = \<lparr>callOnInterrupt = toCall, whenDue = totalTicks (stats s) + fromNow, intType = type\<rparr> in
      ASSERT (fromNow > 0) (Inr (s\<lparr>pending := insert_sorted PendingCompare toOccur (pending s)\<rparr>)))"

text \<open>
  \<open>handle\<close> is the call back of an object, \<open>flush\<close> is \<open>kernel->machine->DelayedLoad(0, 0)\<close> where
  there is a machine. The loop ends only if the handlers do not keep scheduling interrupts that
  are due at once.
\<close>

partial_function (option) CheckIfDue_loop ::
    "('o \<Rightarrow> ('o, 'z) interrupt_scheme \<Rightarrow> ('o, 'z) interrupt_scheme res) \<Rightarrow> ('o, 'z) interrupt_scheme
     \<Rightarrow> ('o, 'z) interrupt_scheme res option" where
  "CheckIfDue_loop handle s =
     (case pending s of
        [] \<Rightarrow> Some (Inl AssertFailed)
      | p # rest \<Rightarrow>
          (case handle (callOnInterrupt p) (s\<lparr>pending := rest\<rparr>) of
             Inl e \<Rightarrow> Some (Inl e)
           | Inr s \<Rightarrow>
               (case pending s of
                  [] \<Rightarrow> Some (Inr s)
                | front # _ \<Rightarrow>
                    if whenDue front \<le> totalTicks (stats s) then CheckIfDue_loop handle s
                    else Some (Inr s))))"

definition CheckIfDue ::
    "('o \<Rightarrow> ('o, 'z) interrupt_scheme \<Rightarrow> ('o, 'z) interrupt_scheme res)
     \<Rightarrow> (('o, 'z) interrupt_scheme \<Rightarrow> ('o, 'z) interrupt_scheme)
     \<Rightarrow> bool \<Rightarrow> ('o, 'z) interrupt_scheme \<Rightarrow> (('o, 'z) interrupt_scheme \<times> bool) res" where
  "CheckIfDue handle flush advanceClock s =
     ASSERT (level s = IntOff) (
     case pending s of
       [] \<Rightarrow> Inr (s, False)
     | p # _ \<Rightarrow>
         if whenDue p > totalTicks (stats s) \<and> \<not> advanceClock then Inr (s, False)
         else let s = (if whenDue p > totalTicks (stats s)
                       then s\<lparr>stats := (stats s)\<lparr>
                              idleTicks := idleTicks (stats s) + (whenDue p - totalTicks (stats s)),
                              totalTicks := whenDue p\<rparr>\<rparr>
                       else s);
                  s = (flush s)\<lparr>inHandler := True\<rparr>
              in bindR (returning (CheckIfDue_loop handle s)) (\<lambda>s. Inr (s\<lparr>inHandler := False\<rparr>, True)))"

text \<open>\<open>yield\<close> is \<open>kernel->currentThread->Yield()\<close>.\<close>

definition OneTick ::
    "('o \<Rightarrow> ('o, 'z) interrupt_scheme \<Rightarrow> ('o, 'z) interrupt_scheme res)
     \<Rightarrow> (('o, 'z) interrupt_scheme \<Rightarrow> ('o, 'z) interrupt_scheme)
     \<Rightarrow> (('o, 'z) interrupt_scheme \<Rightarrow> ('o, 'z) interrupt_scheme res)
     \<Rightarrow> ('o, 'z) interrupt_scheme \<Rightarrow> ('o, 'z) interrupt_scheme res" where
  "OneTick handle flush yield s =
     (let oldStatus = intStatus s;
          s = (if intStatus s = SystemMode
               then s\<lparr>stats := (stats s)\<lparr>totalTicks := totalTicks (stats s) + SystemTick,
                                        systemTicks := systemTicks (stats s) + SystemTick\<rparr>\<rparr>
               else s\<lparr>stats := (stats s)\<lparr>totalTicks := totalTicks (stats s) + UserTick,
                                        userTicks := userTicks (stats s) + UserTick\<rparr>\<rparr>);
          s = ChangeLevel IntOn IntOff s in
      bindR (CheckIfDue handle flush False s) (\<lambda>(s, _).
      let s = ChangeLevel IntOff IntOn s in
      if yieldOnReturn s
      then bindR (yield (s\<lparr>yieldOnReturn := False, intStatus := SystemMode\<rparr>)) (\<lambda>s.
           Inr (s\<lparr>intStatus := oldStatus\<rparr>))
      else Inr s))"

definition SetLevel ::
    "('o \<Rightarrow> ('o, 'z) interrupt_scheme \<Rightarrow> ('o, 'z) interrupt_scheme res)
     \<Rightarrow> (('o, 'z) interrupt_scheme \<Rightarrow> ('o, 'z) interrupt_scheme)
     \<Rightarrow> (('o, 'z) interrupt_scheme \<Rightarrow> ('o, 'z) interrupt_scheme res)
     \<Rightarrow> int_status \<Rightarrow> ('o, 'z) interrupt_scheme \<Rightarrow> (('o, 'z) interrupt_scheme \<times> int_status) res" where
  "SetLevel handle flush yield now s =
     (let old = level s in
      ASSERT (now = IntOff \<or> \<not> inHandler s) (
      let s = ChangeLevel old now s in
      if now = IntOn \<and> old = IntOff
      then bindR (OneTick handle flush yield s) (\<lambda>s. Inr (s, old))
      else Inr (s, old)))"

definition Idle ::
    "('o \<Rightarrow> ('o, 'z) interrupt_scheme \<Rightarrow> ('o, 'z) interrupt_scheme res)
     \<Rightarrow> (('o, 'z) interrupt_scheme \<Rightarrow> ('o, 'z) interrupt_scheme)
     \<Rightarrow> ('o, 'z) interrupt_scheme \<Rightarrow> ('o, 'z) interrupt_scheme res" where
  "Idle handle flush s =
     bindR (CheckIfDue handle flush True (s\<lparr>intStatus := IdleMode\<rparr>)) (\<lambda>(s, fired).
     if fired then Inr (s\<lparr>intStatus := SystemMode\<rparr>) else Inl Halted)"

section \<open>The order of interrupts\<close>

interpretation pend: compare_fn PendingCompare
  by unfold_locales (auto simp: PendingCompare_def split: if_splits)

definition due :: "('o, 'z) interrupt_scheme \<Rightarrow> 'o pending_interrupt list" where
  "due s = takeWhile (\<lambda>p. whenDue p \<le> totalTicks (stats s)) (pending s)"

lemma due_filter:
  "pend.in_order ps \<Longrightarrow> takeWhile (\<lambda>p. whenDue p \<le> t) ps = filter (\<lambda>p. whenDue p \<le> t) ps"
proof (induction ps)
  case (Cons p ps)
  show ?case
  proof (cases "whenDue p \<le> t")
    case False
    then have "\<forall>q\<in>set ps. \<not> whenDue q \<le> t" using Cons.prems by (auto simp: PendingCompare_def split: if_splits)
    then have "filter (\<lambda>p. whenDue p \<le> t) ps = []" by (simp add: filter_empty_conv)
    with False show ?thesis by simp
  qed (use Cons in simp)
qed simp

text \<open>An interrupt that is scheduled for the future does not change the ones that are due now.\<close>

lemma due_insert_future:
  assumes "whenDue p > t"
  shows "takeWhile (\<lambda>p. whenDue p \<le> t) (insert_sorted PendingCompare p ps) = takeWhile (\<lambda>p. whenDue p \<le> t) ps"
  using assms by (induction ps) (auto simp: PendingCompare_def)

section \<open>Interrupt handlers\<close>

text \<open>
  What the simulation needs of the devices: a handler returns, runs with interrupts disabled,
  does not move the clock, keeps the pending interrupts in order and schedules new ones only
  for the future, so that those that are due remain the same. \<open>fire\<close> calls the handlers of a
  list of interrupts one after the other.
\<close>

primrec fire :: "('o \<Rightarrow> ('o, 'z) interrupt_scheme \<Rightarrow> ('o, 'z) interrupt_scheme res)
    \<Rightarrow> 'o pending_interrupt list \<Rightarrow> ('o, 'z) interrupt_scheme \<Rightarrow> ('o, 'z) interrupt_scheme res" where
  "fire handle [] s = Inr s"
| "fire handle (p # ps) s = bindR (handle (callOnInterrupt p) (s\<lparr>pending := tl (pending s)\<rparr>)) (fire handle ps)"

locale interrupt_handlers =
  fixes handle :: "'o \<Rightarrow> ('o, 'z) interrupt_scheme \<Rightarrow> ('o, 'z) interrupt_scheme res"
    and flush :: "('o, 'z) interrupt_scheme \<Rightarrow> ('o, 'z) interrupt_scheme"
  assumes handle_ok: "inHandler s \<Longrightarrow> level s = IntOff \<Longrightarrow> pend.in_order (pending s) \<Longrightarrow>
      \<exists>s'. handle obj s = Inr s' \<and> inHandler s' \<and> level s' = IntOff \<and> pend.in_order (pending s')
        \<and> stats s' = stats s \<and> due s' = due s"
    and flush_ok: "pending (flush s) = pending s" "level (flush s) = level s" "stats (flush s) = stats s"
begin

lemma loop_fires:
  assumes "inHandler s" "level s = IntOff" "pend.in_order (pending s)" "due s \<noteq> []"
  shows "\<exists>s'. CheckIfDue_loop handle s = Some (Inr s') \<and> fire handle (due s) s = Inr s' \<and> due s' = []
    \<and> inHandler s' \<and> level s' = IntOff \<and> pend.in_order (pending s') \<and> stats s' = stats s"
  using assms
proof (induction "length (due s)" arbitrary: s rule: less_induct)
  case less
  from less.prems(4) obtain p rest where p: "pending s = p # rest" "whenDue p \<le> totalTicks (stats s)"
    by (cases "pending s") (auto simp: due_def split: if_splits)
  let ?s1 = "s\<lparr>pending := rest\<rparr>"
  have due: "due s = p # due ?s1" using p by (simp add: due_def)
  obtain s2 where s2: "handle (callOnInterrupt p) ?s1 = Inr s2" "inHandler s2" "level s2 = IntOff"
      "pend.in_order (pending s2)" "stats s2 = stats s" "due s2 = due ?s1"
    using handle_ok [of ?s1 "callOnInterrupt p"] less.prems p by auto
  have fire: "fire handle (due s) s = fire handle (due s2) s2" using p s2 by (simp add: due)
  show ?case
  proof (cases "due s2 = []")
    case True
    then have "CheckIfDue_loop handle s = Some (Inr s2)"
      using p s2 by (subst CheckIfDue_loop.simps) (auto simp: due_def split: list.splits if_splits)
    then show ?thesis using fire True s2 by simp
  next
    case False
    then have "CheckIfDue_loop handle s = CheckIfDue_loop handle s2"
      using p s2 by (subst CheckIfDue_loop.simps) (auto simp: due_def split: list.splits if_splits)
    moreover have "length (due s2) < length (due s)" using due s2(6) by simp
    ultimately show ?thesis using less.hyps [of s2] False s2 fire by auto
  qed
qed

end

text \<open>The clock after \<open>CheckIfDue\<close>, and the state in which the handlers begin.\<close>

definition advance :: "bool \<Rightarrow> ('o, 'z) interrupt_scheme \<Rightarrow> ('o, 'z) interrupt_scheme" where
  "advance advanceClock s =
     (if advanceClock \<and> pending s \<noteq> [] \<and> whenDue (hd (pending s)) > totalTicks (stats s)
      then s\<lparr>stats := (stats s)\<lparr>
             idleTicks := idleTicks (stats s) + (whenDue (hd (pending s)) - totalTicks (stats s)),
             totalTicks := whenDue (hd (pending s))\<rparr>\<rparr>
      else s)"

lemma not_due:
  assumes "pend.in_order (pending s)" "due s = []" "p \<in> set (pending s)"
  shows "totalTicks (stats s) < whenDue p"
  using assms by (cases "pending s") (auto simp: due_def PendingCompare_def split: if_splits)

lemma advance_simps [simp]: "pending (advance a s) = pending s" "level (advance a s) = level s"
  by (simp_all add: advance_def)

context interrupt_handlers
begin

lemma CheckIfDue_ok:
  assumes s: "level s = IntOff" "pend.in_order (pending s)"
  shows "if due (advance a s) = [] then CheckIfDue handle flush a s = Inr (s, False)
    else \<exists>s'. CheckIfDue handle flush a s = Inr (s'\<lparr>inHandler := False\<rparr>, True)
      \<and> fire handle (due (advance a s)) (flush (advance a s)\<lparr>inHandler := True\<rparr>) = Inr s'
      \<and> level s' = IntOff \<and> pend.in_order (pending s') \<and> stats s' = stats (advance a s)
      \<and> (\<forall>p\<in>set (pending s'). totalTicks (stats s') < whenDue p)"
proof (cases "pending s")
  case Nil
  then show ?thesis using s by (simp add: CheckIfDue_def due_def advance_def)
next
  case (Cons p ps)
  let ?s1 = "flush (advance a s)\<lparr>inHandler := True\<rparr>"
  show ?thesis
  proof (cases "whenDue p > totalTicks (stats s) \<and> \<not> a")
    case True
    then show ?thesis using Cons s by (simp add: CheckIfDue_def due_def advance_def)
  next
    case False
    then have due: "due (advance a s) \<noteq> []" using Cons by (auto simp: due_def advance_def)
    have eq: "due ?s1 = due (advance a s)" using flush_ok by (simp add: due_def)
    obtain s' where s': "CheckIfDue_loop handle ?s1 = Some (Inr s')" "fire handle (due (advance a s)) ?s1 = Inr s'"
        "due s' = []" "level s' = IntOff" "pend.in_order (pending s')" "stats s' = stats ?s1"
      using loop_fires [of ?s1] due s eq flush_ok by auto
    have "CheckIfDue handle flush a s = Inr (s'\<lparr>inHandler := False\<rparr>, True)"
      using False Cons s s'(1) by (auto simp: CheckIfDue_def advance_def Let_def)
    moreover have "stats s' = stats (advance a s)" using s'(6) flush_ok by simp
    ultimately show ?thesis using due s' not_due [OF s'(5,3)] by auto
  qed
qed

end

section \<open>The timer and the alarm clock\<close>

text \<open>
  The devices of the kernel: the timer, and the devices whose handler wakes up a waiting thread
  (the disk, the console and the network call \<open>V\<close> on a semaphore). The state of the timer
  follows that of the interrupts; the rest of the kernel is \<open>'z\<close>. The random numbers of the
  timer are a sequence.
\<close>

datatype device = TimerDev | WaitDev nat

record timer_state = "device interrupt" +
  randomize :: bool
  disabled :: bool
  draws :: nat

definition Alarm_CallBack :: "'z timer_state_scheme \<Rightarrow> 'z timer_state_scheme res" where
  "Alarm_CallBack s = (if intStatus s \<noteq> IdleMode then YieldOnReturn s else Inr s)"

definition SetInterrupt :: "(nat \<Rightarrow> nat) \<Rightarrow> 'z timer_state_scheme \<Rightarrow> 'z timer_state_scheme res" where
  "SetInterrupt random s =
     (if \<not> disabled s then
        if randomize s
        then Schedule TimerDev (1 + int (random (draws s)) mod (TimerTicks * 2)) TimerInt (s\<lparr>draws := draws s + 1\<rparr>)
        else Schedule TimerDev TimerTicks TimerInt s
      else Inr s)"

definition Timer_new :: "(nat \<Rightarrow> nat) \<Rightarrow> bool \<Rightarrow> 'z timer_state_scheme \<Rightarrow> 'z timer_state_scheme res" where
  "Timer_new random doRandom s = SetInterrupt random (s\<lparr>randomize := doRandom, disabled := False\<rparr>)"

definition Timer_CallBack :: "(nat \<Rightarrow> nat) \<Rightarrow> 'z timer_state_scheme \<Rightarrow> 'z timer_state_scheme res" where
  "Timer_CallBack random s = bindR (Alarm_CallBack s) (SetInterrupt random)"

definition Timer_Disable :: "'z timer_state_scheme \<Rightarrow> 'z timer_state_scheme" where
  "Timer_Disable s = s\<lparr>disabled := True\<rparr>"

definition device_CallBack :: "(nat \<Rightarrow> nat) \<Rightarrow> (nat \<Rightarrow> 'z \<Rightarrow> 'z) \<Rightarrow> device \<Rightarrow> 'z timer_state_scheme \<Rightarrow> 'z timer_state_scheme res" where
  "device_CallBack random wake dev s =
     (case dev of TimerDev \<Rightarrow> Timer_CallBack random s
      | WaitDev n \<Rightarrow> Inr (timer_state.more_update (wake n) s))"

lemma due_cong: "pending s' = pending s \<Longrightarrow> stats s' = stats s \<Longrightarrow> due s' = due s"
  by (simp add: due_def)

text \<open>The timer goes on: its next interrupt is pending, between 1 and \<open>2 * TimerTicks\<close> ticks ahead.\<close>

definition timer_set :: "'z timer_state_scheme \<Rightarrow> bool" where
  "timer_set s \<longleftrightarrow> (\<exists>p\<in>set (pending s). callOnInterrupt p = TimerDev
     \<and> totalTicks (stats s) < whenDue p \<and> whenDue p \<le> totalTicks (stats s) + 2 * TimerTicks)"

lemma SetInterrupt_ok:
  assumes "pend.in_order (pending s)"
  shows "\<exists>s'. SetInterrupt random s = Inr s' \<and> due s' = due s \<and> pend.in_order (pending s')
    \<and> level s' = level s \<and> inHandler s' = inHandler s \<and> stats s' = stats s \<and> yieldOnReturn s' = yieldOnReturn s
    \<and> disabled s' = disabled s \<and> (\<not> disabled s \<longrightarrow> timer_set s')"
proof -
  let ?d = "1 + int (random (draws s)) mod (TimerTicks * 2)"
  have "0 < ?d" "?d \<le> 2 * TimerTicks" "0 < TimerTicks"
    using pos_mod_bound [of 200 "int (random (draws s))"] pos_mod_sign [of 200 "int (random (draws s))"]
    by (simp_all add: TimerTicks_def)
  then show ?thesis using assms
    by (simp add: SetInterrupt_def Schedule_def due_def due_insert_future pend.in_order_insert timer_set_def)
qed

lemma Alarm_CallBack_ok:
  "inHandler s \<Longrightarrow> Alarm_CallBack s = Inr (if intStatus s \<noteq> IdleMode then s\<lparr>yieldOnReturn := True\<rparr> else s)"
  by (simp add: Alarm_CallBack_def YieldOnReturn_def)

interpretation timer: interrupt_handlers "device_CallBack random wake" "\<lambda>s. s"
  for random :: "nat \<Rightarrow> nat" and wake :: "nat \<Rightarrow> 'z \<Rightarrow> 'z"
proof unfold_locales
  fix s :: "'z timer_state_scheme" and obj
  assume s: "inHandler s" "level s = IntOff" "pend.in_order (pending s)"
  show "\<exists>s'. device_CallBack random wake obj s = Inr s' \<and> inHandler s' \<and> level s' = IntOff
      \<and> pend.in_order (pending s') \<and> stats s' = stats s \<and> due s' = due s"
  proof (cases obj)
    case TimerDev
    define s1 where "s1 = (if intStatus s \<noteq> IdleMode then s\<lparr>yieldOnReturn := True\<rparr> else s)"
    have s1: "pend.in_order (pending s1)" "pending s1 = pending s" "stats s1 = stats s" "level s1 = IntOff" "inHandler s1"
      using s by (simp_all add: s1_def)
    from SetInterrupt_ok [OF s1(1), of random] s1 TimerDev due_cong [OF s1(2,3)] Alarm_CallBack_ok [OF s(1)] show ?thesis
      by (auto simp: device_CallBack_def Timer_CallBack_def s1_def [symmetric])
  next
    case (WaitDev n)
    then show ?thesis using s by (simp add: device_CallBack_def due_def)
  qed
qed simp_all

section \<open>Time slices\<close>

text \<open>A time slice ends when the handler of the timer has run: the yield is requested and the timer set again.\<close>

definition slice_over :: "'z timer_state_scheme \<Rightarrow> bool" where
  "slice_over s \<longleftrightarrow> yieldOnReturn s \<and> timer_set s"

lemma handler_slice:
  assumes "inHandler s" "level s = IntOff" "pend.in_order (pending s)" "intStatus s \<noteq> IdleMode" "\<not> disabled s"
  shows "\<exists>s'. device_CallBack random wake dev s = Inr s' \<and> inHandler s' \<and> level s' = IntOff \<and> pend.in_order (pending s')
    \<and> intStatus s' \<noteq> IdleMode \<and> \<not> disabled s' \<and> stats s' = stats s \<and> due s' = due s
    \<and> (dev = TimerDev \<or> slice_over s \<longrightarrow> slice_over s')"
proof (cases dev)
  case TimerDev
  let ?s = "s\<lparr>yieldOnReturn := True\<rparr>"
  obtain s' where "SetInterrupt random ?s = Inr s'" "due s' = due ?s" "pend.in_order (pending s')"
    "level s' = level ?s" "inHandler s'" "stats s' = stats ?s" "yieldOnReturn s'" "\<not> disabled s'" "timer_set s'"
    using SetInterrupt_ok [of ?s random] assms by auto
  moreover have "intStatus s' = intStatus s"
    using calculation(1) by (auto simp: SetInterrupt_def Schedule_def res_simps split: if_splits)
  ultimately show ?thesis using assms TimerDev
    by (simp add: device_CallBack_def Timer_CallBack_def Alarm_CallBack_ok slice_over_def due_def)
next
  case (WaitDev n)
  then show ?thesis using assms by (simp add: device_CallBack_def due_def slice_over_def timer_set_def)
qed

lemma fire_slice:
  assumes "inHandler s" "level s = IntOff" "pend.in_order (pending s)" "intStatus s \<noteq> IdleMode" "\<not> disabled s"
    "(\<exists>p\<in>set (due s). callOnInterrupt p = TimerDev) \<or> slice_over s"
    "fire (device_CallBack random wake) (due s) s = Inr s'"
  shows "slice_over s'"
  using assms
proof (induction "due s" arbitrary: s)
  case Nil
  then show ?case by (metis empty_iff empty_set fire.simps(1) sum.inject(2))
next
  case (Cons p ps)
  obtain rest where rest: "pending s = p # rest" "whenDue p \<le> totalTicks (stats s)"
    using Cons.hyps(2) by (cases "pending s") (auto simp: due_def split: if_splits)
  let ?s1 = "s\<lparr>pending := rest\<rparr>"
  have due: "due ?s1 = ps" using Cons.hyps(2) rest by (simp add: due_def)
  have so: "slice_over s \<Longrightarrow> slice_over ?s1" using rest by (auto simp: slice_over_def timer_set_def)
  obtain s2 where s2: "device_CallBack random wake (callOnInterrupt p) ?s1 = Inr s2" "inHandler s2" "level s2 = IntOff"
      "pend.in_order (pending s2)" "intStatus s2 \<noteq> IdleMode" "\<not> disabled s2" "due s2 = ps"
      "callOnInterrupt p = TimerDev \<or> slice_over ?s1 \<longrightarrow> slice_over s2"
    using handler_slice [of ?s1 random wake "callOnInterrupt p"] Cons.prems(1-5) rest due by auto
  have "fire (device_CallBack random wake) (due s) s = fire (device_CallBack random wake) (due s2) s2"
    using rest s2(1,7) by (simp add: Cons.hyps(2) [symmetric])
  moreover have "(\<exists>p\<in>set (due s2). callOnInterrupt p = TimerDev) \<or> slice_over s2"
    using Cons.prems(6) s2(7,8) so unfolding Cons.hyps(2) [symmetric] by auto
  ultimately show ?case using Cons.hyps(1) [of s2] s2 Cons.prems(7) by simp
qed

section \<open>Properties\<close>


text \<open>C25, an idle machine with a timer interrupt pending at time 100 and one of the disk at 70.\<close>

definition idle_machine :: "unit timer_state_scheme" where
  "idle_machine = \<lparr>level = IntOff, pending = [\<lparr>callOnInterrupt = WaitDev 1, whenDue = 70, intType = DiskInt\<rparr>,
       \<lparr>callOnInterrupt = TimerDev, whenDue = 100, intType = TimerInt\<rparr>],
     inHandler = False, yieldOnReturn = False, intStatus = IdleMode, stats = Statistics_new,
     randomize = False, disabled = False, draws = 0\<rparr>"


text \<open>
  C26. Time slicing: whenever a tick brings the clock to a pending timer interrupt, \<open>OneTick\<close>
  calls \<open>Yield\<close> for the thread that was running, in system mode, with interrupts enabled
  again and the next timer interrupt set at most \<open>2 * TimerTicks\<close> ticks ahead; when \<open>Yield\<close>
  returns, the machine is back in the mode in which the tick found it.
\<close>

theorem OneTick_time_slice:
  assumes "pend.in_order (pending s)" "intStatus s \<noteq> IdleMode" "\<not> disabled s"
    "p \<in> set (pending s)" "callOnInterrupt p = TimerDev"
    "whenDue p \<le> totalTicks (stats s) + (if intStatus s = SystemMode then SystemTick else UserTick)"
  shows "\<exists>s'. OneTick (device_CallBack random wake) (\<lambda>s. s) yield s
      = bindR (yield s') (\<lambda>s''. Inr (s''\<lparr>intStatus := intStatus s\<rparr>))
    \<and> level s' = IntOn \<and> intStatus s' = SystemMode \<and> \<not> yieldOnReturn s' \<and> timer_set s'"
proof -
  define s1 where "s1 = ChangeLevel IntOn IntOff (if intStatus s = SystemMode
     then s\<lparr>stats := (stats s)\<lparr>totalTicks := totalTicks (stats s) + SystemTick, systemTicks := systemTicks (stats s) + SystemTick\<rparr>\<rparr>
     else s\<lparr>stats := (stats s)\<lparr>totalTicks := totalTicks (stats s) + UserTick, userTicks := userTicks (stats s) + UserTick\<rparr>\<rparr>)"
  have s1: "level s1 = IntOff" "pending s1 = pending s" "pend.in_order (pending s1)" "intStatus s1 = intStatus s" "\<not> disabled s1"
    "whenDue p \<le> totalTicks (stats s1)"
    using assms by (auto simp: s1_def ChangeLevel_def)
  have adv: "advance False s1 = s1" by (simp add: advance_def)
  have p: "p \<in> set (due s1)"
    using assms(4) s1(2,6) unfolding due_def due_filter [OF s1(3)] by simp
  then have "due s1 \<noteq> []" by auto
  then obtain s2 where s2: "CheckIfDue (device_CallBack random wake) (\<lambda>s. s) False s1 = Inr (s2\<lparr>inHandler := False\<rparr>, True)"
      "fire (device_CallBack random wake) (due s1) (s1\<lparr>inHandler := True\<rparr>) = Inr s2"
    using timer.CheckIfDue_ok [OF s1(1,3), of False random wake] adv by auto
  have "slice_over s2"
    by (rule fire_slice [of "s1\<lparr>inHandler := True\<rparr>"]) (use s1 s2(2) p assms(2,5) in \<open>auto simp: due_def\<close>)
  then show ?thesis using s2(1)
    by (intro exI [of _ "s2\<lparr>inHandler := False, level := IntOn, yieldOnReturn := False, intStatus := SystemMode\<rparr>"])
      (simp add: OneTick_def Let_def s1_def ChangeLevel_def slice_over_def timer_set_def)
qed

text \<open>C26, a user program at time 99.\<close>

theorem OneTick_time_slice_witness:
  "\<exists>s'. OneTick (device_CallBack (\<lambda>_. 0) (\<lambda>_ z. z)) (\<lambda>s. s) Inr
      (idle_machine\<lparr>level := IntOn, intStatus := UserMode, stats := Statistics_new\<lparr>totalTicks := 99\<rparr>\<rparr>) = Inr s'
    \<and> intStatus s' = UserMode \<and> timer_set s'"
proof -
  let ?s = "idle_machine\<lparr>level := IntOn, intStatus := UserMode, stats := Statistics_new\<lparr>totalTicks := 99\<rparr>\<rparr>"
  have "\<exists>s'. OneTick (device_CallBack (\<lambda>_. 0) (\<lambda>_ z. z)) (\<lambda>s. s) Inr ?s
      = bindR (Inr s') (\<lambda>s''. Inr (s''\<lparr>intStatus := intStatus ?s\<rparr>))
    \<and> level s' = IntOn \<and> intStatus s' = SystemMode \<and> \<not> yieldOnReturn s' \<and> timer_set s'"
    by (rule OneTick_time_slice [where p = "\<lparr>callOnInterrupt = TimerDev, whenDue = 100, intType = TimerInt\<rparr>"])
      (simp_all add: idle_machine_def PendingCompare_def UserTick_def)
  then show ?thesis by (auto simp: timer_set_def)
qed

end
