(* ===== verification/Threads.thy ===== *)
theory Threads
  imports AddrSpace Interrupt
begin

text \<open>
  Threads and the scheduler (\<^verbatim>\<open>code/threads/thread.h\<close>, \<^verbatim>\<open>thread.cc\<close>, \<^verbatim>\<open>scheduler.h\<close>,
  \<^verbatim>\<open>scheduler.cc\<close>). Thread control blocks live in a store under identifiers that stand for
  their addresses. The ready list is the sequence that the sorted list represents.

  A context switch leaves the old thread inside \<open>Scheduler::Run\<close> and continues the new one
  where it had left off: at the start of its procedure, or behind its own call of \<open>SWITCH\<close>. The
  field \<open>resume\<close> says where, and \<open>Run\<close> is the whole way from the call by the old thread to the
  return of the new thread to its own code. The part of \<open>Thread::Sleep\<close> that waits for an
  interrupt calls \<open>Interrupt::Idle\<close>, an argument of the model.
\<close>

section \<open>Thread control blocks\<close>

definition MAX_THREAD_NUM :: int where "MAX_THREAD_NUM = 128"

definition STACK_FENCEPOST :: int32 where "STACK_FENCEPOST = 0xdedbeef"

datatype thread_status = JUST_CREATED | RUNNING | READY | BLOCKED

type_synonym tid = nat

text \<open>At the procedure of the thread, or in \<open>Yield\<close> with the level to go back to, or in \<open>Sleep\<close>.\<close>

datatype resumption = AtRoot | InYield int_status | InSleep

text \<open>\<open>stack\<close> is the word at the bottom of the stack, if one has been allocated.\<close>

record thread =
  threadName :: string
  priority :: int
  threadStatus :: thread_status
  stack :: "int32 option"
  resume :: resumption
  userRegisters :: "nat \<Rightarrow> int32"
  space :: "addr_space option"

record kernel =
  kernelLevel :: int_status
  threads :: "tid \<rightharpoonup> thread"
  currentThread :: tid
  readyList :: "tid list"
  toBeDestroyed :: "tid option"
  threadNum :: int
  kmachine :: machine

definition setPriority :: "int \<Rightarrow> thread \<Rightarrow> thread" where
  "setPriority p t = t\<lparr>priority := (if p > 7 then 7 else if p < 1 then 1 else p)\<rparr>"

text \<open>\<open>regs\<close> is what the memory of the new control block holds.\<close>

definition Thread_init :: "(nat \<Rightarrow> int32) \<Rightarrow> string \<Rightarrow> int \<Rightarrow> thread" where
  "Thread_init regs n p = setPriority p \<lparr>threadName = n, priority = p, threadStatus = JUST_CREATED, stack = None,
     resume = AtRoot, userRegisters = regs, space = None\<rparr>"

definition Thread_new :: "tid \<Rightarrow> (nat \<Rightarrow> int32) \<Rightarrow> string \<Rightarrow> kernel \<Rightarrow> kernel" where
  "Thread_new t regs n k = k\<lparr>threads := (threads k)(t \<mapsto> Thread_init regs n 0)\<rparr>"

definition Thread_new_priority :: "tid \<Rightarrow> (nat \<Rightarrow> int32) \<Rightarrow> string \<Rightarrow> int \<Rightarrow> kernel \<Rightarrow> kernel res" where
  "Thread_new_priority t regs n p k =
     (let k = k\<lparr>threadNum := threadNum k + 1\<rparr> in
      ASSERT (threadNum k \<le> MAX_THREAD_NUM) (Inr (k\<lparr>threads := (threads k)(t \<mapsto> Thread_init regs n p)\<rparr>)))"

text \<open>Access to a control block; a pointer to one that has been deleted must not be used.\<close>

definition thread_at :: "kernel \<Rightarrow> tid \<Rightarrow> thread res" where
  "thread_at k t = (case threads k t of None \<Rightarrow> Inl Undefined | Some x \<Rightarrow> Inr x)"

definition put_thread :: "tid \<Rightarrow> thread \<Rightarrow> kernel \<Rightarrow> kernel" where
  "put_thread t x k = k\<lparr>threads := (threads k)(t \<mapsto> x)\<rparr>"

definition setStatus :: "tid \<Rightarrow> thread_status \<Rightarrow> kernel \<Rightarrow> kernel res" where
  "setStatus t st k = bindR (thread_at k t) (\<lambda>x. Inr (put_thread t (x\<lparr>threadStatus := st\<rparr>) k))"

definition Thread_delete :: "tid \<Rightarrow> kernel \<Rightarrow> kernel res" where
  "Thread_delete t k = ASSERT (t \<noteq> currentThread k) (Inr (k\<lparr>threads := (threads k)(t := None)\<rparr>))"

definition CheckOverflow :: "thread \<Rightarrow> 'a \<Rightarrow> 'a res" where
  "CheckOverflow x k = (case stack x of None \<Rightarrow> Inr k | Some w \<Rightarrow> ASSERT (w = STACK_FENCEPOST) (Inr k))"

definition StackAllocate :: "tid \<Rightarrow> kernel \<Rightarrow> kernel res" where
  "StackAllocate t k = bindR (thread_at k t) (\<lambda>x. Inr (put_thread t (x\<lparr>stack := Some STACK_FENCEPOST, resume := AtRoot\<rparr>) k))"

definition SaveUserState :: "machine \<Rightarrow> thread \<Rightarrow> thread res" where
  "SaveUserState m x = bindR (read_registers all_registers m (userRegisters x)) (\<lambda>r. Inr (x\<lparr>userRegisters := r\<rparr>))"

definition RestoreUserState :: "thread \<Rightarrow> machine \<Rightarrow> machine res" where
  "RestoreUserState x m = write_registers all_registers m (userRegisters x)"

section \<open>The scheduler\<close>

definition getPriority :: "kernel \<Rightarrow> tid \<Rightarrow> int" where
  "getPriority k t = (case threads k t of None \<Rightarrow> 0 | Some x \<Rightarrow> priority x)"

definition Scheduler_Compare :: "(tid \<Rightarrow> int) \<Rightarrow> tid \<Rightarrow> tid \<Rightarrow> int" where
  "Scheduler_Compare prio x y = (if prio x > prio y then -1 else if prio x = prio y then 0 else 1)"

definition ReadyToRun :: "tid \<Rightarrow> kernel \<Rightarrow> kernel res" where
  "ReadyToRun t k =
     ASSERT (kernelLevel k = IntOff) (
     bindR (setStatus t READY k) (\<lambda>k.
     bindR (seq_Insert (Scheduler_Compare (getPriority k)) (readyList k) t) (\<lambda>l. Inr (k\<lparr>readyList := l\<rparr>))))"

definition FindNextToRun :: "kernel \<Rightarrow> (kernel \<times> tid option) res" where
  "FindNextToRun k =
     ASSERT (kernelLevel k = IntOff) (
     if readyList k = [] then Inr (k, None)
     else bindR (seq_RemoveFront (readyList k)) (\<lambda>(l, t). Inr (k\<lparr>readyList := l\<rparr>, Some t)))"

definition CheckToBeDestroyed :: "kernel \<Rightarrow> kernel res" where
  "CheckToBeDestroyed k =
     (case toBeDestroyed k of None \<Rightarrow> Inr k
      | Some t \<Rightarrow> bindR (Thread_delete t k) (\<lambda>k. Inr (k\<lparr>toBeDestroyed := None\<rparr>)))"

definition Thread_Begin :: "tid \<Rightarrow> kernel \<Rightarrow> kernel res" where
  "Thread_Begin t k = ASSERT (t = currentThread k) (
     bindR (CheckToBeDestroyed k) (\<lambda>k. Inr (k\<lparr>kernelLevel := IntOn\<rparr>)))"

text \<open>\<open>Run\<close> up to the call of \<open>SWITCH\<close>; \<open>r\<close> is where the old thread continues.\<close>

definition Run_switch :: "tid \<Rightarrow> bool \<Rightarrow> resumption \<Rightarrow> kernel \<Rightarrow> kernel res" where
  "Run_switch nextThread finishing r k =
     (let old = currentThread k in
      ASSERT (kernelLevel k = IntOff) (
      bindR (if finishing then ASSERT (toBeDestroyed k = None) (Inr (k\<lparr>toBeDestroyed := Some old\<rparr>)) else Inr k) (\<lambda>k.
      bindR (thread_at k old) (\<lambda>x.
      bindR (case space x of None \<Rightarrow> Inr x
             | Some a \<Rightarrow> bindR (SaveUserState (kmachine k) x) (\<lambda>x.
                        bindR (SaveState a (kmachine k)) (\<lambda>a. Inr (x\<lparr>space := Some a\<rparr>)))) (\<lambda>x.
      bindR (CheckOverflow x (put_thread old (x\<lparr>resume := r\<rparr>) k)) (\<lambda>k.
      setStatus nextThread RUNNING (k\<lparr>currentThread := nextThread\<rparr>)))))))"

text \<open>\<open>Run\<close> behind the call of \<open>SWITCH\<close>, in the thread \<open>t\<close> that is back.\<close>

definition Run_back :: "tid \<Rightarrow> kernel \<Rightarrow> kernel res" where
  "Run_back t k =
     ASSERT (kernelLevel k = IntOff) (
     bindR (CheckToBeDestroyed k) (\<lambda>k.
     bindR (thread_at k t) (\<lambda>x.
     case space x of None \<Rightarrow> Inr k
     | Some a \<Rightarrow> bindR (RestoreUserState x (kmachine k)) (\<lambda>m.
                bindR (RestoreState a m) (\<lambda>m. Inr (k\<lparr>kmachine := m\<rparr>))))))"

definition continue_thread :: "tid \<Rightarrow> kernel \<Rightarrow> kernel res" where
  "continue_thread t k =
     bindR (thread_at k t) (\<lambda>x.
     case resume x of
       AtRoot \<Rightarrow> Thread_Begin t k
     | InYield oldLevel \<Rightarrow> bindR (Run_back t k) (\<lambda>k. Inr (k\<lparr>kernelLevel := oldLevel\<rparr>))
     | InSleep \<Rightarrow> Run_back t k)"

definition Run :: "tid \<Rightarrow> bool \<Rightarrow> resumption \<Rightarrow> kernel \<Rightarrow> kernel res" where
  "Run nextThread finishing r k =
     bindR (Run_switch nextThread finishing r k) (continue_thread nextThread)"

section \<open>Operations of threads\<close>

definition Fork :: "tid \<Rightarrow> kernel \<Rightarrow> kernel res" where
  "Fork t k =
     bindR (StackAllocate t k) (\<lambda>k.
     let oldLevel = kernelLevel k in
     bindR (ReadyToRun t (k\<lparr>kernelLevel := IntOff\<rparr>)) (\<lambda>k.
     Inr (k\<lparr>kernelLevel := oldLevel\<rparr>)))"

definition Yield :: "tid \<Rightarrow> kernel \<Rightarrow> kernel res" where
  "Yield t k =
     (let oldLevel = kernelLevel k; k = k\<lparr>kernelLevel := IntOff\<rparr> in
      ASSERT (t = currentThread k) (
      bindR (ReadyToRun t k) (\<lambda>k.
      bindR (FindNextToRun k) (\<lambda>(k, nextThread).
      case nextThread of None \<Rightarrow> Inl Undefined | Some n \<Rightarrow> Run n False (InYield oldLevel) k))))"

text \<open>The loop of \<open>Sleep\<close>: \<open>idle\<close> is \<open>Interrupt::Idle\<close>.\<close>

partial_function (option) Sleep_loop :: "(kernel \<Rightarrow> kernel res) \<Rightarrow> kernel \<Rightarrow> (kernel \<times> tid) res option" where
  "Sleep_loop idle k =
     (case FindNextToRun k of Inl e \<Rightarrow> Some (Inl e)
      | Inr (k, Some n) \<Rightarrow> Some (Inr (k, n))
      | Inr (k, None) \<Rightarrow> (case idle k of Inl e \<Rightarrow> Some (Inl e) | Inr k \<Rightarrow> Sleep_loop idle k))"

definition Sleep_begin :: "tid \<Rightarrow> kernel \<Rightarrow> kernel res" where
  "Sleep_begin t k =
     ASSERT (t = currentThread k) (ASSERT (kernelLevel k = IntOff) (setStatus t BLOCKED k))"

definition Sleep :: "(kernel \<Rightarrow> kernel res) \<Rightarrow> tid \<Rightarrow> bool \<Rightarrow> kernel \<Rightarrow> kernel res" where
  "Sleep idle t finishing k =
     bindR (Sleep_begin t k) (\<lambda>k.
     bindR (returning (Sleep_loop idle k)) (\<lambda>(k, nextThread).
     Run nextThread finishing InSleep k))"

definition Finish :: "(kernel \<Rightarrow> kernel res) \<Rightarrow> tid \<Rightarrow> kernel \<Rightarrow> kernel res" where
  "Finish idle t k =
     (let k = k\<lparr>kernelLevel := IntOff\<rparr> in ASSERT (t = currentThread k) (Sleep idle t True k))"

text \<open>The part of \<open>Kernel::Initialize\<close> that concerns threads: the main thread runs, it has no stack of its own.\<close>

definition Kernel_Initialize :: "(nat \<Rightarrow> int32) \<Rightarrow> machine \<Rightarrow> kernel" where
  "Kernel_Initialize regs m = \<lparr>kernelLevel = IntOn, threads = [0 \<mapsto> (Thread_init regs ''main'' 0)\<lparr>threadStatus := RUNNING\<rparr>],
     currentThread = 0, readyList = [], toBeDestroyed = None, threadNum = 0, kmachine = m\<rparr>"

section \<open>The order of the ready list\<close>

interpretation sched: compare_fn "Scheduler_Compare prio" for prio
  by unfold_locales (auto simp: Scheduler_Compare_def split: if_splits)

lemma Compare_le: "Scheduler_Compare prio x y \<le> 0 \<longleftrightarrow> prio y \<le> prio x"
  by (simp add: Scheduler_Compare_def)

definition by_priority :: "(tid \<Rightarrow> int) \<Rightarrow> tid list \<Rightarrow> bool" where
  "by_priority prio ts \<longleftrightarrow> sorted_wrt (\<lambda>x y. prio y \<le> prio x) ts"

lemma by_priority_insert: "by_priority prio ts \<Longrightarrow> by_priority prio (insert_sorted (Scheduler_Compare prio) t ts)"
  using sched.in_order_insert [of prio ts t] by (simp add: by_priority_def Compare_le)

lemma distinct_insert_sorted: "distinct (insert_sorted cmp t ts) \<longleftrightarrow> t \<notin> set ts \<and> distinct ts"
proof -
  have "set (insert_sorted cmp t ts) = insert t (set ts)" for ts by (induction ts) auto
  then show ?thesis by (induction ts) auto
qed

section \<open>Consistency of the scheduler\<close>

text \<open>A well-formed control block, and what is always true of the ready list and the current thread.\<close>

definition thread_wf :: "thread \<Rightarrow> bool" where
  "thread_wf x \<longleftrightarrow> 1 \<le> priority x \<and> priority x \<le> 7 \<and> (stack x = None \<or> stack x = Some STACK_FENCEPOST)"

definition status_of :: "kernel \<Rightarrow> tid \<Rightarrow> thread_status option" where
  "status_of k t = map_option threadStatus (threads k t)"

definition kwf :: "kernel \<Rightarrow> bool" where
  "kwf k \<longleftrightarrow> (\<forall>t x. threads k t = Some x \<longrightarrow> thread_wf x)
     \<and> distinct (readyList k) \<and> by_priority (getPriority k) (readyList k)
     \<and> (\<forall>t. t \<in> set (readyList k) \<longleftrightarrow> status_of k t = Some READY)
     \<and> (\<forall>t. status_of k t = Some RUNNING \<longrightarrow> t = currentThread k)
     \<and> threads k (currentThread k) \<noteq> None \<and> toBeDestroyed k = None"

definition kinv :: "kernel \<Rightarrow> bool" where
  "kinv k \<longleftrightarrow> kwf k \<and> status_of k (currentThread k) = Some RUNNING"

lemma thread_at_eq [simp]: "threads k t = Some x \<Longrightarrow> thread_at k t = Inr x"
  by (simp add: thread_at_def)

lemma put_thread_sel [simp]:
  "threads (put_thread t x k) = (threads k)(t \<mapsto> x)" "readyList (put_thread t x k) = readyList k"
  "currentThread (put_thread t x k) = currentThread k" "kernelLevel (put_thread t x k) = kernelLevel k"
  "toBeDestroyed (put_thread t x k) = toBeDestroyed k" "threadNum (put_thread t x k) = threadNum k"
  "kmachine (put_thread t x k) = kmachine k"
  by (simp_all add: put_thread_def)

lemma ReadyToRun_eq:
  assumes "kernelLevel k = IntOff" "threads k t = Some x" "t \<notin> set (readyList k)"
  shows "ReadyToRun t k = Inr (k\<lparr>threads := (threads k)(t \<mapsto> x\<lparr>threadStatus := READY\<rparr>),
    readyList := insert_sorted (Scheduler_Compare (getPriority k)) t (readyList k)\<rparr>)"
proof -
  have "getPriority (put_thread t (x\<lparr>threadStatus := READY\<rparr>) k) = getPriority k"
    using assms(2) by (auto simp: getPriority_def fun_eq_iff)
  then show ?thesis using assms by (simp add: ReadyToRun_def setStatus_def seq_Insert_def put_thread_def)
qed

lemma ReadyToRun_ok:
  assumes "kwf k" "kernelLevel k = IntOff" "threads k t = Some x" "threadStatus x \<noteq> READY"
  obtains k' where "ReadyToRun t k = Inr k'" "kwf k'" "threads k' = (threads k)(t \<mapsto> x\<lparr>threadStatus := READY\<rparr>)"
    "readyList k' = insert_sorted (Scheduler_Compare (getPriority k)) t (readyList k)" "currentThread k' = currentThread k"
    "kernelLevel k' = IntOff" "getPriority k' = getPriority k" "threadNum k' = threadNum k" "kmachine k' = kmachine k"
proof -
  have t: "t \<notin> set (readyList k)" using assms by (auto simp: kwf_def status_of_def)
  let ?k = "k\<lparr>threads := (threads k)(t \<mapsto> x\<lparr>threadStatus := READY\<rparr>),
    readyList := insert_sorted (Scheduler_Compare (getPriority k)) t (readyList k)\<rparr>"
  have prio: "getPriority ?k = getPriority k" using assms(3) by (auto simp: getPriority_def fun_eq_iff)
  have "kwf ?k" unfolding kwf_def prio
    using assms t by (auto simp: kwf_def status_of_def distinct_insert_sorted by_priority_insert thread_wf_def)
  then show ?thesis using that [of ?k] ReadyToRun_eq [OF assms(2,3) t] prio assms(2) by simp
qed

section \<open>Context switches\<close>

text \<open>What a control block keeps when its thread is switched out.\<close>

definition saved :: "thread \<Rightarrow> thread \<Rightarrow> bool" where
  "saved x x' \<longleftrightarrow> priority x' = priority x \<and> threadStatus x' = threadStatus x \<and> stack x' = stack x
     \<and> threadName x' = threadName x \<and> (space x' = None \<longleftrightarrow> space x = None)"

lemma SaveUserState_eq:
  "SaveUserState m x = Inr (x\<lparr>userRegisters := \<lambda>i. if i < NumTotalRegs then registers m i else userRegisters x i\<rparr>)"
  by (simp add: SaveUserState_def read_registers_ok [OF all_registers_range])

lemma RestoreUserState_eq:
  "RestoreUserState x m = Inr (m\<lparr>registers := \<lambda>i. if i < NumTotalRegs then userRegisters x i else registers m i\<rparr>)"
  by (simp add: RestoreUserState_def write_registers_ok [OF all_registers_range])

lemma Run_switch_ok:
  assumes level: "kernelLevel k = IntOff" and wf: "\<forall>t x. threads k t = Some x \<longrightarrow> thread_wf x" and tbd: "toBeDestroyed k = None"
    and old: "threads k (currentThread k) = Some x" and n: "threads k n \<noteq> None"
  obtains x' y where "saved x x'" "((threads k)(currentThread k \<mapsto> x'\<lparr>resume := r\<rparr>)) n = Some y"
    "Run_switch n finishing r k = Inr (k\<lparr>threads := (threads k)(currentThread k \<mapsto> x'\<lparr>resume := r\<rparr>, n \<mapsto> y\<lparr>threadStatus := RUNNING\<rparr>),
       currentThread := n, toBeDestroyed := (if finishing then Some (currentThread k) else None)\<rparr>)"
proof -
  let ?k = "if finishing then k\<lparr>toBeDestroyed := Some (currentThread k)\<rparr> else k"
  have "\<exists>x'. saved x x' \<and> (case space x of None \<Rightarrow> Inr x
             | Some a \<Rightarrow> bindR (SaveUserState (kmachine ?k) x) (\<lambda>x.
                        bindR (SaveState a (kmachine ?k)) (\<lambda>a. Inr (x\<lparr>space := Some a\<rparr>)))) = Inr x'"
    by (cases "space x") (simp_all add: saved_def SaveUserState_eq SaveState_eq)
  then obtain x' where x': "saved x x'" "(case space x of None \<Rightarrow> Inr x
             | Some a \<Rightarrow> bindR (SaveUserState (kmachine ?k) x) (\<lambda>x.
                        bindR (SaveState a (kmachine ?k)) (\<lambda>a. Inr (x\<lparr>space := Some a\<rparr>)))) = Inr x'"
    by blast
  have stk: "CheckOverflow x' z = Inr z" for z :: kernel
  proof -
    have "thread_wf x" using wf old by blast
    then have "stack x' = None \<or> stack x' = Some STACK_FENCEPOST" using x'(1) by (simp add: thread_wf_def saved_def)
    then show ?thesis by (auto simp: CheckOverflow_def)
  qed
  obtain y where y: "((threads k)(currentThread k \<mapsto> x'\<lparr>resume := r\<rparr>)) n = Some y" using n by (cases "n = currentThread k") auto
  have first: "(if finishing then ASSERT (toBeDestroyed k = None) (Inr (k\<lparr>toBeDestroyed := Some (currentThread k)\<rparr>)) else Inr k) = Inr ?k"
    using tbd by simp
  have at: "thread_at ?k (currentThread k) = Inr x" using old by (simp add: thread_at_def)
  have "Run_switch n finishing r k = setStatus n RUNNING ((put_thread (currentThread k) (x'\<lparr>resume := r\<rparr>) ?k)\<lparr>currentThread := n\<rparr>)"
    using level unfolding Run_switch_def Let_def first bindR_simps at x'(2) stk by simp
  also have "\<dots> = Inr (k\<lparr>threads := (threads k)(currentThread k \<mapsto> x'\<lparr>resume := r\<rparr>, n \<mapsto> y\<lparr>threadStatus := RUNNING\<rparr>),
       currentThread := n, toBeDestroyed := (if finishing then Some (currentThread k) else None)\<rparr>)"
    using y tbd by (auto simp: setStatus_def put_thread_def thread_at_def)
  finally show ?thesis by (rule that [OF x'(1) y])
qed

lemma CheckToBeDestroyed_eq:
  assumes "\<forall>t. toBeDestroyed k = Some t \<longrightarrow> t \<noteq> currentThread k"
  shows "CheckToBeDestroyed k = Inr (k\<lparr>threads := (case toBeDestroyed k of None \<Rightarrow> threads k | Some t \<Rightarrow> (threads k)(t := None)),
    toBeDestroyed := None\<rparr>)"
  using assms by (cases "toBeDestroyed k") (auto simp: CheckToBeDestroyed_def Thread_delete_def)

text \<open>The level after a thread has been continued.\<close>

definition level_after :: "resumption \<Rightarrow> int_status" where
  "level_after r = (case r of AtRoot \<Rightarrow> IntOn | InYield l \<Rightarrow> l | InSleep \<Rightarrow> IntOff)"

lemma continue_thread_ok:
  assumes "kernelLevel k = IntOff" "t = currentThread k" "threads k t = Some y" "\<forall>d. toBeDestroyed k = Some d \<longrightarrow> d \<noteq> t"
  obtains m where "continue_thread t k = Inr (k\<lparr>threads := (case toBeDestroyed k of None \<Rightarrow> threads k | Some d \<Rightarrow> (threads k)(d := None)),
    toBeDestroyed := None, kernelLevel := level_after (resume y), kmachine := m\<rparr>)"
proof -
  let ?k = "k\<lparr>threads := (case toBeDestroyed k of None \<Rightarrow> threads k | Some d \<Rightarrow> (threads k)(d := None)), toBeDestroyed := None\<rparr>"
  have destroy: "CheckToBeDestroyed k = Inr ?k" using CheckToBeDestroyed_eq [of k] assms(2,4) by auto
  have at: "thread_at ?k t = Inr y" using assms(3,4) by (auto simp: thread_at_def split: option.splits)
  obtain m where bk: "Run_back t k = Inr (?k\<lparr>kmachine := m\<rparr>)"
  proof (cases "space y")
    case None
    then show ?thesis using that [of "kmachine k"] assms(1) destroy at by (simp add: Run_back_def)
  next
    case (Some a)
    obtain m where "bindR (RestoreUserState y (kmachine ?k)) (\<lambda>m. RestoreState a m) = Inr m"
      by (simp add: RestoreUserState_eq RestoreState_eq)
    then have "Run_back t k = Inr (?k\<lparr>kmachine := m\<rparr>)"
      using Some assms(1) destroy at by (simp add: Run_back_def RestoreUserState_eq RestoreState_eq)
    then show ?thesis by (rule that)
  qed
  show ?thesis
  proof (cases "resume y")
    case AtRoot
    then show ?thesis
      using that [of "kmachine k"] assms(2,3) destroy by (simp add: continue_thread_def Thread_Begin_def level_after_def)
  qed (use that [of m] bk assms(1,3) in \<open>simp_all add: continue_thread_def level_after_def\<close>)
qed

text \<open>\<open>Run\<close> as a whole: the old thread is saved or deleted, the new one runs with its own interrupt level.\<close>

lemma Run_ok:
  assumes pre: "kernelLevel k = IntOff" "\<forall>t x. threads k t = Some x \<longrightarrow> thread_wf x" "toBeDestroyed k = None"
    and x: "threads k (currentThread k) = Some x" and xn: "threads k n = Some xn" and nfin: "finishing \<Longrightarrow> n \<noteq> currentThread k"
  obtains x' y m where "saved x x'" "priority y = priority xn" "stack y = stack xn" "resume y = (if n = currentThread k then r else resume xn)"
    "Run n finishing r k = Inr (k\<lparr>threads := (if finishing then ((threads k)(currentThread k \<mapsto> x'\<lparr>resume := r\<rparr>, n \<mapsto> y\<lparr>threadStatus := RUNNING\<rparr>))(currentThread k := None)
         else (threads k)(currentThread k \<mapsto> x'\<lparr>resume := r\<rparr>, n \<mapsto> y\<lparr>threadStatus := RUNNING\<rparr>)),
       currentThread := n, toBeDestroyed := None, kernelLevel := level_after (resume y), kmachine := m\<rparr>)"
proof -
  let ?c = "currentThread k"
  have nn: "threads k n \<noteq> None" using xn by simp
  obtain x' y where s: "saved x x'" "((threads k)(?c \<mapsto> x'\<lparr>resume := r\<rparr>)) n = Some y"
      "Run_switch n finishing r k = Inr (k\<lparr>threads := (threads k)(?c \<mapsto> x'\<lparr>resume := r\<rparr>, n \<mapsto> y\<lparr>threadStatus := RUNNING\<rparr>),
         currentThread := n, toBeDestroyed := (if finishing then Some ?c else None)\<rparr>)"
    by (rule Run_switch_ok [OF pre x nn]) (rule that; assumption)
  let ?T = "(threads k)(?c \<mapsto> x'\<lparr>resume := r\<rparr>, n \<mapsto> y\<lparr>threadStatus := RUNNING\<rparr>)"
  let ?k1 = "k\<lparr>threads := ?T, currentThread := n, toBeDestroyed := (if finishing then Some ?c else None)\<rparr>"
  have pre1: "kernelLevel ?k1 = IntOff" "n = currentThread ?k1" "threads ?k1 n = Some (y\<lparr>threadStatus := RUNNING\<rparr>)"
      "\<forall>d. toBeDestroyed ?k1 = Some d \<longrightarrow> d \<noteq> n" using nfin pre(1) by auto
  obtain m where c: "continue_thread n ?k1 = Inr (?k1\<lparr>threads := (case toBeDestroyed ?k1 of None \<Rightarrow> threads ?k1 | Some d \<Rightarrow> (threads ?k1)(d := None)),
      toBeDestroyed := None, kernelLevel := level_after (resume (y\<lparr>threadStatus := RUNNING\<rparr>)), kmachine := m\<rparr>)"
    by (rule continue_thread_ok [OF pre1]) (rule that; assumption)
  have y: "priority y = priority xn" "stack y = stack xn" "resume y = (if n = ?c then r else resume xn)"
    using s(1,2) xn x by (auto simp: saved_def split: if_splits)
  show ?thesis by (rule that [OF s(1) y, of m]) (unfold Run_def s(3) bindR_simps c, simp)
qed

text \<open>
  A dispatch: the first thread of the ready list becomes the current one. The old thread keeps
  its place, or is deleted when it was finishing.
\<close>

lemma dispatch_ok:
  assumes wf: "kwf k" and level: "kernelLevel k = IntOff" and l: "readyList k = n # l"
    and old: "status_of k (currentThread k) \<in> {Some BLOCKED, Some READY}"
    and fin: "finishing \<Longrightarrow> status_of k (currentThread k) = Some BLOCKED"
  obtains k' where "Run n finishing r (k\<lparr>readyList := l\<rparr>) = Inr k'" "kinv k'" "currentThread k' = n" "readyList k' = l"
    "getPriority k' n = getPriority k n" "threadNum k' = threadNum k"
    "\<forall>t. status_of k' t = (if t = n then Some RUNNING else if finishing \<and> t = currentThread k then None else status_of k t)"
    "\<forall>t x. threads k' t = Some x \<longrightarrow> t \<noteq> currentThread k \<longrightarrow> resume x = resume (the (threads k t))"
    "\<not> finishing \<Longrightarrow> resume (the (threads k' (currentThread k))) = r"
    "kernelLevel k' = level_after (if n = currentThread k then r else resume (the (threads k n)))"
proof -
  let ?c = "currentThread k" and ?k = "k\<lparr>readyList := l\<rparr>"
  note W = wf [unfolded kwf_def]
  have n: "status_of k n = Some READY" "n \<notin> set l" "distinct l" using W l by auto
  then obtain xn where xn: "threads k n = Some xn" "threadStatus xn = READY" by (auto simp: status_of_def)
  obtain x where x: "threads k ?c = Some x" using W by auto
  have nfin: "finishing \<Longrightarrow> n \<noteq> ?c" using fin n(1) by auto
  have pre: "kernelLevel ?k = IntOff" "\<forall>t x. threads ?k t = Some x \<longrightarrow> thread_wf x" "toBeDestroyed ?k = None"
      "threads ?k (currentThread ?k) = Some x" "threads ?k n = Some xn" "finishing \<Longrightarrow> n \<noteq> currentThread ?k"
    using W level x xn(1) nfin by auto
  obtain x' y m where s: "saved x x'" "priority y = priority xn" "stack y = stack xn" "resume y = (if n = currentThread ?k then r else resume xn)"
    and run: "Run n finishing r ?k = Inr (?k\<lparr>threads := (if finishing then ((threads ?k)(currentThread ?k \<mapsto> x'\<lparr>resume := r\<rparr>, n \<mapsto> y\<lparr>threadStatus := RUNNING\<rparr>))(currentThread ?k := None)
         else (threads ?k)(currentThread ?k \<mapsto> x'\<lparr>resume := r\<rparr>, n \<mapsto> y\<lparr>threadStatus := RUNNING\<rparr>)),
       currentThread := n, toBeDestroyed := None, kernelLevel := level_after (resume y), kmachine := m\<rparr>)"
    by (rule Run_ok [OF pre]) (assumption | rule that)+
  let ?T = "(threads k)(?c \<mapsto> x'\<lparr>resume := r\<rparr>, n \<mapsto> y\<lparr>threadStatus := RUNNING\<rparr>)"
  define k' where "k' = ?k\<lparr>threads := (if finishing then ?T(?c := None) else ?T), currentThread := n, toBeDestroyed := None,
    kernelLevel := level_after (resume y), kmachine := m\<rparr>"
  have run: "Run n finishing r ?k = Inr k'" using run by (simp add: k'_def cong: if_cong)
  have y: "priority y = priority xn" "stack y = stack xn" "resume y = (if n = ?c then r else resume xn)" using s by simp_all
  have st: "status_of k' t = (if t = n then Some RUNNING else if finishing \<and> t = ?c then None else status_of k t)" for t
    using nfin s(1) x by (auto simp: k'_def status_of_def saved_def)
  have prio: "getPriority k' t = getPriority k t" if "\<not> (finishing \<and> t = ?c)" for t
    using that s(1) x xn(1) y(1) by (auto simp: k'_def getPriority_def saved_def split: option.splits)
  have "by_priority (getPriority k') l"
  proof -
    have same: "getPriority k' t = getPriority k t" if "t \<in> set l" for t
    proof (rule prio)
      have "status_of k t = Some READY" using that W l by auto
      then show "\<not> (finishing \<and> t = ?c)" using fin by auto
    qed
    have ordered: "sorted_wrt (\<lambda>x y. getPriority k y \<le> getPriority k x) l" using W l by (simp add: by_priority_def)
    show ?thesis unfolding by_priority_def by (rule sorted_wrt_mono_rel [OF _ ordered]) (simp add: same)
  qed
  moreover have "\<forall>t x. threads k' t = Some x \<longrightarrow> thread_wf x"
    using W s(1) x xn(1) y(1,2) by (auto simp: k'_def thread_wf_def saved_def split: if_splits)
  moreover have "t \<in> set l \<longleftrightarrow> status_of k' t = Some READY" for t
    using W l n(2) fin unfolding st by auto
  moreover have "t = n" if "status_of k' t = Some RUNNING" for t
    using that W old unfolding st by (auto split: if_splits)
  moreover have "status_of k' n = Some RUNNING" by (simp add: st)
  moreover have sel: "readyList k' = l" "currentThread k' = n" "toBeDestroyed k' = None" "threadNum k' = threadNum k"
      "kernelLevel k' = level_after (if n = ?c then r else resume xn)" by (simp_all add: k'_def y(3))
  moreover have "threads k' n \<noteq> None" using nfin by (auto simp: k'_def)
  ultimately have inv: "kinv k'" unfolding kinv_def kwf_def sel using n(3) by blast
  have others: "resume z = resume (the (threads k t))" if "threads k' t = Some z" "t \<noteq> ?c" for t z
    using that xn(1) y(3) s(2) by (auto simp: k'_def split: if_splits)
  have mine: "resume (the (threads k' ?c)) = r" if "\<not> finishing"
    using that y(3) s(2) by (auto simp: k'_def)
  show ?thesis
    by (rule that [OF run inv]) (use sel st prio [of n] nfin others mine xn(1) in auto)
qed

section \<open>The operations on a consistent kernel\<close>

lemma level_sel [simp]:
  "status_of (k\<lparr>kernelLevel := l\<rparr>) = status_of k" "getPriority (k\<lparr>kernelLevel := l\<rparr>) = getPriority k"
  "kwf (k\<lparr>kernelLevel := l\<rparr>) = kwf k" "kinv (k\<lparr>kernelLevel := l\<rparr>) = kinv k"
proof -
  show 1: "status_of (k\<lparr>kernelLevel := l\<rparr>) = status_of k" "getPriority (k\<lparr>kernelLevel := l\<rparr>) = getPriority k"
    by (simp_all add: status_of_def getPriority_def fun_eq_iff)
  show 2: "kwf (k\<lparr>kernelLevel := l\<rparr>) = kwf k" by (simp add: kwf_def 1)
  show "kinv (k\<lparr>kernelLevel := l\<rparr>) = kinv k" by (simp add: kinv_def 1 2)
qed

lemma status_of_Some: "status_of k t = Some st \<longleftrightarrow> (\<exists>x. threads k t = Some x \<and> threadStatus x = st)"
  by (auto simp: status_of_def)

lemma kwf_ready: "kwf k \<Longrightarrow> t \<in> set (readyList k) \<longleftrightarrow> status_of k t = Some READY"
  unfolding kwf_def by blast

lemma FindNextToRun_Cons: "kernelLevel k = IntOff \<Longrightarrow> readyList k = n # l \<Longrightarrow> FindNextToRun k = Inr (k\<lparr>readyList := l\<rparr>, Some n)"
  by (simp add: FindNextToRun_def seq_RemoveFront_def)

lemma FindNextToRun_Nil: "kernelLevel k = IntOff \<Longrightarrow> readyList k = [] \<Longrightarrow> FindNextToRun k = Inr (k, None)"
  by (simp add: FindNextToRun_def)

lemma insert_sorted_Cons: obtains n l where "insert_sorted cmp t ts = n # l"
proof -
  have "insert_sorted cmp t ts \<noteq> []" by (cases ts) auto
  then show ?thesis by (cases "insert_sorted cmp t ts") (auto intro: that)
qed

lemma Yield_ok:
  assumes "kinv k"
  obtains k' where "Yield (currentThread k) k = Inr k'" "kinv k'" "threadNum k' = threadNum k"
    "currentThread k' # readyList k' = insert_sorted (Scheduler_Compare (getPriority k)) (currentThread k) (readyList k)"
    "\<forall>t. status_of k' t = None \<longleftrightarrow> status_of k t = None"
    "kernelLevel k' = (if currentThread k' = currentThread k then kernelLevel k else level_after (resume (the (threads k (currentThread k')))))"
    "\<forall>t x. threads k' t = Some x \<longrightarrow> t \<noteq> currentThread k \<longrightarrow> resume x = resume (the (threads k t))"
    "\<forall>t. t \<noteq> currentThread k \<longrightarrow> t \<noteq> currentThread k' \<longrightarrow> status_of k' t = status_of k t"
proof -
  let ?c = "currentThread k" and ?k = "k\<lparr>kernelLevel := IntOff\<rparr>"
  obtain x where x: "threads k ?c = Some x" "threadStatus x = RUNNING" using assms by (auto simp: kinv_def status_of_Some)
  have pre: "kwf ?k" "kernelLevel ?k = IntOff" "threads ?k ?c = Some x" "threadStatus x \<noteq> READY" using assms x by (simp_all add: kinv_def)
  obtain k1 where k1: "ReadyToRun ?c ?k = Inr k1" "kwf k1" "threads k1 = (threads ?k)(?c \<mapsto> x\<lparr>threadStatus := READY\<rparr>)"
    "readyList k1 = insert_sorted (Scheduler_Compare (getPriority ?k)) ?c (readyList ?k)" "currentThread k1 = currentThread ?k"
    "kernelLevel k1 = IntOff" "getPriority k1 = getPriority ?k" "threadNum k1 = threadNum ?k"
    by (rule ReadyToRun_ok [OF pre]) (rule that; assumption)
  obtain n l where l: "readyList k1 = n # l" unfolding k1(4) by (rule insert_sorted_Cons)
  have st: "status_of k1 t = (if t = ?c then Some READY else status_of k t)" for t using k1(3) by (simp add: status_of_def)
  have c: "currentThread k1 = ?c" using k1(5) by simp
  have old: "status_of k1 (currentThread k1) \<in> {Some BLOCKED, Some READY}" by (simp add: c st)
  obtain k' where k': "Run n False (InYield (kernelLevel k)) (k1\<lparr>readyList := l\<rparr>) = Inr k'" "kinv k'" "currentThread k' = n" "readyList k' = l"
    "getPriority k' n = getPriority k1 n" "threadNum k' = threadNum k1"
    "\<forall>t. status_of k' t = (if t = n then Some RUNNING else if False \<and> t = currentThread k1 then None else status_of k1 t)"
    "\<forall>t x. threads k' t = Some x \<longrightarrow> t \<noteq> currentThread k1 \<longrightarrow> resume x = resume (the (threads k1 t))"
    "kernelLevel k' = level_after (if n = currentThread k1 then InYield (kernelLevel k) else resume (the (threads k1 n)))"
    by (rule dispatch_ok [where finishing = False and r = "InYield (kernelLevel k)", OF k1(2,6) l old FalseE]) (assumption | rule that)+
  have "Yield ?c k = Inr k'"
    using k1(1) k'(1) FindNextToRun_Cons [OF k1(6) l] by (simp add: Yield_def Let_def)
  moreover have "status_of k' t = None \<longleftrightarrow> status_of k t = None" for t
  proof -
    have "status_of k1 n \<noteq> None" using kwf_ready [OF k1(2), of n] l by auto
    moreover have "status_of k ?c = Some RUNNING" using assms by (simp add: kinv_def)
    ultimately show ?thesis using k'(7) [rule_format, of t] st [of t] by (cases "t = n"; cases "t = ?c") simp_all
  qed
  ultimately show ?thesis
    by (intro that [of k']) (use k' k1 l c st in \<open>auto simp: level_after_def\<close>)
qed

text \<open>An interrupt that makes a blocked thread ready, as \<open>Interrupt::Idle\<close> waits for it.\<close>

definition wake :: "tid \<Rightarrow> kernel \<Rightarrow> kernel res" where
  "wake w k = ASSERT (status_of k w = Some BLOCKED) (ReadyToRun w k)"

lemma wake_ok:
  assumes "kwf k" "kernelLevel k = IntOff" "status_of k w = Some BLOCKED"
  obtains k' where "wake w k = Inr k'" "kwf k'" "readyList k' = insert_sorted (Scheduler_Compare (getPriority k)) w (readyList k)"
    "currentThread k' = currentThread k" "kernelLevel k' = IntOff" "threadNum k' = threadNum k"
    "\<forall>t. status_of k' t = (if t = w then Some READY else status_of k t)"
    "\<forall>t x. threads k' t = Some x \<longrightarrow> resume x = resume (the (threads k t))"
proof -
  obtain x where x: "threads k w = Some x" "threadStatus x \<noteq> READY" using assms(3) by (auto simp: status_of_Some)
  obtain k' where k': "ReadyToRun w k = Inr k'" "kwf k'" "threads k' = (threads k)(w \<mapsto> x\<lparr>threadStatus := READY\<rparr>)"
    "readyList k' = insert_sorted (Scheduler_Compare (getPriority k)) w (readyList k)" "currentThread k' = currentThread k"
    "kernelLevel k' = IntOff" "threadNum k' = threadNum k"
    by (rule ReadyToRun_ok [OF assms(1,2) x]) (rule that; assumption)
  show ?thesis
    by (rule that [of k']) (use k' x(1) assms(3) in \<open>auto simp: wake_def status_of_def split: if_splits\<close>)
qed

lemma Sleep_begin_ok:
  assumes "kinv k" "kernelLevel k = IntOff"
  obtains k' where "Sleep_begin (currentThread k) k = Inr k'" "kwf k'" "readyList k' = readyList k" "currentThread k' = currentThread k"
    "kernelLevel k' = IntOff" "threadNum k' = threadNum k" "getPriority k' = getPriority k"
    "\<forall>t. status_of k' t = (if t = currentThread k then Some BLOCKED else status_of k t)"
    "\<forall>t x. threads k' t = Some x \<longrightarrow> resume x = resume (the (threads k t))"
proof -
  let ?c = "currentThread k"
  obtain x where x: "threads k ?c = Some x" "threadStatus x = RUNNING" using assms(1) by (auto simp: kinv_def status_of_Some)
  let ?k = "put_thread ?c (x\<lparr>threadStatus := BLOCKED\<rparr>) k"
  have W: "kwf k" using assms(1) by (simp add: kinv_def)
  have st: "status_of ?k t = (if t = ?c then Some BLOCKED else status_of k t)" for t by (simp add: status_of_def)
  have prio: "getPriority ?k = getPriority k" using x(1) by (auto simp: getPriority_def fun_eq_iff)
  have c: "?c \<notin> set (readyList k)" using kwf_ready [OF W] x by (simp add: status_of_def)
  have "thread_wf (x\<lparr>threadStatus := BLOCKED\<rparr>)" using W x(1) by (auto simp: kwf_def thread_wf_def)
  then have "kwf ?k" using W c unfolding kwf_def prio st by auto
  moreover have "Sleep_begin ?c k = Inr ?k" using assms(2) x(1) by (simp add: Sleep_begin_def setStatus_def)
  ultimately show ?thesis using that [of ?k] st prio assms(2) x(1) by auto
qed

text \<open>The loop of \<open>Sleep\<close> ends with the first ready thread, after the interrupt if there is none.\<close>

lemma Sleep_loop_ok:
  assumes k: "kwf k" "kernelLevel k = IntOff" and wk: "readyList k = [] \<Longrightarrow> status_of k w = Some BLOCKED"
  obtains k2 n l where "Sleep_loop (wake w) k = Some (Inr (k2\<lparr>readyList := l\<rparr>, n))" "readyList k2 = n # l" "kwf k2"
    "currentThread k2 = currentThread k" "kernelLevel k2 = IntOff" "threadNum k2 = threadNum k"
    "\<forall>t. t \<noteq> n \<longrightarrow> status_of k2 t = status_of k t" "n = (if readyList k = [] then w else hd (readyList k))" "l = tl (readyList k)"
    "\<forall>t x. threads k2 t = Some x \<longrightarrow> threads k t \<noteq> None \<and> resume x = resume (the (threads k t))"
proof (cases "readyList k")
  case (Cons n l)
  then have "Sleep_loop (wake w) k = Some (Inr (k\<lparr>readyList := l\<rparr>, n))"
    using FindNextToRun_Cons [OF k(2)] by (subst Sleep_loop.simps) simp
  then show ?thesis by (rule that [of l k n]) (use k Cons in auto)
next
  case Nil
  obtain k2 where k2: "wake w k = Inr k2" "kwf k2" "readyList k2 = insert_sorted (Scheduler_Compare (getPriority k)) w (readyList k)"
    "currentThread k2 = currentThread k" "kernelLevel k2 = IntOff" "threadNum k2 = threadNum k"
    "\<forall>t. status_of k2 t = (if t = w then Some READY else status_of k t)"
    "\<forall>t x. threads k2 t = Some x \<longrightarrow> resume x = resume (the (threads k t))"
    by (rule wake_ok [OF k wk [OF Nil]]) (rule that; assumption)
  have r: "readyList k2 = [w]" using k2(3) Nil by simp
  have "Sleep_loop (wake w) k2 = Some (Inr (k2\<lparr>readyList := []\<rparr>, w))"
    using FindNextToRun_Cons [OF k2(5) r] by (subst Sleep_loop.simps) simp
  then have loop: "Sleep_loop (wake w) k = Some (Inr (k2\<lparr>readyList := []\<rparr>, w))"
    using FindNextToRun_Nil [OF k(2) Nil] k2(1) by (subst Sleep_loop.simps) simp
  have "threads k t \<noteq> None" if "threads k2 t = Some x" for t x
    using that k2(7) wk [OF Nil] by (metis status_of_def option.map_disc_iff option.distinct(1))
  then show ?thesis using loop k2 r Nil by (intro that [of "[]" k2 w]) auto
qed

text \<open>\<open>Sleep\<close> in a consistent kernel: it returns in another thread as soon as one is ready.\<close>

lemma Sleep_ok:
  assumes inv: "kinv k" "kernelLevel k = IntOff"
    and wk: "readyList k = [] \<Longrightarrow> status_of k w = Some BLOCKED \<or> (w = currentThread k \<and> \<not> finishing)"
  obtains k' where "Sleep (wake w) (currentThread k) finishing k = Inr k'" "kinv k'" "threadNum k' = threadNum k"
    "currentThread k' = (if readyList k = [] then w else hd (readyList k))" "readyList k' = tl (readyList k)"
    "\<forall>t. status_of k' t = (if t = currentThread k' then Some RUNNING else if t = currentThread k then
        (if finishing then None else Some BLOCKED) else status_of k t)"
    "kernelLevel k' = level_after (if currentThread k' = currentThread k then InSleep else resume (the (threads k (currentThread k'))))"
    "\<forall>t x. threads k' t = Some x \<longrightarrow> t \<noteq> currentThread k \<longrightarrow> resume x = resume (the (threads k t))"
proof -
  let ?c = "currentThread k"
  obtain k1 where k1: "Sleep_begin ?c k = Inr k1" "kwf k1" "readyList k1 = readyList k" "currentThread k1 = ?c"
    "kernelLevel k1 = IntOff" "threadNum k1 = threadNum k" "\<forall>t. status_of k1 t = (if t = ?c then Some BLOCKED else status_of k t)"
    "\<forall>t x. threads k1 t = Some x \<longrightarrow> resume x = resume (the (threads k t))"
    by (rule Sleep_begin_ok [OF inv]) (rule that; assumption)
  have w1: "readyList k1 = [] \<Longrightarrow> status_of k1 w = Some BLOCKED" using wk k1(3,7) by auto
  obtain k2 n l where k2: "Sleep_loop (wake w) k1 = Some (Inr (k2\<lparr>readyList := l\<rparr>, n))" "readyList k2 = n # l" "kwf k2"
    "currentThread k2 = currentThread k1" "kernelLevel k2 = IntOff" "threadNum k2 = threadNum k1"
    "\<forall>t. t \<noteq> n \<longrightarrow> status_of k2 t = status_of k1 t" "n = (if readyList k1 = [] then w else hd (readyList k1))" "l = tl (readyList k1)"
    "\<forall>t x. threads k2 t = Some x \<longrightarrow> threads k1 t \<noteq> None \<and> resume x = resume (the (threads k1 t))"
    by (rule Sleep_loop_ok [OF k1(2,5) w1]) (assumption | rule that)+
  have res: "resume x = resume (the (threads k t))" if t: "threads k2 t = Some x" for t x
  proof -
    obtain y where y: "threads k1 t = Some y" "resume x = resume y" using k2(10) t by force
    then show ?thesis using k1(8) by simp
  qed
  have nfin: "n \<noteq> ?c" if finishing
  proof -
    have c: "status_of k ?c = Some RUNNING" "?c \<notin> set (readyList k)"
      using inv(1) kwf_ready [of k ?c] by (simp_all add: kinv_def)
    show ?thesis
    proof (cases "readyList k")
      case Nil
      then have "status_of k n = Some BLOCKED" using wk that k2(8) k1(3) by simp
      then show ?thesis using c(1) by auto
    next
      case (Cons u us)
      then have "n \<in> set (readyList k)" using k2(8) k1(3) by simp
      then show ?thesis using c(2) by auto
    qed
  qed
  have old: "status_of k2 (currentThread k2) \<in> {Some BLOCKED, Some READY}" "finishing \<Longrightarrow> status_of k2 (currentThread k2) = Some BLOCKED"
    using k2(2,4,7) kwf_ready [OF k2(3), of n] k1(4,7) nfin by (cases "?c = n"; simp)+
  obtain k' where k': "Run n finishing InSleep (k2\<lparr>readyList := l\<rparr>) = Inr k'" "kinv k'" "currentThread k' = n" "readyList k' = l"
    "getPriority k' n = getPriority k2 n" "threadNum k' = threadNum k2"
    "\<forall>t. status_of k' t = (if t = n then Some RUNNING else if finishing \<and> t = currentThread k2 then None else status_of k2 t)"
    "\<forall>t x. threads k' t = Some x \<longrightarrow> t \<noteq> currentThread k2 \<longrightarrow> resume x = resume (the (threads k2 t))"
    "kernelLevel k' = level_after (if n = currentThread k2 then InSleep else resume (the (threads k2 n)))"
    by (rule dispatch_ok [where r = InSleep, OF k2(3,5,2) old]) (assumption | rule that)+
  have n2: "threads k2 n \<noteq> None" using kwf_ready [OF k2(3), of n] k2(2) by (auto simp: status_of_def)
  have "Sleep (wake w) ?c finishing k = Inr k'"
    using k1(1) k2(1) k'(1) by (simp add: Sleep_def)
  moreover have "resume x = resume (the (threads k t))" if "threads k' t = Some x" "t \<noteq> ?c" for t x
  proof -
    have "status_of k' t \<noteq> None" using that(1) by (simp add: status_of_def)
    then have "status_of k2 t \<noteq> None \<or> t = n" using k'(7) [rule_format, of t] by (auto split: if_splits)
    then have "threads k2 t \<noteq> None" using n2 by (auto simp: status_of_def)
    then obtain z where z: "threads k2 t = Some z" by blast
    then show ?thesis using that k'(8) k2(4) k1(4) res [OF z] by simp
  qed
  moreover obtain z where z: "threads k2 n = Some z" using n2 by blast
  have "resume (the (threads k2 n)) = resume (the (threads k n))" using res [OF z] z by simp
  ultimately show ?thesis
    by (intro that [of k']) (use k' k2(4,6,7,8,9) k1(3,4,6,7) in auto)
qed

lemma Finish_ok:
  assumes "kinv k" "readyList k = [] \<Longrightarrow> status_of k w = Some BLOCKED"
  obtains k' where "Finish (wake w) (currentThread k) k = Inr k'" "kinv k'" "threadNum k' = threadNum k"
    "currentThread k' = (if readyList k = [] then w else hd (readyList k))" "readyList k' = tl (readyList k)"
    "threads k' (currentThread k) = None"
    "\<forall>t. t \<noteq> currentThread k \<longrightarrow> status_of k' t = (if t = currentThread k' then Some RUNNING else status_of k t)"
proof -
  let ?k = "k\<lparr>kernelLevel := IntOff\<rparr>"
  have pre: "kinv ?k" "kernelLevel ?k = IntOff" "readyList ?k = [] \<Longrightarrow> status_of ?k w = Some BLOCKED \<or> (w = currentThread ?k \<and> \<not> True)"
    using assms by simp_all
  obtain k' where k': "Sleep (wake w) (currentThread ?k) True ?k = Inr k'" "kinv k'" "threadNum k' = threadNum ?k"
    "currentThread k' = (if readyList ?k = [] then w else hd (readyList ?k))" "readyList k' = tl (readyList ?k)"
    "\<forall>t. status_of k' t = (if t = currentThread k' then Some RUNNING else if t = currentThread ?k then
        (if True then None else Some BLOCKED) else status_of ?k t)"
    by (rule Sleep_ok [where finishing = True, OF pre]) (assumption | rule that)+
  have ne: "currentThread k' \<noteq> currentThread k"
  proof (cases "readyList k = []")
    case True
    with k'(4) assms show ?thesis by (auto simp: kinv_def)
  next
    case False
    then have "hd (readyList k) \<in> set (readyList k)" by simp
    then have "status_of k (hd (readyList k)) = Some READY" using kwf_ready assms(1) by (simp add: kinv_def)
    with False k'(4) assms(1) show ?thesis by (auto simp: kinv_def)
  qed
  have "Finish (wake w) (currentThread k) k = Inr k'" using k'(1) by (simp add: Finish_def)
  moreover have "status_of k' (currentThread k) = None" using k'(6) ne by simp
  then have "threads k' (currentThread k) = None" by (simp add: status_of_def)
  ultimately show ?thesis by (intro that [of k']) (use k' ne in auto)
qed

lemma Fork_ok:
  assumes "kinv k" "status_of k t = Some JUST_CREATED"
  obtains k' where "Fork t k = Inr k'" "kinv k'" "threadNum k' = threadNum k" "currentThread k' = currentThread k"
    "readyList k' = insert_sorted (Scheduler_Compare (getPriority k)) t (readyList k)"
    "\<forall>x. status_of k' x = (if x = t then Some READY else status_of k x)"
proof -
  obtain x where x: "threads k t = Some x" "threadStatus x = JUST_CREATED" using assms(2) by (auto simp: status_of_Some)
  let ?x = "x\<lparr>stack := Some STACK_FENCEPOST, resume := AtRoot\<rparr>"
  let ?k = "(put_thread t ?x k)\<lparr>kernelLevel := IntOff\<rparr>"
  have W: "kwf k" using assms(1) by (simp add: kinv_def)
  have st: "status_of (put_thread t ?x k) = status_of k" and prio: "getPriority (put_thread t ?x k) = getPriority k"
    using x(1) by (auto simp: status_of_def getPriority_def fun_eq_iff)
  have "thread_wf ?x" using W x(1) by (auto simp: kwf_def thread_wf_def)
  then have "kwf (put_thread t ?x k)" using W unfolding kwf_def st prio by auto
  then have pre: "kwf ?k" "kernelLevel ?k = IntOff" "threads ?k t = Some ?x" "threadStatus ?x \<noteq> READY" using x(2) by simp_all
  obtain k1 where k1: "ReadyToRun t ?k = Inr k1" "kwf k1" "threads k1 = (threads ?k)(t \<mapsto> ?x\<lparr>threadStatus := READY\<rparr>)"
    "readyList k1 = insert_sorted (Scheduler_Compare (getPriority ?k)) t (readyList ?k)" "currentThread k1 = currentThread ?k"
    "threadNum k1 = threadNum ?k"
    by (rule ReadyToRun_ok [OF pre]) (rule that; assumption)
  let ?k' = "k1\<lparr>kernelLevel := kernelLevel k\<rparr>"
  have st1: "status_of k1 y = (if y = t then Some READY else status_of k y)" for y
    using k1(3) by (simp add: status_of_def)
  have c: "currentThread k \<noteq> t" using assms by (auto simp: kinv_def)
  have "Fork t k = Inr ?k'"
    using k1(1) x(1) by (simp add: Fork_def StackAllocate_def)
  moreover have "kinv ?k'" using k1(2,5) st1 c assms(1) by (simp add: kinv_def)
  ultimately show ?thesis by (intro that [of ?k']) (use k1 st1 prio in auto)
qed

lemma Thread_init_wf: "thread_wf (Thread_init regs n p)" "threadStatus (Thread_init regs n p) = JUST_CREATED"
  by (simp_all add: Thread_init_def setPriority_def thread_wf_def)

lemma new_thread_inv:
  assumes "kinv k" "threads k t = None" "thread_wf x" "threadStatus x = JUST_CREATED"
  shows "kinv (k\<lparr>threads := (threads k)(t \<mapsto> x), threadNum := c\<rparr>)"
proof -
  let ?k = "k\<lparr>threads := (threads k)(t \<mapsto> x), threadNum := c\<rparr>"
  have W: "kwf k" and run: "status_of k (currentThread k) = Some RUNNING" using assms(1) by (simp_all add: kinv_def)
  have tn: "status_of k t = None" using assms(2) by (simp add: status_of_def)
  then have t: "t \<notin> set (readyList k)" "t \<noteq> currentThread k" using kwf_ready [OF W, of t] run by auto
  have st: "status_of ?k y = (if y = t then Some JUST_CREATED else status_of k y)" for y
    using assms(4) by (simp add: status_of_def)
  have prio: "getPriority ?k y = getPriority k y" if "y \<noteq> t" for y using that by (simp add: getPriority_def)
  have ordered: "sorted_wrt (\<lambda>x y. getPriority k y \<le> getPriority k x) (readyList k)" using W by (simp add: kwf_def by_priority_def)
  have neq: "y \<noteq> t" if "y \<in> set (readyList k)" for y using that t(1) by auto
  have "by_priority (getPriority ?k) (readyList k)"
    unfolding by_priority_def by (rule sorted_wrt_mono_rel [OF _ ordered]) (simp add: prio neq)
  moreover have "y \<in> set (readyList k) \<longleftrightarrow> status_of ?k y = Some READY" for y
    using kwf_ready [OF W, of y] t(1) by (auto simp: st)
  moreover have "y = currentThread k" if "status_of ?k y = Some RUNNING" for y
    using that W by (auto simp: st kwf_def split: if_splits)
  ultimately have "kwf ?k" using W assms(3) t unfolding kwf_def by auto
  then show ?thesis using run t(2) by (simp add: kinv_def st)
qed

section \<open>Runs of the kernel\<close>

text \<open>
  What threads and interrupts do: create threads, start them, give up the processor, wait
  until another thread is made ready, end; an interrupt makes a blocked thread ready; the
  current thread changes the interrupt level.
\<close>

inductive kstep :: "kernel \<Rightarrow> kernel \<Rightarrow> bool" where
  create: "threads k t = None \<Longrightarrow> kstep k (Thread_new t regs n k)"
| create_priority: "threads k t = None \<Longrightarrow> Thread_new_priority t regs n p k = Inr k' \<Longrightarrow> kstep k k'"
| fork: "status_of k t = Some JUST_CREATED \<Longrightarrow> Fork t k = Inr k' \<Longrightarrow> kstep k k'"
| yield: "Yield (currentThread k) k = Inr k' \<Longrightarrow> kstep k k'"
| sleep: "kernelLevel k = IntOff \<Longrightarrow> Sleep (wake w) (currentThread k) False k = Inr k' \<Longrightarrow> kstep k k'"
| finish: "Finish (wake w) (currentThread k) k = Inr k' \<Longrightarrow> w \<noteq> currentThread k \<Longrightarrow> kstep k k'"
| interrupt: "wake t (k\<lparr>kernelLevel := IntOff\<rparr>) = Inr k' \<Longrightarrow> kstep k (k'\<lparr>kernelLevel := kernelLevel k\<rparr>)"
| set_level: "kstep k (k\<lparr>kernelLevel := l\<rparr>)"

inductive kreach :: "kernel \<Rightarrow> bool" where
  init: "kreach (Kernel_Initialize regs m)"
| step: "kreach k \<Longrightarrow> kstep k k' \<Longrightarrow> kreach k'"

lemma Kernel_Initialize_inv: "kinv (Kernel_Initialize regs m)"
  by (auto simp: Kernel_Initialize_def kinv_def kwf_def status_of_def by_priority_def Thread_init_def setPriority_def thread_wf_def split: if_splits)

text \<open>\<open>Sleep\<close> returns only if there is a thread to run.\<close>

lemma Sleep_returns_wake:
  assumes "kinv k" "kernelLevel k = IntOff" "Sleep (wake w) (currentThread k) finishing k = Inr k'" "readyList k = []"
  shows "status_of k w = Some BLOCKED \<or> w = currentThread k"
proof -
  obtain k1 where k1: "Sleep_begin (currentThread k) k = Inr k1" "readyList k1 = readyList k" "kernelLevel k1 = IntOff"
    "\<forall>t. status_of k1 t = (if t = currentThread k then Some BLOCKED else status_of k t)"
    by (rule Sleep_begin_ok [OF assms(1,2)]) (rule that; assumption)
  have "\<exists>k2. wake w k1 = Inr k2"
  proof (cases "wake w k1")
    case (Inl e)
    then have "Sleep_loop (wake w) k1 = Some (Inl e)"
      using FindNextToRun_Nil [OF k1(3)] k1(2) assms(4) by (subst Sleep_loop.simps) simp
    then show ?thesis using assms(3) k1(1) by (simp add: Sleep_def)
  qed simp
  then have "status_of k1 w = Some BLOCKED" by (auto simp: wake_def ASSERT_eq_Inr)
  then show ?thesis using k1(4) by (auto split: if_splits)
qed

lemma kstep_inv:
  assumes "kinv k" "kstep k k'"
  shows "kinv k' \<and> threadNum k \<le> threadNum k'"
  using assms(2)
proof cases
  case (create t regs n)
  then show ?thesis using new_thread_inv [of k t "Thread_init regs n 0" "threadNum k"] assms(1) Thread_init_wf by (simp add: Thread_new_def)
next
  case (create_priority t regs n p)
  then have "k' = k\<lparr>threads := (threads k)(t \<mapsto> Thread_init regs n p), threadNum := threadNum k + 1\<rparr>"
    by (auto simp: Thread_new_priority_def Let_def ASSERT_eq_Inr)
  then show ?thesis using new_thread_inv [of k t "Thread_init regs n p" "threadNum k + 1"] assms(1) create_priority(1) Thread_init_wf by simp
next
  case (fork t)
  then show ?thesis using Fork_ok [OF assms(1) fork(1)] by (metis Inr_inject order_refl)
next
  case yield
  then show ?thesis using Yield_ok [OF assms(1)] by (metis Inr_inject order_refl)
next
  case (sleep w)
  have w: "readyList k = [] \<Longrightarrow> status_of k w = Some BLOCKED \<or> (w = currentThread k \<and> \<not> False)"
    using Sleep_returns_wake [OF assms(1) sleep] by auto
  obtain k2 where "Sleep (wake w) (currentThread k) False k = Inr k2" "kinv k2" "threadNum k2 = threadNum k"
    by (rule Sleep_ok [where finishing = False, OF assms(1) sleep(1) w]) (assumption | rule that)+
  then show ?thesis using sleep(2) by simp
next
  case (finish w)
  have "readyList k = [] \<Longrightarrow> status_of k w = Some BLOCKED"
    using Sleep_returns_wake [of "k\<lparr>kernelLevel := IntOff\<rparr>" w True k'] assms(1) finish by (simp add: Finish_def)
  then obtain k2 where "Finish (wake w) (currentThread k) k = Inr k2" "kinv k2" "threadNum k2 = threadNum k"
    by (rule Finish_ok [OF assms(1)]) (assumption | rule that)+
  then show ?thesis using finish(1) by simp
next
  case (interrupt t k1)
  have pre: "kwf (k\<lparr>kernelLevel := IntOff\<rparr>)" "kernelLevel (k\<lparr>kernelLevel := IntOff\<rparr>) = IntOff"
      "status_of (k\<lparr>kernelLevel := IntOff\<rparr>) t = Some BLOCKED"
    using assms(1) interrupt(2) by (simp_all add: kinv_def wake_def ASSERT_eq_Inr)
  obtain k2 where "wake t (k\<lparr>kernelLevel := IntOff\<rparr>) = Inr k2" "kwf k2" "currentThread k2 = currentThread (k\<lparr>kernelLevel := IntOff\<rparr>)"
    "threadNum k2 = threadNum (k\<lparr>kernelLevel := IntOff\<rparr>)"
    "\<forall>x. status_of k2 x = (if x = t then Some READY else status_of (k\<lparr>kernelLevel := IntOff\<rparr>) x)"
    by (rule wake_ok [OF pre]) (rule that; assumption)
  then show ?thesis using interrupt assms(1) pre(3) by (auto simp: kinv_def)
next
  case (set_level l)
  then show ?thesis using assms(1) by simp
qed

lemma kreach_inv: "kreach k \<Longrightarrow> kinv k"
proof (induction rule: kreach.induct)
  case init
  show ?case by (rule Kernel_Initialize_inv)
qed (use kstep_inv in blast)

lemma insert_by_priority:
  assumes "by_priority prio ts"
  shows "insert_sorted (Scheduler_Compare prio) t ts = filter (\<lambda>y. prio t \<le> prio y) ts @ t # filter (\<lambda>y. prio y < prio t) ts"
proof -
  have "insert_sorted (Scheduler_Compare prio) t ts = filter (\<lambda>y. Scheduler_Compare prio y t \<le> 0 \<and> \<not> Scheduler_Compare prio t y < 0) ts
      @ t # filter (\<lambda>y. Scheduler_Compare prio t y < 0) ts"
    by (rule sched.insert_sorted_filter) (use assms in \<open>simp add: by_priority_def Compare_le\<close>)
  moreover have "(Scheduler_Compare prio y t \<le> 0 \<and> \<not> Scheduler_Compare prio t y < 0) = (prio t \<le> prio y)"
      "(Scheduler_Compare prio t y < 0) = (prio y < prio t)" for y
    by (auto simp: Scheduler_Compare_def)
  ultimately show ?thesis by simp
qed

section \<open>Properties\<close>

text \<open>
  C8. In every state that the kernel reaches from its start, by any sequence of operations of
  threads and interrupts, the scheduler is consistent: exactly one thread runs, the current
  one; the ready list holds exactly the ready threads, each once and in the order of their
  priorities, which are between 1 and 7; no finished thread is left over.
\<close>

theorem kreach_consistent:
  assumes "kreach k"
  shows "{t. status_of k t = Some RUNNING} = {currentThread k}
    \<and> set (readyList k) = {t. status_of k t = Some READY} \<and> distinct (readyList k)
    \<and> sorted_wrt (\<lambda>t u. getPriority k u \<le> getPriority k t) (readyList k)
    \<and> (\<forall>t x. threads k t = Some x \<longrightarrow> 1 \<le> priority x \<and> priority x \<le> 7)
    \<and> toBeDestroyed k = None"
proof -
  have inv: "kinv k" by (rule kreach_inv [OF assms])
  then have W: "kwf k" by (simp add: kinv_def)
  have "{t. status_of k t = Some RUNNING} = {currentThread k}"
    using W inv unfolding kwf_def kinv_def by blast
  moreover have "set (readyList k) = {t. status_of k t = Some READY}" using kwf_ready [OF W] by blast
  moreover have "\<forall>t x. threads k t = Some x \<longrightarrow> 1 \<le> priority x \<and> priority x \<le> 7"
    using W by (auto simp: kwf_def thread_wf_def)
  ultimately show ?thesis using W by (simp add: kwf_def by_priority_def)
qed

text \<open>C8, after a thread of priority 9 has been created and started by the main thread.\<close>

definition kernel1 :: kernel where
  "kernel1 = Kernel_Initialize (\<lambda>_. 0) (Machine_new False 0 [] 0)"

theorem kreach_consistent_witness:
  "\<exists>k k'. Thread_new_priority 1 (\<lambda>_. 0) ''a'' 9 kernel1 = Inr k \<and> Fork 1 k = Inr k' \<and> getPriority k' 1 = 7 \<and> set (readyList k') = {1}
     \<and> {t. status_of k' t = Some RUNNING} = {currentThread k'}"
proof -
  define k where "k = kernel1\<lparr>threads := (threads kernel1)(1 \<mapsto> Thread_init (\<lambda>_. 0) ''a'' 9), threadNum := 1\<rparr>"
  have k: "Thread_new_priority 1 (\<lambda>_. 0) ''a'' 9 kernel1 = Inr k"
    by (simp add: Thread_new_priority_def kernel1_def Kernel_Initialize_def MAX_THREAD_NUM_def k_def)
  have n: "threads kernel1 1 = None" by (simp add: kernel1_def Kernel_Initialize_def)
  have r: "kreach k" using kreach.step [OF kreach.init kstep.create_priority [OF n k, unfolded kernel1_def]] .
  have st: "status_of k 1 = Some JUST_CREATED" by (simp add: k_def status_of_def Thread_init_wf)
  obtain k' where k': "Fork 1 k = Inr k'" "readyList k' = insert_sorted (Scheduler_Compare (getPriority k)) 1 (readyList k)"
    by (rule Fork_ok [OF kreach_inv [OF r] st]) (rule that; assumption)
  have "kreach k'" by (rule kreach.step [OF r kstep.fork [OF st k'(1)]])
  note c = kreach_consistent [OF this]
  have "readyList k' = [1]" using k'(2) by (simp add: k_def kernel1_def Kernel_Initialize_def)
  moreover have "getPriority k' 1 = 7"
    using k'(1) by (auto simp: Fork_def StackAllocate_def ReadyToRun_def setStatus_def thread_at_def k_def put_thread_def Thread_init_def setPriority_def
        seq_Insert_def kernel1_def Kernel_Initialize_def getPriority_def Let_def)
  ultimately show ?thesis using k k'(1) c by (intro exI [of _ k] exI [of _ k']) simp
qed

text \<open>
  C27. \<open>Yield\<close> always returns, in the thread that comes next by priority and then by order of
  arrival: no ready thread has a higher priority than the new current thread; the calling
  thread goes on at once exactly if all others have lower priorities, and otherwise it waits
  behind all ready threads of its own priority.
\<close>

theorem Yield_round_robin:
  assumes "kinv k"
  shows "\<exists>k'. Yield (currentThread k) k = Inr k' \<and> kinv k'
    \<and> (\<forall>t \<in> insert (currentThread k) (set (readyList k)). getPriority k t \<le> getPriority k (currentThread k'))
    \<and> (if \<forall>t \<in> set (readyList k). getPriority k t < getPriority k (currentThread k)
       then currentThread k' = currentThread k \<and> readyList k' = readyList k
       else currentThread k' = hd (readyList k) \<and> readyList k' =
         filter (\<lambda>t. getPriority k (currentThread k) \<le> getPriority k t) (tl (readyList k)) @ currentThread k
           # filter (\<lambda>t. getPriority k t < getPriority k (currentThread k)) (tl (readyList k)))"
proof -
  let ?c = "currentThread k" and ?p = "getPriority k"
  obtain k' where k': "Yield ?c k = Inr k'" "kinv k'"
    "currentThread k' # readyList k' = insert_sorted (Scheduler_Compare ?p) ?c (readyList k)"
    by (rule Yield_ok [OF assms]) (rule that; assumption)
  have ord: "by_priority ?p (readyList k)" using assms by (simp add: kinv_def kwf_def)
  note eq = k'(3) [unfolded insert_by_priority [OF ord]]
  show ?thesis
  proof (cases "\<forall>t \<in> set (readyList k). ?p t < ?p ?c")
    case True
    then have "filter (\<lambda>y. ?p ?c \<le> ?p y) (readyList k) = []" "filter (\<lambda>y. ?p y < ?p ?c) (readyList k) = readyList k"
      by (auto simp: filter_empty_conv)
    with eq k'(1,2) True show ?thesis by (intro exI [of _ k']) auto
  next
    case False
    then obtain n l where l: "readyList k = n # l" by (cases "readyList k") auto
    have n: "?p t \<le> ?p n" if "t \<in> set l" for t using that ord l by (simp add: by_priority_def)
    with False l have "?p ?c \<le> ?p n" by fastforce
    with eq l have "currentThread k' = n" "readyList k' = filter (\<lambda>y. ?p ?c \<le> ?p y) l @ ?c # filter (\<lambda>y. ?p y < ?p ?c) l" by auto
    with False l n \<open>?p ?c \<le> ?p n\<close> k'(1,2) show ?thesis by (intro exI [of _ k']) auto
  qed
qed

text \<open>C27, with only the main thread.\<close>

theorem Yield_round_robin_witness: "\<exists>k'. Yield 0 kernel1 = Inr k' \<and> kinv k' \<and> currentThread k' = 0"
  using Yield_round_robin [OF Kernel_Initialize_inv, of "\<lambda>_. 0" "Machine_new False 0 [] 0"]
  by (auto simp: kernel1_def Kernel_Initialize_def)

text \<open>
  C35. The limit on threads is one on creations: when 128 threads have been created with a
  priority, every further creation fails its assertion, in every later state, whatever threads
  have finished since; before that creation succeeds.
\<close>

theorem thread_limit:
  assumes "kinv k" "kstep\<^sup>*\<^sup>* k k'"
  shows "(threadNum k' < 128 \<longrightarrow> (\<exists>k2. Thread_new_priority t regs n p k' = Inr k2 \<and> threadNum k2 = threadNum k' + 1))
    \<and> (128 \<le> threadNum k \<longrightarrow> Thread_new_priority t regs n p k' = Inl AssertFailed)"
proof -
  have "kinv k' \<and> threadNum k \<le> threadNum k'"
    using assms(2)
  proof (induction rule: rtranclp_induct)
    case base
    show ?case using assms(1) by simp
  next
    case (step y z)
    then show ?case using kstep_inv [of y z] by auto
  qed
  then show ?thesis by (auto simp: Thread_new_priority_def Let_def MAX_THREAD_NUM_def ASSERT_def)
qed

text \<open>C35, after 128 creations and a call of \<open>Yield\<close>.\<close>

theorem thread_limit_witness:
  "\<exists>k k'. threadNum k = 128 \<and> Yield (currentThread k) k = Inr k' \<and> Thread_new_priority 5 (\<lambda>_. 0) ''a'' 3 k' = Inl AssertFailed"
proof -
  let ?k = "kernel1\<lparr>threadNum := 128\<rparr>"
  have inv: "kinv ?k"
    using Kernel_Initialize_inv [of "\<lambda>_. 0" "Machine_new False 0 [] 0"]
    by (simp add: kernel1_def kinv_def kwf_def status_of_def getPriority_def [abs_def])
  obtain k' where "Yield (currentThread ?k) ?k = Inr k'" by (rule Yield_ok [OF inv]) (rule that; assumption)
  then show ?thesis using thread_limit [OF inv r_into_rtranclp [of kstep, OF kstep.yield], of k' 5 "\<lambda>_. 0" "''a''" 3] by (intro exI [of _ ?k] exI [of _ k']) auto
qed

end
