(* ===== verification/Synch.thy ===== *)
theory Synch
  imports Threads
begin

text \<open>
  Semaphores, locks, condition variables and synchronized lists (\<^verbatim>\<open>code/threads/synch.h\<close>,
  \<^verbatim>\<open>synch.cc\<close>, \<^verbatim>\<open>synchlist.cc\<close>) on top of the threads.

  The threads run concurrently: a routine can lose the processor between two statements when
  interrupts are enabled, and where it sleeps. So each routine is a list of actions, each of
  them an interruptible statement or a section with interrupts disabled, and the actions that a
  thread still has to do are kept with it (\<open>todo\<close>). A step executes the first action of the
  current thread, or switches threads, or is an interrupt. \<open>asleep\<close> says that the current
  thread is in the loop of \<open>Thread::Sleep\<close>, and whether it is finishing.
\<close>

section \<open>State\<close>

text \<open>The semaphore of a lock is its own; all other semaphores have numbers.\<close>

datatype sid = LockSem nat | Sem nat

record semaphore =
  semValue :: int
  semQueue :: "tid list"

datatype action =
  P_enter sid
| P_loop sid int_status
| V_act sid
| Set_holder nat
| Clear_holder nat
| Wait_act nat nat
| Signal_act nat nat
| Broadcast_act nat nat
| Delete_sem nat
| List_append nat int
| List_remove nat

record synch =
  kern :: kernel
  sems :: "sid \<rightharpoonup> semaphore"
  lockHolder :: "nat \<Rightarrow> tid option"
  waitQueue :: "nat \<Rightarrow> nat list"
  listItems :: "nat \<Rightarrow> int list"
  removed :: "nat \<Rightarrow> int list"
  todo :: "tid \<Rightarrow> action list"
  asleep :: "bool option"

abbreviation current :: "synch \<Rightarrow> tid" where
  "current s \<equiv> currentThread (kern s)"

section \<open>Semaphores\<close>

definition Semaphore_new :: "int \<Rightarrow> semaphore" where
  "Semaphore_new initialValue = \<lparr>semValue = initialValue, semQueue = []\<rparr>"

definition sem_at :: "synch \<Rightarrow> sid \<Rightarrow> semaphore res" where
  "sem_at s i = (case sems s i of None \<Rightarrow> Inl Undefined | Some x \<Rightarrow> Inr x)"

text \<open>\<open>P\<close>: interrupts are disabled, then the value is tested, again after each sleep.\<close>

definition Semaphore_P :: "sid \<Rightarrow> action list" where
  "Semaphore_P i = [P_enter i]"

definition do_P_enter :: "sid \<Rightarrow> action list \<Rightarrow> synch \<Rightarrow> synch res" where
  "do_P_enter i rest s =
     Inr (s\<lparr>kern := (kern s)\<lparr>kernelLevel := IntOff\<rparr>,
            todo := (todo s)(current s := P_loop i (kernelLevel (kern s)) # rest)\<rparr>)"

definition do_P_loop :: "sid \<Rightarrow> int_status \<Rightarrow> action list \<Rightarrow> synch \<Rightarrow> synch res" where
  "do_P_loop i oldLevel rest s =
     bindR (sem_at s i) (\<lambda>x.
     if semValue x = 0 then
       bindR (seq_Append (semQueue x) (current s)) (\<lambda>q.
       bindR (Sleep_begin (current s) (kern s)) (\<lambda>k.
       Inr (s\<lparr>sems := (sems s)(i \<mapsto> x\<lparr>semQueue := q\<rparr>), kern := k, asleep := Some False\<rparr>)))
     else Inr (s\<lparr>sems := (sems s)(i \<mapsto> x\<lparr>semValue := semValue x - 1\<rparr>),
                 kern := (kern s)\<lparr>kernelLevel := oldLevel\<rparr>, todo := (todo s)(current s := rest)\<rparr>))"

text \<open>\<open>V\<close>, also called by interrupt handlers.\<close>

definition Semaphore_V :: "sid \<Rightarrow> synch \<Rightarrow> synch res" where
  "Semaphore_V i s =
     bindR (sem_at s i) (\<lambda>x.
     let oldLevel = kernelLevel (kern s); k = (kern s)\<lparr>kernelLevel := IntOff\<rparr> in
     bindR (if semQueue x \<noteq> [] then
              bindR (seq_RemoveFront (semQueue x)) (\<lambda>(q, t).
              bindR (ReadyToRun t k) (\<lambda>k. Inr (q, k)))
            else Inr (semQueue x, k)) (\<lambda>(q, k).
     Inr (s\<lparr>sems := (sems s)(i \<mapsto> \<lparr>semValue = semValue x + 1, semQueue = q\<rparr>),
            kern := k\<lparr>kernelLevel := oldLevel\<rparr>\<rparr>)))"

section \<open>Locks and conditions\<close>

definition Lock_new :: "nat \<Rightarrow> synch \<Rightarrow> synch" where
  "Lock_new l s = s\<lparr>sems := (sems s)(LockSem l \<mapsto> Semaphore_new 1), lockHolder := (lockHolder s)(l := None)\<rparr>"

definition Lock_Acquire :: "nat \<Rightarrow> action list" where
  "Lock_Acquire l = Semaphore_P (LockSem l) @ [Set_holder l]"

definition Lock_Release :: "nat \<Rightarrow> action list" where
  "Lock_Release l = [Clear_holder l, V_act (LockSem l)]"

definition IsHeldByCurrentThread :: "nat \<Rightarrow> synch \<Rightarrow> bool" where
  "IsHeldByCurrentThread l s \<longleftrightarrow> lockHolder s l = Some (current s)"

text \<open>The semaphore of a waiter is a new object.\<close>

definition Condition_Wait :: "nat \<Rightarrow> nat \<Rightarrow> action list" where
  "Condition_Wait c l = [Wait_act c l]"

definition do_Wait :: "nat \<Rightarrow> nat \<Rightarrow> nat \<Rightarrow> action list \<Rightarrow> synch \<Rightarrow> synch res" where
  "do_Wait w c l rest s =
     ASSERT (IsHeldByCurrentThread l s) (
     bindR (seq_Append (waitQueue s c) w) (\<lambda>q.
     Inr (s\<lparr>sems := (sems s)(Sem w \<mapsto> Semaphore_new 0), waitQueue := (waitQueue s)(c := q),
            todo := (todo s)(current s := Lock_Release l @ Semaphore_P (Sem w) @ Lock_Acquire l @ Delete_sem w # rest)\<rparr>)))"

definition Condition_Signal :: "nat \<Rightarrow> nat \<Rightarrow> action list" where
  "Condition_Signal c l = [Signal_act c l]"

definition do_Signal :: "nat \<Rightarrow> nat \<Rightarrow> action list \<Rightarrow> synch \<Rightarrow> synch res" where
  "do_Signal c l rest s =
     ASSERT (IsHeldByCurrentThread l s) (
     if waitQueue s c \<noteq> [] then
       bindR (seq_RemoveFront (waitQueue s c)) (\<lambda>(q, w).
       Inr (s\<lparr>waitQueue := (waitQueue s)(c := q), todo := (todo s)(current s := V_act (Sem w) # rest)\<rparr>))
     else Inr (s\<lparr>todo := (todo s)(current s := rest)\<rparr>))"

definition Condition_Broadcast :: "nat \<Rightarrow> nat \<Rightarrow> action list" where
  "Condition_Broadcast c l = [Broadcast_act c l]"

definition do_Broadcast :: "nat \<Rightarrow> nat \<Rightarrow> action list \<Rightarrow> synch \<Rightarrow> synch res" where
  "do_Broadcast c l rest s =
     Inr (s\<lparr>todo := (todo s)(current s :=
       if waitQueue s c \<noteq> [] then Condition_Signal c l @ Broadcast_act c l # rest else rest)\<rparr>)"

section \<open>Synchronized lists\<close>

text \<open>List \<open>n\<close> has lock \<open>n\<close> and condition \<open>n\<close>. \<open>removed\<close> collects what \<open>RemoveFront\<close> has returned.\<close>

definition SynchList_Append :: "nat \<Rightarrow> int \<Rightarrow> action list" where
  "SynchList_Append n x = Lock_Acquire n @ List_append n x # Condition_Signal n n @ Lock_Release n"

definition SynchList_RemoveFront :: "nat \<Rightarrow> action list" where
  "SynchList_RemoveFront n = Lock_Acquire n @ List_remove n # Lock_Release n"

definition do_List_append :: "nat \<Rightarrow> int \<Rightarrow> action list \<Rightarrow> synch \<Rightarrow> synch res" where
  "do_List_append n x rest s =
     bindR (seq_Append (listItems s n) x) (\<lambda>q.
     Inr (s\<lparr>listItems := (listItems s)(n := q), todo := (todo s)(current s := rest)\<rparr>))"

definition do_List_remove :: "nat \<Rightarrow> action list \<Rightarrow> synch \<Rightarrow> synch res" where
  "do_List_remove n rest s =
     (if listItems s n = [] then
        Inr (s\<lparr>todo := (todo s)(current s := Condition_Wait n n @ List_remove n # rest)\<rparr>)
      else bindR (seq_RemoveFront (listItems s n)) (\<lambda>(q, x).
        Inr (s\<lparr>listItems := (listItems s)(n := q), removed := (removed s)(n := removed s n @ [x]),
               todo := (todo s)(current s := rest)\<rparr>)))"

section \<open>Steps\<close>

definition do_Delete :: "nat \<Rightarrow> action list \<Rightarrow> synch \<Rightarrow> synch res" where
  "do_Delete w rest s =
     bindR (sem_at s (Sem w)) (\<lambda>x.
     if semQueue x = [] then Inr (s\<lparr>sems := (sems s)(Sem w := None), todo := (todo s)(current s := rest)\<rparr>) else Inl Undefined)"

text \<open>\<open>w\<close> is the address of a new semaphore, for \<open>Condition::Wait\<close>.\<close>

primrec exec_action :: "nat \<Rightarrow> action \<Rightarrow> action list \<Rightarrow> synch \<Rightarrow> synch res" where
  "exec_action w (P_enter i) rest s = do_P_enter i rest s"
| "exec_action w (P_loop i l) rest s = do_P_loop i l rest s"
| "exec_action w (V_act i) rest s = Semaphore_V i (s\<lparr>todo := (todo s)(current s := rest)\<rparr>)"
| "exec_action w (Set_holder l) rest s =
     Inr (s\<lparr>lockHolder := (lockHolder s)(l := Some (current s)), todo := (todo s)(current s := rest)\<rparr>)"
| "exec_action w (Clear_holder l) rest s = ASSERT (IsHeldByCurrentThread l s)
     (Inr (s\<lparr>lockHolder := (lockHolder s)(l := None), todo := (todo s)(current s := rest)\<rparr>))"
| "exec_action w (Wait_act c l) rest s = do_Wait w c l rest s"
| "exec_action w (Signal_act c l) rest s = do_Signal c l rest s"
| "exec_action w (Broadcast_act c l) rest s = do_Broadcast c l rest s"
| "exec_action w (Delete_sem v) rest s = do_Delete v rest s"
| "exec_action w (List_append n x) rest s = do_List_append n x rest s"
| "exec_action w (List_remove n) rest s = do_List_remove n rest s"

text \<open>The calls that a thread may make when it is not inside of one.\<close>

inductive_set calls :: "action list set" where
  "Semaphore_P (Sem n) \<in> calls"
| "[V_act (Sem n)] \<in> calls"
| "Lock_Acquire l \<in> calls"
| "Lock_Release l \<in> calls"
| "Condition_Wait c l \<in> calls"
| "Condition_Signal c l \<in> calls"
| "Condition_Broadcast c l \<in> calls"
| "SynchList_Append n x \<in> calls"
| "SynchList_RemoveFront n \<in> calls"

definition dispatch :: "synch \<Rightarrow> synch res" where
  "dispatch s =
     bindR (FindNextToRun (kern s)) (\<lambda>(k, n).
     case (n, asleep s) of (Some n, Some finishing) \<Rightarrow>
       bindR (Run n finishing InSleep k) (\<lambda>k. Inr (s\<lparr>kern := k, asleep := None\<rparr>))
     | _ \<Rightarrow> Inl Undefined)"

inductive sstep :: "synch \<Rightarrow> synch \<Rightarrow> bool" where
  act: "asleep s = None \<Longrightarrow> todo s (current s) = a # rest \<Longrightarrow> sems s (Sem w) = None \<Longrightarrow>
    exec_action w a rest s = Inr s' \<Longrightarrow> sstep s s'"
| call: "asleep s = None \<Longrightarrow> todo s (current s) = [] \<Longrightarrow> c \<in> calls \<Longrightarrow> sstep s (s\<lparr>todo := (todo s)(current s := c)\<rparr>)"
| preempt: "asleep s = None \<Longrightarrow> kernelLevel (kern s) = IntOn \<Longrightarrow> Yield (current s) (kern s) = Inr k \<Longrightarrow> sstep s (s\<lparr>kern := k\<rparr>)"
| next_thread: "asleep s \<noteq> None \<Longrightarrow> dispatch s = Inr s' \<Longrightarrow> sstep s s'"
| handler: "asleep s \<noteq> None \<or> kernelLevel (kern s) = IntOn \<Longrightarrow>
    Semaphore_V (Sem n) s = Inr s' \<Longrightarrow> sstep s s'"
| create: "asleep s = None \<Longrightarrow> threads (kern s) t = None \<Longrightarrow> todo s t = [] \<Longrightarrow>
    sstep s (s\<lparr>kern := Thread_new t regs n (kern s)\<rparr>)"
| fork: "asleep s = None \<Longrightarrow> status_of (kern s) t = Some JUST_CREATED \<Longrightarrow> Fork t (kern s) = Inr k \<Longrightarrow> sstep s (s\<lparr>kern := k\<rparr>)"
| finish: "asleep s = None \<Longrightarrow> todo s (current s) = [] \<Longrightarrow>
    Sleep_begin (current s) ((kern s)\<lparr>kernelLevel := IntOff\<rparr>) = Inr k \<Longrightarrow> sstep s (s\<lparr>kern := k, asleep := Some True\<rparr>)"
| new_sem: "asleep s = None \<Longrightarrow> sems s (Sem n) = None \<Longrightarrow> 0 \<le> v \<Longrightarrow> sstep s (s\<lparr>sems := (sems s)(Sem n \<mapsto> Semaphore_new v)\<rparr>)"
| new_lock: "asleep s = None \<Longrightarrow> sems s (LockSem l) = None \<Longrightarrow> sstep s (Lock_new l s)"

inductive sreach :: "synch \<Rightarrow> bool" where
  init: "sreach \<lparr>kern = Kernel_Initialize regs m, sems = Map.empty, lockHolder = (\<lambda>_. None), waitQueue = (\<lambda>_. []),
     listItems = (\<lambda>_. []), removed = (\<lambda>_. []), todo = (\<lambda>_. []), asleep = None\<rparr>"
| step: "sreach s \<Longrightarrow> sstep s s' \<Longrightarrow> sreach s'"

section \<open>Queues of semaphores\<close>

text \<open>\<open>t\<close> is inside of \<open>P\<close>, with interrupts disabled or asleep.\<close>

definition waiting :: "(tid \<Rightarrow> action list) \<Rightarrow> tid \<Rightarrow> sid \<Rightarrow> bool" where
  "waiting td t i \<longleftrightarrow> (\<exists>l rest. td t = P_loop i l # rest)"

definition awake :: "(tid \<Rightarrow> action list) \<Rightarrow> sid \<Rightarrow> semaphore \<Rightarrow> tid set" where
  "awake td i x = {t. waiting td t i \<and> t \<notin> set (semQueue x)}"

definition sem_ok :: "(tid \<Rightarrow> thread_status option) \<Rightarrow> (tid \<Rightarrow> action list) \<Rightarrow> sid \<Rightarrow> semaphore \<Rightarrow> bool" where
  "sem_ok st td i x \<longleftrightarrow> 0 \<le> semValue x \<and> distinct (semQueue x)
     \<and> (\<forall>t \<in> set (semQueue x). st t = Some BLOCKED \<and> waiting td t i)
     \<and> (semQueue x \<noteq> [] \<longrightarrow> semValue x \<le> int (card (awake td i x)))"

text \<open>
  The invariant of all semaphores, with \<open>fin\<close> the thread that is finishing: a sleeping thread
  is in the queue of the semaphore it waits for, and while a queue is not empty there are
  enough awake threads inside of \<open>P\<close> for the value.
\<close>

definition qinv :: "(tid \<Rightarrow> thread_status option) \<Rightarrow> tid option \<Rightarrow> (sid \<rightharpoonup> semaphore) \<Rightarrow> (tid \<Rightarrow> action list) \<Rightarrow> bool" where
  "qinv st fin sm td \<longleftrightarrow> (\<forall>i x. sm i = Some x \<longrightarrow> sem_ok st td i x)
     \<and> (\<forall>t. st t = Some BLOCKED \<longrightarrow> (\<exists>i x. sm i = Some x \<and> t \<in> set (semQueue x)) \<or> fin = Some t)
     \<and> (\<forall>t. fin = Some t \<longrightarrow> td t = [])
     \<and> (\<forall>t. td t \<noteq> [] \<longrightarrow> st t \<in> {Some RUNNING, Some READY, Some BLOCKED}) \<and> finite {t. td t \<noteq> []}"

lemma finite_awake: "finite {t. td t \<noteq> []} \<Longrightarrow> finite (awake td i x)"
  by (rule rev_finite_subset) (auto simp: awake_def waiting_def)

lemma qinvD:
  assumes "qinv st fin sm td"
  shows "sm i = Some x \<Longrightarrow> sem_ok st td i x"
    and "st t = Some BLOCKED \<Longrightarrow> (\<exists>i x. sm i = Some x \<and> t \<in> set (semQueue x)) \<or> fin = Some t"
    and "fin = Some t \<Longrightarrow> td t = []"
    and "td t \<noteq> [] \<Longrightarrow> st t \<in> {Some RUNNING, Some READY, Some BLOCKED}" and "finite {t. td t \<noteq> []}"
  using assms unfolding qinv_def by blast+

lemma not_queued: "qinv st fin sm td \<Longrightarrow> sm i = Some x \<Longrightarrow> st c \<noteq> Some BLOCKED \<Longrightarrow> c \<notin> set (semQueue x)"
  using qinvD(1) unfolding sem_ok_def by blast

lemma queued_upd:
  assumes "(\<exists>j z. sm j = Some z \<and> t \<in> set (semQueue z)) \<or> F" "sm i = Some x" "t \<in> set (semQueue x) \<Longrightarrow> t \<in> set (semQueue y)"
  shows "(\<exists>j z. (sm(i \<mapsto> y)) j = Some z \<and> t \<in> set (semQueue z)) \<or> F"
  using assms(1)
proof (elim disjE exE conjE)
  fix j z assume "sm j = Some z" "t \<in> set (semQueue z)"
  then show ?thesis using assms(2,3) by (cases "j = i") (auto intro: exI [of _ j])
qed simp

text \<open>The running thread goes on to other actions, not out of the loop of \<open>P\<close>.\<close>

lemma qinv_todo:
  assumes q: "qinv st fin sm td" and c: "st c = Some RUNNING" "fin \<noteq> Some c" and w: "\<forall>i. \<not> waiting td c i"
  shows "qinv st fin sm (td(c := r))"
proof -
  have "sem_ok st (td(c := r)) i x" if "sm i = Some x" for i x
  proof -
    note ok = qinvD(1) [OF q that, unfolded sem_ok_def]
    have fin: "finite {t. (td(c := r)) t \<noteq> []}"
      by (rule finite_subset [of _ "insert c {t. td t \<noteq> []}"]) (use qinvD(5) [OF q] in auto)
    have "awake td i x \<subseteq> awake (td(c := r)) i x" using w by (auto simp: awake_def waiting_def)
    then have "card (awake td i x) \<le> card (awake (td(c := r)) i x)" by (rule card_mono [OF finite_awake [OF fin]])
    moreover have "c \<notin> set (semQueue x)" by (rule not_queued [OF q that]) (simp add: c)
    then have "\<forall>t \<in> set (semQueue x). waiting (td(c := r)) t i" using ok by (auto simp: waiting_def)
    ultimately show ?thesis using ok unfolding sem_ok_def by auto
  qed
  moreover have "finite {t. (td(c := r)) t \<noteq> []}"
    by (rule finite_subset [of _ "insert c {t. td t \<noteq> []}"]) (use qinvD(5) [OF q] in auto)
  ultimately show ?thesis unfolding qinv_def using q c by (simp add: qinv_def)
qed

text \<open>A semaphore with an empty queue is created or deleted.\<close>

lemma qinv_sem:
  assumes q: "qinv st fin sm td" and e: "\<forall>x. sm i = Some x \<longrightarrow> semQueue x = []"
    and y: "\<forall>x. y = Some x \<longrightarrow> 0 \<le> semValue x \<and> semQueue x = []"
  shows "qinv st fin (sm(i := y)) td"
proof -
  have "sem_ok st td j x" if "(sm(i := y)) j = Some x" for j x
    using that y qinvD(1) [OF q, of j x] by (auto simp: sem_ok_def split: if_splits)
  moreover have "(\<exists>j x. (sm(i := y)) j = Some x \<and> t \<in> set (semQueue x)) \<or> fin = Some t" if b: "st t = Some BLOCKED" for t
    using qinvD(2) [OF q b] e by (metis empty_iff empty_set fun_upd_other)
  ultimately show ?thesis unfolding qinv_def using q by (simp add: qinv_def)
qed

text \<open>The status of threads changes without any of them going to sleep or waking up.\<close>

lemma qinv_status:
  assumes q: "qinv st fin sm td" and b: "\<forall>t. st' t = Some BLOCKED \<longleftrightarrow> st t = Some BLOCKED \<and> fin \<noteq> Some t \<or> fin' = Some t"
    and r: "\<forall>t. td t \<noteq> [] \<longrightarrow> st' t \<in> {Some RUNNING, Some READY, Some BLOCKED}"
    and f: "\<forall>t. fin = Some t \<longrightarrow> fin' = None" "\<forall>t. fin' = Some t \<longrightarrow> td t = [] \<and> st t \<noteq> Some BLOCKED"
  shows "qinv st' fin' sm td"
proof -
  have keep: "st' t = Some BLOCKED" if "sm i = Some x" "t \<in> set (semQueue x)" for i x t
  proof -
    have s: "st t = Some BLOCKED" "waiting td t i" using qinvD(1) [OF q that(1)] that(2) by (auto simp: sem_ok_def)
    then have "fin \<noteq> Some t" using qinvD(3) [OF q, of t] by (auto simp: waiting_def)
    then show ?thesis using b s(1) by blast
  qed
  have "sem_ok st' td i x" if "sm i = Some x" for i x
    using qinvD(1) [OF q that] keep [OF that] by (simp add: sem_ok_def)
  moreover have "(\<exists>i x. sm i = Some x \<and> t \<in> set (semQueue x)) \<or> fin' = Some t" if "st' t = Some BLOCKED" for t
    using that b qinvD(2) [OF q, of t] by blast
  ultimately show ?thesis unfolding qinv_def using q r f by (simp add: qinv_def)
qed

text \<open>The running thread goes to sleep in \<open>P\<close>.\<close>

lemma qinv_sleep:
  assumes q: "qinv st fin sm td" and c: "st c = Some RUNNING" and x: "sm i = Some x" "semValue x = 0" and w: "waiting td c i"
    and st': "\<forall>t. st' t = (if t = c then Some BLOCKED else st t)"
  shows "qinv st' fin (sm(i \<mapsto> x\<lparr>semQueue := semQueue x @ [c]\<rparr>)) td"
proof -
  let ?sm = "sm(i \<mapsto> x\<lparr>semQueue := semQueue x @ [c]\<rparr>)"
  have "sem_ok st' td j y" if "?sm j = Some y" for j y
  proof (cases "j = i")
    case True
    have "c \<notin> set (semQueue x)" by (rule not_queued [OF q x(1)]) (simp add: c)
    then show ?thesis using True that qinvD(1) [OF q x(1)] x(2) w st' by (auto simp: sem_ok_def)
  next
    case False
    then show ?thesis using that qinvD(1) [OF q, of j y] st' by (auto simp: sem_ok_def)
  qed
  moreover have "(\<exists>j y. ?sm j = Some y \<and> t \<in> set (semQueue y)) \<or> fin = Some t" if "st' t = Some BLOCKED" for t
  proof (cases "t = c")
    case True
    then show ?thesis by (intro disjI1 exI [of _ i] exI [of _ "x\<lparr>semQueue := semQueue x @ [c]\<rparr>"]) simp
  next
    case False
    then have "(\<exists>j y. sm j = Some y \<and> t \<in> set (semQueue y)) \<or> fin = Some t" using that st' qinvD(2) [OF q] by simp
    then show ?thesis by (rule queued_upd [where sm = sm and i = i and x = x, OF _ x(1)]) simp
  qed
  ultimately show ?thesis unfolding qinv_def using q st' by (simp add: qinv_def)
qed

text \<open>The running thread takes one from the value and leaves \<open>P\<close>.\<close>

lemma qinv_take:
  assumes q: "qinv st fin sm td" and c: "st c = Some RUNNING" "fin \<noteq> Some c" and x: "sm i = Some x" "semValue x \<noteq> 0" and w: "waiting td c i"
  shows "qinv st fin (sm(i \<mapsto> x\<lparr>semValue := semValue x - 1\<rparr>)) (td(c := r))"
proof -
  let ?sm = "sm(i \<mapsto> x\<lparr>semValue := semValue x - 1\<rparr>)" and ?td = "td(c := r)"
  have fin: "finite {t. ?td t \<noteq> []}"
    by (rule finite_subset [of _ "insert c {t. td t \<noteq> []}"]) (use qinvD(5) [OF q] in auto)
  have "sem_ok st ?td j y" if j: "?sm j = Some y" for j y
  proof -
    obtain z where z: "sm j = Some z" "semQueue z = semQueue y" "semValue y = semValue z - (if j = i then 1 else 0)"
      using j x(1) by (cases "j = i") auto
    note ok = qinvD(1) [OF q z(1), unfolded sem_ok_def]
    have nq: "c \<notin> set (semQueue y)" using not_queued [OF q z(1), of c] c(1) z(2) by simp
    have "awake td j z - (if j = i then {c} else {}) \<subseteq> awake ?td j y" using w z(2) by (auto simp: awake_def waiting_def)
    then have "card (awake td j z - (if j = i then {c} else {})) \<le> card (awake ?td j y)" by (rule card_mono [OF finite_awake [OF fin]])
    moreover have "card (awake td j z - (if j = i then {c} else {})) \<ge> card (awake td j z) - (if j = i then 1 else 0)"
      by (cases "j = i") (simp_all add: card_Diff_singleton_if)
    ultimately have "int (card (awake td j z)) - (if j = i then 1 else 0) \<le> int (card (awake ?td j y))"
      by (auto split: if_splits)
    moreover have "\<forall>t \<in> set (semQueue y). waiting ?td t j" using ok z(2) nq by (auto simp: waiting_def)
    moreover have "0 \<le> semValue y" using ok z(1,3) x by (auto split: if_splits)
    ultimately show ?thesis using ok z unfolding sem_ok_def by (auto split: if_splits)
  qed
  moreover have "(\<exists>j y. ?sm j = Some y \<and> t \<in> set (semQueue y)) \<or> fin = Some t" if b: "st t = Some BLOCKED" for t
    by (rule queued_upd [where sm = sm and i = i and x = x, OF qinvD(2) [OF q b] x(1)]) simp
  ultimately show ?thesis unfolding qinv_def using q c fin by (simp add: qinv_def)
qed

text \<open>The first thread of a queue is made ready, the value goes up.\<close>

lemma qinv_wake:
  assumes q: "qinv st fin sm td" and x: "sm i = Some x" "semQueue x = t # ts" and st': "\<forall>u. st' u = (if u = t then Some READY else st u)"
  shows "qinv st' fin (sm(i \<mapsto> \<lparr>semValue = semValue x + 1, semQueue = ts\<rparr>)) td"
proof -
  let ?y = "\<lparr>semValue = semValue x + 1, semQueue = ts\<rparr>"
  note ok = qinvD(1) [OF q x(1), unfolded sem_ok_def]
  have t: "waiting td t i" "t \<notin> set ts" using ok x(2) by auto
  have "awake td i ?y = insert t (awake td i x)" using t x(2) by (auto simp: awake_def)
  moreover have "t \<notin> awake td i x" using x(2) by (simp add: awake_def)
  ultimately have "card (awake td i ?y) = card (awake td i x) + 1"
    using finite_awake [OF qinvD(5) [OF q]] by simp
  then have i: "sem_ok st' td i ?y" using ok x(2) t(2) st' by (auto simp: sem_ok_def)
  have "sem_ok st' td j y" if "(sm(i \<mapsto> ?y)) j = Some y" for j y
  proof (cases "j = i")
    case False
    have sj: "sem_ok st td j y" using False that qinvD(1) [OF q, of j y] by simp
    then have "t \<notin> set (semQueue y)" using t(1) False by (auto simp: sem_ok_def waiting_def)
    then show ?thesis using sj st' by (auto simp: sem_ok_def)
  qed (use that i in simp)
  moreover have "(\<exists>j y. (sm(i \<mapsto> ?y)) j = Some y \<and> u \<in> set (semQueue y)) \<or> fin = Some u" if b: "st' u = Some BLOCKED" for u
  proof -
    have "u \<noteq> t" "st u = Some BLOCKED" using b st' by (auto split: if_splits)
    then show ?thesis using x(2) by (intro queued_upd [where sm = sm and i = i and x = x, OF qinvD(2) [OF q] x(1)]) auto
  qed
  ultimately show ?thesis unfolding qinv_def using q st' by (simp add: qinv_def)
qed

section \<open>Locks as state machines\<close>

text \<open>What a lock is meant to be: free, or on its way to a thread, held by it, on its way back.\<close>

datatype lphase = Free | Entering tid | Held tid | Leaving tid

inductive lock_spec :: "lphase \<Rightarrow> lphase \<Rightarrow> bool" where
  "lock_spec Free (Entering t)"
| "lock_spec (Entering t) (Held t)"
| "lock_spec (Held t) (Leaving t)"
| "lock_spec (Leaving t) Free"

definition entering :: "action list \<Rightarrow> nat \<Rightarrow> bool" where
  "entering r l \<longleftrightarrow> r \<noteq> [] \<and> hd r = Set_holder l"

definition leaving :: "action list \<Rightarrow> nat \<Rightarrow> bool" where
  "leaving r l \<longleftrightarrow> r \<noteq> [] \<and> hd r = V_act (LockSem l)"

definition lock_value :: "(sid \<rightharpoonup> semaphore) \<Rightarrow> nat \<Rightarrow> int option" where
  "lock_value sm l = map_option semValue (sm (LockSem l))"

definition phase_ok :: "(sid \<rightharpoonup> semaphore) \<Rightarrow> (nat \<Rightarrow> tid option) \<Rightarrow> (tid \<Rightarrow> action list) \<Rightarrow> nat \<Rightarrow> lphase \<Rightarrow> bool" where
  "phase_ok sm h td l p \<longleftrightarrow> (\<forall>t. entering (td t) l \<longleftrightarrow> p = Entering t) \<and> (\<forall>t. leaving (td t) l \<longleftrightarrow> p = Leaving t)
     \<and> (\<forall>t. h l = Some t \<longleftrightarrow> p = Held t) \<and> lock_value sm l \<in> (if p = Free then {None, Some 1} else {Some 0})"

text \<open>The shape of what threads have to do: taking the semaphore of a lock and setting the holder belong together.\<close>

fun follows :: "action \<Rightarrow> action option" where
  "follows (P_enter (LockSem l)) = Some (Set_holder l)"
| "follows (P_loop (LockSem l) _) = Some (Set_holder l)"
| "follows (Clear_holder l) = Some (V_act (LockSem l))"
| "follows _ = None"

definition outer :: "action list \<Rightarrow> bool" where
  "outer r \<longleftrightarrow> (\<forall>l. \<not> entering r l \<and> \<not> leaving r l)"

fun todo_ok :: "action list \<Rightarrow> bool" where
  "todo_ok [] = True"
| "todo_ok (a # r) = ((case follows a of None \<Rightarrow> outer r | Some b \<Rightarrow> r \<noteq> [] \<and> hd r = b) \<and> todo_ok r)"

text \<open>The lists are used only by threads that hold their locks, \<open>H\<close>.\<close>

fun held_ok :: "nat set \<Rightarrow> action list \<Rightarrow> bool" where
  "held_ok H [] = True"
| "held_ok H (Set_holder l # r) = held_ok (insert l H) r"
| "held_ok H (Clear_holder l # r) = held_ok (H - {l}) r"
| "held_ok H (List_append n x # r) = (n \<in> H \<and> held_ok H r)"
| "held_ok H (List_remove n # r) = (n \<in> H \<and> held_ok H r)"
| "held_ok H (a # r) = held_ok H r"

definition tinv :: "(nat \<Rightarrow> tid option) \<Rightarrow> (tid \<Rightarrow> action list) \<Rightarrow> bool" where
  "tinv h td \<longleftrightarrow> (\<forall>t. todo_ok (td t) \<and> held_ok {l. h l = Some t} (td t))"

definition linv :: "(sid \<rightharpoonup> semaphore) \<Rightarrow> (nat \<Rightarrow> tid option) \<Rightarrow> (tid \<Rightarrow> action list) \<Rightarrow> bool" where
  "linv sm h td \<longleftrightarrow> (\<forall>l. \<exists>p. phase_ok sm h td l p) \<and> tinv h td"

text \<open>A step that keeps the invariant and is a step of the abstract lock, or does not touch it.\<close>

definition lstep :: "(sid \<rightharpoonup> semaphore) \<Rightarrow> (nat \<Rightarrow> tid option) \<Rightarrow> (tid \<Rightarrow> action list) \<Rightarrow> (sid \<rightharpoonup> semaphore) \<Rightarrow> (nat \<Rightarrow> tid option) \<Rightarrow> (tid \<Rightarrow> action list) \<Rightarrow> bool" where
  "lstep sm h td sm' h' td' \<longleftrightarrow> tinv h' td'
     \<and> (\<forall>l p. phase_ok sm h td l p \<longrightarrow> (\<exists>p'. phase_ok sm' h' td' l p' \<and> (p' = p \<or> lock_spec p p')))"

lemma lstep_linv: "linv sm h td \<Longrightarrow> lstep sm h td sm' h' td' \<Longrightarrow> linv sm' h' td'"
  unfolding linv_def lstep_def by blast

lemma entering_leaving_simps [simp]:
  "\<not> entering [] l" "entering (a # r) l \<longleftrightarrow> a = Set_holder l" "\<not> leaving [] l" "leaving (a # r) l \<longleftrightarrow> a = V_act (LockSem l)"
  by (simp_all add: entering_def leaving_def)

lemma outerD [simp]: "outer r \<Longrightarrow> \<not> entering r l" "outer r \<Longrightarrow> \<not> leaving r l"
  by (simp_all add: outer_def)

lemma phase_okD:
  assumes "phase_ok sm h td l p"
  shows "entering (td t) l \<Longrightarrow> p = Entering t" "leaving (td t) l \<Longrightarrow> p = Leaving t" "h l = Some t \<Longrightarrow> p = Held t"
    "lock_value sm l \<in> (if p = Free then {None, Some 1} else {Some 0})"
  using assms unfolding phase_ok_def by blast+

text \<open>A lock whose parts stay the same is in the same phase.\<close>

lemma phase_frame:
  assumes "phase_ok sm h td l p" "entering r l = entering (td c) l" "leaving r l = leaving (td c) l" "h' l = h l" "lock_value sm' l = lock_value sm l"
  shows "phase_ok sm' h' (td(c := r)) l p"
  using assms by (auto simp: phase_ok_def)

lemma outer_Nil [simp]: "outer []"
  by (simp add: outer_def entering_def leaving_def)

lemma outer_Cons [simp]: "outer (a # r) \<longleftrightarrow> (\<forall>l. a \<noteq> Set_holder l \<and> a \<noteq> V_act (LockSem l))"
  by (simp add: outer_def entering_def leaving_def)

lemma todo_ok_append: "todo_ok xs \<Longrightarrow> todo_ok ys \<Longrightarrow> outer ys \<Longrightarrow> todo_ok (xs @ ys)"
proof (induction xs)
  case (Cons a xs)
  then show ?case by (cases xs) (auto split: option.splits)
qed simp

lemma calls_ok: "c \<in> calls \<Longrightarrow> todo_ok c \<and> outer c \<and> held_ok H c"
  by (induction rule: calls.induct)
    (simp_all add: Semaphore_P_def Lock_Acquire_def Lock_Release_def Condition_Wait_def Condition_Signal_def Condition_Broadcast_def
      SynchList_Append_def SynchList_RemoveFront_def)

lemma tinv_upd: "tinv h td \<Longrightarrow> todo_ok r \<Longrightarrow> held_ok {l. h l = Some c} r \<Longrightarrow> tinv h (td(c := r))"
  by (simp add: tinv_def)

text \<open>Actions that neither take nor give back a lock.\<close>

lemma lstep_neutral:
  assumes "linv sm h td" "outer (td c)" "outer r" "todo_ok r" "held_ok {l. h l = Some c} r" "\<forall>l. lock_value sm' l = lock_value sm l"
  shows "lstep sm h td sm' h (td(c := r))"
proof -
  have "phase_ok sm' h (td(c := r)) l p" if "phase_ok sm h td l p" for l p
    using assms(2,3,6) by (intro phase_frame [OF that]) simp_all
  moreover have "tinv h (td(c := r))" using assms(1,4,5) by (simp add: linv_def tinv_upd)
  ultimately show ?thesis unfolding lstep_def by blast
qed

lemma lstep_other: "linv sm h td \<Longrightarrow> \<forall>l. lock_value sm' l = lock_value sm l \<Longrightarrow> lstep sm h td sm' h td"
  by (auto simp: lstep_def linv_def phase_ok_def)

lemma lstep_new_lock:
  assumes "linv sm h td" "lock_value sm l = None" "lock_value sm' l = Some 1" "\<forall>l'. l' \<noteq> l \<longrightarrow> lock_value sm' l' = lock_value sm l'"
  shows "lstep sm h td sm' (h(l := None)) td"
proof -
  obtain p where p: "phase_ok sm h td l p" using assms(1) by (auto simp: linv_def)
  then have "h l = None" using assms(2) by (cases "h l") (auto simp: phase_ok_def split: if_splits)
  then have h: "h(l := None) = h" by auto
  have "phase_ok sm' h td l' p" if "phase_ok sm h td l' p" for l' p
    using that assms(2-4) by (cases "l' = l") (auto simp: phase_ok_def split: if_splits)
  then show ?thesis using assms(1) unfolding h by (auto simp: lstep_def linv_def)
qed

lemma lstep_take:
  assumes "linv sm h td" "outer (td c)" "r \<noteq> []" "hd r = Set_holder l" "todo_ok r" "held_ok {l. h l = Some c} r"
    "lock_value sm l = Some v" "v \<noteq> 0" "lock_value sm' l = Some (v - 1)" "\<forall>l'. l' \<noteq> l \<longrightarrow> lock_value sm' l' = lock_value sm l'"
  shows "lstep sm h td sm' h (td(c := r))"
proof -
  have "\<exists>p'. phase_ok sm' h (td(c := r)) l' p' \<and> (p' = p \<or> lock_spec p p')" if p: "phase_ok sm h td l' p" for l' p
  proof (cases "l' = l")
    case True
    then have "p = Free" "v = 1" using p assms(7,8) by (auto simp: phase_ok_def split: if_splits)
    then have "phase_ok sm' h (td(c := r)) l' (Entering c)"
      using True p assms(2-4,9) by (auto simp: phase_ok_def entering_def leaving_def)
    then show ?thesis using \<open>p = Free\<close> lock_spec.intros(1) by blast
  next
    case False
    then have "phase_ok sm' h (td(c := r)) l' p"
      using assms(2-4,10) by (intro phase_frame [OF p]) (cases r; simp)+
    then show ?thesis by blast
  qed
  moreover have "tinv h (td(c := r))" using assms(1,5,6) by (simp add: linv_def tinv_upd)
  ultimately show ?thesis unfolding lstep_def by blast
qed

lemma lstep_set_holder:
  assumes "linv sm h td" "td c = Set_holder l # r"
  shows "lstep sm h td sm (h(l := Some c)) (td(c := r))"
proof -
  have t: "todo_ok r" "outer r" "held_ok (insert l {l. h l = Some c}) r" using assms by (auto simp: linv_def tinv_def split: option.splits dest!: spec [of _ c])
  have hl: "h l = None"
  proof -
    obtain p where "phase_ok sm h td l p" using assms(1) by (auto simp: linv_def)
    then show ?thesis using phase_okD(1) [of sm h td l p c] phase_okD(3) [of sm h td l p] assms(2) by (cases "h l") auto
  qed
  have "insert l {l. h l = Some c} = {l'. (h(l := Some c)) l' = Some c}" by auto
  moreover have "{l'. (h(l := Some c)) l' = Some t} = {l'. h l' = Some t}" if "t \<noteq> c" for t using hl that by auto
  ultimately have "tinv (h(l := Some c)) (td(c := r))"
    using assms(1) t(1,3) unfolding tinv_def linv_def by (auto simp: tinv_def)
  moreover have "\<exists>p'. phase_ok sm (h(l := Some c)) (td(c := r)) l' p' \<and> (p' = p \<or> lock_spec p p')" if p: "phase_ok sm h td l' p" for l' p
  proof (cases "l' = l")
    case True
    have e: "p = Entering c" using phase_okD(1) [OF p, of c] assms(2) True by simp
    moreover have "phase_ok sm (h(l := Some c)) (td(c := r)) l' (Held c)"
      using p [unfolded e True] t(2) unfolding True by (simp add: phase_ok_def)
    ultimately show ?thesis using lock_spec.intros(2) by blast
  next
    case False
    then have "phase_ok sm (h(l := Some c)) (td(c := r)) l' p"
      using assms(2) t(2) by (intro phase_frame [OF p]) simp_all
    then show ?thesis by blast
  qed
  ultimately show ?thesis by (auto simp: lstep_def)
qed

lemma lstep_clear_holder:
  assumes "linv sm h td" "td c = Clear_holder l # r" "h l = Some c"
  shows "lstep sm h td sm (h(l := None)) (td(c := r))"
proof -
  have t: "todo_ok r" "r \<noteq> []" "hd r = V_act (LockSem l)" "held_ok ({l. h l = Some c} - {l}) r"
    using assms by (auto simp: linv_def tinv_def dest!: spec [of _ c])
  have "{l. h l = Some c} - {l} = {l'. (h(l := None)) l' = Some c}" by auto
  moreover have "{l'. (h(l := None)) l' = Some t} = {l'. h l' = Some t}" if "t \<noteq> c" for t using assms(3) that by auto
  ultimately have "tinv (h(l := None)) (td(c := r))"
    using assms(1) t(1,4) unfolding tinv_def linv_def by (auto simp: tinv_def)
  moreover have "\<exists>p'. phase_ok sm (h(l := None)) (td(c := r)) l' p' \<and> (p' = p \<or> lock_spec p p')" if p: "phase_ok sm h td l' p" for l' p
  proof (cases "l' = l")
    case True
    then have "p = Held c" using phase_okD(3) [OF p, of c] assms(3) by simp
    moreover then have "phase_ok sm (h(l := None)) (td(c := r)) l' (Leaving c)"
      using True p t(2,3) by (auto simp: phase_ok_def entering_def leaving_def)
    ultimately show ?thesis using lock_spec.intros(3) by blast
  next
    case False
    then have "phase_ok sm (h(l := None)) (td(c := r)) l' p"
      using assms(2) t(2,3) by (intro phase_frame [OF p]) (cases r; simp)+
    then show ?thesis by blast
  qed
  ultimately show ?thesis by (auto simp: lstep_def)
qed

lemma lstep_give_back:
  assumes "linv sm h td" "td c = V_act (LockSem l) # r"
    "lock_value sm l = Some v" "lock_value sm' l = Some (v + 1)" "\<forall>l'. l' \<noteq> l \<longrightarrow> lock_value sm' l' = lock_value sm l'"
  shows "lstep sm h td sm' h (td(c := r))"
proof -
  have t: "todo_ok r" "outer r" "held_ok {l. h l = Some c} r" using assms by (auto simp: linv_def tinv_def split: option.splits dest!: spec [of _ c])
  have "\<exists>p'. phase_ok sm' h (td(c := r)) l' p' \<and> (p' = p \<or> lock_spec p p')" if p: "phase_ok sm h td l' p" for l' p
  proof (cases "l' = l")
    case True
    have e: "p = Leaving c" using phase_okD(2) [OF p, of c] assms(2) True by simp
    moreover have "phase_ok sm' h (td(c := r)) l' Free"
      using p [unfolded e True] t(2) assms(3,4) unfolding True by (simp add: phase_ok_def)
    ultimately show ?thesis using lock_spec.intros(4) by blast
  next
    case False
    then have "phase_ok sm' h (td(c := r)) l' p"
      using assms(2,5) t(2) by (intro phase_frame [OF p]) simp_all
    then show ?thesis by blast
  qed
  moreover have "tinv h (td(c := r))" using assms(1) t by (simp add: linv_def tinv_upd)
  ultimately show ?thesis unfolding lstep_def by blast
qed

section \<open>The invariant of the system\<close>

definition kpart :: "kernel \<Rightarrow> bool option \<Rightarrow> bool" where
  "kpart k z \<longleftrightarrow> (case z of None \<Rightarrow> kinv k
     | Some f \<Rightarrow> kwf k \<and> kernelLevel k = IntOff \<and> status_of k (currentThread k) \<in> {Some BLOCKED, Some READY}
         \<and> (f \<longrightarrow> status_of k (currentThread k) = Some BLOCKED))"

definition fin :: "kernel \<Rightarrow> bool option \<Rightarrow> tid option" where
  "fin k z = (if z = Some True then Some (currentThread k) else None)"

definition kqinv :: "synch \<Rightarrow> bool" where
  "kqinv s \<longleftrightarrow> kpart (kern s) (asleep s) \<and> qinv (status_of (kern s)) (fin (kern s) (asleep s)) (sems s) (todo s)"

definition sinv :: "synch \<Rightarrow> bool" where
  "sinv s \<longleftrightarrow> kqinv s \<and> linv (sems s) (lockHolder s) (todo s)"

definition good :: "synch \<Rightarrow> synch \<Rightarrow> bool" where
  "good s s' \<longleftrightarrow> kqinv s' \<and> lstep (sems s) (lockHolder s) (todo s) (sems s') (lockHolder s') (todo s')"

lemma good_sinv: "sinv s \<Longrightarrow> good s s' \<Longrightarrow> sinv s'"
  unfolding sinv_def good_def using lstep_linv by blast

lemma fin_simps [simp]: "fin k None = None" "fin k (Some False) = None" "fin k (Some True) = Some (currentThread k)"
  by (simp_all add: fin_def)

lemma fin_level [simp]: "fin (k\<lparr>kernelLevel := l\<rparr>) z = fin k z"
  by (simp add: fin_def)

lemma kpart_awake [simp]: "kpart k None = kinv k"
  by (simp add: kpart_def)

lemma kinv_running: "kinv k \<Longrightarrow> status_of k (currentThread k) = Some RUNNING"
  by (simp add: kinv_def)

lemma kpart_kwf: "kpart k z \<Longrightarrow> kwf k"
  by (auto simp: kpart_def kinv_def split: option.splits)

text \<open>\<open>V\<close> never fails on a semaphore that exists.\<close>

lemma Semaphore_V_ok:
  assumes inv: "kqinv s" and x: "sems s i = Some x"
  obtains s' where "Semaphore_V i s = Inr s'" "kqinv s'" "todo s' = todo s" "lockHolder s' = lockHolder s" "asleep s' = asleep s"
    "currentThread (kern s') = current s" "sems s' = (sems s)(i \<mapsto> \<lparr>semValue = semValue x + 1, semQueue = tl (semQueue x)\<rparr>)"
    "kernelLevel (kern s') = kernelLevel (kern s)"
proof (cases "semQueue x")
  case Nil
  let ?s = "s\<lparr>sems := (sems s)(i \<mapsto> \<lparr>semValue = semValue x + 1, semQueue = []\<rparr>), kern := (kern s)\<lparr>kernelLevel := kernelLevel (kern s)\<rparr>\<rparr>"
  note q = inv [unfolded kqinv_def, THEN conjunct2]
  have "Semaphore_V i s = Inr ?s" using x Nil by (simp add: Semaphore_V_def sem_at_def)
  moreover have "qinv (status_of (kern s)) (fin (kern s) (asleep s)) ((sems s)(i \<mapsto> \<lparr>semValue = semValue x + 1, semQueue = []\<rparr>)) (todo s)"
    by (rule qinv_sem [OF q]) (use x Nil qinvD(1) [OF q x] in \<open>auto simp: sem_ok_def\<close>)
  then have "kqinv ?s" using inv by (simp add: kqinv_def)
  ultimately show ?thesis using that [of ?s] Nil by simp
next
  case (Cons t ts)
  note q = inv [unfolded kqinv_def, THEN conjunct2] and k = inv [unfolded kqinv_def, THEN conjunct1]
  let ?k = "(kern s)\<lparr>kernelLevel := IntOff\<rparr>"
  have b: "status_of (kern s) t = Some BLOCKED" "waiting (todo s) t i" using qinvD(1) [OF q x] Cons by (auto simp: sem_ok_def)
  have pre: "kwf ?k" "kernelLevel ?k = IntOff" "status_of ?k t = Some BLOCKED" using kpart_kwf [OF k] b(1) by simp_all
  obtain k' where k': "wake t ?k = Inr k'" "kwf k'" "currentThread k' = currentThread ?k" "kernelLevel k' = IntOff"
    "\<forall>u. status_of k' u = (if u = t then Some READY else status_of ?k u)"
    by (rule wake_ok [OF pre]) (rule that; assumption)
  let ?s = "s\<lparr>sems := (sems s)(i \<mapsto> \<lparr>semValue = semValue x + 1, semQueue = ts\<rparr>), kern := k'\<lparr>kernelLevel := kernelLevel (kern s)\<rparr>\<rparr>"
  have "ReadyToRun t ?k = Inr k'" using k'(1) pre(3) by (simp add: wake_def)
  then have "Semaphore_V i s = Inr ?s" using x Cons by (simp add: Semaphore_V_def sem_at_def seq_RemoveFront_def)
  moreover have "qinv (status_of k') (fin (kern s) (asleep s)) ((sems s)(i \<mapsto> \<lparr>semValue = semValue x + 1, semQueue = ts\<rparr>)) (todo s)"
    by (rule qinv_wake [OF q x Cons]) (use k'(5) in simp)
  moreover have "kpart (k'\<lparr>kernelLevel := kernelLevel (kern s)\<rparr>) (asleep s)"
  proof (cases "asleep s")
    case None
    then have "status_of (kern s) (current s) = Some RUNNING" using k kinv_running by simp
    moreover from this b(1) have "current s \<noteq> t" by auto
    ultimately show ?thesis using None k'(2,3,5) by (simp add: kinv_def)
  next
    case (Some f)
    have "\<not> f" if "t = current s" using qinvD(3) [OF q, of t] b(2) Some that by (auto simp: waiting_def)
    then show ?thesis using Some k k'(2,3,5) by (auto simp: kpart_def)
  qed
  moreover have "fin (k'\<lparr>kernelLevel := kernelLevel (kern s)\<rparr>) (asleep s) = fin (kern s) (asleep s)" using k'(3) by (auto simp: fin_def)
  ultimately show ?thesis using that [of ?s] Cons k'(3) by (simp add: kqinv_def)
qed

text \<open>The actions one by one.\<close>

lemma sinv_awake:
  assumes "sinv s" "asleep s = None"
  shows "kinv (kern s)" "qinv (status_of (kern s)) None (sems s) (todo s)" "linv (sems s) (lockHolder s) (todo s)"
  using assms by (simp_all add: sinv_def kqinv_def)

lemma good_todo:
  assumes inv: "sinv s" "asleep s = None" and a: "\<forall>i l r. todo s (current s) \<noteq> P_loop i l # r" "outer (todo s (current s))"
    and r: "outer (todo s' (current s))" "todo_ok (todo s' (current s))" "held_ok {l. lockHolder s l = Some (current s)} (todo s' (current s))"
    and s': "status_of (kern s') = status_of (kern s)" "kinv (kern s')" "asleep s' = None"
      "lockHolder s' = lockHolder s" "\<forall>t. t \<noteq> current s \<longrightarrow> todo s' t = todo s t"
    and q: "\<And>td. qinv (status_of (kern s)) None (sems s) td \<Longrightarrow> qinv (status_of (kern s)) None (sems s') td"
      "\<forall>l. lock_value (sems s') l = lock_value (sems s) l"
  shows "good s s'"
proof -
  have td: "todo s' = (todo s)(current s := todo s' (current s))" using s'(5) by auto
  note k = sinv_awake [OF inv]
  have "qinv (status_of (kern s)) None (sems s) ((todo s)(current s := todo s' (current s)))"
    by (rule qinv_todo [OF k(2)]) (use k(1) a(1) in \<open>simp_all add: kinv_running waiting_def\<close>)
  then have "qinv (status_of (kern s)) None (sems s) (todo s')" using td by metis
  then have "kqinv s'" using s' q(1) by (simp add: kqinv_def)
  moreover have "lstep (sems s) (lockHolder s) (todo s) (sems s') (lockHolder s) ((todo s)(current s := todo s' (current s)))"
    by (rule lstep_neutral) (use inv a r q(2) in \<open>simp_all add: sinv_def\<close>)
  then have "lstep (sems s) (lockHolder s) (todo s) (sems s') (lockHolder s) (todo s')" using td by metis
  ultimately show ?thesis using s'(4) by (simp add: good_def)
qed

text \<open>What the shape of the actions gives for the action that is executed.\<close>

lemma sinv_todo:
  assumes "sinv s" "todo s (current s) = a # rest"
  shows "todo_ok (a # rest)" "held_ok {l. lockHolder s l = Some (current s)} (a # rest)"
  using assms unfolding sinv_def linv_def tinv_def by metis+

lemma act_P_enter:
  assumes "sinv s" "asleep s = None" "todo s (current s) = P_enter i # rest" "do_P_enter i rest s = Inr s'"
  shows "good s s'"
proof -
  note t = sinv_todo [OF assms(1,3)]
  have "todo_ok (P_loop i l # rest)" for l using t(1) by (cases i) simp_all
  moreover have "held_ok {l. lockHolder s l = Some (current s)} (P_loop i l # rest)" for l using t(2) by simp
  moreover have "kinv (kern s)" using assms(1,2) by (simp add: sinv_def kqinv_def)
  ultimately show ?thesis
    using assms(2-4) by (intro good_todo [OF assms(1,2)]) (auto simp: do_P_enter_def)
qed

lemma act_P_sleep:
  assumes "sinv s" "asleep s = None" "todo s (current s) = P_loop i l # rest" "sems s i = Some x" "semValue x = 0"
    "do_P_loop i l rest s = Inr s'"
  shows "good s s'"
proof -
  note k = sinv_awake(1) [OF assms(1,2)] and q = sinv_awake(2) [OF assms(1,2)]
  have c: "current s \<notin> set (semQueue x)" by (rule not_queued [OF q assms(4)]) (simp add: kinv_running [OF k])
  have lev: "kernelLevel (kern s) = IntOff"
    using assms(4-6) c by (auto simp: do_P_loop_def sem_at_def seq_Append_def Sleep_begin_def ASSERT_def split: if_splits)
  obtain k' where k': "Sleep_begin (current s) (kern s) = Inr k'" "kwf k'" "currentThread k' = current s" "kernelLevel k' = IntOff"
    "\<forall>t. status_of k' t = (if t = current s then Some BLOCKED else status_of (kern s) t)"
    by (rule Sleep_begin_ok [OF k lev]) (rule that; assumption)
  have s': "s' = s\<lparr>sems := (sems s)(i \<mapsto> x\<lparr>semQueue := semQueue x @ [current s]\<rparr>), kern := k', asleep := Some False\<rparr>"
    using assms(4-6) c k'(1) by (simp add: do_P_loop_def sem_at_def seq_Append_def)
  have "qinv (status_of k') None ((sems s)(i \<mapsto> x\<lparr>semQueue := semQueue x @ [current s]\<rparr>)) (todo s)"
    by (rule qinv_sleep [OF q kinv_running [OF k] assms(4,5) _ k'(5)]) (use assms(3) in \<open>simp add: waiting_def\<close>)
  then have "kqinv s'" using k' by (simp add: kqinv_def s' kpart_def)
  moreover have "lstep (sems s) (lockHolder s) (todo s) ((sems s)(i \<mapsto> x\<lparr>semQueue := semQueue x @ [current s]\<rparr>)) (lockHolder s) (todo s)"
    by (rule lstep_other) (use assms(1,4) in \<open>auto simp: sinv_def lock_value_def\<close>)
  ultimately show ?thesis by (simp add: good_def s')
qed

lemma act_P_take:
  assumes "sinv s" "asleep s = None" "todo s (current s) = P_loop i l # rest" "sems s i = Some x" "semValue x \<noteq> 0"
    "do_P_loop i l rest s = Inr s'"
  shows "good s s'"
proof -
  note k = sinv_awake(1) [OF assms(1,2)] and q = sinv_awake(2) [OF assms(1,2)] and li = sinv_awake(3) [OF assms(1,2)]
  note t = sinv_todo [OF assms(1,3)]
  let ?sm = "(sems s)(i \<mapsto> x\<lparr>semValue := semValue x - 1\<rparr>)" and ?td = "(todo s)(current s := rest)"
  have s': "s' = s\<lparr>sems := ?sm, kern := (kern s)\<lparr>kernelLevel := l\<rparr>, todo := ?td\<rparr>"
    using assms(4-6) by (simp add: do_P_loop_def sem_at_def)
  have "qinv (status_of (kern s)) None ?sm ?td"
    by (rule qinv_take [OF q kinv_running [OF k] _ assms(4,5)]) (use assms(3) in \<open>simp_all add: waiting_def\<close>)
  then have "kqinv s'" using k assms(2) by (simp add: kqinv_def s')
  moreover have "lstep (sems s) (lockHolder s) (todo s) ?sm (lockHolder s) ?td"
  proof (cases i)
    case (LockSem m)
    show ?thesis by (rule lstep_take [OF li, where l = m and v = "semValue x"])
      (use LockSem assms(3-5) t in \<open>auto simp: lock_value_def\<close>)
  next
    case (Sem n)
    show ?thesis by (rule lstep_neutral [OF li]) (use Sem assms(3) t in \<open>auto simp: lock_value_def\<close>)
  qed
  ultimately show ?thesis by (simp add: good_def s')
qed

lemma act_V:
  assumes "sinv s" "asleep s = None" "todo s (current s) = V_act i # rest" "exec_action w (V_act i) rest s = Inr s'"
  shows "good s s'"
proof -
  note k = sinv_awake(1) [OF assms(1,2)] and q = sinv_awake(2) [OF assms(1,2)] and li = sinv_awake(3) [OF assms(1,2)]
  note t = sinv_todo [OF assms(1,3)]
  let ?td = "(todo s)(current s := rest)"
  let ?s = "s\<lparr>todo := ?td\<rparr>"
  have V: "Semaphore_V i ?s = Inr s'" using assms(4) by simp
  then obtain x where x: "sems ?s i = Some x" by (auto simp: Semaphore_V_def sem_at_def split: option.splits)
  have "qinv (status_of (kern s)) None (sems s) ?td"
    by (rule qinv_todo [OF q]) (use k assms(3) in \<open>simp_all add: kinv_running waiting_def\<close>)
  then have "kqinv ?s" using k assms(2) by (simp add: kqinv_def)
  then obtain s2 where s2: "Semaphore_V i ?s = Inr s2" "kqinv s2" "todo s2 = todo ?s" "lockHolder s2 = lockHolder ?s"
    "sems s2 = (sems ?s)(i \<mapsto> \<lparr>semValue = semValue x + 1, semQueue = tl (semQueue x)\<rparr>)"
    by (rule Semaphore_V_ok [OF _ x]) (rule that; assumption)
  let ?sm = "(sems s)(i \<mapsto> \<lparr>semValue = semValue x + 1, semQueue = tl (semQueue x)\<rparr>)"
  have "lstep (sems s) (lockHolder s) (todo s) ?sm (lockHolder s) ?td"
  proof (cases i)
    case (LockSem m)
    show ?thesis by (rule lstep_give_back [OF li, where l = m and v = "semValue x"])
      (use LockSem assms(3) x in \<open>auto simp: lock_value_def\<close>)
  next
    case (Sem n)
    show ?thesis by (rule lstep_neutral [OF li]) (use Sem assms(3) t in \<open>auto simp: lock_value_def\<close>)
  qed
  then show ?thesis using s2 V by (simp add: good_def)
qed

lemma act_Set_holder:
  assumes "sinv s" "asleep s = None" "todo s (current s) = Set_holder l # rest" "exec_action w (Set_holder l) rest s = Inr s'"
  shows "good s s'"
proof -
  note k = sinv_awake(1) [OF assms(1,2)] and q = sinv_awake(2) [OF assms(1,2)] and li = sinv_awake(3) [OF assms(1,2)]
  have "qinv (status_of (kern s)) None (sems s) ((todo s)(current s := rest))"
    by (rule qinv_todo [OF q]) (use k assms(3) in \<open>simp_all add: kinv_running waiting_def\<close>)
  then show ?thesis using lstep_set_holder [OF li assms(3)] k assms(2,4) by (auto simp: good_def kqinv_def)
qed

lemma act_Clear_holder:
  assumes "sinv s" "asleep s = None" "todo s (current s) = Clear_holder l # rest" "exec_action w (Clear_holder l) rest s = Inr s'"
  shows "good s s'"
proof -
  note k = sinv_awake(1) [OF assms(1,2)] and q = sinv_awake(2) [OF assms(1,2)] and li = sinv_awake(3) [OF assms(1,2)]
  have h: "lockHolder s l = Some (current s)" and s': "s' = s\<lparr>lockHolder := (lockHolder s)(l := None), todo := (todo s)(current s := rest)\<rparr>"
    using assms(4) by (simp_all add: ASSERT_eq_Inr IsHeldByCurrentThread_def)
  have "qinv (status_of (kern s)) None (sems s) ((todo s)(current s := rest))"
    by (rule qinv_todo [OF q]) (use k assms(3) in \<open>simp_all add: kinv_running waiting_def\<close>)
  then show ?thesis using lstep_clear_holder [OF li assms(3) h] k assms(2) by (simp add: good_def kqinv_def s')
qed

lemmas routine_defs = Semaphore_P_def Lock_Acquire_def Lock_Release_def Condition_Wait_def Condition_Signal_def Condition_Broadcast_def

lemma act_Wait:
  assumes "sinv s" "asleep s = None" "todo s (current s) = Wait_act c l # rest" "sems s (Sem w) = None" "do_Wait w c l rest s = Inr s'"
  shows "good s s'"
proof -
  note t = sinv_todo [OF assms(1,3)]
  note k = sinv_awake(1) [OF assms(1,2)]
  have h: "lockHolder s l = Some (current s)"
    and s': "s' = s\<lparr>sems := (sems s)(Sem w \<mapsto> Semaphore_new 0), waitQueue := (waitQueue s)(c := waitQueue s c @ [w]),
            todo := (todo s)(current s := Lock_Release l @ Semaphore_P (Sem w) @ Lock_Acquire l @ Delete_sem w # rest)\<rparr>"
    using assms(5) by (auto simp: do_Wait_def ASSERT_eq_Inr IsHeldByCurrentThread_def seq_Append_def ASSERT_def split: if_splits)
  have "insert l ({l. lockHolder s l = Some (current s)} - {l}) = {l. lockHolder s l = Some (current s)}" using h by auto
  moreover have "qinv st f ((sems s)(Sem w \<mapsto> Semaphore_new 0)) td" if "qinv st f (sems s) td" for st f td
    by (rule qinv_sem [OF that]) (use assms(4) in \<open>auto simp: Semaphore_new_def\<close>)
  ultimately show ?thesis
    using assms(2-4) t k by (intro good_todo [OF assms(1,2)]) (auto simp: s' routine_defs lock_value_def)
qed

lemma act_Signal:
  assumes "sinv s" "asleep s = None" "todo s (current s) = Signal_act c l # rest" "do_Signal c l rest s = Inr s'"
  shows "good s s'"
proof -
  note t = sinv_todo [OF assms(1,3)]
  note k = sinv_awake(1) [OF assms(1,2)]
  obtain wq r where s': "s' = s\<lparr>waitQueue := wq, todo := (todo s)(current s := r)\<rparr>" and r: "r = rest \<or> (\<exists>w. r = V_act (Sem w) # rest)"
  proof (cases "waitQueue s c")
    case Nil
    then show ?thesis using assms(4) by (intro that [of rest "waitQueue s"]) (auto simp: do_Signal_def ASSERT_eq_Inr)
  next
    case (Cons w q)
    then show ?thesis using assms(4) by (intro that [of "V_act (Sem w) # rest" "(waitQueue s)(c := q)"]) (auto simp: do_Signal_def ASSERT_eq_Inr seq_RemoveFront_def)
  qed
  show ?thesis using assms(2,3) t k r by (intro good_todo [OF assms(1,2)]) (auto simp: s')
qed

lemma act_Broadcast:
  assumes "sinv s" "asleep s = None" "todo s (current s) = Broadcast_act c l # rest" "do_Broadcast c l rest s = Inr s'"
  shows "good s s'"
proof -
  note t = sinv_todo [OF assms(1,3)]
  note k = sinv_awake(1) [OF assms(1,2)]
  show ?thesis using assms(2-4) t k by (intro good_todo [OF assms(1,2)]) (auto simp: do_Broadcast_def routine_defs)
qed

lemma act_Delete:
  assumes "sinv s" "asleep s = None" "todo s (current s) = Delete_sem v # rest" "do_Delete v rest s = Inr s'"
  shows "good s s'"
proof -
  note t = sinv_todo [OF assms(1,3)]
  note k = sinv_awake(1) [OF assms(1,2)]
  obtain x where x: "sems s (Sem v) = Some x" "semQueue x = []" and s': "s' = s\<lparr>sems := (sems s)(Sem v := None), todo := (todo s)(current s := rest)\<rparr>"
    using assms(4) by (auto simp: do_Delete_def sem_at_def split: option.splits if_splits)
  have "qinv st f ((sems s)(Sem v := None)) td" if "qinv st f (sems s) td" for st f td
    by (rule qinv_sem [OF that]) (use x in auto)
  then show ?thesis using assms(2,3) t k by (intro good_todo [OF assms(1,2)]) (auto simp: s' lock_value_def)
qed

lemma act_List_append:
  assumes "sinv s" "asleep s = None" "todo s (current s) = List_append n x # rest" "do_List_append n x rest s = Inr s'"
  shows "good s s'"
proof -
  note t = sinv_todo [OF assms(1,3)]
  note k = sinv_awake(1) [OF assms(1,2)]
  have s': "s' = s\<lparr>listItems := (listItems s)(n := listItems s n @ [x]), todo := (todo s)(current s := rest)\<rparr>"
    using assms(4) by (auto simp: do_List_append_def seq_Append_def ASSERT_def split: if_splits)
  show ?thesis using assms(2,3) t k by (intro good_todo [OF assms(1,2)]) (auto simp: s')
qed

lemma act_List_remove:
  assumes "sinv s" "asleep s = None" "todo s (current s) = List_remove n # rest" "do_List_remove n rest s = Inr s'"
  shows "good s s'"
proof -
  note t = sinv_todo [OF assms(1,3)]
  note k = sinv_awake(1) [OF assms(1,2)]
  obtain li rv r where s': "s' = s\<lparr>listItems := li, removed := rv, todo := (todo s)(current s := r)\<rparr>"
    and r: "r = rest \<or> r = Wait_act n n # List_remove n # rest"
  proof (cases "listItems s n")
    case Nil
    then show ?thesis using assms(4)
      by (intro that [of "Wait_act n n # List_remove n # rest" "removed s" "listItems s"]) (auto simp: do_List_remove_def routine_defs)
  next
    case (Cons x q)
    then show ?thesis using assms(4)
      by (intro that [of rest "(removed s)(n := removed s n @ [x])" "(listItems s)(n := q)"]) (auto simp: do_List_remove_def seq_RemoveFront_def)
  qed
  show ?thesis using assms(2,3) t k r by (intro good_todo [OF assms(1,2)]) (auto simp: s')
qed

lemma act_good:
  assumes "sinv s" "asleep s = None" "todo s (current s) = a # rest" "sems s (Sem w) = None" "exec_action w a rest s = Inr s'"
  shows "good s s'"
proof (cases a)
  case (P_loop i l)
  then obtain x where "sems s i = Some x" using assms(5) by (auto simp: do_P_loop_def sem_at_def split: option.splits)
  then show ?thesis using act_P_sleep [OF assms(1,2)] act_P_take [OF assms(1,2)] assms(3,5) P_loop by (cases "semValue x = 0") simp_all
qed (use assms in \<open>simp_all add: act_P_enter act_V act_Set_holder act_Clear_holder act_Wait act_Signal act_Broadcast act_Delete act_List_append act_List_remove del: fun_upd_apply\<close>)

text \<open>Steps that only change the status of threads.\<close>

lemma good_kernel:
  assumes "sinv s" "kpart k z"
    "\<forall>t. status_of k t = Some BLOCKED \<longleftrightarrow> status_of (kern s) t = Some BLOCKED \<and> fin (kern s) (asleep s) \<noteq> Some t \<or> fin k z = Some t"
    "\<forall>t. todo s t \<noteq> [] \<longrightarrow> status_of k t \<in> {Some RUNNING, Some READY, Some BLOCKED}"
    "\<forall>t. fin (kern s) (asleep s) = Some t \<longrightarrow> fin k z = None"
    "\<forall>t. fin k z = Some t \<longrightarrow> todo s t = [] \<and> status_of (kern s) t \<noteq> Some BLOCKED"
  shows "good s (s\<lparr>kern := k, asleep := z\<rparr>)"
proof -
  have "qinv (status_of (kern s)) (fin (kern s) (asleep s)) (sems s) (todo s)" using assms(1) by (simp add: sinv_def kqinv_def)
  then have "qinv (status_of k) (fin k z) (sems s) (todo s)" by (rule qinv_status) (rule assms)+
  moreover have "lstep (sems s) (lockHolder s) (todo s) (sems s) (lockHolder s) (todo s)"
    by (rule lstep_other) (use assms(1) in \<open>simp_all add: sinv_def\<close>)
  ultimately show ?thesis using assms(2) by (simp add: good_def kqinv_def)
qed

lemma step_preempt:
  assumes "sinv s" "asleep s = None" "Yield (current s) (kern s) = Inr k"
  shows "good s (s\<lparr>kern := k, asleep := None\<rparr>)"
proof -
  note inv = sinv_awake [OF assms(1,2)]
  obtain k' where "Yield (current s) (kern s) = Inr k'" "kinv k'"
    "currentThread k' # readyList k' = insert_sorted (Scheduler_Compare (getPriority (kern s))) (current s) (readyList (kern s))"
    "\<forall>t. t \<noteq> current s \<longrightarrow> t \<noteq> currentThread k' \<longrightarrow> status_of k' t = status_of (kern s) t"
    by (rule Yield_ok [OF inv(1)]) (rule that; assumption)
  then have y: "kinv k" "currentThread k # readyList k = insert_sorted (Scheduler_Compare (getPriority (kern s))) (current s) (readyList (kern s))"
    "\<forall>t. t \<noteq> current s \<longrightarrow> t \<noteq> currentThread k \<longrightarrow> status_of k t = status_of (kern s) t"
    using assms(3) by simp_all
  have wf: "kwf k" "kwf (kern s)" using y(1) inv(1) by (simp_all add: kinv_def)
  have "set (currentThread k # readyList k) = insert (current s) (set (readyList (kern s)))"
    unfolding y(2) by (rule sched.set_insert_sorted)
  then have "current s = currentThread k \<or> current s \<in> set (readyList k)"
    "currentThread k = current s \<or> currentThread k \<in> set (readyList (kern s))" by auto
  then have two: "status_of k (current s) = Some RUNNING \<or> status_of k (current s) = Some READY"
    "status_of (kern s) (currentThread k) = Some RUNNING \<or> status_of (kern s) (currentThread k) = Some READY"
    unfolding kwf_ready [OF wf(1)] kwf_ready [OF wf(2)] using kinv_running [OF y(1)] kinv_running [OF inv(1)] by metis+
  have same: "t = current s \<or> t = currentThread k \<or> status_of k t = status_of (kern s) t" for t using y(3) by blast
  show ?thesis
  proof (rule good_kernel [OF assms(1)])
    show "\<forall>t. todo s t \<noteq> [] \<longrightarrow> status_of k t \<in> {Some RUNNING, Some READY, Some BLOCKED}"
    proof (intro allI impI)
      fix t assume "todo s t \<noteq> []"
      then show "status_of k t \<in> {Some RUNNING, Some READY, Some BLOCKED}"
        using same [of t] two(1) kinv_running [OF y(1)] qinvD(4) [OF inv(2), of t] by (elim disjE) simp_all
    qed
    show "\<forall>t. status_of k t = Some BLOCKED \<longleftrightarrow> status_of (kern s) t = Some BLOCKED \<and> fin (kern s) (asleep s) \<noteq> Some t \<or> fin k None = Some t"
    proof
      fix t
      show "status_of k t = Some BLOCKED \<longleftrightarrow> status_of (kern s) t = Some BLOCKED \<and> fin (kern s) (asleep s) \<noteq> Some t \<or> fin k None = Some t"
        using same [of t] two kinv_running [OF y(1)] kinv_running [OF inv(1)] assms(2) by auto
    qed
  qed (use y(1) assms(2) in simp_all)
qed

lemma step_next:
  assumes "sinv s" "asleep s \<noteq> None" "dispatch s = Inr s'"
  shows "good s s'"
proof -
  obtain f where f: "asleep s = Some f" using assms(2) by blast
  have k: "kwf (kern s)" "kernelLevel (kern s) = IntOff" "status_of (kern s) (current s) \<in> {Some BLOCKED, Some READY}"
      "f \<Longrightarrow> status_of (kern s) (current s) = Some BLOCKED"
    and q: "qinv (status_of (kern s)) (fin (kern s) (asleep s)) (sems s) (todo s)"
    using assms(1) f by (simp_all add: sinv_def kqinv_def kpart_def)
  obtain n l where l: "readyList (kern s) = n # l"
    using assms(3) FindNextToRun_Nil [OF k(2)] by (cases "readyList (kern s)") (simp_all add: dispatch_def)
  obtain k' where k': "Run n f InSleep ((kern s)\<lparr>readyList := l\<rparr>) = Inr k'" "kinv k'"
    "\<forall>t. status_of k' t = (if t = n then Some RUNNING else if f \<and> t = current s then None else status_of (kern s) t)"
    by (rule dispatch_ok [where r = InSleep, OF k(1,2) l k(3,4)]) (assumption | rule that)+
  have s': "s' = s\<lparr>kern := k', asleep := None\<rparr>"
    using assms(3) f k'(1) FindNextToRun_Cons [OF k(2) l] by (simp add: dispatch_def)
  have n: "status_of (kern s) n = Some READY" using kwf_ready [OF k(1), of n] l by simp
  have fin: "fin (kern s) (asleep s) = (if f then Some (current s) else None)" using f by (simp add: fin_def)
  have td: "f \<Longrightarrow> todo s (current s) = []" using qinvD(3) [OF q] f by simp
  show ?thesis unfolding s'
  proof (rule good_kernel [OF assms(1)])
    show "\<forall>t. todo s t \<noteq> [] \<longrightarrow> status_of k' t \<in> {Some RUNNING, Some READY, Some BLOCKED}"
      using k'(3) td qinvD(4) [OF q] by auto
    show "\<forall>t. status_of k' t = Some BLOCKED \<longleftrightarrow> status_of (kern s) t = Some BLOCKED \<and> fin (kern s) (asleep s) \<noteq> Some t \<or> fin k' None = Some t"
      using k'(3) n fin by auto
  qed (use k'(2) in simp_all)
qed

lemma step_handler:
  assumes "sinv s" "Semaphore_V (Sem n) s = Inr s'"
  shows "good s s'"
proof -
  obtain x where x: "sems s (Sem n) = Some x" using assms(2) by (auto simp: Semaphore_V_def sem_at_def split: option.splits)
  have inv: "kqinv s" "linv (sems s) (lockHolder s) (todo s)" using assms(1) by (simp_all add: sinv_def)
  obtain s2 where s2: "Semaphore_V (Sem n) s = Inr s2" "kqinv s2" "todo s2 = todo s" "lockHolder s2 = lockHolder s"
    "sems s2 = (sems s)(Sem n \<mapsto> \<lparr>semValue = semValue x + 1, semQueue = tl (semQueue x)\<rparr>)"
    by (rule Semaphore_V_ok [OF inv(1) x]) (rule that; assumption)
  moreover have "lstep (sems s) (lockHolder s) (todo s) (sems s2) (lockHolder s) (todo s)"
    by (rule lstep_other [OF inv(2)]) (simp add: s2(5) lock_value_def)
  ultimately show ?thesis using assms(2) by (simp add: good_def)
qed

lemma step_finish:
  assumes "sinv s" "asleep s = None" "todo s (current s) = []" "Sleep_begin (current s) ((kern s)\<lparr>kernelLevel := IntOff\<rparr>) = Inr k"
  shows "good s (s\<lparr>kern := k, asleep := Some True\<rparr>)"
proof -
  note inv = sinv_awake [OF assms(1,2)]
  have pre: "kinv ((kern s)\<lparr>kernelLevel := IntOff\<rparr>)" "kernelLevel ((kern s)\<lparr>kernelLevel := IntOff\<rparr>) = IntOff" using inv(1) by simp_all
  obtain k' where "Sleep_begin (currentThread ((kern s)\<lparr>kernelLevel := IntOff\<rparr>)) ((kern s)\<lparr>kernelLevel := IntOff\<rparr>) = Inr k'" "kwf k'"
    "currentThread k' = currentThread ((kern s)\<lparr>kernelLevel := IntOff\<rparr>)" "kernelLevel k' = IntOff"
    "\<forall>t. status_of k' t = (if t = currentThread ((kern s)\<lparr>kernelLevel := IntOff\<rparr>) then Some BLOCKED else status_of ((kern s)\<lparr>kernelLevel := IntOff\<rparr>) t)"
    by (rule Sleep_begin_ok [OF pre]) (rule that; assumption)
  then have k: "kwf k" "currentThread k = current s" "kernelLevel k = IntOff"
    "\<forall>t. status_of k t = (if t = current s then Some BLOCKED else status_of (kern s) t)" using assms(4) by simp_all
  show ?thesis
    by (rule good_kernel [OF assms(1)])
      (use k assms(2,3) kinv_running [OF inv(1)] qinvD(4) [OF inv(2)] in \<open>auto simp: kpart_def\<close>)
qed

lemma step_create:
  assumes "sinv s" "asleep s = None" "threads (kern s) t = None" "todo s t = []"
  shows "good s (s\<lparr>kern := Thread_new t regs n (kern s), asleep := None\<rparr>)"
proof -
  note inv = sinv_awake [OF assms(1,2)]
  have "kinv (Thread_new t regs n (kern s))"
    using new_thread_inv [OF inv(1) assms(3), of "Thread_init regs n 0" "threadNum (kern s)"] Thread_init_wf by (simp add: Thread_new_def)
  moreover have "status_of (Thread_new t regs n (kern s)) u = (if u = t then Some JUST_CREATED else status_of (kern s) u)" for u
    by (simp add: Thread_new_def status_of_def Thread_init_wf)
  moreover have "status_of (kern s) t = None" using assms(3) by (simp add: status_of_def)
  ultimately show ?thesis
    by (intro good_kernel [OF assms(1)]) (use assms(2,4) qinvD(4) [OF inv(2)] in auto)
qed

lemma step_fork:
  assumes "sinv s" "asleep s = None" "status_of (kern s) t = Some JUST_CREATED" "Fork t (kern s) = Inr k"
  shows "good s (s\<lparr>kern := k, asleep := None\<rparr>)"
proof -
  note inv = sinv_awake [OF assms(1,2)]
  obtain k' where "Fork t (kern s) = Inr k'" "kinv k'" "\<forall>u. status_of k' u = (if u = t then Some READY else status_of (kern s) u)"
    by (rule Fork_ok [OF inv(1) assms(3)]) (rule that; assumption)
  then have "kinv k" "\<forall>u. status_of k u = (if u = t then Some READY else status_of (kern s) u)" using assms(4) by simp_all
  then show ?thesis
    by (intro good_kernel [OF assms(1)]) (use assms(2,3) qinvD(4) [OF inv(2)] in auto)
qed

lemma step_new_sem:
  assumes "sinv s" "asleep s = None" "sems s (Sem n) = None" "0 \<le> v"
  shows "good s (s\<lparr>sems := (sems s)(Sem n \<mapsto> Semaphore_new v)\<rparr>)"
proof -
  note inv = sinv_awake [OF assms(1,2)]
  have "qinv (status_of (kern s)) None ((sems s)(Sem n \<mapsto> Semaphore_new v)) (todo s)"
    by (rule qinv_sem [OF inv(2)]) (use assms(3,4) in \<open>auto simp: Semaphore_new_def\<close>)
  moreover have "lstep (sems s) (lockHolder s) (todo s) ((sems s)(Sem n \<mapsto> Semaphore_new v)) (lockHolder s) (todo s)"
    by (rule lstep_other [OF inv(3)]) (simp add: lock_value_def)
  ultimately show ?thesis using inv(1) assms(2) by (simp add: good_def kqinv_def)
qed

lemma step_new_lock:
  assumes "sinv s" "asleep s = None" "sems s (LockSem l) = None"
  shows "good s (Lock_new l s)"
proof -
  note inv = sinv_awake [OF assms(1,2)]
  let ?sm = "(sems s)(LockSem l \<mapsto> Semaphore_new 1)"
  have "qinv (status_of (kern s)) None ?sm (todo s)"
    by (rule qinv_sem [OF inv(2)]) (use assms(3) in \<open>auto simp: Semaphore_new_def\<close>)
  moreover have "lstep (sems s) (lockHolder s) (todo s) ?sm ((lockHolder s)(l := None)) (todo s)"
    by (rule lstep_new_lock [OF inv(3)]) (use assms(3) in \<open>auto simp: lock_value_def Semaphore_new_def\<close>)
  ultimately show ?thesis using inv(1) assms(2) by (simp add: good_def kqinv_def Lock_new_def)
qed

lemma still_awake: "asleep s = None \<Longrightarrow> s\<lparr>kern := k, asleep := None\<rparr> = s\<lparr>kern := k\<rparr>"
  by (cases s) simp

lemma sstep_good:
  assumes "sinv s" "sstep s s'"
  shows "good s s'"
  using assms(2)
proof cases
  case (act a rest w)
  then show ?thesis using act_good [OF assms(1)] by simp
next
  case (call c)
  note inv = sinv_awake [OF assms(1) call(2)]
  show ?thesis unfolding call(1)
    by (rule good_todo [OF assms(1)]) (use call calls_ok inv(1) in auto)
next
  case (preempt k)
  then show ?thesis using step_preempt [OF assms(1)] by (simp add: still_awake)
next
  case next_thread
  then show ?thesis using step_next [OF assms(1)] by simp
next
  case (handler n)
  then show ?thesis using step_handler [OF assms(1)] by simp
next
  case (create t regs n)
  then show ?thesis using step_create [OF assms(1)] by (simp add: still_awake)
next
  case (fork t k)
  then show ?thesis using step_fork [OF assms(1)] by (simp add: still_awake)
next
  case (finish k)
  then show ?thesis using step_finish [OF assms(1)] by simp
next
  case (new_sem n v)
  then show ?thesis using step_new_sem [OF assms(1)] by simp
next
  case (new_lock l)
  then show ?thesis using step_new_lock [OF assms(1)] by simp
qed

lemma sreach_sinv: "sreach s \<Longrightarrow> sinv s"
proof (induction rule: sreach.induct)
  case (init regs m)
  have "status_of (Kernel_Initialize regs m) t \<noteq> Some BLOCKED" for t
    by (simp add: Kernel_Initialize_def status_of_def)
  then have q: "qinv (status_of (Kernel_Initialize regs m)) None Map.empty (\<lambda>_. [])" by (simp add: qinv_def)
  have "phase_ok Map.empty (\<lambda>_. None) (\<lambda>_. []) l Free" for l by (simp add: phase_ok_def lock_value_def)
  then have "linv Map.empty (\<lambda>_. None) (\<lambda>_. [])" by (auto simp: linv_def tinv_def)
  then show ?case using q Kernel_Initialize_inv by (simp add: sinv_def kqinv_def)
next
  case (step s s')
  then show ?case using good_sinv sstep_good by blast
qed

section \<open>Properties\<close>

text \<open>
  C5. No wake-up is lost: in every reachable state, whatever the interleaving of threads and
  interrupt handlers, a thread sleeps only in the queue of the semaphore whose \<open>P\<close> it is
  inside of (or because it has finished), the value of a semaphore is never negative, and
  while threads sleep at a semaphore its value is no larger than the number of threads inside
  of its \<open>P\<close> that are ready or running and will test the value again. \<open>V\<close> never fails.
\<close>

theorem no_lost_wakeup:
  assumes "sreach s"
  shows "(\<forall>t. status_of (kern s) t = Some BLOCKED \<longrightarrow>
        (\<exists>i x. sems s i = Some x \<and> t \<in> set (semQueue x)) \<or> (t = current s \<and> asleep s = Some True))
    \<and> (\<forall>i x. sems s i = Some x \<longrightarrow> 0 \<le> semValue x \<and> distinct (semQueue x)
        \<and> (\<forall>t \<in> set (semQueue x). status_of (kern s) t = Some BLOCKED \<and> waiting (todo s) t i)
        \<and> (semQueue x \<noteq> [] \<longrightarrow> semValue x \<le>
            int (card {t. waiting (todo s) t i \<and> status_of (kern s) t \<in> {Some RUNNING, Some READY}}))
        \<and> (\<exists>s'. Semaphore_V i s = Inr s'))"
proof (intro conjI allI impI)
  have inv: "kqinv s" using sreach_sinv [OF assms] by (simp add: sinv_def)
  then have q: "qinv (status_of (kern s)) (fin (kern s) (asleep s)) (sems s) (todo s)" by (simp add: kqinv_def)
  show "(\<exists>i x. sems s i = Some x \<and> t \<in> set (semQueue x)) \<or> (t = current s \<and> asleep s = Some True)"
    if "status_of (kern s) t = Some BLOCKED" for t
    using qinvD(2) [OF q that] by (auto simp: fin_def split: if_splits)
  fix i x assume x: "sems s i = Some x"
  note ok = qinvD(1) [OF q x, unfolded sem_ok_def]
  show "0 \<le> semValue x" "distinct (semQueue x)" using ok by simp_all
  show "\<forall>t \<in> set (semQueue x). status_of (kern s) t = Some BLOCKED \<and> waiting (todo s) t i" using ok by simp
  show "\<exists>s'. Semaphore_V i s = Inr s'" using Semaphore_V_ok [OF inv x] by blast
  have "status_of (kern s) t \<in> {Some RUNNING, Some READY}" if t: "t \<in> awake (todo s) i x" for t
  proof -
    have td: "todo s t \<noteq> []" "waiting (todo s) t i" using t by (auto simp: awake_def waiting_def)
    have "status_of (kern s) t \<noteq> Some BLOCKED"
    proof
      assume "status_of (kern s) t = Some BLOCKED"
      then obtain j y where y: "sems s j = Some y" "t \<in> set (semQueue y)" using qinvD(2) [OF q] qinvD(3) [OF q] td(1) by blast
      then have "waiting (todo s) t j" using qinvD(1) [OF q y(1)] by (simp add: sem_ok_def)
      then have "j = i" using td(2) by (auto simp: waiting_def)
      then show False using y x t by (simp add: awake_def)
    qed
    then show ?thesis using qinvD(4) [OF q td(1)] by simp
  qed
  moreover have "t \<in> awake (todo s) i x" if "waiting (todo s) t i" "status_of (kern s) t \<in> {Some RUNNING, Some READY}" for t
    using that ok by (auto simp: awake_def)
  ultimately have "awake (todo s) i x = {t. waiting (todo s) t i \<and> status_of (kern s) t \<in> {Some RUNNING, Some READY}}"
    by (auto simp: awake_def)
  then show "semValue x \<le> int (card {t. waiting (todo s) t i \<and> status_of (kern s) t \<in> {Some RUNNING, Some READY}})"
    if "semQueue x \<noteq> []" using ok that by simp
qed

text \<open>
  C6. A lock implements its specification, a machine that is free, on its way to a thread, held
  by that thread, on its way back and free again: in every reachable state the lock is in
  exactly one phase, and every step of threads and interrupts leaves its phase as it is or is
  one of these transitions.
\<close>

definition lock_phase :: "synch \<Rightarrow> nat \<Rightarrow> lphase \<Rightarrow> bool" where
  "lock_phase s = phase_ok (sems s) (lockHolder s) (todo s)"

theorem Lock_refines:
  assumes "sreach s"
  shows "(\<exists>!p. lock_phase s l p)
    \<and> (\<forall>s' p. sstep s s' \<and> lock_phase s l p \<longrightarrow> (\<exists>p'. lock_phase s' l p' \<and> (p' = p \<or> lock_spec p p')))"
proof (intro conjI allI impI)
  note inv = sreach_sinv [OF assms]
  then obtain p where p: "lock_phase s l p" by (auto simp: sinv_def linv_def lock_phase_def)
  show "\<exists>!p. lock_phase s l p"
  proof (rule ex1I)
    show "lock_phase s l p" by (rule p)
    fix p' assume "lock_phase s l p'"
    with p show "p' = p" unfolding lock_phase_def phase_ok_def by (cases p; cases p') auto
  qed
  show "\<exists>p'. lock_phase s' l p' \<and> (p' = p \<or> lock_spec p p')" if "sstep s s' \<and> lock_phase s l p" for s' p
    using sstep_good [OF inv, of s'] that by (simp add: good_def lstep_def lock_phase_def)
qed

text \<open>
  C7. Mutual exclusion: of all threads that have taken a lock and not yet given it back at most
  one exists, and the semaphore of the lock is 0 while it does, 1 otherwise. A thread that is
  about to use the list of a \<open>SynchList\<close> holds the lock of the list.
\<close>

definition has_lock :: "synch \<Rightarrow> nat \<Rightarrow> tid \<Rightarrow> bool" where
  "has_lock s l t \<longleftrightarrow> entering (todo s t) l \<or> lockHolder s l = Some t \<or> leaving (todo s t) l"

theorem lock_mutual_exclusion:
  assumes "sreach s"
  shows "(\<forall>t u. has_lock s l t \<and> has_lock s l u \<longrightarrow> t = u)
    \<and> (\<forall>x. sems s (LockSem l) = Some x \<longrightarrow> semValue x = (if \<exists>t. has_lock s l t then 0 else 1))
    \<and> (\<forall>t x rest. todo s t \<in> {List_append l x # rest, List_remove l # rest} \<longrightarrow> lockHolder s l = Some t)"
proof (intro conjI allI impI)
  have inv: "linv (sems s) (lockHolder s) (todo s)" using sreach_sinv [OF assms] by (simp add: sinv_def)
  then obtain p where p: "phase_ok (sems s) (lockHolder s) (todo s) l p" by (auto simp: linv_def)
  have has: "has_lock s l t \<longleftrightarrow> p = Entering t \<or> p = Held t \<or> p = Leaving t" for t
    using p by (simp add: has_lock_def phase_ok_def)
  show "t = u" if "has_lock s l t \<and> has_lock s l u" for t u using that unfolding has by auto
  show "semValue x = (if \<exists>t. has_lock s l t then 0 else 1)" if "sems s (LockSem l) = Some x" for x
    using phase_okD(4) [OF p] that unfolding has by (cases p) (auto simp: lock_value_def)
  show "lockHolder s l = Some t" if "todo s t \<in> {List_append l x # rest, List_remove l # rest}" for t x rest
  proof -
    have "held_ok {l. lockHolder s l = Some t} (todo s t)" using inv by (simp add: linv_def tinv_def)
    then show ?thesis using that by auto
  qed
qed

text \<open>The states after the main thread has made a semaphore with value 0 and slept in its \<open>P\<close>.\<close>

definition synch0 :: synch where
  "synch0 = \<lparr>kern = kernel1, sems = Map.empty, lockHolder = (\<lambda>_. None), waitQueue = (\<lambda>_. []),
     listItems = (\<lambda>_. []), removed = (\<lambda>_. []), todo = (\<lambda>_. []), asleep = None\<rparr>"

definition synch1 :: synch where
  "synch1 = synch0\<lparr>sems := [Sem 5 \<mapsto> Semaphore_new 0], todo := (\<lambda>_. [])(0 := [P_enter (Sem 5)])\<rparr>"

definition synch2 :: synch where
  "synch2 = synch1\<lparr>kern := kernel1\<lparr>kernelLevel := IntOff\<rparr>, todo := (\<lambda>_. [])(0 := [P_loop (Sem 5) IntOn])\<rparr>"

definition synch3 :: synch where
  "synch3 = synch2\<lparr>sems := [Sem 5 \<mapsto> \<lparr>semValue = 0, semQueue = [0]\<rparr>],
     kern := kernel1\<lparr>kernelLevel := IntOff, threads := [0 \<mapsto> (Thread_init (\<lambda>_. 0) ''main'' 0)\<lparr>threadStatus := BLOCKED\<rparr>]\<rparr>, asleep := Some False\<rparr>"

lemma kernel1_sel: "currentThread kernel1 = 0" "kernelLevel kernel1 = IntOn"
  "threads kernel1 = [0 \<mapsto> (Thread_init (\<lambda>_. 0) ''main'' 0)\<lparr>threadStatus := RUNNING\<rparr>]"
  by (simp_all add: kernel1_def Kernel_Initialize_def)

lemma sreach_synch0: "sreach synch0"
  unfolding synch0_def kernel1_def by (rule sreach.init)

lemma sreach_synch3: "sreach synch3"
proof -
  let ?s = "synch0\<lparr>sems := (sems synch0)(Sem 5 \<mapsto> Semaphore_new 0)\<rparr>"
  have "sstep synch0 ?s" by (rule sstep.new_sem) (simp_all add: synch0_def)
  note 1 = sreach.step [OF sreach_synch0 this]
  have "sstep ?s (?s\<lparr>todo := (todo ?s)(current ?s := Semaphore_P (Sem 5))\<rparr>)"
    by (rule sstep.call) (simp_all add: synch0_def calls.intros)
  moreover have "?s\<lparr>todo := (todo ?s)(current ?s := Semaphore_P (Sem 5))\<rparr> = synch1"
    by (simp add: synch1_def synch0_def kernel1_sel Semaphore_P_def)
  ultimately have 2: "sreach synch1" using sreach.step [OF 1] by simp
  have "sstep synch1 synch2"
    by (rule sstep.act [where a = "P_enter (Sem 5)" and rest = "[]" and w = 6])
      (simp_all add: synch1_def synch2_def synch0_def kernel1_sel do_P_enter_def)
  note 3 = sreach.step [OF 2 this]
  have "sstep synch2 synch3"
    by (rule sstep.act [where a = "P_loop (Sem 5) IntOn" and rest = "[]" and w = 6])
      (simp_all add: synch1_def synch2_def synch3_def synch0_def kernel1_sel do_P_loop_def sem_at_def Semaphore_new_def seq_Append_def
        Sleep_begin_def setStatus_def thread_at_def put_thread_def)
  then show ?thesis by (rule sreach.step [OF 3])
qed

text \<open>C5, when the main thread sleeps: it can be woken up.\<close>

theorem no_lost_wakeup_witness:
  "status_of (kern synch3) 0 = Some BLOCKED \<and> sems synch3 (Sem 5) = Some \<lparr>semValue = 0, semQueue = [0]\<rparr> \<and> (\<exists>s'. Semaphore_V (Sem 5) synch3 = Inr s')"
proof -
  have x: "sems synch3 (Sem 5) = Some \<lparr>semValue = 0, semQueue = [0]\<rparr>" by (simp add: synch3_def)
  show ?thesis using no_lost_wakeup [OF sreach_synch3, THEN conjunct2, rule_format, OF x] x by simp
qed

text \<open>C6, for a lock that the main thread takes.\<close>

definition synch4 :: synch where
  "synch4 = (Lock_new 1 synch0)\<lparr>kern := kernel1\<lparr>kernelLevel := IntOff\<rparr>, todo := (\<lambda>_. [])(0 := [P_loop (LockSem 1) IntOn, Set_holder 1])\<rparr>"

definition synch5 :: synch where
  "synch5 = synch4\<lparr>kern := kernel1, sems := [LockSem 1 \<mapsto> \<lparr>semValue = 0, semQueue = []\<rparr>], todo := (\<lambda>_. [])(0 := [Set_holder 1])\<rparr>"

lemma sreach_synch4: "sreach synch4"
proof -
  let ?s = "Lock_new 1 synch0"
  have "sstep synch0 ?s" by (rule sstep.new_lock) (simp_all add: synch0_def)
  note 1 = sreach.step [OF sreach_synch0 this]
  let ?t = "?s\<lparr>todo := (todo ?s)(current ?s := Lock_Acquire 1)\<rparr>"
  have "sstep ?s ?t"
    by (rule sstep.call) (simp_all add: Lock_new_def synch0_def calls.intros)
  note 2 = sreach.step [OF 1 this]
  have "sstep ?t synch4"
    by (rule sstep.act [where a = "P_enter (LockSem 1)" and rest = "[Set_holder 1]" and w = 6])
      (simp_all add: synch4_def Lock_new_def synch0_def kernel1_sel do_P_enter_def Lock_Acquire_def Semaphore_P_def)
  then show ?thesis by (rule sreach.step [OF 2])
qed

lemma sstep_synch5: "sstep synch4 synch5"
  by (rule sstep.act [where a = "P_loop (LockSem 1) IntOn" and rest = "[Set_holder 1]" and w = 6])
    (simp_all add: synch4_def synch5_def Lock_new_def synch0_def kernel1_sel do_P_loop_def sem_at_def Semaphore_new_def kernel1_def Kernel_Initialize_def)

theorem Lock_refines_witness: "lock_phase synch4 1 Free \<and> (\<exists>p'. lock_phase synch5 1 p' \<and> (p' = Free \<or> lock_spec Free p'))"
proof -
  have "lock_phase synch4 1 Free"
    by (simp add: lock_phase_def phase_ok_def synch4_def Lock_new_def synch0_def Semaphore_new_def lock_value_def)
  then show ?thesis using Lock_refines [OF sreach_synch4, THEN conjunct2, rule_format, of synch5 1 Free] sstep_synch5 by simp
qed

text \<open>C7, when the main thread has just taken the lock.\<close>

theorem lock_mutual_exclusion_witness: "{t. has_lock synch5 1 t} = {0}"
proof -
  have "has_lock synch5 1 0" by (simp add: has_lock_def synch5_def)
  then show ?thesis
    using lock_mutual_exclusion [OF sreach.step [OF sreach_synch4 sstep_synch5], THEN conjunct1, rule_format, of 1] by blast
qed

end
