(* ===== verification/Console.thy ===== *)
theory Console
  imports Machine "HOL-Library.Sublist"
begin

text \<open>
  The console devices (\<^verbatim>\<open>code/machine/console.h\<close>, \<^verbatim>\<open>console.cc\<close>) and synchronized access to
  them (\<^verbatim>\<open>code/userprog/synchconsole.h\<close>, \<^verbatim>\<open>synchconsole.cc\<close>). The keyboard is the rest of the
  UNIX file that is read, the display what has been written. A pending interrupt of a device is
  counted in \<open>inPending\<close> or \<open>outPending\<close>. A character is a byte, and \<open>EOF\<close> is the byte -1.
\<close>

section \<open>Devices\<close>

definition EOF :: byte where "EOF = -1"

record console =
  incoming :: byte
  inPending :: nat
  inWaitFor :: nat
  inLocked :: bool
  keyboard :: "byte list"
  numConsoleCharsRead :: int
  putBusy :: bool
  outPending :: nat
  outWaitFor :: nat
  outLocked :: bool
  display :: "byte list"
  numConsoleCharsWritten :: int

definition Console_new :: "byte list \<Rightarrow> console" where
  "Console_new cs = \<lparr>incoming = EOF, inPending = 1, inWaitFor = 0, inLocked = False, keyboard = cs, numConsoleCharsRead = 0,
     putBusy = False, outPending = 0, outWaitFor = 0, outLocked = False, display = [], numConsoleCharsWritten = 0\<rparr>"

definition SynchConsoleInput_CallBack :: "console \<Rightarrow> console" where
  "SynchConsoleInput_CallBack c = c\<lparr>inWaitFor := inWaitFor c + 1\<rparr>"

text \<open>\<open>avail\<close> is what \<open>PollFile\<close> returns; at the end of the file nothing is read.\<close>

definition ConsoleInput_CallBack :: "bool \<Rightarrow> console \<Rightarrow> console res" where
  "ConsoleInput_CallBack avail c =
     ASSERT (incoming c = EOF) (
     if \<not> avail then Inr (c\<lparr>inPending := inPending c + 1\<rparr>)
     else Inr (SynchConsoleInput_CallBack (case keyboard c of [] \<Rightarrow> c
       | ch # cs \<Rightarrow> c\<lparr>keyboard := cs, incoming := ch, numConsoleCharsRead := numConsoleCharsRead c + 1\<rparr>)))"

definition ConsoleInput_GetChar :: "console \<Rightarrow> console \<times> byte" where
  "ConsoleInput_GetChar c =
     (c\<lparr>inPending := (if incoming c \<noteq> EOF then inPending c + 1 else inPending c), incoming := EOF\<rparr>, incoming c)"

definition SynchConsoleOutput_CallBack :: "console \<Rightarrow> console" where
  "SynchConsoleOutput_CallBack c = c\<lparr>outWaitFor := outWaitFor c + 1\<rparr>"

definition ConsoleOutput_CallBack :: "console \<Rightarrow> console" where
  "ConsoleOutput_CallBack c =
     SynchConsoleOutput_CallBack (c\<lparr>putBusy := False, numConsoleCharsWritten := numConsoleCharsWritten c + 1\<rparr>)"

definition ConsoleOutput_PutChar :: "byte \<Rightarrow> console \<Rightarrow> console res" where
  "ConsoleOutput_PutChar ch c =
     ASSERT (\<not> putBusy c) (Inr (c\<lparr>display := display c @ [ch], putBusy := True, outPending := outPending c + 1\<rparr>))"

section \<open>Synchronized access\<close>

text \<open>
  Each routine in the parts between the points where it may wait: the lock, and the semaphore.
  \<open>None\<close> means that the thread waits.
\<close>

definition GetChar_lock :: "console \<Rightarrow> console option" where
  "GetChar_lock c = (if inLocked c then None else Some (c\<lparr>inLocked := True\<rparr>))"

definition SynchConsoleInput_GetChar :: "console \<Rightarrow> (console \<times> byte) option" where
  "SynchConsoleInput_GetChar c =
     (if inWaitFor c = 0 then None
      else let (c, ch) = ConsoleInput_GetChar (c\<lparr>inWaitFor := inWaitFor c - 1\<rparr>) in Some (c\<lparr>inLocked := False\<rparr>, ch))"

definition SynchConsoleOutput_PutChar :: "byte \<Rightarrow> console \<Rightarrow> console res option" where
  "SynchConsoleOutput_PutChar ch c =
     (if outLocked c then None else Some (ConsoleOutput_PutChar ch (c\<lparr>outLocked := True\<rparr>)))"

definition PutChar_end :: "console \<Rightarrow> console option" where
  "PutChar_end c = (if outWaitFor c = 0 then None else Some (c\<lparr>outWaitFor := outWaitFor c - 1, outLocked := False\<rparr>))"

text \<open>
  The states of a console that reads \<open>cs\<close>, under any number of threads, with the characters
  \<open>got\<close> that \<open>GetChar\<close> has returned and \<open>put\<close> that \<open>PutChar\<close> has been given.
\<close>

inductive creach :: "byte list \<Rightarrow> console \<Rightarrow> byte list \<Rightarrow> byte list \<Rightarrow> bool" for cs where
  init: "creach cs (Console_new cs) [] []"
| key: "creach cs c got put \<Longrightarrow> inPending c = Suc n \<Longrightarrow> ConsoleInput_CallBack avail (c\<lparr>inPending := n\<rparr>) = Inr c' \<Longrightarrow> creach cs c' got put"
| lock: "creach cs c got put \<Longrightarrow> GetChar_lock c = Some c' \<Longrightarrow> creach cs c' got put"
| get: "creach cs c got put \<Longrightarrow> inLocked c \<Longrightarrow> SynchConsoleInput_GetChar c = Some (c', ch) \<Longrightarrow> creach cs c' (got @ [ch]) put"
| put: "creach cs c got put \<Longrightarrow> SynchConsoleOutput_PutChar ch c = Some (Inr c') \<Longrightarrow> creach cs c' got (put @ [ch])"
| out: "creach cs c got put \<Longrightarrow> outPending c = Suc n \<Longrightarrow> creach cs (ConsoleOutput_CallBack (c\<lparr>outPending := n\<rparr>)) got put"
| put_end: "creach cs c got put \<Longrightarrow> outLocked c \<Longrightarrow> PutChar_end c = Some c' \<Longrightarrow> creach cs c' got put"

section \<open>Invariants\<close>

text \<open>What the console has delivered, and will: the characters up to the first \<open>EOF\<close> byte or the end, and one \<open>EOF\<close>.\<close>

definition input_text :: "byte list \<Rightarrow> byte list" where
  "input_text cs = takeWhile (\<lambda>ch. ch \<noteq> EOF) cs @ [EOF]"

definition in_inv :: "byte list \<Rightarrow> console \<Rightarrow> byte list \<Rightarrow> bool" where
  "in_inv cs c got \<longleftrightarrow>
     (if inPending c = 1 then inWaitFor c = 0 \<and> incoming c = EOF \<and> cs = got @ keyboard c \<and> EOF \<notin> set got
      else inPending c = 0 \<and>
        (if inWaitFor c = 1 then input_text cs = got @ incoming c # (if incoming c = EOF then [] else input_text (keyboard c))
           \<and> (incoming c \<noteq> EOF \<longrightarrow> cs = got @ incoming c # keyboard c \<and> EOF \<notin> set got)
         else inWaitFor c = 0 \<and> incoming c = EOF \<and> got = input_text cs))"

definition out_inv :: "console \<Rightarrow> byte list \<Rightarrow> bool" where
  "out_inv c put \<longleftrightarrow> display c = put \<and> (if outLocked c then outPending c + outWaitFor c = 1 else outPending c = 0 \<and> outWaitFor c = 0)
     \<and> (putBusy c \<longleftrightarrow> outPending c = 1) \<and> int (length put) = numConsoleCharsWritten c + int (outPending c)"

lemma input_text_append: "EOF \<notin> set xs \<Longrightarrow> input_text (xs @ ys) = xs @ input_text ys"
  by (induction xs) (auto simp: input_text_def)

lemma input_text_simps [simp]: "input_text [] = [EOF]" "input_text (x # xs) = (if x = EOF then [EOF] else x # input_text xs)"
  by (simp_all add: input_text_def)

lemma key_inv:
  assumes "in_inv cs c got" "inPending c = Suc n"
  shows "\<exists>c'. ConsoleInput_CallBack avail (c\<lparr>inPending := n\<rparr>) = Inr c' \<and> in_inv cs c' got \<and> (\<forall>put. out_inv c' put = out_inv c put)"
proof -
  have p: "n = 0" "inWaitFor c = 0" "incoming c = EOF" "cs = got @ keyboard c" "EOF \<notin> set got"
    using assms by (auto simp: in_inv_def split: if_splits)
  show ?thesis
  proof (cases "avail \<and> keyboard c \<noteq> []")
    case True
    then obtain ch xs where k: "keyboard c = ch # xs" by (auto simp: neq_Nil_conv)
    then show ?thesis using True p input_text_append [OF p(5), of "ch # xs"]
      by (simp add: ConsoleInput_CallBack_def SynchConsoleInput_CallBack_def in_inv_def out_inv_def)
  next
    case False
    then show ?thesis using p input_text_append [OF p(5), of "[]"]
      by (cases avail) (simp_all add: ConsoleInput_CallBack_def SynchConsoleInput_CallBack_def in_inv_def out_inv_def)
  qed
qed

lemma get_inv:
  assumes "in_inv cs c got" "SynchConsoleInput_GetChar c = Some (c', ch)"
  shows "in_inv cs c' (got @ [ch]) \<and> (\<forall>put. out_inv c' put = out_inv c put)"
proof -
  have w: "inPending c = 0" "inWaitFor c = 1" using assms by (auto simp: in_inv_def SynchConsoleInput_GetChar_def split: if_splits)
  have c': "c' = c\<lparr>inWaitFor := 0, inPending := (if incoming c \<noteq> EOF then 1 else 0), incoming := EOF, inLocked := False\<rparr>" "ch = incoming c"
    using assms(2) w by (cases "incoming c = EOF"; simp add: SynchConsoleInput_GetChar_def ConsoleInput_GetChar_def Let_def)+
  have t: "input_text cs = got @ incoming c # (if incoming c = EOF then [] else input_text (keyboard c))"
      "incoming c \<noteq> EOF \<Longrightarrow> cs = got @ incoming c # keyboard c \<and> EOF \<notin> set got"
    using assms(1) w by (simp_all add: in_inv_def)
  have "in_inv cs c' (got @ [ch])"
    unfolding c' in_inv_def using t by (cases "incoming c = EOF") simp_all
  then show ?thesis by (simp add: c' out_inv_def)
qed

lemma frame_inv:
  "in_inv cs (c\<lparr>inLocked := b\<rparr>) got = in_inv cs c got" "out_inv (c\<lparr>inLocked := b\<rparr>) put = out_inv c put"
  "in_inv cs (c\<lparr>outLocked := b, display := d, putBusy := p, outPending := n\<rparr>) got = in_inv cs c got"
  "in_inv cs (c\<lparr>outPending := n, putBusy := p, numConsoleCharsWritten := z, outWaitFor := m\<rparr>) got = in_inv cs c got"
  "in_inv cs (c\<lparr>outWaitFor := n, outLocked := b\<rparr>) got = in_inv cs c got"
  by (simp_all add: in_inv_def out_inv_def)

lemma creach_inv: "creach cs c got put \<Longrightarrow> in_inv cs c got \<and> out_inv c put"
proof (induction rule: creach.induct)
  case init
  show ?case by (simp add: in_inv_def out_inv_def Console_new_def)
next
  case (key c got put n avail c')
  then show ?case using key_inv [of cs c got n avail] by auto
next
  case (lock c got put c')
  then have "c' = c\<lparr>inLocked := True\<rparr>" by (simp add: GetChar_lock_def split: if_splits)
  then show ?case using lock by (simp add: frame_inv)
next
  case (get c got put c' ch)
  then show ?case using get_inv by blast
next
  case (put c got put ch c')
  then have o: "\<not> outLocked c" "c' = c\<lparr>outLocked := True, display := display c @ [ch], putBusy := True, outPending := outPending c + 1\<rparr>"
    by (simp_all add: SynchConsoleOutput_PutChar_def ConsoleOutput_PutChar_def ASSERT_eq_Inr split: if_splits)
  have "out_inv c' (put @ [ch])" using put.IH o(1) unfolding o(2) by (simp add: out_inv_def)
  then show ?case using put.IH unfolding o(2) by (simp add: frame_inv)
next
  case (out c got put n)
  let ?c = "c\<lparr>outPending := n, putBusy := False, numConsoleCharsWritten := numConsoleCharsWritten c + 1, outWaitFor := outWaitFor c + 1\<rparr>"
  have e: "ConsoleOutput_CallBack (c\<lparr>outPending := n\<rparr>) = ?c" by (simp add: ConsoleOutput_CallBack_def SynchConsoleOutput_CallBack_def)
  have "out_inv ?c put" using out.IH out.hyps(2) by (auto simp: out_inv_def split: if_splits)
  then show ?case using out.IH unfolding e by (simp only: frame_inv simp_thms)
next
  case (put_end c got put c')
  then have o: "c' = c\<lparr>outWaitFor := outWaitFor c - 1, outLocked := False\<rparr>" "outWaitFor c \<noteq> 0" by (simp_all add: PutChar_end_def split: if_splits)
  have "out_inv c' put" using put_end.IH put_end.hyps(2) o(2) unfolding o(1) by (auto simp: out_inv_def)
  then show ?case using put_end.IH unfolding o(1) by (simp add: frame_inv)
qed

section \<open>Properties\<close>

text \<open>
  C37. Under any number of threads the console returns the characters of its input in order up
  to the first byte that equals \<open>EOF\<close>, then one \<open>EOF\<close>, and after it nothing: no interrupt is
  pending and every reader waits for ever. Until then a reader gets its character after at
  most one interrupt. Output appears in the order of the calls, one character at a time, and
  no assertion of the devices fails.
\<close>

theorem console_in_order:
  assumes "creach cs c got put"
  shows "prefix got (input_text cs)
    \<and> (got = input_text cs \<longrightarrow> inPending c = 0 \<and> SynchConsoleInput_GetChar c = None)
    \<and> (got \<noteq> input_text cs \<longrightarrow> inPending c = 1 \<or> SynchConsoleInput_GetChar c \<noteq> None)
    \<and> (inPending c = Suc n \<longrightarrow> (\<exists>c'. ConsoleInput_CallBack avail (c\<lparr>inPending := n\<rparr>) = Inr c' \<and> (avail \<longrightarrow> SynchConsoleInput_GetChar c' \<noteq> None)))
    \<and> display c = put \<and> (\<not> outLocked c \<longrightarrow> (\<exists>c'. SynchConsoleOutput_PutChar ch c = Some (Inr c')))
    \<and> (outLocked c \<longrightarrow> outPending c = 1 \<or> PutChar_end c \<noteq> None)"
proof -
  have inv: "in_inv cs c got" "out_inv c put" using creach_inv [OF assms] by simp_all
  have g: "got = input_text cs \<longleftrightarrow> inPending c = 0 \<and> inWaitFor c = 0" "prefix got (input_text cs)"
    using inv(1) input_text_append [of got "keyboard c"]
    by (auto simp: in_inv_def input_text_def split: if_splits dest: arg_cong [of _ _ length])
  have k: "\<exists>c'. ConsoleInput_CallBack avail (c\<lparr>inPending := n\<rparr>) = Inr c' \<and> (avail \<longrightarrow> SynchConsoleInput_GetChar c' \<noteq> None)"
    if "inPending c = Suc n"
    using key_inv [OF inv(1) that, of avail]
    by (auto simp: ConsoleInput_CallBack_def SynchConsoleInput_CallBack_def SynchConsoleInput_GetChar_def ConsoleInput_GetChar_def ASSERT_def split: if_splits list.splits)
  have w: "inPending c = 1 \<or> SynchConsoleInput_GetChar c \<noteq> None" if "got \<noteq> input_text cs"
    using inv(1) that by (auto simp: in_inv_def SynchConsoleInput_GetChar_def ConsoleInput_GetChar_def split: if_splits)
  have "\<exists>c'. SynchConsoleOutput_PutChar ch c = Some (Inr c')" if "\<not> outLocked c"
    using inv(2) that by (simp add: out_inv_def SynchConsoleOutput_PutChar_def ConsoleOutput_PutChar_def)
  moreover have "outPending c = 1 \<or> PutChar_end c \<noteq> None" if "outLocked c"
    using inv(2) that by (auto simp: out_inv_def PutChar_end_def)
  moreover have "display c = put" using inv(2) by (simp add: out_inv_def)
  moreover have "SynchConsoleInput_GetChar c = None" if "inWaitFor c = 0" using that by (simp add: SynchConsoleInput_GetChar_def)
  ultimately show ?thesis using g k w by blast
qed

text \<open>C37, after the character A has been typed and read.\<close>

theorem console_in_order_witness: "\<exists>c. creach [65, EOF, 66] c [65] [] \<and> prefix [65] (input_text [65, EOF, 66])"
proof -
  let ?cs = "[65, EOF, 66]"
  let ?c = "Console_new ?cs"
  obtain c1 where c1: "ConsoleInput_CallBack True (?c\<lparr>inPending := 0\<rparr>) = Inr c1" "inWaitFor c1 = 1" "incoming c1 = 65" "inLocked c1 = False"
    by (simp add: Console_new_def ConsoleInput_CallBack_def SynchConsoleInput_CallBack_def)
  have 1: "creach ?cs c1 [] []" by (rule creach.key [OF creach.init _ c1(1)]) (simp add: Console_new_def)
  have 2: "creach ?cs (c1\<lparr>inLocked := True\<rparr>) [] []" by (rule creach.lock [OF 1]) (simp add: GetChar_lock_def c1(4))
  obtain c2 where "SynchConsoleInput_GetChar (c1\<lparr>inLocked := True\<rparr>) = Some (c2, 65)"
    using c1(2,3) by (simp add: SynchConsoleInput_GetChar_def ConsoleInput_GetChar_def)
  then have "creach ?cs c2 ([] @ [65]) []" by (intro creach.get [OF 2]) simp_all
  then show ?thesis using console_in_order [of ?cs c2 "[65]" "[]"] by auto
qed

end
