(* ===== verification/NetTest.thy ===== *)
theory NetTest
  imports Network
begin

text \<open>
  \<open>Kernel::NetworkTest\<close> (\<^verbatim>\<open>code/threads/kernel.cc\<close>) on two machines: each sends a greeting to
  the other, waits for the other's greeting, acknowledges it and waits for the acknowledgement
  of its own. The two tests, the network interrupts and the postal workers of all machines run
  interleaved in any order.
\<close>

section \<open>The test\<close>

definition hello :: "byte list" where
  "hello = map of_char ''Hello there!'' @ [0]"

definition got_it :: "byte list" where
  "got_it = map of_char ''Got it!'' @ [0]"

text \<open>
  The local variables of the test on one machine; \<open>testPc\<close> counts the calls of the post office
  that have returned, \<open>testOut\<close> are the lines printed: the text, the machine and the mailbox.
\<close>

record tester =
  testPc :: nat
  outPktHdr :: packet_header
  outMailHdr :: mail_header
  inPktHdr :: packet_header
  inMailHdr :: mail_header
  testBuf :: "byte list"
  testOut :: "(byte list \<times> int32 \<times> int32) list"

definition farHost :: "int32 \<Rightarrow> int32" where
  "farHost h = (if h = 0 then 1 else 0)"

definition test_receive :: "int32 \<Rightarrow> int \<Rightarrow> tester \<Rightarrow> 'n net \<Rightarrow> (tester \<times> 'n net) res option" where
  "test_receive A box t s =
     map_option (\<lambda>r. bindR r (\<lambda>(s, m).
       bindR (buf_put (testBuf t) 0 (mailData m)) (\<lambda>b.
       Inr (t\<lparr>inPktHdr := mailPkt m, inMailHdr := mailHdr m, testBuf := b, testPc := testPc t + 1,
              testOut := testOut t @ [(takeWhile (\<lambda>x. x \<noteq> 0) b, pktFrom (mailPkt m), mailFrom (mailHdr m))]\<rparr>, s)))) (net_receive A box s)"

text \<open>The next part of the test on machine \<open>A\<close>, if it does not have to wait and has not ended.\<close>

definition NetworkTest_step :: "'n sockets \<Rightarrow> int \<Rightarrow> byte list \<Rightarrow> byte list \<Rightarrow> int32 \<Rightarrow> tester \<Rightarrow> 'n net \<Rightarrow> (tester \<times> 'n net) res option" where
  "NetworkTest_step S r junk buffer A t s =
     (if testPc t = 0 then
        let t = t\<lparr>outPktHdr := (outPktHdr t)\<lparr>pktTo := farHost A\<rparr>,
                  outMailHdr := \<lparr>mailTo = 0, mailFrom = 1, mailLength = of_nat (length hello)\<rparr>\<rparr> in
        Some (bindR (net_send S r junk buffer (outPktHdr t) (outMailHdr t) hello A s) (\<lambda>s. Inr (t\<lparr>testPc := 1\<rparr>, s)))
      else if testPc t = 1 then test_receive A 0 t s
      else if testPc t = 2 then
        let t = t\<lparr>outPktHdr := (outPktHdr t)\<lparr>pktTo := pktFrom (inPktHdr t)\<rparr>,
                  outMailHdr := (outMailHdr t)\<lparr>mailTo := mailFrom (inMailHdr t), mailLength := of_nat (length got_it)\<rparr>\<rparr> in
        Some (bindR (net_send S r junk buffer (outPktHdr t) (outMailHdr t) got_it A s) (\<lambda>s. Inr (t\<lparr>testPc := 3\<rparr>, s)))
      else if testPc t = 3 then test_receive A 1 t s
      else None)"

text \<open>Only machines 0 and 1 do anything.\<close>

definition NetworkTest_start :: "int32 \<Rightarrow> tester \<Rightarrow> tester" where
  "NetworkTest_start A t = t\<lparr>testPc := (if A = 0 \<or> A = 1 then 0 else 4), testOut := []\<rparr>"

section \<open>All interleavings\<close>

inductive nt_step :: "'n sockets \<Rightarrow> 'n net \<times> (int32 \<Rightarrow> tester) \<Rightarrow> 'n net \<times> (int32 \<Rightarrow> tester) \<Rightarrow> bool" for S where
  nt_test: "NetworkTest_step S r junk buffer A (T A) s = Some (Inr (t, s')) \<Longrightarrow> length junk = 64 \<Longrightarrow> length buffer = 52
    \<Longrightarrow> nt_step S (s, T) (s', T(A := t))"
| nt_poll: "net_poll S B s = Inr s' \<Longrightarrow> nt_step S (s, T) (s', T)"
| nt_deliver: "net_deliver buffer B s = Some (Inr s') \<Longrightarrow> length buffer = 52 \<Longrightarrow> nt_step S (s, T) (s', T)"

definition greeting :: "int32 \<Rightarrow> mail" where
  "greeting A = \<lparr>mailPkt = \<lparr>pktTo = farHost A, pktFrom = A, pktLength = 25\<rparr>, mailHdr = \<lparr>mailTo = 0, mailFrom = 1, mailLength = 13\<rparr>, mailData = hello\<rparr>"

definition reply :: "int32 \<Rightarrow> mail" where
  "reply A = \<lparr>mailPkt = \<lparr>pktTo = farHost A, pktFrom = A, pktLength = 20\<rparr>, mailHdr = \<lparr>mailTo = 1, mailFrom = 1, mailLength = 8\<rparr>, mailData = got_it\<rparr>"

text \<open>What the test on machine \<open>A\<close> prints.\<close>

definition test_lines :: "int32 \<Rightarrow> (byte list \<times> int32 \<times> int32) list" where
  "test_lines A = [(map of_char ''Hello there!'', farHost A, 1), (map of_char ''Got it!'', farHost A, 1)]"

definition tester_ok :: "(int32 \<Rightarrow> tester) \<Rightarrow> int32 \<Rightarrow> bool" where
  "tester_ok T A \<longleftrightarrow> (let t = T A; far = testPc (T (farHost A)) in
     testPc t \<le> 4 \<and> length (testBuf t) = 40 \<and> (testPc t \<ge> 2 \<longrightarrow> far \<ge> 1) \<and> (testPc t = 4 \<longrightarrow> far \<ge> 3)
     \<and> (testPc t \<ge> 1 \<longrightarrow> mailFrom (outMailHdr t) = 1)
     \<and> (testPc t = 2 \<longrightarrow> pktFrom (inPktHdr t) = farHost A \<and> mailFrom (inMailHdr t) = 1)
     \<and> testOut t = take (testPc t div 2) (test_lines A))"

text \<open>The messages for machine \<open>A\<close> that are on their way or in its mailboxes.\<close>

definition expected :: "(int32 \<Rightarrow> tester) \<Rightarrow> int32 \<Rightarrow> int \<Rightarrow> mail list" where
  "expected T A box =
     (if box = 0 then if testPc (T (farHost A)) \<ge> 1 \<and> testPc (T A) \<le> 1 then [greeting (farHost A)] else []
      else if testPc (T (farHost A)) \<ge> 3 \<and> testPc (T A) \<le> 3 then [reply (farHost A)] else [])"

definition nt_inv :: "('n \<Rightarrow> int32 \<Rightarrow> byte list list) \<Rightarrow> 'n net \<Rightarrow> (int32 \<Rightarrow> tester) \<Rightarrow> bool" where
  "nt_inv q s T \<longleftrightarrow> net_wf q s \<and> (\<forall>A. A \<noteq> 0 \<and> A \<noteq> 1 \<longrightarrow> testPc (T A) = 4)
     \<and> (\<forall>A \<in> {0, 1}. tester_ok T A \<and> 2 \<le> numBoxes (stations s A) \<and> chanceToWork (stations s A) = 1
          \<and> (\<forall>box \<in> {0, 1}. mail_queue q s A box = expected T A box))"

section \<open>What the steps keep\<close>

lemma never_lost: "\<not> packet_lost r 1"
proof -
  have "- (- r mod 100) < 100" using pos_mod_sign [of 100 "- r"] by linarith
  then have "r smod 100 < 100" by (simp add: signed_modulo_int_def sgn_if)
  then show ?thesis by (simp add: packet_lost_def)
qed

definition static :: "'n net \<Rightarrow> int32 \<Rightarrow> int \<times> real" where
  "static s A = (numBoxes (stations s A), chanceToWork (stations s A))"

lemma poll_static: "net_poll S B s = Inr s' \<Longrightarrow> static s' = static s"
  by (auto simp: net_poll_def NetworkInput_CallBack_def PostOfficeInput_CallBack_def static_def fun_eq_iff Let_def res_simps
      split: if_splits prod.splits)

lemma put_static: "MailBox_Put b p m d h = Inr h' \<Longrightarrow> numBoxes h' = numBoxes h \<and> chanceToWork h' = chanceToWork h \<and> inHdr h' = inHdr h"
  by (auto simp: MailBox_Put_def res_simps)

lemma device_static:
  "NetworkInput_Receive b h = Inr (h', x) \<Longrightarrow> numBoxes h' = numBoxes h \<and> chanceToWork h' = chanceToWork h \<and> pktLength (inHdr h') = 0"
  by (auto simp: NetworkInput_Receive_def Let_def res_simps split: if_splits)

lemma delivery_static:
  "PostalDelivery b h = Some (Inr (h', x)) \<Longrightarrow> numBoxes h' = numBoxes h \<and> chanceToWork h' = chanceToWork h \<and> pktLength (inHdr h') = 0"
  by (auto simp: PostalDelivery_def Let_def res_simps dest!: put_static device_static split: if_splits)

lemma deliver_static:
  assumes "net_deliver b B s = Some (Inr s')"
  shows "static s' = static s" "wire s' = wire s" "pktLength (inHdr (stations s' B)) = 0" "messageAvailable (stations s B) \<noteq> 0"
proof -
  show "static s' = static s" "wire s' = wire s" "pktLength (inHdr (stations s' B)) = 0"
    using assms by (auto simp: net_deliver_def static_def fun_eq_iff res_simps dest!: delivery_static)
  show "messageAvailable (stations s B) \<noteq> 0" using assms by (cases "messageAvailable (stations s B) = 0") (simp_all add: net_deliver_def PostalDelivery_def)
qed

lemma receive_static: "net_receive B box s = Some (Inr (s', m)) \<Longrightarrow> static s' = static s"
  by (auto simp: net_receive_def PostOfficeInput_Receive_def MailBox_Get_def static_def fun_eq_iff res_simps split: if_splits sum.splits list.splits)

lemma send_static: "net_send S r junk b p m d A s = Inr s' \<Longrightarrow> static s' = static s"
  by (auto simp: net_send_def PostOfficeOutput_Send_def NetworkOutput_CallBack_def static_def fun_eq_iff Let_def res_simps)

lemma far_simps [simp]:
  "farHost 0 = 1" "farHost 1 = 0" "A \<in> {0, 1} \<Longrightarrow> farHost (farHost A) = A" "A \<in> {0, 1} \<Longrightarrow> farHost A \<noteq> A" "farHost A \<noteq> 0 \<longleftrightarrow> A = 0"
  by (auto simp: farHost_def)

lemma far_cases: "A \<in> {0, 1} \<Longrightarrow> B \<in> {0, 1} \<Longrightarrow> B = A \<or> B = farHost A" "farHost A \<in> {0, 1}"
  by (auto simp: farHost_def)

lemma nt_invD:
  assumes "nt_inv q s T" "A \<in> {0, 1}"
  shows "tester_ok T A" "tester_ok T (farHost A)" "is_box s A 0" "is_box s A 1" "chanceToWork (stations s A) = 1"
    "mail_queue q s A 0 = expected T A 0" "mail_queue q s A 1 = expected T A 1"
  using assms far_cases(2) [of A] by (auto simp: nt_inv_def is_box_def)

text \<open>A step of the network that changes no queue and no tester.\<close>

lemma nt_inv_quiet:
  assumes "nt_inv q s T" "net_wf q s'" "static s' = static s" "\<forall>C b. is_box s C b \<longrightarrow> mail_queue q s' C b = mail_queue q s C b"
  shows "nt_inv q s' T"
proof -
  have "numBoxes (stations s' A) = numBoxes (stations s A)" "chanceToWork (stations s' A) = chanceToWork (stations s A)" for A
    using fun_cong [OF assms(3), of A] by (simp_all add: static_def)
  then show ?thesis using assms(1,2,4) nt_invD(3,4) [OF assms(1)] by (auto simp: nt_inv_def)
qed

text \<open>A step of the test on one machine.\<close>

lemma nt_inv_step:
  assumes inv: "nt_inv q s T" and A: "A \<in> {0, 1}" and wf: "net_wf q s'" "static s' = static s"
    and t: "tester_ok (T(A := t)) A" "tester_ok (T(A := t)) (farHost A)"
    and qs: "\<And>b. b \<in> {0, 1} \<Longrightarrow> mail_queue q s' A b = expected (T(A := t)) A b"
      "\<And>b. b \<in> {0, 1} \<Longrightarrow> mail_queue q s' (farHost A) b = expected (T(A := t)) (farHost A) b"
  shows "nt_inv q s' (T(A := t))"
proof -
  have "numBoxes (stations s' A) = numBoxes (stations s A)" "chanceToWork (stations s' A) = chanceToWork (stations s A)" for A
    using fun_cong [OF wf(2), of A] by (simp_all add: static_def)
  moreover have "tester_ok (T(A := t)) B \<and> (\<forall>b \<in> {0, 1}. mail_queue q s' B b = expected (T(A := t)) B b)" if "B \<in> {0, 1}" for B
    using far_cases(1) [OF A that] t qs by metis
  ultimately show ?thesis using inv A wf(1) by (auto simp: nt_inv_def)
qed

lemma texts:
  "length hello = 13" "length got_it = 8" "unat (of_nat (length hello) :: int32) = 13" "unat (of_nat (length got_it) :: int32) = 8"
  by (simp_all add: hello_def got_it_def)

lemma test_send:
  assumes "fifo S q" "net_wf q s" "is_box s (pktTo p) (sint (mailTo m))" "chanceToWork (stations s A) = 1"
    "length junk = 64" "length buffer = 52" "unat (mailLength m) = length dat" "length dat \<le> 40"
  shows "\<exists>s'. net_send S r junk buffer p m dat A s = Inr s' \<and> net_wf q s'
    \<and> (\<forall>C b. mail_queue q s' C b = mail_queue q s C b @ (if C = pktTo p \<and> b = sint (mailTo m)
         then [\<lparr>mailPkt = \<lparr>pktTo = pktTo p, pktFrom = A, pktLength = mailLength m + 12\<rparr>, mailHdr = m, mailData = dat\<rparr>] else []))"
proof -
  have len: "unat (mailLength m) \<le> 40" "unat (mailLength m) \<le> length dat" using assms(7,8) by simp_all
  have eq: "p\<lparr>pktFrom := A, pktLength := mailLength m + 12\<rparr> = \<lparr>pktTo = pktTo p, pktFrom = A, pktLength = mailLength m + 12\<rparr>"
    "take (unat (mailLength m)) dat = dat" using assms(7) by simp_all
  show ?thesis
    using net_send_ok [OF assms(1,2) len assms(3,5,6) refl, of r A] unfolding eq assms(4) by (auto simp: never_lost)
qed

text \<open>Each part of the test on a machine.\<close>

lemma test_greets:
  assumes S: "fifo S q" and inv: "nt_inv q s T" and A: "A \<in> {0, 1}" and pc: "testPc (T A) = 0" and bufs: "length junk = 64" "length buffer = 52"
  shows "\<exists>t s'. NetworkTest_step S r junk buffer A (T A) s = Some (Inr (t, s')) \<and> testPc t = 1 \<and> nt_inv q s' (T(A := t))"
proof -
  note I = nt_invD [OF inv A] and F = nt_invD [OF inv far_cases(2) [of A]]
  let ?p = "(outPktHdr (T A))\<lparr>pktTo := farHost A\<rparr>" and ?m = "\<lparr>mailTo = 0, mailFrom = 1, mailLength = of_nat (length hello)\<rparr> :: mail_header"
  have wf: "net_wf q s" "is_box s (pktTo ?p) (sint (mailTo ?m))" using inv F(3) by (simp_all add: nt_inv_def)
  have len: "unat (mailLength ?m) = length hello" "length hello \<le> 40" by (simp_all add: texts)
  have g: "greeting A = \<lparr>mailPkt = \<lparr>pktTo = pktTo ?p, pktFrom = A, pktLength = mailLength ?m + 12\<rparr>, mailHdr = ?m, mailData = hello\<rparr>"
    by (simp add: greeting_def texts)
  obtain s' where s': "net_send S r junk buffer ?p ?m hello A s = Inr s'" "net_wf q s'"
      "\<forall>C b. mail_queue q s' C b = mail_queue q s C b @ (if C = pktTo ?p \<and> b = sint (mailTo ?m) then [greeting A] else [])"
    using test_send [OF S wf I(5) bufs len, of r] unfolding g by blast
  let ?t = "(T A)\<lparr>outPktHdr := ?p, outMailHdr := ?m, testPc := 1\<rparr>"
  have "nt_inv q s' (T(A := ?t))"
  proof (rule nt_inv_step [OF inv A s'(2) send_static [OF s'(1)]])
    show "tester_ok (T(A := ?t)) A" "tester_ok (T(A := ?t)) (farHost A)"
      using I(1,2) pc A by (auto simp: tester_ok_def Let_def)
    show "mail_queue q s' A b = expected (T(A := ?t)) A b" if "b \<in> {0, 1}" for b
      using that s'(3) [rule_format, of A b] I(6,7) pc A by (auto simp: expected_def)
    show "mail_queue q s' (farHost A) b = expected (T(A := ?t)) (farHost A) b" if "b \<in> {0, 1}" for b
      using that s'(3) [rule_format, of "farHost A" b] I(2) F(6,7) pc A by (auto simp: expected_def tester_ok_def Let_def)
  qed
  then show ?thesis using pc s'(1) by (simp add: NetworkTest_step_def)
qed

lemma test_acknowledges:
  assumes S: "fifo S q" and inv: "nt_inv q s T" and A: "A \<in> {0, 1}" and pc: "testPc (T A) = 2" and bufs: "length junk = 64" "length buffer = 52"
  shows "\<exists>t s'. NetworkTest_step S r junk buffer A (T A) s = Some (Inr (t, s')) \<and> testPc t = 3 \<and> nt_inv q s' (T(A := t))"
proof -
  note I = nt_invD [OF inv A] and F = nt_invD [OF inv far_cases(2) [of A]]
  have t: "mailFrom (outMailHdr (T A)) = 1" "pktFrom (inPktHdr (T A)) = farHost A" "mailFrom (inMailHdr (T A)) = 1"
    using I(1) pc by (simp_all add: tester_ok_def Let_def)
  let ?p = "(outPktHdr (T A))\<lparr>pktTo := pktFrom (inPktHdr (T A))\<rparr>"
    and ?m = "(outMailHdr (T A))\<lparr>mailTo := mailFrom (inMailHdr (T A)), mailLength := of_nat (length got_it)\<rparr>"
  have wf: "net_wf q s" "is_box s (pktTo ?p) (sint (mailTo ?m))" using inv F(4) t by (simp_all add: nt_inv_def)
  have len: "unat (mailLength ?m) = length got_it" "length got_it \<le> 40" by (simp_all add: texts)
  have m: "?m = \<lparr>mailTo = 1, mailFrom = 1, mailLength = 8\<rparr>" using t by (intro mail_header.equality) (simp_all add: texts)
  have g: "reply A = \<lparr>mailPkt = \<lparr>pktTo = pktTo ?p, pktFrom = A, pktLength = mailLength ?m + 12\<rparr>, mailHdr = ?m, mailData = got_it\<rparr>"
    unfolding m using t by (simp add: reply_def)
  obtain s' where s': "net_send S r junk buffer ?p ?m got_it A s = Inr s'" "net_wf q s'"
      "\<forall>C b. mail_queue q s' C b = mail_queue q s C b @ (if C = pktTo ?p \<and> b = sint (mailTo ?m) then [reply A] else [])"
    using test_send [OF S wf I(5) bufs len, of r] unfolding g by blast
  let ?t = "(T A)\<lparr>outPktHdr := ?p, outMailHdr := ?m, testPc := 3\<rparr>"
  have "nt_inv q s' (T(A := ?t))"
  proof (rule nt_inv_step [OF inv A s'(2) send_static [OF s'(1)]])
    show "tester_ok (T(A := ?t)) A" "tester_ok (T(A := ?t)) (farHost A)"
      using I(1,2) pc A by (auto simp: tester_ok_def Let_def)
    show "mail_queue q s' A b = expected (T(A := ?t)) A b" if "b \<in> {0, 1}" for b
      using that s'(3) [rule_format, of A b] I(6,7) pc A t by (auto simp: expected_def)
    show "mail_queue q s' (farHost A) b = expected (T(A := ?t)) (farHost A) b" if "b \<in> {0, 1}" for b
      using that s'(3) [rule_format, of "farHost A" b] I(2) F(6,7) pc A t by (auto simp: expected_def tester_ok_def Let_def)
  qed
  then show ?thesis using pc s'(1) by (simp add: NetworkTest_step_def)
qed

lemma test_hears:
  assumes S: "fifo S q" and inv: "nt_inv q s T" and A: "A \<in> {0, 1}" and pc: "(testPc (T A), box) \<in> {(1, 0), (3, 1)}"
    and l: "boxes (stations s A) ! nat box \<noteq> []"
  shows "\<exists>t s'. NetworkTest_step S r junk buffer A (T A) s = Some (Inr (t, s')) \<and> testPc t = testPc (T A) + 1 \<and> nt_inv q s' (T(A := t))"
proof -
  note I = nt_invD [OF inv A] and F = nt_invD [OF inv far_cases(2) [of A]]
  have wf: "net_wf q s" "is_box s A box" using inv I(3,4) pc by (auto simp: nt_inv_def)
  obtain m l where l: "boxes (stations s A) ! nat box = m # l" using l by (cases "boxes (stations s A) ! nat box") auto
  obtain s' where s': "net_receive A box s = Some (Inr (s', m))" "net_wf q s'" "mail_queue q s A box = m # mail_queue q s' A box"
      "\<forall>C b. is_box s C b \<and> (C, b) \<noteq> (A, box) \<longrightarrow> mail_queue q s' C b = mail_queue q s C b"
    using net_receive_ok [OF wf l] by blast
  define msg where "msg = (if box = 0 then greeting (farHost A) else reply (farHost A))"
  have "mail_queue q s A box = expected T A box" using I(6,7) pc by auto
  then have m: "m = msg" "mail_queue q s' A box = []" "testPc (T (farHost A)) \<ge> testPc (T A)"
    using s'(3) pc by (auto simp: expected_def msg_def split: if_splits)
  have len: "length (testBuf (T A)) = 40" using I(1) by (simp add: tester_ok_def Let_def)
  define b where "b = mailData msg @ drop (length (mailData msg)) (testBuf (T A))"
  have put: "buf_put (testBuf (T A)) 0 (mailData m) = Inr b" "length b = 40"
    using len unfolding m(1) by (auto simp: buf_put_def overlay_front b_def msg_def greeting_def reply_def texts)
  have line: "(takeWhile (\<lambda>x. x \<noteq> 0) b, pktFrom (mailPkt m), mailFrom (mailHdr m)) = test_lines A ! (testPc (T A) div 2)"
    using pc unfolding m(1) by (auto simp: b_def msg_def greeting_def reply_def hello_def got_it_def test_lines_def)
  let ?t = "(T A)\<lparr>inPktHdr := mailPkt m, inMailHdr := mailHdr m, testBuf := b, testPc := testPc (T A) + 1,
      testOut := testOut (T A) @ [test_lines A ! (testPc (T A) div 2)]\<rparr>"
  have run: "NetworkTest_step S r junk buffer A (T A) s = Some (Inr (?t, s'))"
    using pc s'(1) put(1) line by (auto simp: NetworkTest_step_def test_receive_def)
  have "nt_inv q s' (T(A := ?t))"
  proof (rule nt_inv_step [OF inv A s'(2) receive_static [OF s'(1)]])
    show "tester_ok (T(A := ?t)) A"
      using I(1) pc A m(1,3) put(2) by (auto simp: tester_ok_def Let_def msg_def greeting_def test_lines_def)
    show "tester_ok (T(A := ?t)) (farHost A)" using I(2) A pc by (auto simp: tester_ok_def Let_def)
    show "mail_queue q s' A c = expected (T(A := ?t)) A c" if "c \<in> {0, 1}" for c
    proof (cases "c = box")
      case True
      then show ?thesis using m(2) pc A by (auto simp: expected_def)
    next
      case False
      then have "mail_queue q s' A c = expected T A c" using that s'(4) I(3,4,6,7) by auto
      then show ?thesis using False that pc A by (auto simp: expected_def)
    qed
    show "mail_queue q s' (farHost A) c = expected (T(A := ?t)) (farHost A) c" if "c \<in> {0, 1}" for c
    proof -
      have "mail_queue q s' (farHost A) c = mail_queue q s (farHost A) c" using that s'(4) F(3,4) far_simps(4) [OF A] by auto
      then have "mail_queue q s' (farHost A) c = expected T (farHost A) c" using that F(6,7) by auto
      then show ?thesis using pc A by (auto simp: expected_def)
    qed
  qed
  then show ?thesis using run by (intro exI [of _ ?t] exI [of _ s']) simp
qed

text \<open>A test that waits goes on exactly when its mailbox has a message.\<close>

lemma net_receive_waits:
  assumes "net_wf q s" "is_box s A box" "boxes (stations s A) ! nat box = []"
  shows "net_receive A box s = None"
  using assms by (simp add: net_receive_def PostOfficeInput_Receive_def MailBox_Get_def arr_get_def is_box_def net_wf_def station_wf_def)

lemma test_step_ok:
  assumes S: "fifo S q" and inv: "nt_inv q s T" and bufs: "length junk = 64" "length buffer = 52"
    and run: "NetworkTest_step S r junk buffer A (T A) s = Some x"
  shows "\<exists>t s'. x = Inr (t, s') \<and> nt_inv q s' (T(A := t))"
proof -
  have pc: "testPc (T A) < 4" using run by (auto simp: NetworkTest_step_def split: if_splits)
  then have A: "A \<in> {0, 1}" using inv by (auto simp: nt_inv_def)
  note I = nt_invD [OF inv A]
  have wf: "net_wf q s" using inv by (simp add: nt_inv_def)
  consider "testPc (T A) = 0" | "testPc (T A) = 1" | "testPc (T A) = 2" | "testPc (T A) = 3" using pc by linarith
  then show ?thesis
  proof cases
    case 1 then show ?thesis using test_greets [OF S inv A 1 bufs, of r] run by auto
  next
    case 2
    then have "boxes (stations s A) ! nat 0 \<noteq> []"
      using run net_receive_waits [OF wf I(3)] by (auto simp: NetworkTest_step_def test_receive_def)
    then show ?thesis using test_hears [OF S inv A _, of 0 r junk buffer] 2 run by auto
  next
    case 3 then show ?thesis using test_acknowledges [OF S inv A 3 bufs, of r] run by auto
  next
    case 4
    then have "boxes (stations s A) ! nat 1 \<noteq> []"
      using run net_receive_waits [OF wf I(4)] by (auto simp: NetworkTest_step_def test_receive_def)
    then show ?thesis using test_hears [OF S inv A _, of 1 r junk buffer] 4 run by auto
  qed
qed

lemma poll_step_ok:
  assumes S: "fifo S q" and inv: "nt_inv q s T"
  shows "\<exists>s'. net_poll S B s = Inr s' \<and> nt_inv q s' T"
proof -
  have wf: "net_wf q s" using inv by (simp add: nt_inv_def)
  obtain s' where s': "net_poll S B s = Inr s'" "net_wf q s'" "mail_queue q s' = mail_queue q s" using net_poll_ok [OF S wf] by blast
  then show ?thesis using nt_inv_quiet [OF inv s'(2) poll_static [OF s'(1)]] by simp
qed

lemma deliver_step_ok:
  assumes inv: "nt_inv q s T" and "messageAvailable (stations s B) \<noteq> 0" "length buffer = 52"
  shows "\<exists>s'. net_deliver buffer B s = Some (Inr s') \<and> nt_inv q s' T"
proof -
  have wf: "net_wf q s" using inv by (simp add: nt_inv_def)
  obtain s' where s': "net_deliver buffer B s = Some (Inr s')" "net_wf q s'" "\<forall>C b. is_box s C b \<longrightarrow> mail_queue q s' C b = mail_queue q s C b"
    using net_deliver_ok [OF wf assms(2,3)] by blast
  then show ?thesis using nt_inv_quiet [OF inv s'(2) deliver_static(1) [OF s'(1)] s'(3)] by simp
qed

inductive_cases nt_stepE: "nt_step S (s, T) (s', T')"

lemma nt_inv_preserved:
  assumes S: "fifo S q" and inv: "nt_inv q s T" and step: "nt_step S (s, T) (s', T')"
  shows "nt_inv q s' T'"
  using step
proof (rule nt_stepE)
  show ?thesis if "T' = T(A := t)" "NetworkTest_step S r junk buffer A (T A) s = Some (Inr (t, s'))" "length junk = 64" "length buffer = 52"
    for r junk buffer A t using test_step_ok [OF S inv that(3,4,2)] that(1) by auto
  show ?thesis if "T' = T" "net_poll S B s = Inr s'" for B using poll_step_ok [OF S inv, of B] that by auto
  show ?thesis if "T' = T" "net_deliver buffer B s = Some (Inr s')" "length buffer = 52" for buffer B
    using deliver_step_ok [OF inv deliver_static(4) [OF that(2)] that(3)] that(1,2) by auto
qed

lemma nt_inv_reachable:
  assumes S: "fifo S q" and "(nt_step S)\<^sup>*\<^sup>* x y" and "nt_inv q (fst x) (snd x)"
  shows "nt_inv q (fst y) (snd y)"
  using assms(2,3)
proof induction
  case (step y z)
  then show ?case using nt_inv_preserved [OF S, of "fst y" "snd y" "fst z" "snd z"] by simp
qed

section \<open>Progress\<close>

definition distance :: "('n \<Rightarrow> int32 \<Rightarrow> byte list list) \<Rightarrow> 'n net \<Rightarrow> int32 \<Rightarrow> nat" where
  "distance q s A = 2 * length (q (wire s) A) + (if pktLength (inHdr (stations s A)) = 0 then 0 else 1)"

lemma poll_closer:
  assumes "fifo S q" "net_wf q s" "net_poll S A s = Inr s'" "q (wire s) A \<noteq> []" "pktLength (inHdr (stations s A)) = 0"
  shows "distance q s' A < distance q s A"
proof -
  obtain p ps where p: "q (wire s) A = p # ps" using assms(4) by (cases "q (wire s) A") auto
  obtain n where n: "ReadFromSocket S A (wire s) = (p, n)" "q n = (q (wire s))(A := ps)" using assms(1) p unfolding fifo_def by blast
  have "hostName (stations s A) = A" using assms(2) by (simp add: net_wf_def station_wf_def)
  moreover have "PollSocket S A (wire s)" using assms(1,4) by (simp add: fifo_def)
  ultimately have "wire s' = n" using assms(3,5) n(1)
    by (auto simp: net_poll_def NetworkInput_CallBack_def Let_def res_simps split: if_splits)
  then show ?thesis using p n(2) assms(5) by (simp add: distance_def)
qed

lemma deliver_closer:
  assumes "net_deliver buffer A s = Some (Inr s')" "pktLength (inHdr (stations s A)) \<noteq> 0"
  shows "distance q s' A < distance q s A"
  using deliver_static(2,3) [OF assms(1)] assms(2) by (simp add: distance_def)

text \<open>A message on its way to a mailbox gets there, by steps of the network of its machine alone.\<close>

lemma message_arrives:
  assumes S: "fifo S q" and inv: "nt_inv q s T" and A: "A \<in> {0, 1}" and box: "box \<in> {0, 1}" and ex: "expected T A box \<noteq> []"
  shows "\<exists>s'. (nt_step S)\<^sup>*\<^sup>* (s, T) (s', T) \<and> nt_inv q s' T \<and> boxes (stations s' A) ! nat box \<noteq> []"
  using inv
proof (induction "distance q s A" arbitrary: s rule: less_induct)
  case less
  show ?case
  proof (cases "boxes (stations s A) ! nat box = []")
    case False
    then show ?thesis using less.prems by blast
  next
    case True
    have wf: "net_wf q s" using less.prems by (simp add: nt_inv_def)
    then have st: "station_wf (q (wire s) A) A (stations s A)" by (simp add: net_wf_def)
    have "mail_queue q s A box \<noteq> []" using nt_invD(6,7) [OF less.prems A] box ex by auto
    then have tr: "transit (q (wire s) A) (stations s A) \<noteq> []" using True by (auto simp: mail_queue_def box_queue_def)
    have "\<exists>s'. nt_step S (s, T) (s', T) \<and> nt_inv q s' T \<and> distance q s' A < distance q s A"
    proof (cases "pktLength (inHdr (stations s A)) = 0")
      case True
      then have "q (wire s) A \<noteq> []" using tr by (simp add: transit_def)
      then show ?thesis using poll_step_ok [OF S less.prems, of A] poll_closer [OF S wf _ _ True] nt_poll by blast
    next
      case False
      then have "messageAvailable (stations s A) \<noteq> 0" using st by (simp add: station_wf_def)
      then obtain s' where "net_deliver (replicate 52 0) A s = Some (Inr s')" "nt_inv q s' T"
        using deliver_step_ok [OF less.prems, of A "replicate 52 0"] by auto
      then show ?thesis using deliver_closer [OF _ False] nt_deliver [of "replicate 52 0" A s s' S T] by auto
    qed
    then obtain s' where s': "nt_step S (s, T) (s', T)" "nt_inv q s' T" "distance q s' A < distance q s A" by blast
    show ?thesis using less.hyps [OF s'(3,2)] converse_rtranclp_into_rtranclp [of "nt_step S", OF s'(1)] by blast
  qed
qed

text \<open>The test that is not ahead of the other one can go on.\<close>

lemma test_advances:
  assumes S: "fifo S q" and inv: "nt_inv q s T" and A: "A \<in> {0, 1}"
    and pc: "testPc (T A) < 4" "testPc (T A) \<le> testPc (T (farHost A))"
  shows "\<exists>s' t. (nt_step S)\<^sup>*\<^sup>* (s, T) (s', T(A := t)) \<and> nt_inv q s' (T(A := t)) \<and> testPc t = testPc (T A) + 1"
proof -
  let ?j = "replicate 64 (0 :: byte)" and ?b = "replicate 52 (0 :: byte)"
  have bufs: "length ?j = 64" "length ?b = 52" by simp_all
  have hears: ?thesis if at: "(testPc (T A), box) \<in> {(1, 0), (3, 1)}" for box :: int
  proof -
    have box: "box \<in> {0, 1}" "expected T A box \<noteq> []" using at pc by (auto simp: expected_def)
    obtain s1 where s1: "(nt_step S)\<^sup>*\<^sup>* (s, T) (s1, T)" "nt_inv q s1 T" "boxes (stations s1 A) ! nat box \<noteq> []"
      using message_arrives [OF S inv A box] by blast
    obtain t s' where "NetworkTest_step S 0 ?j ?b A (T A) s1 = Some (Inr (t, s'))" "testPc t = testPc (T A) + 1" "nt_inv q s' (T(A := t))"
      using test_hears [OF S s1(2) A at s1(3), of 0 ?j ?b] by blast
    then show ?thesis using rtranclp.rtrancl_into_rtrancl [OF s1(1) nt_test [OF _ bufs]] by blast
  qed
  consider "testPc (T A) = 0" | "testPc (T A) = 1" | "testPc (T A) = 2" | "testPc (T A) = 3" using pc(1) by linarith
  then show ?thesis
  proof cases
    case 1 then show ?thesis using test_greets [OF S inv A 1 bufs, of 0] nt_test [OF _ bufs, of S 0 A T s] by fastforce
  next
    case 2 then show ?thesis using hears by simp
  next
    case 3 then show ?thesis using test_acknowledges [OF S inv A 3 bufs, of 0] nt_test [OF _ bufs, of S 0 A T s] by fastforce
  next
    case 4 then show ?thesis using hears by simp
  qed
qed

lemma tests_finish:
  assumes S: "fifo S q" and inv: "nt_inv q s T"
  shows "\<exists>s' T'. (nt_step S)\<^sup>*\<^sup>* (s, T) (s', T') \<and> nt_inv q s' T' \<and> testPc (T' 0) = 4 \<and> testPc (T' 1) = 4"
  using inv
proof (induction "8 - (testPc (T 0) + testPc (T 1))" arbitrary: s T rule: less_induct)
  case less
  have le: "testPc (T 0) \<le> 4" "testPc (T 1) \<le> 4" using nt_invD(1) [OF less.prems] by (simp_all add: tester_ok_def Let_def)
  show ?case
  proof (cases "testPc (T 0) = 4 \<and> testPc (T 1) = 4")
    case True
    then show ?thesis using less.prems by blast
  next
    case False
    define A :: int32 where "A = (if testPc (T 0) \<le> testPc (T 1) then 0 else 1)"
    have A: "A \<in> {0, 1}" "testPc (T A) < 4" "testPc (T A) \<le> testPc (T (farHost A))" using False le by (auto simp: A_def)
    obtain s1 t where s1: "(nt_step S)\<^sup>*\<^sup>* (s, T) (s1, T(A := t))" "nt_inv q s1 (T(A := t))" "testPc t = testPc (T A) + 1"
      using test_advances [OF S less.prems A] by blast
    have "8 - (testPc ((T(A := t)) 0) + testPc ((T(A := t)) 1)) < 8 - (testPc (T 0) + testPc (T 1))"
      using s1(3) A(1,2) le by auto
    then show ?thesis using less.hyps [OF _ s1(2)] rtranclp_trans [OF s1(1)] by blast
  qed
qed

lemma nt_inv_start:
  assumes "net_wf q s" "\<forall>A \<in> {0, 1}. 2 \<le> numBoxes (stations s A) \<and> chanceToWork (stations s A) = 1
      \<and> mail_queue q s A 0 = [] \<and> mail_queue q s A 1 = [] \<and> length (testBuf (t A)) = 40"
  shows "nt_inv q s (\<lambda>A. NetworkTest_start A (t A))"
  using assms by (auto simp: nt_inv_def tester_ok_def expected_def NetworkTest_start_def Let_def)


text \<open>C22, on machines with ten mailboxes each, whose sockets are queues, at the start.\<close>

definition tester0 :: tester where
  "tester0 = \<lparr>testPc = 0, outPktHdr = \<lparr>pktTo = 0, pktFrom = 0, pktLength = 0\<rparr>, outMailHdr = \<lparr>mailTo = 0, mailFrom = 0, mailLength = 0\<rparr>,
     inPktHdr = \<lparr>pktTo = 0, pktFrom = 0, pktLength = 0\<rparr>, inMailHdr = \<lparr>mailTo = 0, mailFrom = 0, mailLength = 0\<rparr>,
     testBuf = replicate 40 0, testOut = []\<rparr>"


end
