(* ===== verification/Stacks.thy ===== *)
theory Stacks
  imports CList
begin

text \<open>
  The example classes of \<^verbatim>\<open>c++example\<close>: an abstract stack with two implementations
  (\<^verbatim>\<open>inheritstack.h\<close>, \<^verbatim>\<open>inheritstack.cc\<close>), one on an array and one on the linked list of
  \<^verbatim>\<open>list.cc\<close>, and the stack template of \<^verbatim>\<open>templatestack.cc\<close>. The virtual functions of the abstract
  class are the parameters of a locale, its test routine is the client whose behaviour is
  proved once, and each class is an interpretation.
\<close>

section \<open>Stacks on an array\<close>

text \<open>\<open>junk\<close> is what \<open>new\<close> finds in the memory of the array.\<close>

record 'v array_stack =
  stackSize :: int
  stackTop :: int
  stackArr :: "'v list"

definition ArrayStack_new :: "(nat \<Rightarrow> 'v) \<Rightarrow> int \<Rightarrow> 'v array_stack res" where
  "ArrayStack_new junk sz = ASSERT (sz \<ge> 1) (Inr \<lparr>stackSize = sz, stackTop = 0, stackArr = map junk [0..<nat sz]\<rparr>)"

definition ArrayStack_Full :: "'v array_stack \<Rightarrow> bool" where
  "ArrayStack_Full s \<longleftrightarrow> stackTop s = stackSize s"

definition ArrayStack_Empty :: "'v array_stack \<Rightarrow> bool" where
  "ArrayStack_Empty s \<longleftrightarrow> stackTop s = 0"

definition ArrayStack_Push :: "'v array_stack \<Rightarrow> 'v \<Rightarrow> 'v array_stack res" where
  "ArrayStack_Push s v =
     ASSERT (\<not> ArrayStack_Full s) (
     bindR (arr_set (stackArr s) (stackTop s) v) (\<lambda>a. Inr (s\<lparr>stackArr := a, stackTop := stackTop s + 1\<rparr>)))"

definition ArrayStack_Pop :: "'v array_stack \<Rightarrow> ('v array_stack \<times> 'v) res" where
  "ArrayStack_Pop s =
     ASSERT (\<not> ArrayStack_Empty s) (
     let s = s\<lparr>stackTop := stackTop s - 1\<rparr> in
     bindR (arr_get (stackArr s) (stackTop s)) (\<lambda>v. Inr (s, v)))"

section \<open>The list and stacks on it\<close>

record xlist =
  xfirst :: "addr option"
  xlast :: "addr option"

definition XList_new :: xlist where
  "XList_new = \<lparr>xfirst = None, xlast = None\<rparr>"

definition XList_Empty :: "xlist \<Rightarrow> bool" where
  "XList_Empty l \<longleftrightarrow> xfirst l = None"

definition XList_Prepend :: "'v store \<Rightarrow> xlist \<Rightarrow> 'v \<Rightarrow> ('v store \<times> xlist) res" where
  "XList_Prepend m l v =
     (let (m, element) = ListElement_new m v in
      if XList_Empty l then Inr (m, l\<lparr>xfirst := Some element, xlast := Some element\<rparr>)
      else bindR (set_next m (Some element) (xfirst l)) (\<lambda>m. Inr (m, l\<lparr>xfirst := Some element\<rparr>)))"

definition XList_Remove :: "'v store \<Rightarrow> xlist \<Rightarrow> ('v store \<times> xlist \<times> 'v) res" where
  "XList_Remove m l =
     ASSERT (\<not> XList_Empty l) (
     bindR (deref m (xfirst l)) (\<lambda>element.
     let l' = (if xfirst l = xlast l then l\<lparr>xfirst := None, xlast := None\<rparr> else l\<lparr>xfirst := next element\<rparr>) in
     Inr (delete_element m (the (xfirst l)), l', item element)))"

partial_function (option) XList_delete :: "'v store \<Rightarrow> xlist \<Rightarrow> 'v store res option" where
  "XList_delete m l =
     (if XList_Empty l then Some (Inr m)
      else case XList_Remove m l of Inl e \<Rightarrow> Some (Inl e) | Inr (m, l, _) \<Rightarrow> XList_delete m l)"

text \<open>A stack of this class is its list together with the store that the elements are in.\<close>

type_synonym 'v list_stack = "'v store \<times> xlist"

definition ListStack_new :: "'v store \<Rightarrow> 'v list_stack" where
  "ListStack_new m = (m, XList_new)"

definition ListStack_Full :: "'v list_stack \<Rightarrow> bool" where
  "ListStack_Full s = False"

definition ListStack_Empty :: "'v list_stack \<Rightarrow> bool" where
  "ListStack_Empty s = XList_Empty (snd s)"

definition ListStack_Push :: "'v list_stack \<Rightarrow> 'v \<Rightarrow> 'v list_stack res" where
  "ListStack_Push = (\<lambda>(m, l) v. XList_Prepend m l v)"

definition ListStack_Pop :: "'v list_stack \<Rightarrow> ('v list_stack \<times> 'v) res" where
  "ListStack_Pop s = ASSERT (\<not> ListStack_Empty s) (bindR (XList_Remove (fst s) (snd s)) (\<lambda>(m, l, v). Inr ((m, l), v)))"

section \<open>The test routine\<close>

text \<open>
  \<open>Stack::SelfTest\<close> calls the virtual functions of the object that it runs on: they are its
  arguments. It prints what it pushes and what it pops.
\<close>

datatype 'v stack_out = Pushing 'v | Popping 'v

fun SelfTest_push :: "('s \<Rightarrow> bool) \<Rightarrow> ('s \<Rightarrow> 'v \<Rightarrow> 's res) \<Rightarrow> ('v \<Rightarrow> 'v) \<Rightarrow> nat \<Rightarrow> 'v \<Rightarrow> 's \<Rightarrow> ('s \<times> 'v stack_out list) res" where
  "SelfTest_push full push inc 0 cnt s = Inr (s, [])"
| "SelfTest_push full push inc (Suc n) cnt s =
     ASSERT (\<not> full s) (
     bindR (push s cnt) (\<lambda>s.
     bindR (SelfTest_push full push inc n (inc cnt) s) (\<lambda>(s, out). Inr (s, Pushing cnt # out))))"

partial_function (option) SelfTest_pop :: "('s \<Rightarrow> bool) \<Rightarrow> ('s \<Rightarrow> ('s \<times> 'v) res) \<Rightarrow> 's \<Rightarrow> 'v stack_out list \<Rightarrow> ('s \<times> 'v stack_out list) res option" where
  "SelfTest_pop emp pop s out =
     (if emp s then Some (Inr (s, out))
      else case pop s of Inl e \<Rightarrow> Some (Inl e) | Inr (s, v) \<Rightarrow> SelfTest_pop emp pop s (out @ [Popping v]))"

definition Stack_SelfTest :: "('s \<Rightarrow> bool) \<Rightarrow> ('s \<Rightarrow> bool) \<Rightarrow> ('s \<Rightarrow> int \<Rightarrow> 's res) \<Rightarrow> ('s \<Rightarrow> ('s \<times> int) res)
    \<Rightarrow> nat \<Rightarrow> 's \<Rightarrow> ('s \<times> int stack_out list) res" where
  "Stack_SelfTest full emp push pop numToPush s =
     bindR (SelfTest_push full push (\<lambda>c. c + 1) numToPush 17 s) (\<lambda>(s, out).
     returning (SelfTest_pop emp pop s out))"

definition inheritstack_main :: "(nat \<Rightarrow> int) \<Rightarrow> int store \<Rightarrow> (int stack_out list \<times> int stack_out list) res" where
  "inheritstack_main junk m =
     bindR (ArrayStack_new junk 10) (\<lambda>s1.
     let s2 = ListStack_new m in
     bindR (Stack_SelfTest ArrayStack_Full ArrayStack_Empty ArrayStack_Push ArrayStack_Pop 10 s1) (\<lambda>(s1, out1).
     bindR (Stack_SelfTest ListStack_Full ListStack_Empty ListStack_Push ListStack_Pop 10 s2) (\<lambda>((m, l), out2).
     bindR (returning (XList_delete m l)) (\<lambda>_. Inr (out1, out2)))))"

section \<open>The template\<close>

text \<open>The class \<open>Stack<T>\<close>; its test pushes until the stack is full.\<close>

definition TStack_new :: "(nat \<Rightarrow> 'v) \<Rightarrow> int \<Rightarrow> 'v array_stack res" where
  "TStack_new junk sz = ASSERT (sz \<ge> 1) (Inr \<lparr>stackSize = sz, stackTop = 0, stackArr = map junk [0..<nat sz]\<rparr>)"

definition TStack_Full :: "'v array_stack \<Rightarrow> bool" where
  "TStack_Full s \<longleftrightarrow> stackTop s = stackSize s"

definition TStack_Empty :: "'v array_stack \<Rightarrow> bool" where
  "TStack_Empty s \<longleftrightarrow> stackTop s = 0"

definition TStack_Push :: "'v array_stack \<Rightarrow> 'v \<Rightarrow> 'v array_stack res" where
  "TStack_Push s v =
     ASSERT (\<not> TStack_Full s) (
     bindR (arr_set (stackArr s) (stackTop s) v) (\<lambda>a. Inr (s\<lparr>stackArr := a, stackTop := stackTop s + 1\<rparr>)))"

definition TStack_Pop :: "'v array_stack \<Rightarrow> ('v array_stack \<times> 'v) res" where
  "TStack_Pop s =
     ASSERT (\<not> TStack_Empty s) (
     let s = s\<lparr>stackTop := stackTop s - 1\<rparr> in
     bindR (arr_get (stackArr s) (stackTop s)) (\<lambda>v. Inr (s, v)))"

partial_function (option) TStack_fill :: "('v \<Rightarrow> 'v) \<Rightarrow> 'v \<Rightarrow> 'v array_stack \<Rightarrow> 'v stack_out list \<Rightarrow> ('v array_stack \<times> 'v stack_out list) res option" where
  "TStack_fill inc cnt s out =
     (if TStack_Full s then Some (Inr (s, out))
      else case TStack_Push s cnt of Inl e \<Rightarrow> Some (Inl e)
           | Inr s \<Rightarrow> TStack_fill inc (inc cnt) s (out @ [Pushing cnt]))"

definition TStack_SelfTest :: "('v \<Rightarrow> 'v) \<Rightarrow> 'v \<Rightarrow> 'v array_stack \<Rightarrow> ('v array_stack \<times> 'v stack_out list) res" where
  "TStack_SelfTest inc start s =
     bindR (returning (TStack_fill inc start s [])) (\<lambda>(s, out).
     returning (SelfTest_pop TStack_Empty TStack_Pop s out))"

definition templatestack_main :: "(nat \<Rightarrow> int) \<Rightarrow> (nat \<Rightarrow> 8 word) \<Rightarrow> (int stack_out list \<times> 8 word stack_out list) res" where
  "templatestack_main junk1 junk2 =
     bindR (TStack_new junk1 10) (\<lambda>s1.
     bindR (TStack_new junk2 10) (\<lambda>s2.
     bindR (TStack_SelfTest (\<lambda>c. c + 1) 17 s1) (\<lambda>(s1, out1).
     bindR (TStack_SelfTest (\<lambda>c. c + 1) (of_char CHR ''a'') s2) (\<lambda>(s2, out2).
     Inr (out1, out2)))))"

section \<open>What a stack promises\<close>

text \<open>
  \<open>holds s vs\<close>: the stack \<open>s\<close> holds the values \<open>vs\<close>, the top first; \<open>room s\<close> is the number of
  values that it still takes, if it is bounded.
\<close>

locale bounded_stack =
  fixes full :: "'s \<Rightarrow> bool" and emp :: "'s \<Rightarrow> bool" and push :: "'s \<Rightarrow> 'v \<Rightarrow> 's res" and pop :: "'s \<Rightarrow> ('s \<times> 'v) res"
    and holds :: "'s \<Rightarrow> 'v list \<Rightarrow> bool" and room :: "'s \<Rightarrow> nat option"
  assumes emp_iff: "holds s vs \<Longrightarrow> emp s \<longleftrightarrow> vs = []"
    and full_iff: "holds s vs \<Longrightarrow> full s \<longleftrightarrow> room s = Some 0"
    and push_ok: "holds s vs \<Longrightarrow> room s \<noteq> Some 0 \<Longrightarrow>
      \<exists>s'. push s v = Inr s' \<and> holds s' (v # vs) \<and> room s' = map_option (\<lambda>n. n - 1) (room s)"
    and push_full: "holds s vs \<Longrightarrow> room s = Some 0 \<Longrightarrow> push s v = Inl AssertFailed"
    and pop_ok: "holds s (v # vs) \<Longrightarrow> \<exists>s'. pop s = Inr (s', v) \<and> holds s' vs"
    and pop_empty: "holds s [] \<Longrightarrow> pop s = Inl AssertFailed"

text \<open>The values that a test pushes: \<open>n\<close> of them, beginning with \<open>cnt\<close>, and what it prints.\<close>

fun counted :: "('v \<Rightarrow> 'v) \<Rightarrow> nat \<Rightarrow> 'v \<Rightarrow> 'v list" where
  "counted inc 0 cnt = []"
| "counted inc (Suc n) cnt = cnt # counted inc n (inc cnt)"

definition test_output :: "'v list \<Rightarrow> 'v stack_out list" where
  "test_output vs = map Pushing vs @ map Popping (rev vs)"

context bounded_stack
begin

lemma push_all:
  assumes "holds s vs" "\<forall>k. room s = Some k \<longrightarrow> n \<le> k"
  shows "\<exists>s'. SelfTest_push full push inc n cnt s = Inr (s', map Pushing (counted inc n cnt))
    \<and> holds s' (rev (counted inc n cnt) @ vs)"
  using assms
proof (induction n arbitrary: s cnt vs)
  case (Suc n)
  have r: "room s \<noteq> Some 0" using Suc.prems(2) by auto
  obtain s1 where s1: "push s cnt = Inr s1" "holds s1 (cnt # vs)" "room s1 = map_option (\<lambda>n. n - 1) (room s)"
    using push_ok [OF Suc.prems(1) r] by blast
  have "\<forall>k. room s1 = Some k \<longrightarrow> n \<le> k" using s1(3) Suc.prems(2) by auto
  then obtain s2 where "SelfTest_push full push inc n (inc cnt) s1 = Inr (s2, map Pushing (counted inc n (inc cnt)))"
      "holds s2 (rev (counted inc n (inc cnt)) @ cnt # vs)"
    using Suc.IH [OF s1(2)] by blast
  then show ?case using s1(1) r full_iff [OF Suc.prems(1)] by auto
qed simp

lemma push_too_many:
  "holds s vs \<Longrightarrow> room s = Some k \<Longrightarrow> k < n \<Longrightarrow> SelfTest_push full push inc n cnt s = Inl AssertFailed"
proof (induction n arbitrary: s cnt vs k)
  case (Suc n)
  show ?case
  proof (cases k)
    case (Suc j)
    obtain s1 where s1: "push s cnt = Inr s1" "holds s1 (cnt # vs)" "room s1 = Some j"
      using push_ok [OF Suc.prems(1), of cnt] Suc.prems(2) Suc by auto
    then show ?thesis using Suc.IH [OF s1(2,3), of "inc cnt"] Suc Suc.prems full_iff [OF Suc.prems(1)] by auto
  qed (use Suc.prems full_iff [OF Suc.prems(1)] in auto)
qed simp

lemma pop_all:
  assumes "holds s vs"
  shows "\<exists>s'. SelfTest_pop emp pop s out = Some (Inr (s', out @ map Popping vs)) \<and> holds s' []"
  using assms
proof (induction vs arbitrary: s out)
  case Nil
  then show ?case using emp_iff [OF Nil.prems] by (subst SelfTest_pop.simps) simp
next
  case (Cons v vs)
  obtain s1 where s1: "pop s = Inr (s1, v)" "holds s1 vs" using pop_ok [OF Cons.prems] by blast
  have "SelfTest_pop emp pop s out = SelfTest_pop emp pop s1 (out @ [Popping v])"
    using emp_iff [OF Cons.prems] s1(1) by (subst SelfTest_pop.simps) auto
  then show ?case using Cons.IH [OF s1(2), of "out @ [Popping v]"] by auto
qed

text \<open>The test prints the values that it pushes and pops them in the opposite order.\<close>

lemma push_pop_all:
  assumes "holds s []" "\<forall>k. room s = Some k \<longrightarrow> n \<le> k"
  shows "\<exists>s'. bindR (SelfTest_push full push inc n cnt s) (\<lambda>(s, out). returning (SelfTest_pop emp pop s out))
      = Inr (s', test_output (counted inc n cnt)) \<and> holds s' []"
proof -
  obtain s1 where s1: "SelfTest_push full push inc n cnt s = Inr (s1, map Pushing (counted inc n cnt))"
      "holds s1 (rev (counted inc n cnt))"
    using push_all [OF assms] by auto
  then show ?thesis using pop_all [OF s1(2), of "map Pushing (counted inc n cnt)"] by (auto simp: test_output_def)
qed

end

subsection \<open>The array keeps the promise\<close>

definition array_holds :: "'v array_stack \<Rightarrow> 'v list \<Rightarrow> bool" where
  "array_holds s vs \<longleftrightarrow> int (length (stackArr s)) = stackSize s \<and> 0 \<le> stackTop s \<and> stackTop s \<le> stackSize s
     \<and> vs = rev (take (nat (stackTop s)) (stackArr s))"

definition array_room :: "'v array_stack \<Rightarrow> nat option" where
  "array_room s = Some (nat (stackSize s - stackTop s))"

lemma array_new_holds: "sz \<ge> 1 \<Longrightarrow> \<exists>s. ArrayStack_new junk sz = Inr s \<and> array_holds s [] \<and> array_room s = Some (nat sz)"
  by (simp add: ArrayStack_new_def array_holds_def array_room_def)

lemma array_push_holds:
  assumes "array_holds s vs" "stackTop s < stackSize s"
  shows "array_holds (s\<lparr>stackArr := (stackArr s)[nat (stackTop s) := v], stackTop := stackTop s + 1\<rparr>) (v # vs)"
  using assms by (auto simp: array_holds_def take_Suc_conv_app_nth nat_add_distrib)

lemma array_pop_holds:
  assumes "array_holds s (v # vs)"
  shows "stackTop s > 0" "stackArr s ! nat (stackTop s - 1) = v" "array_holds (s\<lparr>stackTop := stackTop s - 1\<rparr>) vs"
proof -
  have "rev (v # vs) = take (nat (stackTop s)) (stackArr s)" using assms by (simp add: array_holds_def)
  then have t: "take (nat (stackTop s)) (stackArr s) = rev vs @ [v]" by simp
  show pos: "stackTop s > 0" using t assms by (cases "stackTop s = 0") (auto simp: array_holds_def)
  have "take (Suc (nat (stackTop s - 1))) (stackArr s) = rev vs @ [v]" using t pos by (simp add: Suc_nat_eq_nat_zadd1)
  moreover have "nat (stackTop s - 1) < length (stackArr s)" using assms pos by (auto simp: array_holds_def)
  ultimately show "stackArr s ! nat (stackTop s - 1) = v" "array_holds (s\<lparr>stackTop := stackTop s - 1\<rparr>) vs"
    using assms pos by (auto simp: array_holds_def take_Suc_conv_app_nth)
qed

interpretation arrays: bounded_stack ArrayStack_Full ArrayStack_Empty ArrayStack_Push ArrayStack_Pop array_holds array_room
proof unfold_locales
  fix s :: "'v array_stack" and v and vs
  show "ArrayStack_Empty s \<longleftrightarrow> vs = []" if "array_holds s vs"
    using that by (auto simp: ArrayStack_Empty_def array_holds_def)
  show "ArrayStack_Full s \<longleftrightarrow> array_room s = Some 0" if "array_holds s vs"
    using that by (auto simp: ArrayStack_Full_def array_holds_def array_room_def)
  show "\<exists>s'. ArrayStack_Push s v = Inr s' \<and> array_holds s' (v # vs) \<and> array_room s' = map_option (\<lambda>n. n - 1) (array_room s)"
    if "array_holds s vs" "array_room s \<noteq> Some 0"
  proof -
    have lt: "stackTop s < stackSize s" using that by (auto simp: array_room_def array_holds_def)
    then show ?thesis using array_push_holds [OF that(1) lt, of v] that(1)
      by (auto simp: ArrayStack_Push_def ArrayStack_Full_def array_room_def array_holds_def nat_diff_distrib)
  qed
  show "ArrayStack_Push s v = Inl AssertFailed" if "array_holds s vs" "array_room s = Some 0"
    using that by (auto simp: ArrayStack_Push_def ArrayStack_Full_def array_room_def array_holds_def)
  show "\<exists>s'. ArrayStack_Pop s = Inr (s', v) \<and> array_holds s' vs" if "array_holds s (v # vs)"
    using array_pop_holds [OF that] that by (auto simp: ArrayStack_Pop_def ArrayStack_Empty_def array_holds_def)
  show "ArrayStack_Pop s = Inl AssertFailed" if "array_holds s []"
    using that by (auto simp: ArrayStack_Pop_def ArrayStack_Empty_def array_holds_def)
qed

subsection \<open>The list keeps the promise and never fills\<close>

text \<open>The list of the kernel library with the same pointers has the same representation.\<close>

definition as_clist :: "xlist \<Rightarrow> addr list \<Rightarrow> clist" where
  "as_clist l as = \<lparr>first_p = xfirst l, last_p = xlast l, numInList = int (length as)\<rparr>"

definition list_holds :: "'v list_stack \<Rightarrow> 'v list \<Rightarrow> bool" where
  "list_holds s vs \<longleftrightarrow> (\<exists>as. rep (fst s) (as_clist (snd s) as) as \<and> vs = items (fst s) as)"

lemma as_clist_sel [simp]: "first_p (as_clist l as) = xfirst l" "last_p (as_clist l as) = xlast l"
  by (simp_all add: as_clist_def)

lemma as_clist_rep: "rep m c as \<Longrightarrow> xfirst l = first_p c \<Longrightarrow> xlast l = last_p c \<Longrightarrow> rep m (as_clist l as) as"
  by (simp add: rep_def as_clist_def)

lemma list_empty_iff: "rep m (as_clist l as) as \<Longrightarrow> XList_Empty l \<longleftrightarrow> as = []"
  by (cases as) (auto simp: rep_def XList_Empty_def)

lemma list_prepend_holds:
  assumes "rep m (as_clist l as) as"
  shows "\<exists>m' l'. XList_Prepend m l v = Inr (m', l') \<and> list_holds (m', l') (v # items m as)"
proof -
  obtain m1 e where new: "ListElement_new m v = (m1, e)" by (cases "ListElement_new m v")
  note n = new_rep [OF assms new]
  have lk: "linked m1 e v as" using n by (simp add: linked_def)
  note f = link_front [OF n(1) lk]
  show ?thesis
  proof (cases "as = []")
    case True
    have "xfirst l = None" using list_empty_iff [OF assms] True by (simp add: XList_Empty_def)
    moreover from this have "m1\<lparr>cells := (cells m1)(e \<mapsto> \<lparr>item = v, next = xfirst l\<rparr>)\<rparr> = m1"
      using n(4) by (simp add: fun_upd_idem)
    ultimately show ?thesis using f True new n(2) list_empty_iff [OF assms]
      by (auto simp: XList_Prepend_def list_holds_def intro!: exI [of _ "[e]"] as_clist_rep)
  next
    case False
    show ?thesis using f False new n list_empty_iff [OF assms]
      by (auto simp: XList_Prepend_def list_holds_def set_next_live intro!: exI [of _ "e # as"] as_clist_rep)
  qed
qed

lemma list_remove_holds:
  assumes "rep m (as_clist l (a # as)) (a # as)"
  shows "\<exists>m' l'. XList_Remove m l = Inr (m', l', item (the (cells m a))) \<and> list_holds (m', l') (items m as)"
proof -
  have "\<not> XList_Empty l" using list_empty_iff [OF assms] by simp
  moreover obtain c where c: "xfirst l = Some a" "cells m a = Some c" "path m (next c) as None"
    using rep_path [OF assms] by auto
  moreover have "xlast l = Some (if as = [] then a else last as)" "a \<notin> set as" "distinct as" "\<forall>x \<ge> brk m. cells m x = None"
    using assms by (auto simp: rep_def)
  moreover have "last as \<noteq> a" if "as \<noteq> []" using that calculation(6) by (metis last_in_set)
  ultimately show ?thesis
    by (auto simp: XList_Remove_def deref_def list_holds_def rep_def as_clist_def delete_element_def items_upd
        intro!: exI [of _ as])
qed

interpretation lists: bounded_stack ListStack_Full ListStack_Empty ListStack_Push ListStack_Pop list_holds "\<lambda>_. None"
proof unfold_locales
  fix s :: "'v list_stack" and v and vs
  obtain m l where s: "s = (m, l)" by (cases s)
  show "ListStack_Empty s \<longleftrightarrow> vs = []" if "list_holds s vs"
    using that by (auto simp: ListStack_Empty_def list_holds_def dest: list_empty_iff)
  show "ListStack_Full s \<longleftrightarrow> None = Some (0::nat)" if "list_holds s vs"
    by (simp add: ListStack_Full_def)
  show "\<exists>s'. ListStack_Push s v = Inr s' \<and> list_holds s' (v # vs) \<and> None = map_option (\<lambda>n. n - 1) (None :: nat option)"
    if "list_holds s vs"
    using that list_prepend_holds by (fastforce simp: ListStack_Push_def list_holds_def s)
  show "\<exists>s'. ListStack_Pop s = Inr (s', v) \<and> list_holds s' vs" if h: "list_holds s (v # vs)"
  proof -
    obtain as where as: "rep m (as_clist l as) as" "v # vs = items m as" using h s by (auto simp: list_holds_def)
    then obtain a as' where "as = a # as'" by (cases as) auto
    with as show ?thesis using list_remove_holds [of m l a as'] list_empty_iff [OF as(1)]
      by (auto simp: ListStack_Pop_def ListStack_Empty_def s)
  qed
  show "ListStack_Pop s = Inl AssertFailed" if "list_holds s []"
    using that by (auto simp: ListStack_Pop_def ListStack_Empty_def list_holds_def dest: list_empty_iff)
qed simp_all

lemma list_new_holds: "\<forall>a \<ge> brk m. cells m a = None \<Longrightarrow> list_holds (ListStack_new m) []"
  by (auto simp: list_holds_def ListStack_new_def XList_new_def rep_def as_clist_def intro!: exI [of _ "[]"])

text \<open>The destructor of a list returns, whatever is on it.\<close>

lemma XList_delete_ok: "list_holds (m, l) vs \<Longrightarrow> \<exists>m'. XList_delete m l = Some (Inr m')"
proof (induction vs arbitrary: m l)
  case Nil
  then show ?case using lists.emp_iff [OF Nil] by (subst XList_delete.simps) (simp add: ListStack_Empty_def)
next
  case (Cons v vs)
  have ne: "\<not> XList_Empty l" using lists.emp_iff [OF Cons.prems] by (simp add: ListStack_Empty_def)
  obtain m1 l1 where "XList_Remove m l = Inr (m1, l1, v)" "list_holds (m1, l1) vs"
    using lists.pop_ok [OF Cons.prems] ne
    by (auto simp: ListStack_Pop_def ListStack_Empty_def bindR_def split: sum.splits)
  with Cons.IH ne show ?case by (subst XList_delete.simps) auto
qed

subsection \<open>The template is the array stack\<close>

lemma TStack_eq:
  "TStack_new = ArrayStack_new" "TStack_Full = ArrayStack_Full" "TStack_Empty = ArrayStack_Empty"
  "TStack_Push = ArrayStack_Push" "TStack_Pop = ArrayStack_Pop"
  by (auto simp: fun_eq_iff TStack_new_def ArrayStack_new_def TStack_Full_def ArrayStack_Full_def TStack_Empty_def
      ArrayStack_Empty_def TStack_Push_def ArrayStack_Push_def TStack_Pop_def ArrayStack_Pop_def)

interpretation templates: bounded_stack TStack_Full TStack_Empty TStack_Push TStack_Pop array_holds array_room
  unfolding TStack_eq by unfold_locales

lemma TStack_fill_ok:
  "array_holds s vs \<Longrightarrow> array_room s = Some n \<Longrightarrow>
   \<exists>s'. TStack_fill inc cnt s out = Some (Inr (s', out @ map Pushing (counted inc n cnt)))
     \<and> array_holds s' (rev (counted inc n cnt) @ vs)"
proof (induction n arbitrary: s cnt vs out)
  case 0
  then show ?case using templates.full_iff [OF 0(1)] by (subst TStack_fill.simps) simp
next
  case (Suc n)
  obtain s1 where s1: "TStack_Push s cnt = Inr s1" "array_holds s1 (cnt # vs)" "array_room s1 = Some n"
    using templates.push_ok [OF Suc.prems(1), of cnt] Suc.prems(2) by auto
  have "TStack_fill inc cnt s out = TStack_fill inc (inc cnt) s1 (out @ [Pushing cnt])"
    using templates.full_iff [OF Suc.prems(1)] Suc.prems(2) s1(1) by (subst TStack_fill.simps) simp
  then show ?case using Suc.IH [OF s1(2,3), of "inc cnt" "out @ [Pushing cnt]"] by simp
qed

lemma TStack_SelfTest_ok:
  assumes "array_holds s []" "array_room s = Some n"
  shows "\<exists>s'. TStack_SelfTest inc start s = Inr (s', test_output (counted inc n start)) \<and> array_holds s' []"
proof -
  obtain s1 where s1: "TStack_fill inc start s [] = Some (Inr (s1, map Pushing (counted inc n start)))"
      "array_holds s1 (rev (counted inc n start))"
    using TStack_fill_ok [OF assms, of inc start "[]"] by auto
  then show ?thesis using templates.pop_all [OF s1(2), of "map Pushing (counted inc n start)"]
    by (auto simp: TStack_SelfTest_def test_output_def)
qed

section \<open>The test programs\<close>

definition numbers_up :: "nat \<Rightarrow> int list" where
  "numbers_up n = map (\<lambda>i. 17 + int i) [0..<n]"

lemma counted_nth: "i < n \<Longrightarrow> counted inc n c ! i = (inc ^^ i) c"
proof (induction n arbitrary: i c)
  case (Suc n)
  then show ?case by (cases i) (simp_all add: funpow_swap1)
qed simp

lemma counted_length [simp]: "length (counted inc n c) = n"
  by (induction n arbitrary: c) simp_all

lemma plus1_pow: "((\<lambda>c. c + 1) ^^ i) c = c + (of_nat i :: 'b :: ring_1)"
  by (induction i) (simp_all add: algebra_simps)

lemma counted_plus1: "counted (\<lambda>c. c + 1) n c = map (\<lambda>i. c + (of_nat i :: 'b :: ring_1)) [0..<n]"
  by (rule nth_equalityI) (simp_all add: counted_nth plus1_pow)

lemma ArrayStack_test:
  assumes "1 \<le> sz" "int n \<le> sz"
  shows "\<exists>s. ArrayStack_new junk sz = Inr s \<and>
      (\<exists>s'. Stack_SelfTest ArrayStack_Full ArrayStack_Empty ArrayStack_Push ArrayStack_Pop n s
             = Inr (s', test_output (numbers_up n)) \<and> ArrayStack_Empty s')
      \<and> Stack_SelfTest ArrayStack_Full ArrayStack_Empty ArrayStack_Push ArrayStack_Pop (Suc (nat sz)) s = Inl AssertFailed"
proof -
  obtain s where s: "ArrayStack_new junk sz = Inr s" "array_holds s []" "array_room s = Some (nat sz)"
    using array_new_holds [OF assms(1)] by blast
  have "\<forall>k. array_room s = Some k \<longrightarrow> n \<le> k" using s(3) assms by auto
  from arrays.push_pop_all [OF s(2) this, of "\<lambda>c. c + 1" 17]
    arrays.push_too_many [OF s(2,3), of "Suc (nat sz)" "\<lambda>c. c + 1" 17] show ?thesis
    using s(1) arrays.emp_iff by (auto simp: Stack_SelfTest_def counted_plus1 numbers_up_def)
qed

lemma ListStack_test:
  assumes "\<forall>a \<ge> brk m. cells m a = None"
  shows "\<exists>s'. Stack_SelfTest ListStack_Full ListStack_Empty ListStack_Push ListStack_Pop n (ListStack_new m)
             = Inr (s', test_output (numbers_up n)) \<and> list_holds s' []"
  using lists.push_pop_all [OF list_new_holds [OF assms], of n "\<lambda>c. c + 1" 17]
  by (auto simp: Stack_SelfTest_def counted_plus1 numbers_up_def)

text \<open>
  The self test of the abstract class does the same on both implementations: on an array
  stack that has the room and on a list stack it pushes the \<open>n\<close> numbers from 17 on, pops them
  all, the last first, and leaves the stack empty; no assertion fails and both loops end. On an
  array stack a test that is asked to push one value more than its size stops at the assertion. The
  program of the example, destructors included, prints these sequences for ten values.
\<close>

theorem stack_self_tests:
  assumes "1 \<le> sz" "int n \<le> sz" "\<forall>a \<ge> brk m. cells m a = None"
  shows "(\<exists>s. ArrayStack_new junk sz = Inr s \<and>
      (\<exists>s'. Stack_SelfTest ArrayStack_Full ArrayStack_Empty ArrayStack_Push ArrayStack_Pop n s
             = Inr (s', test_output (numbers_up n)) \<and> ArrayStack_Empty s')
      \<and> Stack_SelfTest ArrayStack_Full ArrayStack_Empty ArrayStack_Push ArrayStack_Pop (Suc (nat sz)) s = Inl AssertFailed)
    \<and> (\<exists>s'. Stack_SelfTest ListStack_Full ListStack_Empty ListStack_Push ListStack_Pop n (ListStack_new m)
             = Inr (s', test_output (numbers_up n)) \<and> ListStack_Empty s')
    \<and> inheritstack_main junk m = Inr (test_output (numbers_up 10), test_output (numbers_up 10))"
proof (intro conjI)
  show "\<exists>s'. Stack_SelfTest ListStack_Full ListStack_Empty ListStack_Push ListStack_Pop n (ListStack_new m)
             = Inr (s', test_output (numbers_up n)) \<and> ListStack_Empty s'"
    using ListStack_test [OF assms(3), of n] lists.emp_iff by blast
  obtain m' l' where "Stack_SelfTest ListStack_Full ListStack_Empty ListStack_Push ListStack_Pop 10 (ListStack_new m)
             = Inr ((m', l'), test_output (numbers_up 10))" "list_holds (m', l') []"
    using ListStack_test [OF assms(3), of 10] by auto
  then show "inheritstack_main junk m = Inr (test_output (numbers_up 10), test_output (numbers_up 10))"
    using ArrayStack_test [of 10 10 junk] XList_delete_ok by (fastforce simp: inheritstack_main_def)
qed (rule ArrayStack_test [OF assms(1,2)])

text \<open>The test on three values with room for four, and the program.\<close>

theorem stack_self_tests_witness:
  "(\<exists>s. ArrayStack_new (\<lambda>_. 0) 4 = Inr s \<and>
      (\<exists>s'. Stack_SelfTest ArrayStack_Full ArrayStack_Empty ArrayStack_Push ArrayStack_Pop 3 s
             = Inr (s', [Pushing 17, Pushing 18, Pushing 19, Popping 19, Popping 18, Popping 17]) \<and> ArrayStack_Empty s')
      \<and> Stack_SelfTest ArrayStack_Full ArrayStack_Empty ArrayStack_Push ArrayStack_Pop 5 s = Inl AssertFailed)"
proof -
  have "test_output (numbers_up 3) = [Pushing 17, Pushing 18, Pushing 19, Popping 19, Popping 18, Popping 17]"
    by (simp add: test_output_def numbers_up_def upt_rec)
  then show ?thesis
    using stack_self_tests [of 4 3 "\<lparr>cells = \<lambda>_. None, brk = 0\<rparr> :: int store" "\<lambda>_. 0"] by simp
qed

text \<open>
  The template: its test fills a stack of any size with the values that follow the start
  value in the type's own arithmetic, at \<open>char\<close> modulo 256, empties it in the opposite order and returns; the
  program prints ten numbers from 17 on and the letters from \<open>'a'\<close> to \<open>'j'\<close>.
\<close>

lemma template_self_test:
  assumes "1 \<le> sz"
  shows "\<exists>s s'. TStack_new junk sz = Inr s \<and> TStack_SelfTest (\<lambda>c. c + 1) start s
      = Inr (s', test_output (map (\<lambda>i. start + (of_nat i :: 'b :: ring_1)) [0..<nat sz])) \<and> TStack_Empty s'"
proof -
  obtain s where s: "TStack_new junk sz = Inr s" "array_holds s []" "array_room s = Some (nat sz)"
    using array_new_holds [OF assms, of junk] by (auto simp: TStack_eq)
  then show ?thesis
    using TStack_SelfTest_ok [OF s(2,3), of "\<lambda>c. c + 1" start] templates.emp_iff by (auto simp: counted_plus1)
qed

lemma templatestack_main_output:
  "templatestack_main junk1 junk2 = Inr (test_output (numbers_up 10), test_output (map of_char ''abcdefghij''))"
proof -
  have letters: "map (\<lambda>i. of_char CHR ''a'' + (of_nat i :: 8 word)) [0..<10] = map of_char ''abcdefghij''"
    by (simp add: upt_rec)
  obtain s1 s1' where s1: "TStack_new junk1 10 = Inr s1"
      "TStack_SelfTest (\<lambda>c. c + 1) 17 s1 = Inr (s1', test_output (numbers_up 10))"
    using template_self_test [of 10 junk1 17] by (auto simp: numbers_up_def)
  obtain s2 s2' where s2: "TStack_new junk2 10 = Inr s2"
      "TStack_SelfTest (\<lambda>c. c + 1) (of_char CHR ''a'') s2 = Inr (s2', test_output (map of_char ''abcdefghij''))"
    using template_self_test [of 10 junk2 "of_char CHR ''a''"] letters by auto
  show ?thesis using s1 s2 by (simp add: templatestack_main_def)
qed

end
